(* ===== verification/Prelude.thy ===== *)
theory Prelude
  imports Main "HOL-Library.Word"
begin

text \<open>
  Shared vocabulary of the development: bytes and C strings, the ways a C function of the
  code base can fail, the \<open>errno\<close> classes the code distinguishes, and generic lemmas.

  Conventions used by every component theory:
  \<^item> a \<open>char *\<close> that the code treats as a NUL-terminated string is a \<open>string\<close>;
    a raw memory block is a list of bytes, read as a C string through \<open>cstr\<close>;
  \<^item> an \<open>assert\<close> that fails, a NULL dereference and the like are the \<open>Inl\<close> side of
    a \<open>'a res\<close>;
  \<^item> whether an allocation succeeds and what a system call returns is decided by the
    environment, so it is an argument of the definition that performs the call.
\<close>

section \<open>Bytes and C strings\<close>

type_synonym bytes = "char list"

abbreviation NUL :: char where "NUL \<equiv> CHR 0x00"
abbreviation CR :: char where "CR \<equiv> CHR 0x0D"
abbreviation LF :: char where "LF \<equiv> CHR 0x0A"

text \<open>The C string a block holds: everything before the first NUL byte.\<close>

definition cstr :: "bytes \<Rightarrow> string" where
  "cstr b = takeWhile (\<lambda>c. c \<noteq> NUL) b"

text \<open>A byte as the number \<open>0..255\<close> that an \<open>unsigned char\<close> holds.\<close>

definition byte_of :: "char \<Rightarrow> nat" where
  "byte_of c = of_char c"

text \<open>\<open>strcmp\<close> of the C library; the code only looks at the sign of the result.\<close>

fun strcmp :: "string \<Rightarrow> string \<Rightarrow> int" where
  "strcmp [] [] = 0"
| "strcmp [] (y # ys) = -1"
| "strcmp (x # xs) [] = 1"
| "strcmp (x # xs) (y # ys) =
     (if x = y then strcmp xs ys
      else if byte_of x < byte_of y then -1 else 1)"

text \<open>\<open>strchr\<close>: the part before the first occurrence and the part after it.\<close>

fun split_at :: "char \<Rightarrow> string \<Rightarrow> (string \<times> string) option" where
  "split_at c [] = None"
| "split_at c (x # xs) =
     (if x = c then Some ([], xs)
      else map_option (\<lambda>(a, b). (x # a, b)) (split_at c xs))"

text \<open>Decimal digits, as \<open>%d\<close> and \<open>%lld\<close> print them.\<close>

fun digits :: "nat \<Rightarrow> string" where
  "digits n = (if n < 10 then [char_of (48 + n)] else digits (n div 10) @ [char_of (48 + n mod 10)])"

declare digits.simps [simp del]

definition print_int :: "int \<Rightarrow> string" where
  "print_int i = (if i < 0 then CHR ''-'' # digits (nat (- i)) else digits (nat i))"

section \<open>Failures and environment choices\<close>

datatype fault =
    Assert_failed     \<comment> \<open>an \<open>assert\<close> of the source is false\<close>
  | Null_deref        \<comment> \<open>a NULL pointer is dereferenced\<close>
  | Out_of_bounds     \<comment> \<open>an access outside the allocated block\<close>
  | Use_after_free    \<comment> \<open>freed memory is read or freed again\<close>
  | Dangling_link     \<comment> \<open>a node is freed while a container still links it\<close>
  | Exit_failure      \<comment> \<open>\<open>exit(EXIT_FAILURE)\<close> or a \<open>fatal\<close> check\<close>

type_synonym 'a res = "fault + 'a"

definition bind_res :: "'a res \<Rightarrow> ('a \<Rightarrow> 'b res) \<Rightarrow> 'b res" where
  "bind_res m f = (case m of Inl e \<Rightarrow> Inl e | Inr x \<Rightarrow> f x)"

text \<open>The \<open>errno\<close> values the code tells apart; \<open>EWOULDBLOCK\<close> is \<open>EAGAIN\<close> on Linux.\<close>

datatype errno = EINTR | EAGAIN | ENOENT | EEXIST | EOTHER

text \<open>Which allocations of a call succeed: \<open>al i\<close> is the outcome of the \<open>i\<close>-th one.\<close>

type_synonym alloc = "nat \<Rightarrow> bool"

definition all_ok :: alloc where
  "all_ok = (\<lambda>_. True)"

text \<open>\<open>CHECK_EINTR\<close> and \<open>CHECK_EINTREAGAIN\<close>: the branch chosen for an \<open>errno\<close>.\<close>

definition check_eintr :: "errno \<Rightarrow> 'a \<Rightarrow> 'a \<Rightarrow> 'a" where
  "check_eintr e eintr_op other_op = (if e = EINTR then eintr_op else other_op)"

definition check_eintreagain :: "errno \<Rightarrow> 'a \<Rightarrow> 'a \<Rightarrow> 'a \<Rightarrow> 'a" where
  "check_eintreagain e eintr_op eagain_op other_op =
     (if e = EINTR then eintr_op else if e = EAGAIN then eagain_op else other_op)"

section \<open>Generic lemmas\<close>

named_theorems c_defs \<open>unfoldings of the C-level helper operations\<close>

declare check_eintr_def [c_defs] check_eintreagain_def [c_defs]

lemma bind_res_Inl [simp]: "bind_res (Inl e) f = Inl e"
  by (simp add: bind_res_def)

lemma bind_res_Inr [simp]: "bind_res (Inr x) f = f x"
  by (simp add: bind_res_def)

lemma bind_res_eq_Inr:
  "bind_res m f = Inr y \<longleftrightarrow> (\<exists>x. m = Inr x \<and> f x = Inr y)"
  by (cases m) auto

lemma map_sum_eq_Inr: "map_sum id f m = Inr y \<longleftrightarrow> (\<exists>x. m = Inr x \<and> y = f x)"
  by (cases m) auto

lemma map_res_eq_Some:
  "map_option (map_sum id f) m = Some (Inr y) \<longleftrightarrow> (\<exists>x. m = Some (Inr x) \<and> y = f x)"
  by (cases m) (auto simp: map_sum_eq_Inr)

lemma all_ok_apply [simp]: "all_ok i"
  by (simp add: all_ok_def)

lemma cstr_Nil [simp]: "cstr [] = []"
  by (simp add: cstr_def)

lemma cstr_Cons [simp]: "cstr (c # s) = (if c = NUL then [] else c # cstr s)"
  by (simp add: cstr_def)

lemma cstr_id: "NUL \<notin> set s \<Longrightarrow> cstr s = s"
  by (induction s) auto

lemma cstr_append_NUL: "NUL \<notin> set s \<Longrightarrow> cstr (s @ NUL # t) = s"
  by (induction s) auto

lemma cstr_no_NUL [simp]: "NUL \<notin> set (cstr s)"
  by (induction s) auto

lemma cstr_idem [simp]: "cstr (cstr s) = cstr s"
  by (rule cstr_id) simp

lemma length_cstr_le: "length (cstr s) \<le> length s"
  by (simp add: cstr_def length_takeWhile_le)

lemma strcmp_refl [simp]: "strcmp s s = 0"
  by (induction s) auto

lemma strcmp_eq_0 [simp]: "strcmp s t = 0 \<longleftrightarrow> s = t"
  by (induction s t rule: strcmp.induct) auto

lemma byte_of_inject [simp]: "byte_of x = byte_of y \<longleftrightarrow> x = y"
  by (simp add: byte_of_def)

lemma strcmp_sym: "strcmp t s = - strcmp s t"
proof (induction s t rule: strcmp.induct)
  case (4 x xs y ys)
  then show ?case
    by (cases "x = y"; cases "byte_of x < byte_of y")
      (simp_all add: linorder_not_less le_less byte_of_inject [symmetric] del: byte_of_inject)
qed simp_all

lemma strcmp_Nil_left: "strcmp [] u < 0 \<longleftrightarrow> u \<noteq> []"
  by (cases u) simp_all

lemma strcmp_Nil_right: "\<not> strcmp s [] < 0"
  by (cases s) simp_all

lemma strcmp_Cons_neg:
  "strcmp (x # xs) u < 0 \<longleftrightarrow>
     (\<exists>y ys. u = y # ys \<and> (byte_of x < byte_of y \<or> x = y \<and> strcmp xs ys < 0))"
  by (cases u) auto

lemma strcmp_trans: "strcmp s t < 0 \<Longrightarrow> strcmp t u < 0 \<Longrightarrow> strcmp s u < 0"
proof (induction s arbitrary: t u)
  case Nil
  then show ?case
    by (cases u) (simp_all add: strcmp_Nil_right)
next
  case (Cons x xs)
  from Cons.prems(1) obtain y ys where t: "t = y # ys"
    and 1: "byte_of x < byte_of y \<or> x = y \<and> strcmp xs ys < 0"
    by (auto simp: strcmp_Cons_neg)
  from Cons.prems(2) t obtain z zs where u: "u = z # zs"
    and 2: "byte_of y < byte_of z \<or> y = z \<and> strcmp ys zs < 0"
    by (auto simp: strcmp_Cons_neg)
  show ?case
  proof (cases "byte_of x < byte_of z")
    case True
    then show ?thesis by (auto simp: u)
  next
    case False
    with 1 2 have "x = y" and "y = z" and "strcmp xs ys < 0" and "strcmp ys zs < 0"
      by (auto dest: less_trans)
    with Cons.IH [of ys zs] show ?thesis by (simp add: u)
  qed
qed

lemma split_at_None: "split_at c s = None \<longleftrightarrow> c \<notin> set s"
  by (induction s) auto

lemma split_at_Some: "split_at c s = Some (a, b) \<longleftrightarrow> s = a @ c # b \<and> c \<notin> set a"
proof (induction s arbitrary: a)
  case (Cons x s)
  show ?case by (cases a) (auto simp: Cons.IH)
qed simp

lemma split_at_append: "c \<notin> set a \<Longrightarrow> split_at c (a @ c # b) = Some (a, b)"
  by (simp add: split_at_Some)

lemma take_drop_append [simp]: "take n xs @ drop n xs @ ys = xs @ ys"
  by (simp flip: append_assoc)

lemma distinct_map_split:
  "distinct (map f (xs @ x # ys)) \<Longrightarrow> m \<in> set xs \<union> set ys \<Longrightarrow> f m \<noteq> f x"
  by (auto simp: image_iff)

end
