(* ===== verification/RBTree.thy ===== *)
theory RBTree
  imports Prelude
begin

text \<open>
  The red-black tree that \<open>struct_bsd/inc/tree.h\<close> generates (\<open>RB_GENERATE\<close>).

  The C code walks the tree with a node pointer and follows \<open>RB_PARENT\<close> upwards. Here such a
  pointer is a zipper: the subtree below the node and the path of frames above it, innermost
  parent first. \<open>RB_PARENT\<close> is the head of the path, \<open>RB_ROOT\<close> the tree \<open>plug\<close> rebuilds, and a
  NULL child is \<open>Leaf\<close>. A dereference of a NULL parent, sibling or child is \<open>None\<close>.

  Lemmas: insertion and removal keep the red-black invariant and never dereference NULL on a
  valid tree; the inorder sequence changes by exactly the inserted or removed element; the
  height is logarithmic.
\<close>

section \<open>Nodes and node pointers\<close>

datatype color = RB_BLACK | RB_RED

datatype 'a rbt = Leaf | Node color "'a rbt" 'a "'a rbt"

datatype 'a frame =
    In_left color 'a "'a rbt"    \<comment> \<open>the pointer is in the left child of this parent\<close>
  | In_right color "'a rbt" 'a   \<comment> \<open>the pointer is in the right child of this parent\<close>

type_synonym 'a path = "'a frame list"

fun rb_color :: "'a rbt \<Rightarrow> color" where
  "rb_color Leaf = RB_BLACK"
| "rb_color (Node c l x r) = c"

fun rb_paint :: "color \<Rightarrow> 'a rbt \<Rightarrow> 'a rbt" where
  "rb_paint c Leaf = Leaf"
| "rb_paint c (Node c' l x r) = Node c l x r"

fun frame_color :: "'a frame \<Rightarrow> color" where
  "frame_color (In_left c x r) = c"
| "frame_color (In_right c l x) = c"

fun fill :: "'a frame \<Rightarrow> 'a rbt \<Rightarrow> 'a rbt" where
  "fill (In_left c x r) t = Node c t x r"
| "fill (In_right c l x) t = Node c l x t"

fun plug :: "'a path \<Rightarrow> 'a rbt \<Rightarrow> 'a rbt" where
  "plug [] t = t"
| "plug (f # p) t = plug p (fill f t)"

section \<open>Rotations\<close>

text \<open>
  \<open>RB_ROTATE_LEFT(head, elm, tmp)\<close> and its mirror image, on the subtree at \<open>elm\<close>: the child
  takes the place of \<open>elm\<close>; colours stay with their nodes.
\<close>

fun rb_rotate_left :: "'a rbt \<Rightarrow> 'a rbt option" where
  "rb_rotate_left (Node c a x (Node c' b y d)) = Some (Node c' (Node c a x b) y d)"
| "rb_rotate_left _ = None"

fun rb_rotate_right :: "'a rbt \<Rightarrow> 'a rbt option" where
  "rb_rotate_right (Node c (Node c' a x b) y d) = Some (Node c' a x (Node c b y d))"
| "rb_rotate_right _ = None"

section \<open>Insertion\<close>

text \<open>
  One iteration of the loop of \<open>RB_INSERT_COLOR\<close>, for a red parent \<open>f\<close> with parent \<open>g\<close> and
  the node \<open>t\<close>. \<open>Inl\<close> is \<open>continue\<close> with the grandparent as the new node, \<open>Inr\<close> the subtree at
  the grandparent's place after the rotations (the new parent of \<open>elm\<close> is then black, so the
  loop ends).
\<close>

fun rb_insert_iter :: "'a frame \<Rightarrow> 'a frame \<Rightarrow> 'a rbt \<Rightarrow> ('a rbt + 'a rbt) option" where
  "rb_insert_iter f (In_left gc gx u) t =
     (if rb_color u = RB_RED
      then Some (Inl (Node RB_RED (rb_paint RB_BLACK (fill f t)) gx (rb_paint RB_BLACK u)))
      else
        case (case f of In_right pc pl px \<Rightarrow> rb_rotate_left (fill f t)
                      | In_left pc px pr \<Rightarrow> Some (fill f t)) of
          None \<Rightarrow> None
        | Some parent \<Rightarrow>
            map_option Inr (rb_rotate_right (Node RB_RED (rb_paint RB_BLACK parent) gx u)))"
| "rb_insert_iter f (In_right gc u gx) t =
     (if rb_color u = RB_RED
      then Some (Inl (Node RB_RED (rb_paint RB_BLACK u) gx (rb_paint RB_BLACK (fill f t))))
      else
        case (case f of In_left pc px pr \<Rightarrow> rb_rotate_right (fill f t)
                      | In_right pc pl px \<Rightarrow> Some (fill f t)) of
          None \<Rightarrow> None
        | Some parent \<Rightarrow>
            map_option Inr (rb_rotate_left (Node RB_RED u gx (rb_paint RB_BLACK parent))))"

text \<open>\<open>RB_INSERT_COLOR\<close>: the whole loop and the final blackening of the root.\<close>

fun rb_insert_color :: "'a path \<Rightarrow> 'a rbt \<Rightarrow> 'a rbt option" where
  "rb_insert_color [] t = Some (rb_paint RB_BLACK t)"
| "rb_insert_color [f] t =
     (if frame_color f = RB_RED then None else Some (rb_paint RB_BLACK (fill f t)))"
| "rb_insert_color (f # g # p) t =
     (if frame_color f = RB_RED then
        case rb_insert_iter f g t of
          None \<Rightarrow> None
        | Some (Inl t') \<Rightarrow> rb_insert_color p t'
        | Some (Inr t') \<Rightarrow> Some (rb_paint RB_BLACK (plug p t'))
      else Some (rb_paint RB_BLACK (plug (f # g # p) t)))"

text \<open>
  The search loop shared by \<open>RB_INSERT\<close> and \<open>RB_FIND\<close>: it stops at an equal node or falls off
  at a NULL child, and leaves the pointer there.
\<close>

fun rb_descend :: "('a \<Rightarrow> 'a \<Rightarrow> int) \<Rightarrow> 'a \<Rightarrow> 'a path \<Rightarrow> 'a rbt \<Rightarrow> 'a path \<times> 'a rbt" where
  "rb_descend cmp e p Leaf = (p, Leaf)"
| "rb_descend cmp e p (Node c l x r) =
     (if cmp e x < 0 then rb_descend cmp e (In_left c x r # p) l
      else if cmp e x > 0 then rb_descend cmp e (In_right c l x # p) r
      else (p, Node c l x r))"

text \<open>\<open>RB_INSERT\<close>: \<open>Inl\<close> is the collision it returns (as a pointer), \<open>Inr\<close> the new tree.\<close>

definition rb_insert ::
  "('a \<Rightarrow> 'a \<Rightarrow> int) \<Rightarrow> 'a \<Rightarrow> 'a rbt \<Rightarrow> (('a path \<times> 'a rbt) + 'a rbt) option" where
  "rb_insert cmp e t =
     (case rb_descend cmp e [] t of
        (p, Leaf) \<Rightarrow> map_option Inr (rb_insert_color p (Node RB_RED Leaf e Leaf))
      | (p, Node c l x r) \<Rightarrow> Some (Inl (p, Node c l x r)))"

text \<open>\<open>RB_FIND\<close>: the pointer to the node with the same key, if any.\<close>

definition rb_find ::
  "('a \<Rightarrow> 'a \<Rightarrow> int) \<Rightarrow> 'a \<Rightarrow> 'a rbt \<Rightarrow> ('a path \<times> 'a rbt) option" where
  "rb_find cmp e t =
     (case rb_descend cmp e [] t of
        (p, Leaf) \<Rightarrow> None
      | (p, Node c l x r) \<Rightarrow> Some (p, Node c l x r))"

section \<open>Removal\<close>

text \<open>
  One iteration of the loop of \<open>RB_REMOVE_COLOR(head, parent, elm)\<close>, first for the case that
  \<open>elm\<close> is the left child. The sibling \<open>tmp\<close> may first be rotated up when it is red; then
  either the shortage moves to the parent (\<open>RCont\<close>) or at most two rotations remove it and the
  code breaks out of the loop with \<open>elm\<close> the root (\<open>RBreak\<close>, the tree at that moment).
\<close>

datatype 'a rstep = RCont "'a path" "'a rbt" | RBreak "'a rbt"

text \<open>The part of the iteration after the sibling is known to be black.\<close>

fun rb_fix_left :: "color \<Rightarrow> 'a \<Rightarrow> 'a rbt \<Rightarrow> 'a path \<Rightarrow> 'a rbt \<Rightarrow> 'a rstep option" where
  "rb_fix_left pc px Leaf p e = None"
| "rb_fix_left pc px (Node tc ta tx tb) p e =
     (if rb_color ta = RB_BLACK \<and> rb_color tb = RB_BLACK
      then Some (RCont p (Node pc e px (Node RB_RED ta tx tb)))
      else
        case (if rb_color tb = RB_BLACK
              then rb_rotate_right (Node RB_RED (rb_paint RB_BLACK ta) tx tb)
              else Some (Node tc ta tx tb)) of
          Some (Node _ ta' tx' tb') \<Rightarrow>
            map_option (\<lambda>t. RBreak (plug p t))
              (rb_rotate_left
                (Node RB_BLACK e px (Node pc ta' tx' (rb_paint RB_BLACK tb'))))
        | _ \<Rightarrow> None)"

fun rb_fix_right :: "color \<Rightarrow> 'a \<Rightarrow> 'a rbt \<Rightarrow> 'a path \<Rightarrow> 'a rbt \<Rightarrow> 'a rstep option" where
  "rb_fix_right pc px Leaf p e = None"
| "rb_fix_right pc px (Node tc ta tx tb) p e =
     (if rb_color ta = RB_BLACK \<and> rb_color tb = RB_BLACK
      then Some (RCont p (Node pc (Node RB_RED ta tx tb) px e))
      else
        case (if rb_color ta = RB_BLACK
              then rb_rotate_left (Node RB_RED ta tx (rb_paint RB_BLACK tb))
              else Some (Node tc ta tx tb)) of
          Some (Node _ ta' tx' tb') \<Rightarrow>
            map_option (\<lambda>t. RBreak (plug p t))
              (rb_rotate_right
                (Node RB_BLACK (Node pc (rb_paint RB_BLACK ta') tx' tb') px e))
        | _ \<Rightarrow> None)"

text \<open>
  The test \<open>RB_LEFT(parent) == elm\<close> also holds when both children are NULL, so with a NULL
  \<open>elm\<close> and a NULL sibling the code always takes the left branch (and then dereferences NULL).
\<close>

fun rb_remove_iter :: "'a frame \<Rightarrow> 'a path \<Rightarrow> 'a rbt \<Rightarrow> 'a rstep option" where
  "rb_remove_iter (In_left pc px Leaf) p e = None"
| "rb_remove_iter (In_left pc px (Node tc ta tx tb)) p e =
     (if tc = RB_RED
      then rb_fix_left RB_RED px ta (In_left RB_BLACK tx tb # p) e
      else rb_fix_left pc px (Node tc ta tx tb) p e)"
| "rb_remove_iter (In_right pc Leaf px) p e = None"
| "rb_remove_iter (In_right pc (Node tc ta tx tb) px) p e =
     (if tc = RB_RED
      then rb_fix_right RB_RED px tb (In_right RB_BLACK ta tx # p) e
      else rb_fix_right pc px (Node tc ta tx tb) p e)"

lemma rb_fix_left_RCont:
  "rb_fix_left pc px t p e = Some (RCont p' e') \<Longrightarrow> p' = p \<and> rb_color e' = pc"
  by (cases t) (auto split: if_splits option.splits rbt.splits)

lemma rb_fix_right_RCont:
  "rb_fix_right pc px t p e = Some (RCont p' e') \<Longrightarrow> p' = p \<and> rb_color e' = pc"
  by (cases t) (auto split: if_splits option.splits rbt.splits)

lemma rb_remove_iter_RCont:
  assumes "rb_remove_iter f p e = Some (RCont p' e')"
  shows "p' = p \<or> length p' = Suc (length p) \<and> rb_color e' = RB_RED"
  using assms
  by (cases "(f, p, e)" rule: rb_remove_iter.cases)
    (auto split: if_splits dest: rb_fix_left_RCont rb_fix_right_RCont
      simp del: rb_fix_left.simps rb_fix_right.simps)

text \<open>
  \<open>RB_REMOVE_COLOR\<close>: it repeats the iteration while \<open>elm\<close> is black (or NULL) and not the root,
  and then blackens \<open>elm\<close>. It terminates: an iteration moves the pointer up, or it stays at its
  depth and becomes red.
\<close>

function rb_remove_color :: "'a path \<Rightarrow> 'a rbt \<Rightarrow> 'a rbt option" where
  "rb_remove_color [] e = Some (rb_paint RB_BLACK e)"
| "rb_remove_color (f # p) e =
     (if rb_color e = RB_RED then Some (plug (f # p) (rb_paint RB_BLACK e))
      else
        case rb_remove_iter f p e of
          None \<Rightarrow> None
        | Some (RCont p' e') \<Rightarrow> rb_remove_color p' e'
        | Some (RBreak t) \<Rightarrow> Some (rb_paint RB_BLACK t))"
  by pat_completeness auto
termination
  by (relation "measure (\<lambda>(p, e). 2 * length p + (if rb_color e = RB_RED then 0 else 1))")
    (auto dest!: rb_remove_iter_RCont)

text \<open>The successor search of \<open>RB_REMOVE\<close>: the leftmost node below a pointer.\<close>

fun rb_leftmost :: "'a path \<Rightarrow> 'a rbt \<Rightarrow> 'a path \<times> 'a rbt" where
  "rb_leftmost p (Node c (Node c' l' x' r') x r) =
     rb_leftmost (In_left c x r # p) (Node c' l' x' r')"
| "rb_leftmost p t = (p, t)"

text \<open>
  \<open>RB_REMOVE(head, elm)\<close> for the pointer \<open>(p, elm)\<close>. With two children the leftmost node of the
  right subtree is unlinked and takes over the links and the colour of \<open>elm\<close>.
\<close>

fun rb_remove :: "'a path \<Rightarrow> 'a rbt \<Rightarrow> 'a rbt option" where
  "rb_remove p Leaf = None"
| "rb_remove p (Node c Leaf x r) =
     (if c = RB_BLACK then rb_remove_color p r else Some (plug p r))"
| "rb_remove p (Node c l x Leaf) =
     (if c = RB_BLACK then rb_remove_color p l else Some (plug p l))"
| "rb_remove p (Node c l x r) =
     (case rb_leftmost [] r of
        (q, Node sc _ s child) \<Rightarrow>
          (let q' = q @ In_right c l s # p
           in if sc = RB_BLACK then rb_remove_color q' child else Some (plug q' child))
      | (q, Leaf) \<Rightarrow> None)"

section \<open>Traversal\<close>

text \<open>\<open>RB_MINMAX(head, -1)\<close>, that is \<open>RB_MIN\<close>; NULL for the empty tree.\<close>

fun rb_min :: "'a path \<Rightarrow> 'a rbt \<Rightarrow> ('a path \<times> 'a rbt) option" where
  "rb_min p Leaf = None"
| "rb_min p (Node c Leaf x r) = Some (p, Node c Leaf x r)"
| "rb_min p (Node c l x r) = rb_min (In_left c x r # p) l"

text \<open>The upward walk of \<open>RB_NEXT\<close>: leave right children, stop above a left child.\<close>

fun rb_climb :: "'a path \<Rightarrow> 'a rbt \<Rightarrow> ('a path \<times> 'a rbt) option" where
  "rb_climb [] t = None"
| "rb_climb (In_left c x r # p) t = Some (p, Node c t x r)"
| "rb_climb (In_right c l x # p) t = rb_climb p (Node c l x t)"

fun rb_next :: "'a path \<Rightarrow> 'a rbt \<Rightarrow> ('a path \<times> 'a rbt) option" where
  "rb_next p Leaf = None"
| "rb_next p (Node c l x Leaf) = rb_climb p (Node c l x Leaf)"
| "rb_next p (Node c l x (Node c' l' x' r')) =
     rb_min (In_right c l x # p) (Node c' l' x' r')"

section \<open>Contents: the inorder sequence\<close>

fun inorder :: "'a rbt \<Rightarrow> 'a list" where
  "inorder Leaf = []"
| "inorder (Node c l x r) = inorder l @ x # inorder r"

text \<open>What precedes and what follows a pointer's subtree.\<close>

fun before :: "'a path \<Rightarrow> 'a list" where
  "before [] = []"
| "before (In_left c x r # p) = before p"
| "before (In_right c l x # p) = before p @ inorder l @ [x]"

fun after :: "'a path \<Rightarrow> 'a list" where
  "after [] = []"
| "after (In_left c x r # p) = x # inorder r @ after p"
| "after (In_right c l x # p) = after p"

lemma inorder_paint [simp]: "inorder (rb_paint c t) = inorder t"
  by (cases t) auto

lemma inorder_plug [simp]: "inorder (plug p t) = before p @ inorder t @ after p"
proof (induction p arbitrary: t)
  case (Cons f p)
  then show ?case by (cases f) auto
qed simp

lemma before_append [simp]: "before (q @ p) = before p @ before q"
  by (induction q rule: before.induct) auto

lemma after_append [simp]: "after (q @ p) = after q @ after p"
  by (induction q rule: after.induct) auto

lemma rb_color_paint [simp]: "rb_color (rb_paint RB_BLACK t) = RB_BLACK"
  by (cases t) auto

lemma not_RB_RED [simp]: "c \<noteq> RB_RED \<longleftrightarrow> c = RB_BLACK"
  by (cases c) auto

lemma not_RB_BLACK [simp]: "c \<noteq> RB_BLACK \<longleftrightarrow> c = RB_RED"
  by (cases c) auto

lemma rb_color_RED_cases:
  assumes "rb_color t = RB_RED"
  obtains l x r where "t = Node RB_RED l x r"
  using assms by (cases t) auto

section \<open>The red-black invariant\<close>

fun bheight :: "'a rbt \<Rightarrow> nat" where
  "bheight Leaf = 0"
| "bheight (Node c l x r) = bheight l + (if c = RB_BLACK then 1 else 0)"

text \<open>No red node has a red child; all paths hold the same number of black nodes.\<close>

fun invc :: "'a rbt \<Rightarrow> bool" where
  "invc Leaf = True"
| "invc (Node c l x r) =
     ((c = RB_RED \<longrightarrow> rb_color l = RB_BLACK \<and> rb_color r = RB_BLACK) \<and> invc l \<and> invc r)"

fun invh :: "'a rbt \<Rightarrow> bool" where
  "invh Leaf = True"
| "invh (Node c l x r) = (bheight l = bheight r \<and> invh l \<and> invh r)"

definition rb_valid :: "'a rbt \<Rightarrow> bool" where
  "rb_valid t \<longleftrightarrow> invc t \<and> invh t \<and> rb_color t = RB_BLACK"

text \<open>
  The same for a path: \<open>path_inv p n k\<close> says that the tree is valid once a valid subtree of
  black height \<open>n\<close> is plugged in, which must be black when \<open>k\<close> is \<open>RB_BLACK\<close>.
\<close>

fun path_color :: "'a path \<Rightarrow> color" where
  "path_color [] = RB_RED"
| "path_color (f # p) = frame_color f"

fun path_inv :: "'a path \<Rightarrow> nat \<Rightarrow> bool" where
  "path_inv [] n = True"
| "path_inv (In_left c x r # p) n =
     (invc r \<and> invh r \<and> bheight r = n \<and>
      (c = RB_RED \<longrightarrow> rb_color r = RB_BLACK \<and> p \<noteq> [] \<and> path_color p = RB_BLACK) \<and>
      path_inv p (n + (if c = RB_BLACK then 1 else 0)))"
| "path_inv (In_right c l x # p) n =
     (invc l \<and> invh l \<and> bheight l = n \<and>
      (c = RB_RED \<longrightarrow> rb_color l = RB_BLACK \<and> p \<noteq> [] \<and> path_color p = RB_BLACK) \<and>
      path_inv p (n + (if c = RB_BLACK then 1 else 0)))"

lemma invc_paint_BLACK [simp]: "invc t \<Longrightarrow> invc (rb_paint RB_BLACK t)"
  by (cases t) auto

lemma paint_same [simp]: "rb_color t = RB_BLACK \<Longrightarrow> rb_paint RB_BLACK t = t"
  by (cases t) auto

lemma invh_paint [simp]: "invh (rb_paint c t) = invh t"
  by (cases t) auto

text \<open>Plugging a valid subtree into a valid path gives a tree that is valid once blackened.\<close>

lemma plug_inv:
  assumes "path_inv p n" and "invc t" and "invh t" and "bheight t = n"
    and "rb_color t = RB_RED \<longrightarrow> p = [] \<or> path_color p = RB_BLACK"
  shows "invc (plug p t) \<and> invh (plug p t)"
  using assms
proof (induction p arbitrary: t n)
  case (Cons f p)
  show ?case
  proof (cases f)
    case (In_left c x r)
    with Cons.prems Cons.IH [of "n + (if c = RB_BLACK then 1 else 0)" "Node c t x r"]
    show ?thesis by (cases c) auto
  next
    case (In_right c l x)
    with Cons.prems Cons.IH [of "n + (if c = RB_BLACK then 1 else 0)" "Node c l x t"]
    show ?thesis by (cases c) auto
  qed
qed simp

lemma rb_valid_paint: "invc t \<Longrightarrow> invh t \<Longrightarrow> rb_valid (rb_paint RB_BLACK t)"
  by (simp add: rb_valid_def)

text \<open>Conversely, a pointer into a valid tree has a valid path and a valid subtree.\<close>

lemma plug_inv_iff:
  "invc (plug p t) \<and> invh (plug p t) \<and> rb_color (plug p t) = RB_BLACK \<Longrightarrow>
   path_inv p (bheight t) \<and> invc t \<and> invh t \<and>
   (rb_color t = RB_RED \<longrightarrow> p \<noteq> [] \<and> path_color p = RB_BLACK)"
proof (induction p arbitrary: t)
  case (Cons f p)
  then show ?case
  proof (cases f)
    case (In_left c x r)
    with Cons.prems Cons.IH [of "Node c t x r"] show ?thesis by auto
  next
    case (In_right c l x)
    with Cons.prems Cons.IH [of "Node c l x t"] show ?thesis by auto
  qed
qed simp

lemma rb_valid_plugD:
  assumes "rb_valid (plug p t)"
  shows "path_inv p (bheight t)" "invc t" "invh t"
    "rb_color t = RB_RED \<Longrightarrow> p \<noteq> [] \<and> path_color p = RB_BLACK"
  using plug_inv_iff [of p t] assms by (auto simp: rb_valid_def)

section \<open>Insertion keeps the invariant\<close>

text \<open>
  A subtree with a given black height and contents; \<open>rb_ok2\<close> allows its root to be red under
  a red root's colour, as inside \<open>RB_REMOVE_COLOR\<close> just before \<open>elm\<close> is blackened.
\<close>

definition rb_ok :: "nat \<Rightarrow> 'a list \<Rightarrow> 'a rbt \<Rightarrow> bool" where
  "rb_ok n xs t \<longleftrightarrow> invc t \<and> invh t \<and> bheight t = n \<and> inorder t = xs"

definition rb_ok2 :: "nat \<Rightarrow> 'a list \<Rightarrow> 'a rbt \<Rightarrow> bool" where
  "rb_ok2 n xs t \<longleftrightarrow> invc (rb_paint RB_BLACK t) \<and> invh t \<and> bheight t = n \<and> inorder t = xs"

lemma rb_insert_iter_correct:
  assumes "path_inv (f # g # p) n" and "frame_color f = RB_RED"
    and "invc t" and "invh t" and "bheight t = n" and "rb_color t = RB_RED"
  shows "\<exists>t'. (rb_insert_iter f g t = Some (Inl t') \<or>
               rb_insert_iter f g t = Some (Inr t') \<and> rb_color t' = RB_BLACK) \<and>
             rb_ok (Suc n) (inorder (fill g (fill f t))) t'"
proof -
  from \<open>rb_color t = RB_RED\<close> obtain a y b where t: "t = Node RB_RED a y b"
    by (rule rb_color_RED_cases)
  show ?thesis
    using assms unfolding t
    by (cases f; cases g)
      (auto simp: rb_ok_def elim!: rb_color_RED_cases split: if_splits)
qed

lemma rb_insert_iter_Inl_red:
  "rb_insert_iter f g t = Some (Inl t') \<Longrightarrow> rb_color t' = RB_RED"
  by (cases g) (auto split: if_splits option.splits)

lemma rb_insert_color_correct:
  assumes "path_inv p n" and "invc t" and "invh t" and "bheight t = n" and "rb_color t = RB_RED"
  shows "\<exists>t'. rb_insert_color p t = Some t' \<and> rb_valid t' \<and>
           inorder t' = before p @ inorder t @ after p"
  using assms
proof (induction p t arbitrary: n rule: rb_insert_color.induct)
  case (1 t)
  then show ?case by (simp add: rb_valid_paint)
next
  case (2 f t)
  then show ?case
    by (cases f) (auto simp: rb_valid_def)
next
  case (3 f g p t)
  let ?s = "fill g (fill f t)"
  show ?case
  proof (cases "frame_color f = RB_RED")
    case red: True
    with "3.prems" have p: "path_inv p (Suc n)"
      by (cases f; cases g) (auto split: if_splits)
    have inord: "before p @ inorder ?s @ after p =
        before (f # g # p) @ inorder t @ after (f # g # p)"
      using inorder_plug [of "f # g # p" t] by simp
    from rb_insert_iter_correct [OF "3.prems"(1) red "3.prems"(2-5)] obtain t' where
      t': "rb_insert_iter f g t = Some (Inl t') \<or>
           rb_insert_iter f g t = Some (Inr t') \<and> rb_color t' = RB_BLACK"
      and ok: "rb_ok (Suc n) (inorder ?s) t'" by blast
    from t' show ?thesis
    proof
      assume eq: "rb_insert_iter f g t = Some (Inl t')"
      with "3.IH" [OF red eq refl p] ok rb_insert_iter_Inl_red [OF eq] inord red
      show ?thesis by (auto simp: rb_ok_def)
    next
      assume eq: "rb_insert_iter f g t = Some (Inr t') \<and> rb_color t' = RB_BLACK"
      with plug_inv [of p "Suc n" t'] p ok inord red
      show ?thesis by (auto simp: rb_ok_def intro!: rb_valid_paint)
    qed
  next
    case False
    with plug_inv [of "f # g # p" n t] "3.prems" show ?thesis
      by (auto intro!: rb_valid_paint simp del: plug.simps inorder_plug
        simp: inorder_plug [of "f # g # p" t])
  qed
qed

section \<open>Removal keeps the invariant\<close>

lemma plug_root_black:
  "path_inv p n \<Longrightarrow> p \<noteq> [] \<Longrightarrow> rb_color (plug p t) = RB_BLACK"
proof (induction p arbitrary: n t)
  case (Cons f p)
  show ?case
  proof (cases "p = []")
    case True
    with Cons.prems show ?thesis by (cases f) auto
  next
    case False
    with Cons.prems Cons.IH show ?thesis by (cases f) auto
  qed
qed simp

lemma rb_fix_left_correct:
  assumes "path_inv (In_left pc px sib # p) (Suc n)" and "rb_color sib = RB_BLACK"
    and "invc e" and "invh e" and "bheight e = n" and "rb_color e = RB_BLACK"
  shows "\<exists>s. (rb_fix_left pc px sib p e = Some (RCont p s) \<and>
              rb_ok2 (n + (if pc = RB_BLACK then 1 else 0)) (inorder e @ px # inorder sib) s) \<or>
             (rb_fix_left pc px sib p e = Some (RBreak (plug p s)) \<and>
              rb_ok (Suc n + (if pc = RB_BLACK then 1 else 0)) (inorder e @ px # inorder sib) s \<and>
              rb_color s = pc)"
proof -
  from assms(1,2) obtain ta tx tb where sib: "sib = Node RB_BLACK ta tx tb"
    by (cases sib) auto
  show ?thesis
    using assms unfolding sib
    by (cases pc; cases "rb_color ta"; cases "rb_color tb")
      (auto simp: rb_ok_def rb_ok2_def elim!: rb_color_RED_cases)
qed

lemma rb_fix_right_correct:
  assumes "path_inv (In_right pc sib px # p) (Suc n)" and "rb_color sib = RB_BLACK"
    and "invc e" and "invh e" and "bheight e = n" and "rb_color e = RB_BLACK"
  shows "\<exists>s. (rb_fix_right pc px sib p e = Some (RCont p s) \<and>
              rb_ok2 (n + (if pc = RB_BLACK then 1 else 0)) (inorder sib @ px # inorder e) s) \<or>
             (rb_fix_right pc px sib p e = Some (RBreak (plug p s)) \<and>
              rb_ok (Suc n + (if pc = RB_BLACK then 1 else 0)) (inorder sib @ px # inorder e) s \<and>
              rb_color s = pc)"
proof -
  from assms(1,2) obtain ta tx tb where sib: "sib = Node RB_BLACK ta tx tb"
    by (cases sib) auto
  show ?thesis
    using assms unfolding sib
    by (cases pc; cases "rb_color ta"; cases "rb_color tb")
      (auto simp: rb_ok_def rb_ok2_def elim!: rb_color_RED_cases)
qed

text \<open>
  One iteration, for a black pointer whose subtree is one black node short: either the shortage
  moves up, or the tree that results is complete.
\<close>

definition rb_step_ok :: "'a list \<Rightarrow> 'a rstep option \<Rightarrow> bool" where
  "rb_step_ok xs res \<longleftrightarrow>
     (\<exists>p e m. res = Some (RCont p e) \<and> path_inv p (Suc m) \<and> invc (rb_paint RB_BLACK e) \<and> invh e \<and>
        bheight e = m \<and> before p @ inorder e @ after p = xs) \<or>
     (\<exists>t. res = Some (RBreak t) \<and> invc t \<and> invh t \<and> inorder t = xs)"

lemma rb_step_okI:
  assumes "res = Some (RCont p s) \<and> rb_ok2 n ys s \<or>
           res = Some (RBreak (plug p s)) \<and> rb_ok (Suc n) ys s \<and> rb_color s = pc"
    and p: "path_inv p (Suc n)" and "pc = RB_RED \<longrightarrow> p = [] \<or> path_color p = RB_BLACK"
    and xs: "xs = before p @ ys @ after p"
  shows "rb_step_ok xs res"
  using assms(1)
proof
  assume "res = Some (RCont p s) \<and> rb_ok2 n ys s"
  with p xs show ?thesis by (auto simp: rb_step_ok_def rb_ok2_def)
next
  assume a: "res = Some (RBreak (plug p s)) \<and> rb_ok (Suc n) ys s \<and> rb_color s = pc"
  with p assms(3) have "invc (plug p s) \<and> invh (plug p s)"
    by (intro plug_inv [of p "Suc n"]) (auto simp: rb_ok_def)
  with a xs show ?thesis by (auto simp: rb_step_ok_def rb_ok_def)
qed

lemma rb_remove_iter_correct:
  assumes inv: "path_inv (f # p) (Suc n)"
    and e: "invc e" "invh e" "bheight e = n" "rb_color e = RB_BLACK"
  shows "rb_step_ok (before (f # p) @ inorder e @ after (f # p)) (rb_remove_iter f p e)"
proof (cases f)
  case f: (In_left pc px sib)
  with inv obtain tc ta tx tb where sib: "sib = Node tc ta tx tb"
    by (cases sib) auto
  show ?thesis
  proof (cases tc)
    case RB_RED
    let ?p = "In_left RB_BLACK tx tb # p"
    have q: "path_inv (In_left RB_RED px ta # ?p) (Suc n)" "rb_color ta = RB_BLACK"
      using inv unfolding f sib RB_RED by auto
    obtain s where "rb_fix_left RB_RED px ta ?p e = Some (RCont ?p s) \<and>
        rb_ok2 n (inorder e @ px # inorder ta) s \<or>
      rb_fix_left RB_RED px ta ?p e = Some (RBreak (plug ?p s)) \<and>
        rb_ok (Suc n) (inorder e @ px # inorder ta) s \<and> rb_color s = RB_RED"
      using rb_fix_left_correct [OF q e] by auto
    from rb_step_okI [OF this] q show ?thesis
      unfolding f sib RB_RED by simp
  next
    case RB_BLACK
    let ?n = "n + (if pc = RB_BLACK then 1 else 0)"
    obtain s where "rb_fix_left pc px sib p e = Some (RCont p s) \<and>
        rb_ok2 ?n (inorder e @ px # inorder sib) s \<or>
      rb_fix_left pc px sib p e = Some (RBreak (plug p s)) \<and>
        rb_ok (Suc ?n) (inorder e @ px # inorder sib) s \<and> rb_color s = pc"
      using rb_fix_left_correct [OF inv [unfolded f] _ e] unfolding sib RB_BLACK by auto
    from rb_step_okI [OF this] inv show ?thesis
      unfolding f sib RB_BLACK by (auto split: if_splits)
  qed
next
  case f: (In_right pc sib px)
  with inv obtain tc ta tx tb where sib: "sib = Node tc ta tx tb"
    by (cases sib) auto
  show ?thesis
  proof (cases tc)
    case RB_RED
    let ?p = "In_right RB_BLACK ta tx # p"
    have q: "path_inv (In_right RB_RED tb px # ?p) (Suc n)" "rb_color tb = RB_BLACK"
      using inv unfolding f sib RB_RED by auto
    obtain s where "rb_fix_right RB_RED px tb ?p e = Some (RCont ?p s) \<and>
        rb_ok2 n (inorder tb @ px # inorder e) s \<or>
      rb_fix_right RB_RED px tb ?p e = Some (RBreak (plug ?p s)) \<and>
        rb_ok (Suc n) (inorder tb @ px # inorder e) s \<and> rb_color s = RB_RED"
      using rb_fix_right_correct [OF q e] by auto
    from rb_step_okI [OF this] q show ?thesis
      unfolding f sib RB_RED by simp
  next
    case RB_BLACK
    let ?n = "n + (if pc = RB_BLACK then 1 else 0)"
    obtain s where "rb_fix_right pc px sib p e = Some (RCont p s) \<and>
        rb_ok2 ?n (inorder sib @ px # inorder e) s \<or>
      rb_fix_right pc px sib p e = Some (RBreak (plug p s)) \<and>
        rb_ok (Suc ?n) (inorder sib @ px # inorder e) s \<and> rb_color s = pc"
      using rb_fix_right_correct [OF inv [unfolded f] _ e] unfolding sib RB_BLACK by auto
    from rb_step_okI [OF this] inv show ?thesis
      unfolding f sib RB_BLACK by (auto split: if_splits)
  qed
qed

lemma rb_remove_color_correct:
  assumes "path_inv p (Suc n)" and "invc (rb_paint RB_BLACK e)" and "invh e" and "bheight e = n"
  shows "\<exists>t. rb_remove_color p e = Some t \<and> rb_valid t \<and>
           inorder t = before p @ inorder e @ after p"
  using assms
proof (induction p e arbitrary: n rule: rb_remove_color.induct)
  case (1 e)
  then show ?case by (simp add: rb_valid_def)
next
  case (2 f p e)
  show ?case
  proof (cases "rb_color e = RB_RED")
    case True
    let ?t = "plug (f # p) (rb_paint RB_BLACK e)"
    from True "2.prems" have "bheight (rb_paint RB_BLACK e) = Suc n"
      by (auto elim!: rb_color_RED_cases)
    with "2.prems" plug_inv [of "f # p" "Suc n" "rb_paint RB_BLACK e"]
    have "invc ?t \<and> invh ?t" by simp
    with plug_root_black [OF "2.prems"(1)] True show ?thesis
      using inorder_plug [of "f # p" "rb_paint RB_BLACK e"]
      by (auto simp: rb_valid_def simp del: plug.simps)
  next
    case False
    then have "rb_color e = RB_BLACK" and "invc e" using "2.prems"(2) by auto
    from rb_remove_iter_correct [OF "2.prems"(1) this(2) "2.prems"(3,4) this(1)] False "2.IH" [OF False]
    show ?thesis
      by (fastforce simp: rb_step_ok_def intro: rb_valid_paint)
  qed
qed

lemma plug_append [simp]: "plug (q @ p) t = plug p (plug q t)"
  by (induction q arbitrary: t) auto

lemma rb_leftmost_Node:
  "\<exists>q c' x' r'. rb_leftmost p (Node c l x r) = (q @ p, Node c' Leaf x' r') \<and> before q = [] \<and>
     plug q (Node c' Leaf x' r') = Node c l x r"
proof (induction l arbitrary: p c x r)
  case Leaf
  have "rb_leftmost p (Node c Leaf x r) = ([] @ p, Node c Leaf x r)" by simp
  then show ?case by fastforce
next
  case (Node c1 l1 x1 r1)
  from Node.IH(1) [of "In_left c x r # p" c1 x1 r1] obtain q c' x' r' where
    "rb_leftmost (In_left c x r # p) (Node c1 l1 x1 r1) = (q @ In_left c x r # p, Node c' Leaf x' r')"
    "before q = []" "plug q (Node c' Leaf x' r') = Node c1 l1 x1 r1" by blast
  then have "rb_leftmost p (Node c (Node c1 l1 x1 r1) x r) =
      ((q @ [In_left c x r]) @ p, Node c' Leaf x' r')"
    "before (q @ [In_left c x r]) = []"
    "plug (q @ [In_left c x r]) (Node c' Leaf x' r') = Node c (Node c1 l1 x1 r1) x r"
    by auto
  then show ?case by blast
qed

lemma path_color_elem:
  "path_color (q @ In_right c l x # p) = path_color (q @ In_right c l y # p)"
  by (cases q) auto

lemma path_inv_elem:
  "path_inv (q @ In_right c l x # p) n = path_inv (q @ In_right c l y # p) n"
proof (induction q arbitrary: n)
  case (Cons f q)
  then show ?case
    by (cases f) (simp_all add: path_color_elem [of q c l x p y])
qed simp

text \<open>Splicing out a node with at most one child \<open>ch\<close>, given as an unlinked pointer.\<close>

lemma rb_splice_correct:
  assumes "path_inv p (bheight ch + (if c = RB_BLACK then 1 else 0))" and "invc ch" and "invh ch"
    and red: "c = RB_RED \<longrightarrow> p \<noteq> [] \<and> path_color p = RB_BLACK \<and> rb_color ch = RB_BLACK"
  shows "\<exists>t. (if c = RB_BLACK then rb_remove_color p ch else Some (plug p ch)) = Some t \<and>
    rb_valid t \<and> inorder t = before p @ inorder ch @ after p"
proof (cases c)
  case RB_BLACK
  with assms rb_remove_color_correct [of p "bheight ch" ch] show ?thesis by simp
next
  case RB_RED
  with assms plug_inv [of p "bheight ch" ch] plug_root_black [of p "bheight ch" ch]
  show ?thesis by (auto simp: rb_valid_def)
qed

lemma rb_remove_correct:
  assumes valid: "rb_valid (plug p (Node c l x r))"
  shows "\<exists>t. rb_remove p (Node c l x r) = Some t \<and> rb_valid t \<and>
    inorder t = before p @ inorder l @ inorder r @ after p"
proof -
  note D = rb_valid_plugD [OF valid]
  show ?thesis
  proof (cases "l = Leaf \<or> r = Leaf")
    case True
    define ch where "ch = (if l = Leaf then r else l)"
    from True D have "\<exists>t. (if c = RB_BLACK then rb_remove_color p ch else Some (plug p ch)) = Some t \<and>
      rb_valid t \<and> inorder t = before p @ inorder ch @ after p"
      by (intro rb_splice_correct) (auto simp: ch_def split: if_splits)
    moreover from True have "rb_remove p (Node c l x r) =
        (if c = RB_BLACK then rb_remove_color p ch else Some (plug p ch))"
      and "inorder ch = inorder l @ inorder r"
      by (cases l; cases r; simp add: ch_def)+
    ultimately show ?thesis by simp
  next
    case False
    then obtain c1 l1 x1 r1 c2 l2 x2 r2 where l: "l = Node c1 l1 x1 r1" and r: "r = Node c2 l2 x2 r2"
      by (cases l; cases r) auto
    obtain q sc s ch where q: "rb_leftmost [] r = (q, Node sc Leaf s ch)" "before q = []"
      "plug q (Node sc Leaf s ch) = r"
      using rb_leftmost_Node [of "[]" c2 l2 x2 r2] unfolding r by auto
    let ?q = "q @ In_right c l s # p"
    have "rb_valid (plug (q @ In_right c l x # p) (Node sc Leaf s ch))"
      using valid q by simp
    note E = rb_valid_plugD [OF this]
    have "path_color ?q = path_color (q @ In_right c l x # p)"
      by (rule path_color_elem)
    with E have "\<exists>t. (if sc = RB_BLACK then rb_remove_color ?q ch else Some (plug ?q ch)) = Some t \<and>
      rb_valid t \<and> inorder t = before ?q @ inorder ch @ after ?q"
      by (intro rb_splice_correct) (auto simp: path_inv_elem [of q c l s p _ x] split: if_splits)
    moreover have "inorder r = s # inorder ch @ after q"
      using inorder_plug [of q "Node sc Leaf s ch"] q by simp
    moreover have "rb_remove p (Node c l x r) =
        (if sc = RB_BLACK then rb_remove_color ?q ch else Some (plug ?q ch))"
      using q(1) unfolding l r by (simp add: Let_def)
    ultimately show ?thesis using q(2) by simp
  qed
qed

section \<open>Search\<close>

definition rb_sorted :: "('a \<Rightarrow> 'a \<Rightarrow> int) \<Rightarrow> 'a list \<Rightarrow> bool" where
  "rb_sorted cmp xs \<longleftrightarrow> sorted_wrt (\<lambda>x y. cmp x y < 0) xs"

lemma rb_descend_plug: "rb_descend cmp e p t = (p', t') \<Longrightarrow> plug p' t' = plug p t"
  by (induction cmp e p t rule: rb_descend.induct) (auto split: if_splits)

lemma rb_descend_Node: "rb_descend cmp e p t = (p', Node c l x r) \<Longrightarrow> cmp e x = 0"
  by (induction cmp e p t rule: rb_descend.induct) (auto split: if_splits)

lemma rb_find_Some:
  assumes "rb_find cmp e t = Some (p, n)"
  obtains c l x r where "n = Node c l x r" "cmp e x = 0" "plug p n = t"
  using assms rb_descend_plug [of cmp e "[]" t] rb_descend_Node [of cmp e "[]" t]
  by (auto simp: rb_find_def split: prod.splits rbt.splits)

text \<open>
  What the tree code relies on from the comparison function it is generated with: it is
  a total preorder whose sign behaves like that of \<open>strcmp\<close>.
\<close>

locale key_order =
  fixes cmp :: "'a \<Rightarrow> 'a \<Rightarrow> int"
  assumes cmp_anti: "cmp x y < 0 \<longleftrightarrow> 0 < cmp y x"
    and cmp_trans: "cmp x y < 0 \<Longrightarrow> cmp y z < 0 \<Longrightarrow> cmp x z < 0"
    and cmp_cong: "cmp x y = 0 \<Longrightarrow> cmp x z = cmp y z"
begin

lemma cmp_zero_sym: "cmp x y = 0 \<Longrightarrow> cmp y x = 0"
  using cmp_anti [of x y] cmp_anti [of y x] by linarith

lemma cmp_cong_right: "cmp x y = 0 \<Longrightarrow> cmp z x < 0 \<longleftrightarrow> cmp z y < 0"
  using cmp_anti [of z x] cmp_anti [of z y] cmp_cong [of x y z] by simp

lemma rb_descend_bounds:
  assumes "rb_descend cmp e p t = (p', t')" and "rb_sorted cmp (inorder t)"
    and "\<forall>z\<in>set (before p). cmp z e < 0" and "\<forall>z\<in>set (after p). cmp e z < 0"
  shows "(\<forall>z\<in>set (before p'). cmp z e < 0) \<and> (\<forall>z\<in>set (after p'). cmp e z < 0)"
  using assms
proof (induction t arbitrary: p)
  case Leaf
  then show ?case by auto
next
  case (Node c l x r)
  have lx: "\<forall>z\<in>set (inorder l). cmp z x < 0" and xr: "\<forall>z\<in>set (inorder r). cmp x z < 0"
    and sl: "rb_sorted cmp (inorder l)" and sr: "rb_sorted cmp (inorder r)"
    using Node.prems(2) by (auto simp: rb_sorted_def sorted_wrt_append)
  consider "cmp e x < 0" | "cmp e x > 0" | "cmp e x = 0" by linarith
  then show ?case
  proof cases
    case 1
    have "\<forall>z\<in>set (inorder r). cmp e z < 0" using xr by (blast intro: cmp_trans [OF 1])
    then have a: "\<forall>z\<in>set (after (In_left c x r # p)). cmp e z < 0"
      using 1 Node.prems(4) by (simp add: ball_Un)
    have b: "\<forall>z\<in>set (before (In_left c x r # p)). cmp z e < 0"
      using Node.prems(3) by simp
    have "rb_descend cmp e (In_left c x r # p) l = (p', t')"
      using Node.prems(1) 1 by simp
    then show ?thesis using sl b a by (rule Node.IH(1))
  next
    case 2
    then have "cmp x e < 0" by (simp add: cmp_anti)
    have "\<forall>z\<in>set (inorder l). cmp z e < 0"
      using lx by (blast intro: cmp_trans [OF _ \<open>cmp x e < 0\<close>])
    then have b: "\<forall>z\<in>set (before (In_right c l x # p)). cmp z e < 0"
      using \<open>cmp x e < 0\<close> Node.prems(3) by (simp add: ball_Un)
    have a: "\<forall>z\<in>set (after (In_right c l x # p)). cmp e z < 0"
      using Node.prems(4) by simp
    have "rb_descend cmp e (In_right c l x # p) r = (p', t')"
      using Node.prems(1) 2 by simp
    then show ?thesis using sr b a by (rule Node.IH(2))
  next
    case 3
    then have "p' = p" using Node.prems(1) by simp
    then show ?thesis using Node.prems(3,4) by simp
  qed
qed

lemma rb_find_None:
  assumes "rb_find cmp e t = None" and "rb_sorted cmp (inorder t)" and "z \<in> set (inorder t)"
  shows "cmp e z \<noteq> 0"
proof -
  from assms(1) obtain p where d: "rb_descend cmp e [] t = (p, Leaf)"
    by (auto simp: rb_find_def split: prod.splits rbt.splits)
  have "inorder t = before p @ after p"
    using rb_descend_plug [OF d] inorder_plug [of p Leaf] by simp
  with assms(3) rb_descend_bounds [OF d assms(2)] cmp_anti [of z e] show ?thesis by auto
qed

lemma rb_insert_correct:
  assumes "rb_valid t" and "rb_sorted cmp (inorder t)"
  shows "(\<exists>p c l x r. rb_insert cmp e t = Some (Inl (p, Node c l x r)) \<and>
             rb_find cmp e t = Some (p, Node c l x r)) \<or>
         (\<exists>t' xs ys. rb_insert cmp e t = Some (Inr t') \<and> rb_find cmp e t = None \<and>
             rb_valid t' \<and> inorder t = xs @ ys \<and> inorder t' = xs @ e # ys \<and>
             rb_sorted cmp (inorder t'))"
proof (cases "rb_descend cmp e [] t")
  case (Pair p t')
  show ?thesis
  proof (cases t')
    case Leaf
    note d = Pair [unfolded Leaf]
    from rb_descend_plug [OF d] assms(1) have "path_inv p 0"
      using rb_valid_plugD(1) [of p Leaf] by simp
    from rb_insert_color_correct [OF this, of "Node RB_RED Leaf e Leaf"] obtain t'' where
      t'': "rb_insert_color p (Node RB_RED Leaf e Leaf) = Some t''" "rb_valid t''"
        "inorder t'' = before p @ e # after p" by auto
    have t: "inorder t = before p @ after p"
      using rb_descend_plug [OF d] inorder_plug [of p Leaf] by simp
    from assms(2) rb_descend_bounds [OF d assms(2)] t
    have "rb_sorted cmp (before p @ e # after p)"
      by (auto simp: rb_sorted_def sorted_wrt_append)
    with t'' t Pair Leaf show ?thesis by (auto simp: rb_insert_def rb_find_def)
  next
    case (Node c l x r)
    with Pair show ?thesis by (auto simp: rb_insert_def rb_find_def)
  qed
qed

end

text \<open>A node met by the search can be replaced by one that compares equal to it.\<close>

lemma rb_sorted_remove: "rb_sorted cmp (xs @ x # ys) \<Longrightarrow> rb_sorted cmp (xs @ ys)"
  by (auto simp: rb_sorted_def sorted_wrt_append)

section \<open>Height\<close>

fun rb_height :: "'a rbt \<Rightarrow> nat" where
  "rb_height Leaf = 0"
| "rb_height (Node c l x r) = Suc (max (rb_height l) (rb_height r))"

lemma rb_height_bheight:
  "invc t \<Longrightarrow> invh t \<Longrightarrow>
   rb_height t \<le> 2 * bheight t + (if rb_color t = RB_RED then 1 else 0)"
  by (induction t) (auto split: if_splits)

lemma bheight_size: "invh t \<Longrightarrow> 2 ^ bheight t \<le> Suc (length (inorder t))"
  by (induction t) auto

lemma rb_descend_length:
  "length (fst (rb_descend cmp e p t)) \<le> length p + rb_height t"
  by (induction cmp e p t rule: rb_descend.induct) (auto simp: max_def)

lemma rb_valid_height:
  assumes "rb_valid t"
  shows "2 ^ ((rb_height t + 1) div 2) \<le> Suc (length (inorder t))"
proof -
  have "(rb_height t + 1) div 2 \<le> bheight t"
    using rb_height_bheight [of t] assms by (auto simp: rb_valid_def)
  then have "2 ^ ((rb_height t + 1) div 2) \<le> (2::nat) ^ bheight t" by simp
  also have "\<dots> \<le> Suc (length (inorder t))"
    using bheight_size [of t] assms by (simp add: rb_valid_def)
  finally show ?thesis .
qed

section \<open>Traversal visits the inorder sequence\<close>

lemma rb_min_Some:
  "rb_min p t = Some (p', n) \<Longrightarrow>
   \<exists>c x r. n = Node c Leaf x r \<and> plug p' n = plug p t \<and> before p' = before p"
  by (induction p t rule: rb_min.induct) auto

lemma rb_min_None: "rb_min p t = None \<longleftrightarrow> t = Leaf"
  by (induction p t rule: rb_min.induct) auto

lemma rb_climb_Some:
  "rb_climb p t = Some (p', n) \<Longrightarrow>
   \<exists>c l x r. n = Node c l x r \<and> plug p' n = plug p t \<and>
     before p' @ inorder l = before p @ inorder t"
  by (induction p t rule: rb_climb.induct) auto

lemma rb_climb_None: "rb_climb p t = None \<Longrightarrow> after p = []"
  by (induction p t rule: rb_climb.induct) auto

lemma rb_next_Some:
  assumes "rb_next p (Node c l x r) = Some (p', n)"
  shows "\<exists>c' l' x' r'. n = Node c' l' x' r' \<and> plug p' n = plug p (Node c l x r) \<and>
    before p' @ inorder l' = before p @ inorder l @ [x]"
proof (cases r)
  case Leaf
  with assms rb_climb_Some [of p "Node c l x Leaf" p' n] show ?thesis by auto
next
  case (Node c2 l2 x2 r2)
  with assms rb_min_Some [of "In_right c l x # p" r p' n] show ?thesis by auto
qed

lemma rb_next_None:
  assumes "rb_next p (Node c l x r) = None"
  shows "inorder r @ after p = []"
proof (cases r)
  case Leaf
  with assms rb_climb_None [of p "Node c l x Leaf"] show ?thesis by simp
next
  case (Node c2 l2 x2 r2)
  with assms rb_min_None [of "In_right c l x # p" r] show ?thesis by simp
qed

end
