(* ===== verification/VDb.thy ===== *)
theory VDb
  imports Prelude
begin

text \<open>
  The virtual database interface of \<open>db_interface/inc/db_virtual.h\<close>: \<open>struct vdb\<close> is a table
  of function pointers, here a record of operations on a database state \<open>'d\<close>. A pointer
  that an implementation may leave NULL is an option. \<open>'arg\<close> is the opaque argument that an
  asynchronous read passes on to the result callback.

  The locale \<open>vdb_contract\<close> states what a client may rely on; \<open>DbSimple\<close> and \<open>DbLock\<close>
  interpret it on their own operations.
\<close>

text \<open>A call of the \<open>db_async_result_t\<close> callback: key copy, value copy or NULL, argument.\<close>

type_synonym 'arg db_result = "string \<times> string option \<times> 'arg"

record ('d, 'arg) vdb =
  vdb_destroy :: "'d \<Rightarrow> 'd res"
  vdb_set :: "alloc \<Rightarrow> 'd \<Rightarrow> string \<Rightarrow> string option \<Rightarrow> ('d \<times> int) res"
  vdb_set_inst :: "(alloc \<Rightarrow> 'd \<Rightarrow> string \<Rightarrow> string option \<Rightarrow> ('d \<times> int) res) option"
  vdb_get :: "(alloc \<Rightarrow> 'd \<Rightarrow> string \<Rightarrow> string option res) option"
  vdb_geta :: "(alloc \<Rightarrow> 'd \<Rightarrow> string \<Rightarrow> 'arg \<Rightarrow> ('d \<times> 'arg db_result list \<times> int) res) option"
  vdb_async_result :: bool

text \<open>
  The contract, for calls in which no allocation fails. \<open>ok\<close> are the keys the implementation
  accepts, \<open>inv\<close> its invariant and \<open>contents\<close> the finite map it stores. A value that is set is
  read back, a NULL value deletes the key, other keys keep their values.
\<close>

locale vdb_contract =
  fixes ops :: "('d, 'arg) vdb"
    and get_op :: "alloc \<Rightarrow> 'd \<Rightarrow> string \<Rightarrow> string option res"
    and inv :: "'d \<Rightarrow> bool"
    and ok :: "string \<Rightarrow> bool"
    and contents :: "'d \<Rightarrow> string \<rightharpoonup> string"
  assumes set_ok: "inv d \<Longrightarrow> ok k \<Longrightarrow>
      \<exists>d'. vdb_set ops all_ok d k v = Inr (d', 0) \<and> inv d' \<and>
        contents d' = (contents d)(k := v)"
    and get_ok: "inv d \<Longrightarrow> ok k \<Longrightarrow> get_op all_ok d k = Inr (contents d k)"
begin

text \<open>A sequence of writes, and the map it denotes.\<close>

lemma set_then_get:
  assumes "inv d" and "ok k" and "ok k'"
  shows "\<exists>d'. vdb_set ops all_ok d k v = Inr (d', 0) \<and> inv d' \<and>
    get_op all_ok d' k' = Inr (if k' = k then v else contents d k')"
  using set_ok [OF assms(1,2), of v] get_ok [OF _ assms(3)] by fastforce

lemma set_twice:
  assumes "inv d" and "ok k" and "ok k'" and "k \<noteq> k'"
  shows "\<exists>d1 d2 e1 e2. vdb_set ops all_ok d k v = Inr (d1, 0) \<and>
    vdb_set ops all_ok d1 k' w = Inr (d2, 0) \<and> vdb_set ops all_ok d k' w = Inr (e1, 0) \<and>
    vdb_set ops all_ok e1 k v = Inr (e2, 0) \<and> contents d2 = contents e2"
proof -
  obtain d1 where 1: "vdb_set ops all_ok d k v = Inr (d1, 0)" "inv d1"
    "contents d1 = (contents d)(k := v)" using set_ok assms by blast
  obtain d2 where 2: "vdb_set ops all_ok d1 k' w = Inr (d2, 0)"
    "contents d2 = (contents d1)(k' := w)" using set_ok 1(2) assms by blast
  obtain e1 where 3: "vdb_set ops all_ok d k' w = Inr (e1, 0)" "inv e1"
    "contents e1 = (contents d)(k' := w)" using set_ok assms by blast
  obtain e2 where 4: "vdb_set ops all_ok e1 k v = Inr (e2, 0)"
    "contents e2 = (contents e1)(k := v)" using set_ok 3(2) assms by blast
  from 1 2 3 4 assms(4) show ?thesis
    by (metis fun_upd_twist)
qed

end

end
