(* ===== verification/DbSimple.thy ===== *)
theory DbSimple
  imports RBTree VDb
begin

text \<open>
  The key-value database \<open>db_simple/src/db_simple.c\<close>: a red-black tree of
  \<open>struct db_node\<close> ordered by \<open>strcmp\<close> on the keys, behind the \<open>struct vdb\<close> interface.

  Allocation sites are numbered in source order within a call. A node pointer obtained from
  the tree is a zipper of \<open>RBTree\<close>; freeing the new node of \<open>set\<close> while the tree still links it
  (its value could not be copied) is the fault \<open>Dangling_link\<close>, where the model stops.
\<close>

section \<open>State\<close>

record db_node =
  node_key :: string
  node_value :: "string option"   \<comment> \<open>\<open>None\<close> is a NULL value pointer\<close>

type_synonym simple_db = "db_node rbt"

definition db_cmp :: "db_node \<Rightarrow> db_node \<Rightarrow> int" where
  "db_cmp e1 e2 = strcmp (node_key e1) (node_key e2)"

definition search_node :: "string \<Rightarrow> db_node" where
  "search_node k = \<lparr>node_key = k, node_value = None\<rparr>"

text \<open>\<open>RB_INIT\<close> in \<open>init_simple_db\<close>.\<close>

definition empty_simple_db :: simple_db where
  "empty_simple_db = Leaf"

section \<open>Operations\<close>

text \<open>A write of the value field through the node pointer \<open>(p, n)\<close>.\<close>

fun store_value :: "db_node path \<Rightarrow> db_node rbt \<Rightarrow> string option \<Rightarrow> simple_db" where
  "store_value p Leaf v = plug p Leaf"
| "store_value p (Node c l x r) v = plug p (Node c l (x\<lparr>node_value := v\<rparr>) r)"

definition simple_get :: "alloc \<Rightarrow> simple_db \<Rightarrow> string \<Rightarrow> string option res" where
  "simple_get al db key =
     (case rb_find db_cmp (search_node key) db of
        Some (p, Node c l x r) \<Rightarrow>
          (case node_value x of
             None \<Rightarrow> Inl Null_deref   \<comment> \<open>\<open>strdup(NULL)\<close>\<close>
           | Some v \<Rightarrow> Inr (if al 0 then Some v else None))
      | _ \<Rightarrow> Inr None)"

definition simple_geta ::
  "alloc \<Rightarrow> simple_db \<Rightarrow> string \<Rightarrow> 'arg \<Rightarrow> (simple_db \<times> 'arg db_result list \<times> int) res" where
  "simple_geta al db key arg =
     bind_res (simple_get al db key) (\<lambda>value.
       if al 1 then Inr (db, [(key, value, arg)], 0) else Inr (db, [], -1))"

definition drop_node :: "simple_db \<Rightarrow> string \<Rightarrow> simple_db res" where
  "drop_node db key =
     (case rb_find db_cmp (search_node key) db of
        Some (p, n) \<Rightarrow> (case rb_remove p n of None \<Rightarrow> Inl Null_deref | Some t \<Rightarrow> Inr t)
      | None \<Rightarrow> Inr db)"

definition simple_set ::
  "alloc \<Rightarrow> simple_db \<Rightarrow> string \<Rightarrow> string option \<Rightarrow> (simple_db \<times> int) res" where
  "simple_set al db key value =
     (case value of
        None \<Rightarrow> bind_res (drop_node db key) (\<lambda>t. Inr (t, 0))
      | Some v \<Rightarrow>
          if \<not> al 0 then Inr (db, -1)        \<comment> \<open>\<open>calloc\<close>\<close>
          else if \<not> al 1 then Inr (db, -1)   \<comment> \<open>\<open>strdup(key)\<close>\<close>
          else
            (case rb_insert db_cmp (search_node key) db of
               None \<Rightarrow> Inl Null_deref
             | Some (Inl (p, n)) \<Rightarrow>           \<comment> \<open>collision: replace the value\<close>
                 (if al 2 then Inr (store_value p n (Some v), 0)
                  else Inr (store_value p n None, -1))
             | Some (Inr t) \<Rightarrow>                \<comment> \<open>a new node was inserted\<close>
                 (if al 2 then
                    case rb_find db_cmp (search_node key) t of
                      None \<Rightarrow> Inl Null_deref
                    | Some (p, n) \<Rightarrow> Inr (store_value p n (Some v), 0)
                  else Inl Dangling_link)))"

definition simple_set_inst ::
  "alloc \<Rightarrow> simple_db \<Rightarrow> string \<Rightarrow> string option \<Rightarrow> (simple_db \<times> int) res" where
  "simple_set_inst al db key value =
     (case value of
        None \<Rightarrow> bind_res (drop_node db key) (\<lambda>t. Inr (t, 0))
      | Some v \<Rightarrow>
          if \<not> al 0 then Inr (db, -1)
          else
            (case rb_insert db_cmp (search_node key) db of
               None \<Rightarrow> Inl Null_deref
             | Some (Inl (p, n)) \<Rightarrow> Inr (store_value p n (Some v), 0)
             | Some (Inr t) \<Rightarrow>
                 (case rb_find db_cmp (search_node key) t of
                    None \<Rightarrow> Inl Null_deref
                  | Some (p, n) \<Rightarrow> Inr (store_value p n (Some v), 0))))"

text \<open>
  The loop of \<open>destroy\<close>: fetch the successor, unlink and free the current node, go on with the
  successor (found again in the changed tree by its key). The result is the list of freed
  nodes and the final tree; fuel counts the iterations.
\<close>

fun destroy_loop ::
  "nat \<Rightarrow> (db_node path \<times> db_node rbt) option \<Rightarrow> simple_db \<Rightarrow> (db_node list \<times> simple_db) res option"
where
  "destroy_loop fuel None db = Some (Inr ([], db))"
| "destroy_loop 0 (Some node) db = None"
| "destroy_loop (Suc fuel) (Some (p, Leaf)) db = Some (Inl Null_deref)"
| "destroy_loop (Suc fuel) (Some (p, Node c l x r)) db =
     (case rb_remove p (Node c l x r) of
        None \<Rightarrow> Some (Inl Null_deref)
      | Some t \<Rightarrow>
          (let nxt = (case rb_next p (Node c l x r) of
                        Some (q, Node c' l' y r') \<Rightarrow> rb_find db_cmp (search_node (node_key y)) t
                      | _ \<Rightarrow> None)
           in map_option (\<lambda>res. bind_res res (\<lambda>(freed, t'). Inr (x # freed, t')))
                (destroy_loop fuel nxt t)))"

definition simple_destroy :: "simple_db \<Rightarrow> (db_node list \<times> simple_db) res option" where
  "simple_destroy db = destroy_loop (length (inorder db)) (rb_min [] db) db"

text \<open>\<open>init_simple_db\<close>: the operations table; \<open>geta\<close> is installed only with a callback.\<close>

definition simple_vdb :: "bool \<Rightarrow> (simple_db, 'arg) vdb" where
  "simple_vdb async =
     \<lparr>vdb_destroy = (\<lambda>db. case simple_destroy db of
                            Some (Inr (freed, t)) \<Rightarrow> Inr t
                          | Some (Inl e) \<Rightarrow> Inl e
                          | None \<Rightarrow> Inl Exit_failure),
      vdb_set = simple_set,
      vdb_set_inst = Some simple_set_inst,
      vdb_get = Some simple_get,
      vdb_geta = (if async then Some simple_geta else None),
      vdb_async_result = async\<rparr>"

section \<open>The finite map a database stores\<close>

definition contents_list :: "db_node list \<Rightarrow> string \<rightharpoonup> string" where
  "contents_list xs k =
     (case map_of (map (\<lambda>n. (node_key n, node_value n)) xs) k of None \<Rightarrow> None | Some v \<Rightarrow> v)"

definition db_contents :: "simple_db \<Rightarrow> string \<rightharpoonup> string" where
  "db_contents db = contents_list (inorder db)"

text \<open>A valid tree, keys in strictly increasing order, and no NULL values.\<close>

definition db_inv :: "simple_db \<Rightarrow> bool" where
  "db_inv db \<longleftrightarrow> rb_valid db \<and> rb_sorted db_cmp (inorder db) \<and>
     (\<forall>n\<in>set (inorder db). node_value n \<noteq> None)"

interpretation db_order: key_order db_cmp
proof
  show "\<And>x y. db_cmp x y < 0 \<longleftrightarrow> 0 < db_cmp y x"
    unfolding db_cmp_def using strcmp_sym by (metis neg_less_0_iff_less)
  show "\<And>x y z. db_cmp x y < 0 \<Longrightarrow> db_cmp y z < 0 \<Longrightarrow> db_cmp x z < 0"
    unfolding db_cmp_def by (rule strcmp_trans)
  show "\<And>x y z. db_cmp x y = 0 \<Longrightarrow> db_cmp x z = db_cmp y z"
    by (simp add: db_cmp_def)
qed

lemma search_node_simps [simp]:
  "node_key (search_node k) = k" "node_value (search_node k) = None"
  by (simp_all add: search_node_def)

lemma db_cmp_zero [simp]: "db_cmp x y = 0 \<longleftrightarrow> node_key x = node_key y"
  by (simp add: db_cmp_def)

lemma sorted_distinct_keys: "rb_sorted db_cmp xs \<Longrightarrow> distinct (map node_key xs)"
proof (induction xs)
  case (Cons x xs)
  then have "\<forall>y\<in>set xs. db_cmp x y < 0" and "distinct (map node_key xs)"
    by (auto simp: rb_sorted_def)
  then show ?case by (force simp: db_cmp_def)
qed simp

lemma contents_list_None: "k \<notin> node_key ` set xs \<Longrightarrow> contents_list xs k = None"
  by (auto simp: contents_list_def map_of_eq_None_iff split: option.split dest!: map_of_SomeD)

lemma contents_list_split:
  assumes "distinct (map node_key (xs @ x # ys))"
  shows "contents_list (xs @ x # ys) = (contents_list (xs @ ys))(node_key x := node_value x)"
proof
  fix k
  have "node_key x \<notin> node_key ` set xs" using assms by auto
  then have "map_of (map (\<lambda>n. (node_key n, node_value n)) xs) (node_key x) = None"
    by (auto simp: map_of_eq_None_iff)
  then show "contents_list (xs @ x # ys) k =
      ((contents_list (xs @ ys))(node_key x := node_value x)) k"
    by (auto simp: contents_list_def map_add_def split: option.split)
qed

lemma find_Some:
  assumes "rb_find db_cmp (search_node k) db = Some (p, n)"
  obtains c l x r where "n = Node c l x r" "node_key x = k" "plug p n = db"
    "inorder db = (before p @ inorder l) @ x # (inorder r @ after p)"
proof -
  from rb_find_Some [OF assms] obtain c l x r where
    n: "n = Node c l x r" "db_cmp (search_node k) x = 0" "plug p n = db" by metis
  then have "inorder db = (before p @ inorder l) @ x # (inorder r @ after p)"
    by auto
  with n that show ?thesis by auto
qed

lemma find_None:
  assumes "rb_find db_cmp (search_node k) db = None" and "db_inv db"
  shows "k \<notin> node_key ` set (inorder db)"
  using db_order.rb_find_None [OF assms(1)] assms(2) by (auto simp: db_inv_def)

lemma rb_valid_plug_same:
  "rb_color t = rb_color t' \<Longrightarrow> bheight t = bheight t' \<Longrightarrow> invc t = invc t' \<Longrightarrow> invh t = invh t' \<Longrightarrow>
   rb_valid (plug p t) = rb_valid (plug p t')"
proof (induction p arbitrary: t t')
  case (Cons f p)
  have "rb_valid (plug p (fill f t)) = rb_valid (plug p (fill f t'))"
    by (rule Cons.IH) (cases f; simp add: Cons.prems)+
  then show ?case by simp
qed (simp add: rb_valid_def)

lemma sorted_same_key:
  assumes "rb_sorted db_cmp (xs @ x # ys)" and "node_key y = node_key x"
  shows "rb_sorted db_cmp (xs @ y # ys)"
  using assms by (auto simp: rb_sorted_def sorted_wrt_append db_cmp_def)

text \<open>Writing a value through a pointer updates the map at the node's key.\<close>

lemma store_value_correct:
  assumes valid: "rb_valid db" and sorted: "rb_sorted db_cmp (inorder db)"
    and ok: "\<forall>n\<in>set (inorder db). node_key n \<noteq> k \<longrightarrow> node_value n \<noteq> None"
    and find: "rb_find db_cmp (search_node k) db = Some (p, n)"
  shows "db_inv (store_value p n (Some v))"
    and "db_contents (store_value p n (Some v)) = (db_contents db)(k \<mapsto> v)"
proof -
  from find obtain c l x r where n: "n = Node c l x r" "node_key x = k" "plug p n = db"
    and ino: "inorder db = (before p @ inorder l) @ x # (inorder r @ after p)"
    by (rule find_Some)
  let ?xs = "before p @ inorder l" and ?ys = "inorder r @ after p"
  let ?y = "x\<lparr>node_value := Some v\<rparr>"
  have ino': "inorder (store_value p n (Some v)) = ?xs @ ?y # ?ys"
    by (simp add: n(1))
  have "rb_valid (store_value p n (Some v))"
    using valid n rb_valid_plug_same [of "Node c l x r" "Node c l ?y r" p] by simp
  moreover have sorted': "rb_sorted db_cmp (?xs @ ?y # ?ys)"
    using sorted unfolding ino by (rule sorted_same_key) simp
  moreover have "\<forall>n\<in>set ?xs \<union> set ?ys. node_value n \<noteq> None"
  proof
    fix m assume m: "m \<in> set ?xs \<union> set ?ys"
    have "distinct (map node_key (?xs @ x # ?ys))"
      using sorted_distinct_keys sorted unfolding ino by blast
    then have "node_key m \<noteq> k" using m unfolding n(2) [symmetric] by (rule distinct_map_split)
    with m ok show "node_value m \<noteq> None" unfolding ino by auto
  qed
  ultimately show "db_inv (store_value p n (Some v))"
    unfolding db_inv_def ino' by auto
  show "db_contents (store_value p n (Some v)) = (db_contents db)(k \<mapsto> v)"
    unfolding db_contents_def ino ino'
    using sorted_distinct_keys [OF sorted'] sorted_distinct_keys [OF sorted [unfolded ino]] n(2)
    by (simp add: contents_list_split del: append_assoc)
qed

section \<open>The operations on the stored map\<close>

lemma rb_insert_new:
  assumes "db_inv db" and "rb_insert db_cmp (search_node k) db = Some (Inr t)"
  shows "rb_valid t" and "rb_sorted db_cmp (inorder t)"
    and "\<forall>n\<in>set (inorder t). node_key n \<noteq> k \<longrightarrow> node_value n \<noteq> None"
    and "\<exists>p n. rb_find db_cmp (search_node k) t = Some (p, n)"
    and "db_contents t = db_contents db"
proof -
  from assms db_order.rb_insert_correct [of db "search_node k"] obtain xs ys where
    t: "rb_find db_cmp (search_node k) db = None" "rb_valid t" "inorder db = xs @ ys"
      "inorder t = xs @ search_node k # ys" "rb_sorted db_cmp (inorder t)"
    by (auto simp: db_inv_def)
  then show "rb_valid t" and s: "rb_sorted db_cmp (inorder t)" by auto
  show "\<forall>n\<in>set (inorder t). node_key n \<noteq> k \<longrightarrow> node_value n \<noteq> None"
    using t assms(1) by (auto simp: db_inv_def)
  show "\<exists>p n. rb_find db_cmp (search_node k) t = Some (p, n)"
    using db_order.rb_find_None [OF _ s, of "search_node k" "search_node k"] t(4)
    by (cases "rb_find db_cmp (search_node k) t") auto
  show "db_contents t = db_contents db"
    using contents_list_split [of xs "search_node k" ys] sorted_distinct_keys [OF s]
      contents_list_None [OF find_None [OF t(1) assms(1)]]
    by (simp add: db_contents_def t fun_upd_idem)
qed

lemma simple_get_correct:
  assumes "db_inv db"
  shows "simple_get al db k = Inr (if al 0 then db_contents db k else None)"
proof (cases "rb_find db_cmp (search_node k) db")
  case None
  with contents_list_None [OF find_None [OF None assms]] show ?thesis
    by (simp add: simple_get_def db_contents_def)
next
  case (Some pn)
  obtain p n where pn: "pn = (p, n)" by (cases pn)
  from Some [unfolded pn] obtain c l x r where n: "n = Node c l x r" "node_key x = k"
    and ino: "inorder db = (before p @ inorder l) @ x # (inorder r @ after p)"
    by (rule find_Some)
  have "distinct (map node_key (inorder db))"
    using assms sorted_distinct_keys by (auto simp: db_inv_def)
  then have "db_contents db k = node_value x"
    unfolding db_contents_def ino n(2) [symmetric] by (subst contents_list_split) auto
  moreover have "node_value x \<noteq> None" using assms ino by (auto simp: db_inv_def)
  ultimately show ?thesis using Some pn n by (auto simp: simple_get_def)
qed

lemma drop_node_correct:
  assumes "db_inv db"
  shows "\<exists>t. drop_node db k = Inr t \<and> db_inv t \<and> db_contents t = (db_contents db)(k := None)"
proof (cases "rb_find db_cmp (search_node k) db")
  case None
  with contents_list_None [OF find_None [OF None assms]] assms show ?thesis
    by (simp add: drop_node_def db_contents_def fun_upd_idem)
next
  case (Some pn)
  obtain p n where pn: "pn = (p, n)" by (cases pn)
  from Some [unfolded pn] obtain c l x r where n: "n = Node c l x r" "node_key x = k" "plug p n = db"
    and ino: "inorder db = (before p @ inorder l) @ x # (inorder r @ after p)"
    by (rule find_Some)
  from rb_remove_correct [of p c l x r] assms n obtain t where
    t: "rb_remove p n = Some t" "rb_valid t" "inorder t = (before p @ inorder l) @ (inorder r @ after p)"
    by (auto simp: db_inv_def)
  have sorted: "rb_sorted db_cmp ((before p @ inorder l) @ x # (inorder r @ after p))"
    using assms unfolding db_inv_def ino by simp
  note dist = sorted_distinct_keys [OF sorted]
  have "k \<notin> node_key ` set (inorder t)"
    using distinct_map_split [OF dist] unfolding t(3) n(2) [symmetric] by force
  then have "db_contents t = (db_contents db)(k := None)"
    unfolding db_contents_def ino contents_list_split [OF dist] n(2) t(3) [symmetric]
    by (simp add: contents_list_None fun_upd_idem)
  moreover have "db_inv t"
    using assms t rb_sorted_remove [OF sorted] by (auto simp: db_inv_def ino)
  ultimately show ?thesis using Some pn t(1) by (simp add: drop_node_def)
qed

text \<open>The shared core of \<open>set\<close> and \<open>set_inst\<close>: insert the key, then store the value.\<close>

lemma insert_store_correct:
  assumes "db_inv db"
  shows "(\<exists>p n. rb_insert db_cmp (search_node k) db = Some (Inl (p, n)) \<and>
            db_inv (store_value p n (Some v)) \<and>
            db_contents (store_value p n (Some v)) = (db_contents db)(k \<mapsto> v)) \<or>
         (\<exists>t p n. rb_insert db_cmp (search_node k) db = Some (Inr t) \<and>
            rb_find db_cmp (search_node k) t = Some (p, n) \<and>
            db_inv (store_value p n (Some v)) \<and>
            db_contents (store_value p n (Some v)) = (db_contents db)(k \<mapsto> v))"
proof -
  from assms have "rb_valid db" "rb_sorted db_cmp (inorder db)" by (auto simp: db_inv_def)
  from db_order.rb_insert_correct [OF this, of "search_node k"] consider
      (old) p c l x r where "rb_insert db_cmp (search_node k) db = Some (Inl (p, Node c l x r))"
        "rb_find db_cmp (search_node k) db = Some (p, Node c l x r)"
    | (new) t where "rb_insert db_cmp (search_node k) db = Some (Inr t)" by blast
  then show ?thesis
  proof cases
    case old
    have "\<forall>n\<in>set (inorder db). node_key n \<noteq> k \<longrightarrow> node_value n \<noteq> None"
      using assms by (simp add: db_inv_def)
    from store_value_correct [OF \<open>rb_valid db\<close> \<open>rb_sorted db_cmp (inorder db)\<close> this old(2)] old(1)
    show ?thesis by blast
  next
    case new
    note t = rb_insert_new [OF assms new]
    from t(4) obtain p n where find: "rb_find db_cmp (search_node k) t = Some (p, n)" by blast
    from store_value_correct [OF t(1-3) find, of v] new find show ?thesis
      unfolding t(5) by blast
  qed
qed

lemma simple_set_correct:
  assumes "db_inv db"
  shows "\<exists>db'. simple_set all_ok db k v = Inr (db', 0) \<and> db_inv db' \<and>
    db_contents db' = (db_contents db)(k := v)"
proof (cases v)
  case None
  with drop_node_correct [OF assms, of k] show ?thesis by (auto simp: simple_set_def)
next
  case (Some w)
  from insert_store_correct [OF assms, of k w] show ?thesis
    by (rule disjE) (auto simp: simple_set_def Some)
qed

lemma simple_set_inst_correct:
  assumes "db_inv db" and "v = None \<or> al 0"
  shows "\<exists>db'. simple_set_inst al db k v = Inr (db', 0) \<and> db_inv db' \<and>
    db_contents db' = (db_contents db)(k := v)"
proof (cases v)
  case None
  with drop_node_correct [OF assms(1), of k] show ?thesis by (auto simp: simple_set_inst_def)
next
  case (Some w)
  with assms(2) have "al 0" by simp
  with insert_store_correct [OF assms(1), of k w] show ?thesis
    by (elim disjE) (auto simp: simple_set_inst_def Some)
qed

lemma db_inv_empty: "db_inv empty_simple_db" "db_contents empty_simple_db = Map.empty"
  by (auto simp: db_inv_def empty_simple_db_def rb_valid_def rb_sorted_def db_contents_def
    contents_list_def)

interpretation simple: vdb_contract "simple_vdb a" simple_get db_inv "\<lambda>_. True" db_contents
proof
  show "\<exists>d'. vdb_set (simple_vdb a) all_ok d k v = Inr (d', 0) \<and> db_inv d' \<and>
      db_contents d' = (db_contents d)(k := v)" if "db_inv d" "True" for d k v
    using simple_set_correct [OF that(1), of k v] by (simp add: simple_vdb_def)
  show "simple_get all_ok d k = Inr (db_contents d k)" if "db_inv d" "True" for d k
    using simple_get_correct [OF that(1), of all_ok k] by simp
qed

section \<open>Destruction frees every node once\<close>

definition at_first :: "simple_db \<Rightarrow> (db_node path \<times> db_node rbt) option \<Rightarrow> bool" where
  "at_first t node \<longleftrightarrow>
     (case node of
        None \<Rightarrow> t = Leaf
      | Some (p, Leaf) \<Rightarrow> False
      | Some (p, Node c l x r) \<Rightarrow> plug p (Node c l x r) = t \<and> before p @ inorder l = [])"

lemma inorder_Nil [simp]: "inorder t = [] \<longleftrightarrow> t = Leaf"
  by (cases t) auto

text \<open>The key of the first element leads back to the first node.\<close>

lemma find_first:
  assumes "rb_sorted db_cmp (inorder t)" and "inorder t = y # ys"
  shows "at_first t (rb_find db_cmp (search_node (node_key y)) t)"
proof (cases "rb_find db_cmp (search_node (node_key y)) t")
  case None
  from db_order.rb_find_None [OF None assms(1), of y] assms(2) show ?thesis by simp
next
  case (Some pn)
  obtain p n where pn: "pn = (p, n)" by (cases pn)
  from Some [unfolded pn] obtain c l x r where n: "n = Node c l x r" "node_key x = node_key y"
    "plug p n = t" and ino: "inorder t = (before p @ inorder l) @ x # (inorder r @ after p)"
    by (rule find_Some)
  have "before p @ inorder l = []"
  proof (rule ccontr)
    assume ne: "before p @ inorder l \<noteq> []"
    then have "y \<in> set (before p @ inorder l)"
      using ino assms(2) by (metis hd_append2 hd_in_set list.sel(1))
    with sorted_distinct_keys [OF assms(1)] n(2) show False
      unfolding ino using distinct_map_split by (metis UnI1)
  qed
  with Some pn n show ?thesis by (auto simp: at_first_def)
qed

lemma rb_next_first:
  assumes "plug p (Node c l x r) = t" and "before p @ inorder l = []" and "inorder t = x # y # ys"
  shows "\<exists>q c' l' r'. rb_next p (Node c l x r) = Some (q, Node c' l' y r')"
proof (cases "rb_next p (Node c l x r)")
  case None
  with rb_next_None [OF None] assms show ?thesis by auto
next
  case (Some qn)
  obtain q n where qn: "qn = (q, n)" by (cases qn)
  from rb_next_Some [OF Some [unfolded qn]] obtain c' l' x' r' where
    n: "n = Node c' l' x' r'" "plug q n = t" "before q @ inorder l' = [x]"
    using assms(1,2) by auto
  have "inorder t = (before q @ inorder l') @ x' # (inorder r' @ after q)"
    using n(1,2) by auto
  with n(3) assms(3) have "x' = y" by simp
  with Some qn n show ?thesis by auto
qed

lemma rb_next_last:
  assumes "inorder r @ after p = []"
  shows "rb_next p (Node c l x r) = None"
proof (cases "rb_next p (Node c l x r)")
  case (Some qn)
  obtain q n where qn: "qn = (q, n)" by (cases qn)
  from rb_next_Some [OF Some [unfolded qn]] obtain c' l' x' r' where
    n: "n = Node c' l' x' r'" and eq: "plug q n = plug p (Node c l x r)"
    and "before q @ inorder l' = before p @ inorder l @ [x]" by blast
  moreover have "(before q @ inorder l') @ x' # inorder r' @ after q = before p @ inorder l @ [x]"
    using arg_cong [OF eq, of inorder] n assms by simp
  ultimately show ?thesis by simp
qed

lemma plug_Node_not_Leaf: "plug p (Node c l x r) \<noteq> Leaf"
  using inorder_plug [of p "Node c l x r"] inorder_Nil by fastforce

lemma at_first_Leaf: "at_first Leaf node \<Longrightarrow> node = None"
  by (cases node; cases "snd (the node)")
    (auto simp: at_first_def plug_Node_not_Leaf split: prod.splits)

lemma destroy_loop_correct:
  assumes "length (inorder t) \<le> fuel" and "rb_valid t" and "rb_sorted db_cmp (inorder t)"
    and "at_first t node"
  shows "destroy_loop fuel node t = Some (Inr (inorder t, Leaf))"
  using assms
proof (induction fuel arbitrary: node t)
  case 0
  then have "t = Leaf" by simp
  with at_first_Leaf [of node] "0.prems"(4) show ?case by simp
next
  case (Suc fuel)
  show ?case
  proof (cases node)
    case None
    with Suc.prems(4) show ?thesis by (simp add: at_first_def)
  next
    case (Some pn)
    with Suc.prems(4) obtain p c l x r where node: "node = Some (p, Node c l x r)"
      and t: "plug p (Node c l x r) = t" and first: "before p @ inorder l = []"
      by (auto simp: at_first_def split: prod.splits rbt.splits)
    obtain t' where t': "rb_remove p (Node c l x r) = Some t'" "rb_valid t'"
      "inorder t' = inorder r @ after p"
      using rb_remove_correct [of p c l x r] Suc.prems(2) t first by auto
    have ino: "inorder t = x # inorder t'"
      using t first t'(3) by auto
    have sorted: "rb_sorted db_cmp (inorder t')"
      using Suc.prems(3) rb_sorted_remove [of db_cmp "[]" x] ino by simp
    let ?nxt = "case rb_next p (Node c l x r) of
        Some (q, Node c' l' y r') \<Rightarrow> rb_find db_cmp (search_node (node_key y)) t' | _ \<Rightarrow> None"
    have "at_first t' ?nxt"
    proof (cases "inorder t'")
      case Nil
      then have "rb_next p (Node c l x r) = None"
        using t'(3) by (intro rb_next_last) simp
      with Nil show ?thesis by (simp add: at_first_def)
    next
      case (Cons y ys)
      with rb_next_first [OF t first, of y ys] ino obtain q c' l' r' where
        "rb_next p (Node c l x r) = Some (q, Node c' l' y r')" by auto
      with find_first [OF sorted Cons] show ?thesis by simp
    qed
    then have "destroy_loop fuel ?nxt t' = Some (Inr (inorder t', Leaf))"
      using Suc.IH Suc.prems(1) t'(2) sorted ino by simp
    then show ?thesis by (simp add: node t'(1) ino Let_def)
  qed
qed

lemma rb_min_at_first: "at_first t (rb_min [] t)"
proof (cases "rb_min [] t")
  case None
  then show ?thesis by (simp add: at_first_def rb_min_None)
next
  case (Some pn)
  then show ?thesis using rb_min_Some [of "[]" t "fst pn" "snd pn"]
    by (auto simp: at_first_def split: prod.splits rbt.splits)
qed

lemma simple_destroy_correct:
  "db_inv db \<Longrightarrow> simple_destroy db = Some (Inr (inorder db, Leaf))"
  unfolding simple_destroy_def
  by (rule destroy_loop_correct) (auto simp: db_inv_def rb_min_at_first)

section \<open>Allocation failures\<close>

text \<open>The value of a new node cannot be copied: the node is freed but stays in the tree.\<close>

lemma simple_set_oom_new:
  assumes inv: "db_inv db" and absent: "db_contents db k = None"
    and al: "al 0" "al 1" "\<not> al 2"
  shows "simple_set al db k (Some v) = Inl Dangling_link"
proof -
  have "simple_get all_ok db k = Inr None" using simple_get_correct [OF inv] absent by simp
  then have none: "rb_find db_cmp (search_node k) db \<noteq> Some (p, Node c l x r)" for p c l x r
    by (auto simp: simple_get_def split: option.splits)
  from inv have "rb_valid db" "rb_sorted db_cmp (inorder db)" by (auto simp: db_inv_def)
  from db_order.rb_insert_correct [OF this, of "search_node k"] none obtain t where
    "rb_insert db_cmp (search_node k) db = Some (Inr t)" by blast
  with al show ?thesis by (simp add: simple_set_def)
qed

text \<open>The new value of an old key cannot be copied: the key stays with a NULL value.\<close>

lemma simple_set_oom_old:
  assumes inv: "db_inv db" and present: "db_contents db k = Some w"
    and al: "al 0" "al 1" "\<not> al 2"
  shows "\<exists>db'. simple_set al db k (Some v) = Inr (db', -1) \<and> simple_get al' db' k = Inl Null_deref"
proof -
  from inv have valid: "rb_valid db" "rb_sorted db_cmp (inorder db)" by (auto simp: db_inv_def)
  from db_order.rb_insert_correct [OF this, of "search_node k"] consider
      p c l x r where "rb_insert db_cmp (search_node k) db = Some (Inl (p, Node c l x r))"
        "rb_find db_cmp (search_node k) db = Some (p, Node c l x r)"
    | "rb_find db_cmp (search_node k) db = None" by (elim disjE exE conjE) blast+
  then show ?thesis
  proof cases
    case (1 p c l x r)
    let ?y = "x\<lparr>node_value := None\<rparr>"
    let ?db' = "plug p (Node c l ?y r)"
    from 1(2) have n: "node_key x = k" "plug p (Node c l x r) = db"
      and ino: "inorder db = (before p @ inorder l) @ x # (inorder r @ after p)"
      by (auto elim!: find_Some)
    have sorted': "rb_sorted db_cmp ((before p @ inorder l) @ ?y # (inorder r @ after p))"
      using valid(2) unfolding ino by (rule sorted_same_key) simp
    have ino': "inorder ?db' = (before p @ inorder l) @ ?y # (inorder r @ after p)" by simp
    have dist: "distinct (map node_key (inorder ?db'))"
      unfolding ino' by (rule sorted_distinct_keys [OF sorted'])
    have "rb_find db_cmp (search_node k) ?db' \<noteq> None"
    proof
      assume "rb_find db_cmp (search_node k) ?db' = None"
      from db_order.rb_find_None [OF this, of ?y] sorted' n(1) show False
        unfolding ino' by auto
    qed
    then obtain q m where q: "rb_find db_cmp (search_node k) ?db' = Some (q, m)" by auto
    then obtain c' l' x' r' where m: "m = Node c' l' x' r'" "node_key x' = k"
      and inom: "inorder ?db' = (before q @ inorder l') @ x' # (inorder r' @ after q)"
      by (auto elim!: find_Some)
    have "x' = ?y"
    proof -
      have "x' \<in> set (inorder ?db')" unfolding inom by simp
      moreover have "?y \<in> set (inorder ?db')" by simp
      moreover have "node_key x' = node_key ?y" using m n by simp
      ultimately show ?thesis using dist by (metis distinct_map inj_onD)
    qed
    with 1(1) al q m show ?thesis by (auto simp: simple_set_def simple_get_def)
  next
    case 2
    with contents_list_None [OF find_None [OF 2 inv]] present show ?thesis
      by (simp add: db_contents_def)
  qed
qed

lemma simple_vdb_sync:
  "\<not> vdb_async_result (simple_vdb False)" "vdb_get (simple_vdb a) = Some simple_get"
  by (simp_all add: simple_vdb_def)

end
