(* ===== verification/DbLock.thy ===== *)
theory DbLock
  imports DbSimple
begin

unbundle bit_operations_syntax

text \<open>
  The lock-striped database \<open>db_lock/src/db_lock.c\<close>: 255 simple databases, each behind a
  read-write lock; a key is served by the stripe its hash selects.

  \<open>string_hash\<close> is computed on \<open>int\<close>: its partial sums stay far inside the range of a C
  \<open>int\<close> (\<open>hash_loop_bound\<close>). A \<open>char\<close> is signed, as on the x86 targets of the code.

  Lemmas: the operations act on the stripe's map (interpretation of \<open>vdb_contract\<close> for the
  keys whose hash is a stripe number), the one hash value without a stripe, the clean-up of a
  failed initialisation, and the lock protocol of one stripe with any number of threads.
\<close>

section \<open>The hash\<close>

definition N_SUBS :: nat where
  "N_SUBS = 0xff"

definition MAX_HASH :: nat where
  "MAX_HASH = 16"

definition signed_char :: "char \<Rightarrow> int" where
  "signed_char c = (if byte_of c < 128 then int (byte_of c) else int (byte_of c) - 256)"

fun hash_loop :: "int \<Rightarrow> nat \<Rightarrow> string \<Rightarrow> int" where
  "hash_loop result n [] = result"
| "hash_loop result n (c # cs) =
     (if c \<noteq> NUL \<and> n < MAX_HASH
      then hash_loop (result + drop_bit (n div 2) (signed_char c)) (Suc n) cs
      else result)"

definition string_hash :: "string \<Rightarrow> int" where
  "string_hash s = hash_loop 0 0 s AND 0xff"

section \<open>State and operations\<close>

record lock_db =
  subs :: "simple_db list"
  locks :: "bool list"        \<comment> \<open>which of the read-write locks are initialised\<close>

text \<open>
  \<open>assert(t >= 0 && t < N_SUBS)\<close>, then the lock: \<open>fatal\<close> exits when it cannot be taken, which
  for an uncontended lock means that it is not initialised.
\<close>

definition with_stripe ::
  "lock_db \<Rightarrow> string \<Rightarrow> (nat \<Rightarrow> simple_db \<Rightarrow> 'a res) \<Rightarrow> 'a res" where
  "with_stripe db key f =
     (let t = string_hash key
      in if \<not> (0 \<le> t \<and> t < int N_SUBS) then Inl Assert_failed
         else if \<not> locks db ! nat t then Inl Exit_failure
         else f (nat t) (subs db ! nat t))"

definition lock_get :: "alloc \<Rightarrow> lock_db \<Rightarrow> string \<Rightarrow> string option res" where
  "lock_get al db key = with_stripe db key (\<lambda>t sub. simple_get al sub key)"

text \<open>The result of the stripe's \<open>set\<close> is dropped: the operation always reports 0.\<close>

definition lock_set ::
  "alloc \<Rightarrow> lock_db \<Rightarrow> string \<Rightarrow> string option \<Rightarrow> (lock_db \<times> int) res" where
  "lock_set al db key value =
     with_stripe db key (\<lambda>t sub.
       bind_res (simple_set al sub key value) (\<lambda>(sub', r).
         Inr (db\<lparr>subs := (subs db)[t := sub']\<rparr>, 0)))"

definition lock_geta ::
  "alloc \<Rightarrow> lock_db \<Rightarrow> string \<Rightarrow> 'arg \<Rightarrow> (lock_db \<times> 'arg db_result list \<times> int) res" where
  "lock_geta al db key arg =
     bind_res (lock_get al db key) (\<lambda>value.
       if al 1 then Inr (db, [(key, value, arg)], 0) else Inr (db, [], -1))"

text \<open>\<open>destroy\<close>: every stripe is destroyed and its lock too, in one loop.\<close>

fun lock_destroy_loop :: "simple_db list \<Rightarrow> bool list \<Rightarrow> (simple_db list \<times> bool list) res" where
  "lock_destroy_loop (s # ss) (l # ls) =
     (case simple_destroy s of
        Some (Inr (freed, t)) \<Rightarrow>
          bind_res (lock_destroy_loop ss ls) (\<lambda>(ts, ms). Inr (t # ts, False # ms))
      | Some (Inl e) \<Rightarrow> Inl e
      | None \<Rightarrow> Inl Exit_failure)"
| "lock_destroy_loop ss ls = Inr (ss, ls)"

definition lock_destroy :: "lock_db \<Rightarrow> lock_db res" where
  "lock_destroy db =
     bind_res (lock_destroy_loop (subs db) (locks db)) (\<lambda>(ts, ms).
       Inr (db\<lparr>subs := ts, locks := ms\<rparr>))"

text \<open>
  \<open>init_lock_db\<close>. \<open>init_ok i\<close> is the outcome of the \<open>i\<close>-th \<open>pthread_rwlock_init\<close>. The second
  component is the pointer returned (\<open>False\<close> for NULL).
\<close>

fun init_locks :: "(nat \<Rightarrow> bool) \<Rightarrow> nat \<Rightarrow> nat \<Rightarrow> bool list \<Rightarrow> nat \<times> bool list" where
  "init_locks init_ok 0 nlocks ls = (nlocks, ls)"
| "init_locks init_ok (Suc todo) nlocks ls =
     (if init_ok nlocks then init_locks init_ok todo (Suc nlocks) (ls[nlocks := True])
      else (nlocks, ls))"

definition destroy_locks :: "nat \<Rightarrow> bool list \<Rightarrow> bool list" where
  "destroy_locks nlocks ls = replicate nlocks False @ drop nlocks ls"

definition init_lock_db :: "(nat \<Rightarrow> bool) \<Rightarrow> lock_db \<times> bool" where
  "init_lock_db init_ok =
     (let sub0 = replicate N_SUBS empty_simple_db;
          (nlocks, ls) = init_locks init_ok N_SUBS 0 (replicate N_SUBS False)
      in if nlocks < N_SUBS
         then (\<lparr>subs = sub0, locks = destroy_locks nlocks ls\<rparr>, False)
         else (\<lparr>subs = sub0, locks = ls\<rparr>, True))"

definition lock_vdb :: "bool \<Rightarrow> (lock_db, 'arg) vdb" where
  "lock_vdb async =
     \<lparr>vdb_destroy = lock_destroy,
      vdb_set = lock_set,
      vdb_set_inst = None,
      vdb_get = Some lock_get,
      vdb_geta = (if async then Some lock_geta else None),
      vdb_async_result = async\<rparr>"

section \<open>The hash stays in range\<close>

lemma signed_char_bounds: "-128 \<le> signed_char c \<and> signed_char c \<le> 127"
proof -
  have "byte_of c < 256" by (simp add: byte_of_def)
  then show ?thesis by (simp add: signed_char_def)
qed

lemma drop_bit_signed_char: "-128 \<le> drop_bit n (signed_char c) \<and> drop_bit n (signed_char c) \<le> 127"
proof -
  have 1: "-128 \<le> x div 2 ^ n \<and> x div 2 ^ n \<le> 127" if "-128 \<le> x" "x \<le> 127" for x :: int
  proof
    have "x div 2 ^ n \<ge> -128 div 2 ^ n" using that by (intro zdiv_mono1) auto
    moreover have "(-128 :: int) div 2 ^ n \<ge> -128"
      using zdiv_mono2_neg [of "-128" 1 "2 ^ n"] by simp
    ultimately show "-128 \<le> x div 2 ^ n" by linarith
    show "x div 2 ^ n \<le> 127"
    proof (cases "0 \<le> x")
      case True
      then have "x div 2 ^ n \<le> x" by (simp add: int_div_less_self zdiv_mono2 [of x 1 "2 ^ n", simplified])
      with that show ?thesis by simp
    next
      case False
      then have "x div 2 ^ n < 0" by (simp add: pos_imp_zdiv_neg_iff)
      then show ?thesis by simp
    qed
  qed
  show ?thesis
    using 1 [of "signed_char c"] signed_char_bounds by (simp add: drop_bit_eq_div)
qed

lemma hash_loop_bound:
  "n \<le> MAX_HASH \<Longrightarrow> -128 * int n \<le> r \<Longrightarrow> r \<le> 127 * int n \<Longrightarrow>
   -128 * int MAX_HASH \<le> hash_loop r n s \<and> hash_loop r n s \<le> 127 * int MAX_HASH"
proof (induction s arbitrary: r n)
  case Nil
  then show ?case by (simp add: MAX_HASH_def)
next
  case (Cons c cs)
  then show ?case
    using drop_bit_signed_char [of "n div 2" c] by (auto simp: MAX_HASH_def)
qed

lemma string_hash_range: "0 \<le> string_hash s \<and> string_hash s \<le> 255"
proof -
  have "string_hash s = take_bit 8 (hash_loop 0 0 s)"
    by (simp add: string_hash_def take_bit_eq_mask mask_eq_exp_minus_1)
  then show ?thesis
    using take_bit_nonnegative [of 8 "hash_loop 0 0 s"]
      take_bit_int_less_exp [of 8 "hash_loop 0 0 s"] by simp
qed

text \<open>The hash values form one more than there are stripes: 255 has none.\<close>

lemma with_stripe_assert:
  "string_hash key = 255 \<Longrightarrow> with_stripe db key f = Inl Assert_failed"
  by (simp add: with_stripe_def N_SUBS_def)

section \<open>The operations on the stored map\<close>

definition stripe_ok :: "string \<Rightarrow> bool" where
  "stripe_ok key \<longleftrightarrow> string_hash key < 255"

definition lock_inv :: "lock_db \<Rightarrow> bool" where
  "lock_inv db \<longleftrightarrow> length (subs db) = N_SUBS \<and> (\<forall>s\<in>set (subs db). db_inv s) \<and>
     locks db = replicate N_SUBS True"

definition lock_contents :: "lock_db \<Rightarrow> string \<rightharpoonup> string" where
  "lock_contents db k =
     (if stripe_ok k then db_contents (subs db ! nat (string_hash k)) k else None)"

lemma with_stripe_ok:
  assumes "lock_inv db" and "stripe_ok k"
  shows "with_stripe db k f = f (nat (string_hash k)) (subs db ! nat (string_hash k))"
    and "nat (string_hash k) < length (subs db)"
    and "db_inv (subs db ! nat (string_hash k))"
proof -
  show *: "nat (string_hash k) < length (subs db)"
    using assms string_hash_range [of k] by (simp add: lock_inv_def stripe_ok_def N_SUBS_def)
  then show "db_inv (subs db ! nat (string_hash k))"
    using assms(1) by (simp add: lock_inv_def)
  show "with_stripe db k f = f (nat (string_hash k)) (subs db ! nat (string_hash k))"
    using assms string_hash_range [of k] *
    by (auto simp: with_stripe_def Let_def lock_inv_def stripe_ok_def N_SUBS_def)
qed

lemma lock_get_correct:
  "lock_inv db \<Longrightarrow> stripe_ok k \<Longrightarrow>
   lock_get al db k = Inr (if al 0 then lock_contents db k else None)"
  by (simp add: lock_get_def with_stripe_ok simple_get_correct lock_contents_def)

lemma lock_set_correct:
  assumes inv: "lock_inv db" and ok: "stripe_ok k"
  shows "\<exists>db'. lock_set all_ok db k v = Inr (db', 0) \<and> lock_inv db' \<and>
    lock_contents db' = (lock_contents db)(k := v)"
proof -
  let ?t = "nat (string_hash k)"
  note W = with_stripe_ok [OF inv ok]
  obtain sub' where sub': "simple_set all_ok (subs db ! ?t) k v = Inr (sub', 0)" "db_inv sub'"
    "db_contents sub' = (db_contents (subs db ! ?t))(k := v)"
    using simple_set_correct [OF W(3), of k v] by auto
  let ?db' = "db\<lparr>subs := (subs db)[?t := sub']\<rparr>"
  have "db_inv s" if "s \<in> set ((subs db)[?t := sub'])" for s
  proof -
    from that set_update_subset_insert [of "subs db" ?t sub'] have "s \<in> insert sub' (set (subs db))"
      by blast
    with sub'(2) inv show ?thesis unfolding lock_inv_def by blast
  qed
  then have "lock_inv ?db'"
    using inv by (simp add: lock_inv_def)
  moreover have "lock_contents ?db' = (lock_contents db)(k := v)"
  proof
    fix k'
    show "lock_contents ?db' k' = ((lock_contents db)(k := v)) k'"
    proof (cases "k' = k")
      case True
      then show ?thesis using sub'(3) W(2) ok by (simp add: lock_contents_def)
    next
      case False
      then show ?thesis
        using sub'(3) W(2)
        by (cases "stripe_ok k'"; cases "?t = nat (string_hash k')") (simp_all add: lock_contents_def)
    qed
  qed
  ultimately show ?thesis by (simp add: lock_set_def W(1) sub'(1))
qed

interpretation lockdb: vdb_contract "lock_vdb a" lock_get lock_inv stripe_ok lock_contents
proof
  show "\<exists>d'. vdb_set (lock_vdb a) all_ok d k v = Inr (d', 0) \<and> lock_inv d' \<and>
      lock_contents d' = (lock_contents d)(k := v)" if "lock_inv d" "stripe_ok k" for d k v
    using lock_set_correct [OF that, of v] by (simp add: lock_vdb_def)
  show "lock_get all_ok d k = Inr (lock_contents d k)" if "lock_inv d" "stripe_ok k" for d k
    using lock_get_correct [OF that, of all_ok] by simp
qed

section \<open>Initialisation and destruction\<close>

lemma init_locks_spec:
  "length ls = nlocks + todo \<Longrightarrow> ls = replicate nlocks True @ replicate todo False \<Longrightarrow>
   init_locks init_ok todo nlocks ls = (m, ls') \<Longrightarrow>
   nlocks \<le> m \<and> m \<le> nlocks + todo \<and> (\<forall>i. nlocks \<le> i \<and> i < m \<longrightarrow> init_ok i) \<and>
   (m < nlocks + todo \<longrightarrow> \<not> init_ok m) \<and>
   ls' = replicate m True @ replicate (nlocks + todo - m) False"
proof (induction init_ok todo nlocks ls rule: init_locks.induct)
  case (1 init_ok nlocks ls)
  then show ?case by auto
next
  case (2 init_ok todo nlocks ls)
  have "replicate nlocks True @ replicate (Suc todo) False =
      replicate nlocks True @ False # replicate todo False" by simp
  then have upd: "(replicate nlocks True @ replicate (Suc todo) False)[nlocks := True] =
      replicate (Suc nlocks) True @ replicate todo False"
    by (simp only: list_update_append) (simp add: replicate_append_same)
  show ?case
  proof (cases "init_ok nlocks")
    case True
    with 2 upd show ?thesis
      by (auto simp: le_Suc_eq) (metis Suc_leI le_eq_less_or_eq)+
  next
    case False
    with "2.prems" show ?thesis by auto
  qed
qed

lemma init_lock_db_correct:
  "snd (init_lock_db init_ok) = (\<forall>i < N_SUBS. init_ok i)"
  "(\<forall>i < N_SUBS. init_ok i) \<Longrightarrow> lock_inv (fst (init_lock_db init_ok)) \<and>
     lock_contents (fst (init_lock_db init_ok)) = Map.empty"
  "\<not> (\<forall>i < N_SUBS. init_ok i) \<Longrightarrow> True \<notin> set (locks (fst (init_lock_db init_ok)))"
proof -
  obtain m ls where il: "init_locks init_ok N_SUBS 0 (replicate N_SUBS False) = (m, ls)"
    by fastforce
  have spec: "m \<le> N_SUBS" "\<forall>i < m. init_ok i" "m < N_SUBS \<longrightarrow> \<not> init_ok m"
    "ls = replicate m True @ replicate (N_SUBS - m) False"
    using init_locks_spec [OF _ _ il] by auto
  have eq: "init_lock_db init_ok =
      (if m < N_SUBS
       then (\<lparr>subs = replicate N_SUBS empty_simple_db, locks = destroy_locks m ls\<rparr>, False)
       else (\<lparr>subs = replicate N_SUBS empty_simple_db, locks = ls\<rparr>, True))"
    by (simp add: init_lock_db_def il Let_def)
  have all: "(\<forall>i < N_SUBS. init_ok i) \<longleftrightarrow> m = N_SUBS"
    using spec(1-3) by (metis le_neq_implies_less)
  show "snd (init_lock_db init_ok) = (\<forall>i < N_SUBS. init_ok i)"
    unfolding all eq using spec(1) by simp
  show "lock_inv (fst (init_lock_db init_ok)) \<and>
      lock_contents (fst (init_lock_db init_ok)) = Map.empty" if "\<forall>i < N_SUBS. init_ok i"
  proof
    from that all have m: "m = N_SUBS" by simp
    then show "lock_inv (fst (init_lock_db init_ok))"
      unfolding eq lock_inv_def using spec(4) by (simp add: db_inv_empty)
    show "lock_contents (fst (init_lock_db init_ok)) = Map.empty"
    proof
      fix k
      show "lock_contents (fst (init_lock_db init_ok)) k = None"
        using string_hash_range [of k] m
        by (simp add: eq lock_contents_def db_inv_empty stripe_ok_def N_SUBS_def nat_less_iff)
    qed
  qed
  show "True \<notin> set (locks (fst (init_lock_db init_ok)))" if "\<not> (\<forall>i < N_SUBS. init_ok i)"
  proof -
    from that have "m \<noteq> N_SUBS" unfolding all .
    with spec(1) have "m < N_SUBS" by simp
    then show ?thesis
      unfolding eq using spec(4) by (simp add: destroy_locks_def)
  qed
qed

section \<open>The lock protocol of one stripe\<close>

text \<open>
  \<open>get\<close> and \<open>set\<close> run on any number of threads: take the stripe's lock for reading or for
  writing, work on its tree, unlock. A writer's work is two steps: between them the tree is
  being rebuilt and must not be read. \<open>st_log\<close> records the work in the order it was done.
\<close>

datatype job = Job_get string | Job_set string "string option"

datatype thread_pc =
    Idle
  | Want job              \<comment> \<open>before \<open>pthread_rwlock_rdlock\<close> or \<open>wrlock\<close>\<close>
  | Locked job            \<comment> \<open>holds the lock\<close>
  | Rebuilding string "string option"  \<comment> \<open>inside the stripe's \<open>set\<close>\<close>
  | Done job              \<comment> \<open>before \<open>pthread_rwlock_unlock\<close>\<close>

record stripe =
  st_pc :: "nat \<Rightarrow> thread_pc"
  st_readers :: "nat set"
  st_writer :: "nat option"
  st_tree :: simple_db
  st_busy :: bool
  st_log :: "(job \<times> string option) list"

definition stripe_init :: stripe where
  "stripe_init = \<lparr>st_pc = (\<lambda>_. Idle), st_readers = {}, st_writer = None,
     st_tree = empty_simple_db, st_busy = False, st_log = []\<rparr>"

inductive stripe_step :: "stripe \<Rightarrow> stripe \<Rightarrow> bool" where
  call: "st_pc s i = Idle \<Longrightarrow> stripe_step s (s\<lparr>st_pc := (st_pc s)(i := Want j)\<rparr>)"
| rdlock: "st_pc s i = Want (Job_get k) \<Longrightarrow> st_writer s = None \<Longrightarrow>
    stripe_step s (s\<lparr>st_pc := (st_pc s)(i := Locked (Job_get k)),
                     st_readers := insert i (st_readers s)\<rparr>)"
| wrlock: "st_pc s i = Want (Job_set k v) \<Longrightarrow> st_writer s = None \<Longrightarrow> st_readers s = {} \<Longrightarrow>
    stripe_step s (s\<lparr>st_pc := (st_pc s)(i := Locked (Job_set k v)), st_writer := Some i\<rparr>)"
| read: "st_pc s i = Locked (Job_get k) \<Longrightarrow> simple_get all_ok (st_tree s) k = Inr r \<Longrightarrow>
    stripe_step s (s\<lparr>st_pc := (st_pc s)(i := Done (Job_get k)),
                     st_log := st_log s @ [(Job_get k, r)]\<rparr>)"
| write_begin: "st_pc s i = Locked (Job_set k v) \<Longrightarrow>
    stripe_step s (s\<lparr>st_pc := (st_pc s)(i := Rebuilding k v), st_busy := True\<rparr>)"
| write_end: "st_pc s i = Rebuilding k v \<Longrightarrow>
    simple_set all_ok (st_tree s) k v = Inr (t, r) \<Longrightarrow>
    stripe_step s (s\<lparr>st_pc := (st_pc s)(i := Done (Job_set k v)), st_busy := False, st_tree := t,
                     st_log := st_log s @ [(Job_set k v, None)]\<rparr>)"
| rdunlock: "st_pc s i = Done (Job_get k) \<Longrightarrow>
    stripe_step s (s\<lparr>st_pc := (st_pc s)(i := Idle), st_readers := st_readers s - {i}\<rparr>)"
| wrunlock: "st_pc s i = Done (Job_set k v) \<Longrightarrow>
    stripe_step s (s\<lparr>st_pc := (st_pc s)(i := Idle), st_writer := None\<rparr>)"

inductive_cases stripe_stepE: "stripe_step s s'"

abbreviation stripe_reachable :: "stripe \<Rightarrow> bool" where
  "stripe_reachable s \<equiv> stripe_step\<^sup>*\<^sup>* stripe_init s"

text \<open>What the log means: the map after the logged writes, and that every read saw it.\<close>

fun log_effect :: "(job \<times> string option) \<Rightarrow> (string \<rightharpoonup> string) \<Rightarrow> (string \<rightharpoonup> string)" where
  "log_effect (Job_set k v, r) m = m(k := v)"
| "log_effect (Job_get k, r) m = m"

definition log_map :: "(job \<times> string option) list \<Rightarrow> (string \<rightharpoonup> string)" where
  "log_map log = fold log_effect log Map.empty"

fun entry_ok :: "(job \<times> string option) \<Rightarrow> (string \<rightharpoonup> string) \<Rightarrow> bool" where
  "entry_ok (Job_get k, r) m \<longleftrightarrow> r = m k"
| "entry_ok (Job_set k v, r) m \<longleftrightarrow> True"

definition log_consistent :: "(job \<times> string option) list \<Rightarrow> bool" where
  "log_consistent log \<longleftrightarrow>
     (\<forall>n < length log. entry_ok (log ! n) (log_map (take n log)))"

fun holds_read :: "thread_pc \<Rightarrow> bool" where
  "holds_read (Locked (Job_get k)) = True"
| "holds_read (Done (Job_get k)) = True"
| "holds_read _ = False"

fun holds_write :: "thread_pc \<Rightarrow> bool" where
  "holds_write (Locked (Job_set k v)) = True"
| "holds_write (Rebuilding k v) = True"
| "holds_write (Done (Job_set k v)) = True"
| "holds_write _ = False"

fun rebuilding :: "thread_pc \<Rightarrow> bool" where
  "rebuilding (Rebuilding k v) = True"
| "rebuilding _ = False"

lemma rebuilding_holds_write: "rebuilding p \<Longrightarrow> holds_write p"
  by (cases p rule: rebuilding.cases) auto

definition stripe_inv :: "stripe \<Rightarrow> bool" where
  "stripe_inv s \<longleftrightarrow>
     (\<forall>i. holds_read (st_pc s i) \<longleftrightarrow> i \<in> st_readers s) \<and>
     (\<forall>i. holds_write (st_pc s i) \<longleftrightarrow> st_writer s = Some i) \<and>
     (st_writer s = None \<or> st_readers s = {}) \<and>
     (st_busy s \<longleftrightarrow> (\<exists>i. st_writer s = Some i \<and> rebuilding (st_pc s i)))"

definition stripe_data_inv :: "stripe \<Rightarrow> bool" where
  "stripe_data_inv s \<longleftrightarrow>
     db_inv (st_tree s) \<and> db_contents (st_tree s) = log_map (st_log s) \<and> log_consistent (st_log s)"

lemma log_map_snoc [simp]: "log_map (log @ [e]) = log_effect e (log_map log)"
  by (simp add: log_map_def)

lemma log_consistent_snoc:
  "log_consistent (log @ [e]) \<longleftrightarrow> log_consistent log \<and> entry_ok e (log_map log)"
  by (simp add: log_consistent_def All_less_Suc nth_append conj_commute)

lemma stripe_init_inv: "stripe_inv stripe_init \<and> stripe_data_inv stripe_init"
  by (simp add: stripe_inv_def stripe_data_inv_def stripe_init_def db_inv_empty log_map_def
    log_consistent_def)

lemma stripe_step_data:
  assumes "stripe_step s s'" and "stripe_data_inv s"
  shows "stripe_data_inv s'"
  using assms
proof (cases rule: stripe_step.cases)
  case (read i k r)
  with assms(2) show ?thesis
    by (simp add: stripe_data_inv_def simple_get_correct log_consistent_snoc)
next
  case (write_end i k v t r)
  with assms(2) simple_set_correct [of "st_tree s" k v] show ?thesis
    by (auto simp: stripe_data_inv_def log_consistent_snoc)
qed (simp_all add: stripe_data_inv_def)

lemma stripe_step_locks:
  assumes "stripe_step s s'" and "stripe_inv s"
  shows "stripe_inv s'"
proof -
  from assms(2) have
    R: "holds_read (st_pc s i) \<longleftrightarrow> i \<in> st_readers s" and
    W: "holds_write (st_pc s i) \<longleftrightarrow> st_writer s = Some i" and
    X: "st_writer s = None \<or> st_readers s = {}" and
    B: "st_busy s \<longleftrightarrow> (\<exists>i. st_writer s = Some i \<and> rebuilding (st_pc s i))" for i
    by (auto simp: stripe_inv_def)
  from assms(1) show ?thesis
  proof (cases rule: stripe_step.cases)
    case (call i j)
    with R [of i] W [of i] R W X B show ?thesis
      unfolding stripe_inv_def by auto
  next
    case (rdlock i k)
    with R [of i] W [of i] R W X B show ?thesis
      unfolding stripe_inv_def by auto
  next
    case (wrlock i k v)
    with R [of i] W [of i] R W X B show ?thesis
      unfolding stripe_inv_def by auto
  next
    case (read i k r)
    with R [of i] W [of i] R W X B show ?thesis
      unfolding stripe_inv_def by auto
  next
    case (write_begin i k v)
    with R [of i] W [of i] R W X B show ?thesis
      unfolding stripe_inv_def by auto
  next
    case (write_end i k v t r)
    with R [of i] W [of i] R W X B show ?thesis
      unfolding stripe_inv_def by auto
  next
    case (rdunlock i k)
    with R [of i] W [of i] R W X B show ?thesis
      unfolding stripe_inv_def by auto
  next
    case (wrunlock i k v)
    with R [of i] W [of i] R W X B show ?thesis
      unfolding stripe_inv_def by auto
  qed
qed

lemma stripe_reachable_inv: "stripe_reachable s \<Longrightarrow> stripe_inv s \<and> stripe_data_inv s"
  by (induction rule: rtranclp_induct)
    (use stripe_init_inv stripe_step_locks stripe_step_data in blast)+

end
