(* ===== verification/Buffer.thy ===== *)
theory Buffer
  imports Prelude
begin

text \<open>
  The receive buffer \<open>struct_buffer/inc/buffer.h\<close>: a block of \<open>size\<close> bytes of which the first
  \<open>pos\<close> are in use. The block keeps its bytes past \<open>pos\<close>, as the C memory does; a failed
  \<open>malloc\<close> leaves a NULL block of size 0. \<open>size_t\<close> is 64 bits wide, and the one sum that the
  code computes before it is compared, in \<open>buffer_shift\<close>, is written with its wrap-around.

  Lemmas: every operation in terms of the bytes in use (\<open>buffer_data\<close>), and the search loop
  against the first occurrence of a string in a list.
\<close>

section \<open>State and operations\<close>

record buffer =
  bf_buf :: "bytes option"
  bf_size :: nat
  bf_pos :: nat

definition size_add :: "nat \<Rightarrow> nat \<Rightarrow> nat" where
  "size_add a b = (a + b) mod 2 ^ 64"

abbreviation block :: "buffer \<Rightarrow> bytes" where
  "block b \<equiv> (case bf_buf b of None \<Rightarrow> [] | Some m \<Rightarrow> m)"

text \<open>\<open>malloc\<close> gives a block with the bytes it finds there, or NULL.\<close>

definition init_buffer :: "bytes option \<Rightarrow> nat \<Rightarrow> buffer \<times> int" where
  "init_buffer mem sz =
     (case mem of
        None \<Rightarrow> (\<lparr>bf_buf = None, bf_size = 0, bf_pos = 0\<rparr>, -1)
      | Some m \<Rightarrow> (\<lparr>bf_buf = Some m, bf_size = sz, bf_pos = 0\<rparr>, 0))"

definition destroy_buffer :: "buffer \<Rightarrow> buffer" where
  "destroy_buffer b = b\<lparr>bf_buf := None, bf_size := 0\<rparr>"

definition reset_buffer :: "buffer \<Rightarrow> buffer" where
  "reset_buffer b = b\<lparr>bf_pos := 0\<rparr>"

text \<open>A pointer into the block is its offset.\<close>

definition buffer_start :: "buffer \<Rightarrow> nat res" where
  "buffer_start b = (if bf_buf b = None then Inl Assert_failed else Inr (bf_pos b))"

definition buffer_space :: "buffer \<Rightarrow> nat res" where
  "buffer_space b =
     (if bf_size b \<ge> bf_pos b then Inr (bf_size b - bf_pos b) else Inl Assert_failed)"

definition buffer_shift :: "buffer \<Rightarrow> nat \<Rightarrow> buffer \<times> int" where
  "buffer_shift b shift =
     (if bf_size b < size_add (bf_pos b) shift then (b, -1)
      else (b\<lparr>bf_pos := size_add (bf_pos b) shift\<rparr>, int (size_add (bf_pos b) shift)))"

text \<open>\<open>memmove(buf, buf + len, pos - len)\<close>: the bytes behind it stay where they are.\<close>

definition move_front :: "bytes \<Rightarrow> nat \<Rightarrow> nat \<Rightarrow> bytes" where
  "move_front m len pos = take (pos - len) (drop len m) @ drop (pos - len) m"

definition buffer_cut :: "alloc \<Rightarrow> buffer \<Rightarrow> nat \<Rightarrow> buffer \<times> bytes option" where
  "buffer_cut al b len =
     (if bf_pos b < len then (b, None)
      else if \<not> al 0 then (b, None)
      else (b\<lparr>bf_buf := map_option (\<lambda>m. move_front m len (bf_pos b)) (bf_buf b),
              bf_pos := bf_pos b - len\<rparr>,
            Some (take len (block b) @ [NUL])))"

definition buffer_clean :: "buffer \<Rightarrow> nat \<Rightarrow> buffer res" where
  "buffer_clean b len =
     (if \<not> bf_pos b \<ge> len then Inl Assert_failed
      else Inr (b\<lparr>bf_buf := map_option (\<lambda>m. move_front m len (bf_pos b)) (bf_buf b),
                  bf_pos := bf_pos b - len\<rparr>))"

definition is_buffer_empty :: "buffer \<Rightarrow> bool" where
  "is_buffer_empty b \<longleftrightarrow> bf_pos b = 0"

text \<open>
  \<open>buffer_find\<close>: \<open>match_loop\<close> is the \<open>while\<close> loop (the value of \<open>j\<close> it ends with), \<open>find_loop\<close>
  the \<open>for\<close> loop with the number of iterations left.
\<close>

fun match_loop :: "bytes \<Rightarrow> nat \<Rightarrow> string \<Rightarrow> nat \<Rightarrow> nat" where
  "match_loop m i [] j = j"
| "match_loop m i (c # cs) j = (if m ! (i + j) = c then match_loop m i cs (Suc j) else j)"

fun find_loop :: "bytes \<Rightarrow> string \<Rightarrow> nat \<Rightarrow> nat \<Rightarrow> int" where
  "find_loop m s 0 i = -1"
| "find_loop m s (Suc n) i =
     (if match_loop m i s 0 = length s then int i else find_loop m s n (Suc i))"

definition buffer_find :: "buffer \<Rightarrow> string \<Rightarrow> int" where
  "buffer_find b s =
     (if length s > bf_pos b then -1
      else find_loop (block b) s (bf_pos b - length s + 1) 0)"

text \<open>A call that stores \<open>d\<close> at an offset of the block, such as \<open>recv\<close>.\<close>

definition mem_write :: "bytes \<Rightarrow> nat \<Rightarrow> bytes \<Rightarrow> bytes" where
  "mem_write m off d = take off m @ d @ drop (off + length d) m"

section \<open>The bytes in use\<close>

definition buffer_inv :: "buffer \<Rightarrow> bool" where
  "buffer_inv b \<longleftrightarrow> (\<exists>m. bf_buf b = Some m \<and> length m = bf_size b) \<and>
     bf_pos b \<le> bf_size b \<and> bf_size b < 2 ^ 63"

definition buffer_data :: "buffer \<Rightarrow> bytes" where
  "buffer_data b = take (bf_pos b) (block b)"

lemma buffer_invE:
  assumes "buffer_inv b"
  obtains m where "bf_buf b = Some m" "length m = bf_size b" "bf_pos b \<le> bf_size b"
    "bf_size b < 2 ^ 63"
  using assms by (auto simp: buffer_inv_def)

lemma length_buffer_data: "buffer_inv b \<Longrightarrow> length (buffer_data b) = bf_pos b"
  by (auto simp: buffer_inv_def buffer_data_def)

lemma init_buffer_correct:
  "length m = sz \<Longrightarrow> sz < 2 ^ 63 \<Longrightarrow>
   buffer_inv (fst (init_buffer (Some m) sz)) \<and> buffer_data (fst (init_buffer (Some m) sz)) = []"
  by (simp add: init_buffer_def buffer_inv_def buffer_data_def)

lemma reset_buffer_correct:
  "buffer_inv b \<Longrightarrow> buffer_inv (reset_buffer b) \<and> buffer_data (reset_buffer b) = []"
  by (auto simp: reset_buffer_def buffer_inv_def buffer_data_def)

lemma buffer_space_correct: "buffer_inv b \<Longrightarrow> buffer_space b = Inr (bf_size b - bf_pos b)"
  by (auto simp: buffer_space_def buffer_inv_def)

lemma buffer_start_correct: "buffer_inv b \<Longrightarrow> buffer_start b = Inr (bf_pos b)"
  by (auto simp: buffer_start_def buffer_inv_def)

lemma size_add_small: "a < 2 ^ 63 \<Longrightarrow> b < 2 ^ 63 \<Longrightarrow> size_add a b = a + b"
  by (simp add: size_add_def)

text \<open>Storing received bytes at \<open>buffer_start\<close> and shifting by their number appends them.\<close>

lemma buffer_receive:
  assumes inv: "buffer_inv b" and "length d \<le> bf_size b - bf_pos b" and "bf_buf b = Some m"
  defines "b' \<equiv> b\<lparr>bf_buf := Some (mem_write m (bf_pos b) d)\<rparr>"
  shows "buffer_shift b' (length d) =
      (b'\<lparr>bf_pos := bf_pos b + length d\<rparr>, int (bf_pos b + length d))"
    and "buffer_inv (fst (buffer_shift b' (length d)))"
    and "buffer_data (fst (buffer_shift b' (length d))) = buffer_data b @ d"
proof -
  from inv assms(3) have m: "length m = bf_size b" "bf_pos b \<le> bf_size b" "bf_size b < 2 ^ 63"
    by (auto simp: buffer_inv_def)
  have "size_add (bf_pos b) (length d) = bf_pos b + length d"
    by (rule size_add_small) (use m assms(2) in linarith)+
  with m assms(2) show 1: "buffer_shift b' (length d) =
      (b'\<lparr>bf_pos := bf_pos b + length d\<rparr>, int (bf_pos b + length d))"
    by (simp add: buffer_shift_def b'_def)
  show "buffer_inv (fst (buffer_shift b' (length d)))"
    unfolding 1 using m assms(2) by (simp add: buffer_inv_def b'_def mem_write_def)
  show "buffer_data (fst (buffer_shift b' (length d))) = buffer_data b @ d"
    unfolding 1 using m assms(2,3) by (simp add: buffer_data_def b'_def mem_write_def)
qed

lemma move_front_take:
  "len \<le> pos \<Longrightarrow> pos \<le> length m \<Longrightarrow> take (pos - len) (move_front m len pos) = drop len (take pos m)"
  by (simp add: move_front_def drop_take)

lemma length_move_front: "len \<le> pos \<Longrightarrow> pos \<le> length m \<Longrightarrow> length (move_front m len pos) = length m"
  by (simp add: move_front_def)

lemma buffer_cut_correct:
  assumes "buffer_inv b" and "al 0"
  shows "len > bf_pos b \<Longrightarrow> buffer_cut al b len = (b, None)"
    and "len \<le> bf_pos b \<Longrightarrow> \<exists>b' cut. buffer_cut al b len = (b', Some (cut @ [NUL])) \<and>
      buffer_inv b' \<and> length cut = len \<and> buffer_data b = cut @ buffer_data b'"
proof -
  show "buffer_cut al b len = (b, None)" if "len > bf_pos b"
    using that by (simp add: buffer_cut_def)
  assume len: "len \<le> bf_pos b"
  from assms(1) obtain m where m: "bf_buf b = Some m" "length m = bf_size b"
    "bf_pos b \<le> bf_size b" "bf_size b < 2 ^ 63" by (rule buffer_invE)
  let ?b' = "b\<lparr>bf_buf := Some (move_front m len (bf_pos b)), bf_pos := bf_pos b - len\<rparr>"
  have "buffer_cut al b len = (?b', Some (take len m @ [NUL]))"
    using len assms(2) m(1) by (simp add: buffer_cut_def)
  moreover have "buffer_inv ?b'"
    using len m by (simp add: buffer_inv_def length_move_front)
  moreover have "buffer_data b = take len m @ buffer_data ?b'"
    using len m append_take_drop_id [of len "take (bf_pos b) m"]
    by (simp add: buffer_data_def move_front_take min_def)
  moreover have "length (take len m) = len" using len m by simp
  ultimately show "\<exists>b' cut. buffer_cut al b len = (b', Some (cut @ [NUL])) \<and>
      buffer_inv b' \<and> length cut = len \<and> buffer_data b = cut @ buffer_data b'" by blast
qed

lemma buffer_clean_correct:
  assumes "buffer_inv b" and "len \<le> bf_pos b"
  shows "\<exists>b'. buffer_clean b len = Inr b' \<and> buffer_inv b' \<and> buffer_data b' = drop len (buffer_data b)"
  using assms
  by (elim buffer_invE)
    (simp add: buffer_clean_def buffer_inv_def length_move_front buffer_data_def move_front_take)

section \<open>The search\<close>

text \<open>\<open>s\<close> stands at position \<open>i\<close> of \<open>xs\<close>.\<close>

definition occurs_at :: "string \<Rightarrow> bytes \<Rightarrow> nat \<Rightarrow> bool" where
  "occurs_at s xs i \<longleftrightarrow> i + length s \<le> length xs \<and> take (length s) (drop i xs) = s"

lemma match_loop_full:
  "i + j + length s \<le> length m \<Longrightarrow>
   match_loop m i s j = j + length s \<longleftrightarrow> take (length s) (drop (i + j) m) = s"
proof (induction s arbitrary: j)
  case (Cons c s)
  then have "take (Suc (length s)) (drop (i + j) m) =
      m ! (i + j) # take (length s) (drop (i + Suc j) m)"
    by (simp add: Cons_nth_drop_Suc [symmetric])
  with Cons.IH [of "Suc j"] Cons.prems show ?case by auto
qed simp

lemma find_loop_correct:
  "i + n + length s \<le> length m + 1 \<Longrightarrow>
   (find_loop m s n i = -1 \<and> (\<forall>j. i \<le> j \<and> j < i + n \<longrightarrow> \<not> occurs_at s m j)) \<or>
   (\<exists>k. find_loop m s n i = int k \<and> i \<le> k \<and> k < i + n \<and> occurs_at s m k \<and>
      (\<forall>j. i \<le> j \<and> j < k \<longrightarrow> \<not> occurs_at s m j))"
proof (induction n arbitrary: i)
  case (Suc n)
  then have *: "match_loop m i s 0 = length s \<longleftrightarrow> occurs_at s m i"
    using match_loop_full [of i 0 s m] by (simp add: occurs_at_def)
  show ?case
  proof (cases "occurs_at s m i")
    case True
    with * show ?thesis by auto
  next
    case False
    with * have "find_loop m s (Suc n) i = find_loop m s n (Suc i)" by simp
    moreover have "i \<le> j \<longleftrightarrow> j = i \<or> Suc i \<le> j" for j by auto
    ultimately show ?thesis using Suc.IH [of "Suc i"] Suc.prems False by fastforce
  qed
qed auto

lemma occurs_at_take:
  "occurs_at s (take n m) i \<longleftrightarrow> i + length s \<le> n \<and> occurs_at s m i"
  by (auto simp: occurs_at_def drop_take min_def split: if_splits)

text \<open>The result is \<open>-1\<close> when the string is nowhere in the data, else its first position.\<close>

lemma buffer_find_correct:
  assumes "buffer_inv b"
  shows "(buffer_find b s = -1 \<and> (\<forall>j. \<not> occurs_at s (buffer_data b) j)) \<or>
    (\<exists>k. buffer_find b s = int k \<and> occurs_at s (buffer_data b) k \<and>
      (\<forall>j < k. \<not> occurs_at s (buffer_data b) j))"
proof (cases "length s > bf_pos b")
  case True
  then show ?thesis
    using length_buffer_data [OF assms] by (simp add: buffer_find_def occurs_at_def)
next
  case False
  from assms obtain m where m: "bf_buf b = Some m" "length m = bf_size b"
    "bf_pos b \<le> bf_size b" "bf_size b < 2 ^ 63" by (rule buffer_invE)
  have "0 + (bf_pos b - length s + 1) + length s \<le> length m + 1" using False m by simp
  note find_loop_correct [OF this]
  moreover have "buffer_find b s = find_loop m s (bf_pos b - length s + 1) 0"
    using False m by (simp add: buffer_find_def)
  moreover have "occurs_at s (buffer_data b) j \<longleftrightarrow>
      j < bf_pos b - length s + 1 \<and> occurs_at s m j" for j
    using False m by (auto simp: buffer_data_def occurs_at_take)
  ultimately show ?thesis by auto
qed

lemma buffer_find_Some:
  assumes "buffer_inv b" and "buffer_find b s \<noteq> -1"
  obtains k where "buffer_find b s = int k" "occurs_at s (buffer_data b) k"
    "\<forall>j < k. \<not> occurs_at s (buffer_data b) j" "k + length s \<le> bf_pos b"
  using buffer_find_correct [OF assms(1), of s] assms(2) length_buffer_data [OF assms(1)]
  by (auto simp: occurs_at_def)

lemma buffer_find_None:
  "buffer_inv b \<Longrightarrow> buffer_find b s = -1 \<Longrightarrow> \<not> occurs_at s (buffer_data b) j"
  using buffer_find_correct [of b s] by auto

lemma buffer_find_iff:
  assumes "buffer_inv b"
  shows "(buffer_find b s = -1 \<longleftrightarrow> (\<forall>j. \<not> occurs_at s (buffer_data b) j)) \<and>
    (\<forall>k. buffer_find b s = int k \<longleftrightarrow>
       occurs_at s (buffer_data b) k \<and> (\<forall>j < k. \<not> occurs_at s (buffer_data b) j))"
proof -
  consider "buffer_find b s = -1" "\<forall>j. \<not> occurs_at s (buffer_data b) j"
    | k where "buffer_find b s = int k" "occurs_at s (buffer_data b) k"
        "\<forall>j < k. \<not> occurs_at s (buffer_data b) j"
    using buffer_find_correct [OF assms] by blast
  then show ?thesis
  proof cases
    case 1
    then show ?thesis by auto
  next
    case (2 k)
    then have "occurs_at s (buffer_data b) k' \<and> (\<forall>j < k'. \<not> occurs_at s (buffer_data b) j) \<longleftrightarrow> k' = k"
      for k' by (cases k' k rule: linorder_cases) blast+
    moreover have "\<not> (\<forall>j. \<not> occurs_at s (buffer_data b) j)" using 2(2) by blast
    ultimately show ?thesis using 2(1) by auto
  qed
qed

end
