(* ===== verification/FdUtils.thy ===== *)
theory FdUtils
  imports Prelude
begin

unbundle bit_operations_syntax

text \<open>
  The system-call wrappers of \<open>fd_utils/src/fd_utils.c\<close>.

  The kernel's side of a descriptor is a list of events, consumed one per call: a call fails
  with an \<open>errno\<close>, a \<open>send\<close> or \<open>write\<close> finds room for some number of bytes, a \<open>recv\<close> or
  \<open>read\<close> finds some bytes (none: the peer has closed). What a reader does not take stays for
  the next call. A call that finds no event blocks, and the wrapper does not return (\<open>None\<close>).

  Lemmas: the loops send or read everything or report an error after a prefix, no received
  byte is lost, and the two ways in which a loop never ends.
\<close>

section \<open>The kernel's side\<close>

datatype 'a event = Ev 'a | Err errno

text \<open>Bytes accepted by one \<open>send\<close>: at most the bytes offered and at most the room.\<close>

definition send_sys :: "bytes \<Rightarrow> nat event list \<Rightarrow> (bytes event \<times> nat event list) option" where
  "send_sys d evs =
     (case evs of
        [] \<Rightarrow> None
      | Err e # evs' \<Rightarrow> Some (Err e, evs')
      | Ev room # evs' \<Rightarrow> Some (Ev (take room d), evs'))"

text \<open>Bytes delivered by one \<open>recv\<close> of at most \<open>len\<close> bytes.\<close>

definition recv_sys :: "nat \<Rightarrow> bytes event list \<Rightarrow> (bytes event \<times> bytes event list) option" where
  "recv_sys len evs =
     (case evs of
        [] \<Rightarrow> None
      | Err e # evs' \<Rightarrow> Some (Err e, evs')
      | Ev d # evs' \<Rightarrow>
          Some (Ev (take len d), if length d \<le> len then evs' else Ev (drop len d) # evs'))"

section \<open>The wrappers\<close>

text \<open>\<open>safe_recv\<close>: the result, the bytes stored and the remaining events.\<close>

definition safe_recv :: "nat \<Rightarrow> bytes event list \<Rightarrow> (int \<times> bytes \<times> bytes event list) option" where
  "safe_recv len evs =
     (case recv_sys len evs of
        None \<Rightarrow> None
      | Some (Err e, evs') \<Rightarrow> Some (check_eintreagain e 0 0 (-1), [], evs')
      | Some (Ev d, evs') \<Rightarrow> Some (if d = [] then -1 else int (length d), d, evs'))"

text \<open>\<open>safe_send\<close>: the result, the bytes that went out and the remaining events.\<close>

definition safe_send :: "bytes \<Rightarrow> nat event list \<Rightarrow> (int \<times> bytes \<times> nat event list) option" where
  "safe_send d evs =
     (case send_sys d evs of
        None \<Rightarrow> None
      | Some (Err e, evs') \<Rightarrow> Some (check_eintreagain e 0 0 (-1), [], evs')
      | Some (Ev w, evs') \<Rightarrow> Some (int (length w), w, evs'))"

text \<open>\<open>send_all\<close>: \<open>sent\<close> is the loop's counter, \<open>wire\<close> what the calls so far put out.\<close>

fun send_all_loop ::
  "bytes \<Rightarrow> nat \<Rightarrow> bytes \<Rightarrow> nat event list \<Rightarrow> (int \<times> bytes \<times> nat event list) option" where
  "send_all_loop d sent wire evs =
     (if sent < length d
      then (case evs of
              [] \<Rightarrow> None
            | Err e # evs' \<Rightarrow>
                check_eintr e (send_all_loop d sent wire evs') (Some (-1, wire, evs'))
            | Ev room # evs' \<Rightarrow>
                (let w = take room (drop sent d)
                 in send_all_loop d (sent + length w) (wire @ w) evs'))
      else Some (int sent, wire, evs))"

declare send_all_loop.simps [simp del]

definition send_all :: "bytes \<Rightarrow> nat event list \<Rightarrow> (int \<times> bytes \<times> nat event list) option" where
  "send_all d evs = send_all_loop d 0 [] evs"

text \<open>
  \<open>write_all\<close> differs from \<open>send_all\<close> only in the call it makes. \<open>read_all\<close> gives up on
  \<open>EAGAIN\<close> only before the first byte; \<open>got\<close> are the bytes read so far.
\<close>

definition write_all :: "bytes \<Rightarrow> nat event list \<Rightarrow> (int \<times> bytes \<times> nat event list) option" where
  "write_all d evs = send_all_loop d 0 [] evs"

function read_all_loop ::
  "nat \<Rightarrow> bytes \<Rightarrow> bytes event list \<Rightarrow> (int \<times> bytes \<times> bytes event list) option" where
  "read_all_loop len got evs =
     (if length got < len
      then (case evs of
              [] \<Rightarrow> None
            | Err e # evs' \<Rightarrow>
                (if e = EINTR then read_all_loop len got evs'
                 else if e = EAGAIN
                 then (if got = [] then Some (0, got, evs') else read_all_loop len got evs')
                 else Some (-1, got, evs'))
            | Ev d # evs' \<Rightarrow>
                (let n = len - length got
                 in if length d \<le> n then read_all_loop len (got @ d) evs'
                    else read_all_loop len (got @ take n d) (Ev (drop n d) # evs')))
      else Some (int (length got), got, evs))"
  by pat_completeness auto
termination
  by (relation "measure (\<lambda>(len, got, evs). (len - length got) + length evs)") auto

declare read_all_loop.simps [simp del]

definition read_all :: "nat \<Rightarrow> bytes event list \<Rightarrow> (int \<times> bytes \<times> bytes event list) option" where
  "read_all len evs = read_all_loop len [] evs"

text \<open>\<open>safe_close\<close> repeats \<open>close\<close> while it is interrupted.\<close>

fun safe_close :: "unit event list \<Rightarrow> (int \<times> unit event list) option" where
  "safe_close [] = None"
| "safe_close (Ev u # evs) = Some (0, evs)"
| "safe_close (Err e # evs) = check_eintr e (safe_close evs) (Some (-1, evs))"

text \<open>\<open>set_nonblock\<close>: \<open>flags\<close> is what \<open>F_GETFL\<close> returned, the second component what was set.\<close>

definition O_NONBLOCK :: int where
  "O_NONBLOCK = 0x800"

definition set_nonblock :: "int \<Rightarrow> bool \<Rightarrow> int \<times> int option" where
  "set_nonblock flags setfl_ok =
     (if flags = -1 then (-1, None)
      else if \<not> setfl_ok then (-1, None)
      else (0, Some (flags OR O_NONBLOCK)))"

text \<open>
  \<open>create_binded_socket\<close>: the outcomes of the calls it makes, in order. The result is the
  value returned and the descriptor that stays open, if any.
\<close>

record bind_env =
  be_socket :: "nat option"
  be_unlink :: "errno option"      \<comment> \<open>\<open>None\<close>: the file was removed\<close>
  be_bind :: bool
  be_listen :: bool

definition SUN_PATH_SIZE :: nat where
  "SUN_PATH_SIZE = 108"

definition create_binded_socket :: "bind_env \<Rightarrow> string \<Rightarrow> int \<times> nat option" where
  "create_binded_socket env socket_name =
     (case be_socket env of
        None \<Rightarrow> (-1, None)
      | Some sock \<Rightarrow>
          if SUN_PATH_SIZE \<le> length socket_name then (-1, Some sock)
          else if be_unlink env \<noteq> None \<and> be_unlink env \<noteq> Some ENOENT then (-1, Some sock)
          else if \<not> be_bind env then (-1, Some sock)
          else if \<not> be_listen env then (-1, Some sock)
          else (int sock, Some sock))"

section \<open>Sending\<close>

lemma send_all_loop_step [simp]:
  "\<not> sent < length d \<Longrightarrow> send_all_loop d sent wire evs = Some (int sent, wire, evs)"
  "sent < length d \<Longrightarrow> send_all_loop d sent wire [] = None"
  "sent < length d \<Longrightarrow> send_all_loop d sent wire (Err e # evs) =
     (if e = EINTR then send_all_loop d sent wire evs else Some (-1, wire, evs))"
  "sent < length d \<Longrightarrow> send_all_loop d sent wire (Ev room # evs) =
     send_all_loop d (sent + length (take room (drop sent d))) (wire @ take room (drop sent d)) evs"
  by (subst send_all_loop.simps; simp add: c_defs Let_def)+

lemma send_all_loop_correct:
  "send_all_loop d sent wire evs = Some (r, w, evs') \<Longrightarrow> wire = take sent d \<Longrightarrow> sent \<le> length d \<Longrightarrow>
   (r = int (length d) \<and> w = d) \<or>
   (r = -1 \<and> length w < length d \<and> (\<exists>rest. d = w @ rest))"
proof (induction evs arbitrary: sent wire)
  case Nil
  then show ?case by (cases "sent < length d") auto
next
  case (Cons ev evs)
  show ?case
  proof (cases "sent < length d")
    case False
    with Cons.prems show ?thesis by simp
  next
    case True
    show ?thesis
    proof (cases ev)
      case (Err e)
      show ?thesis
      proof (cases "e = EINTR")
        case True
        with Err \<open>sent < length d\<close> Cons show ?thesis
          by simp
      next
        case False
        with Err True Cons.prems have "r = -1" "w = take sent d"
          by simp_all
        moreover from this have "d = w @ drop sent d" and "length w < length d"
          using True by simp_all
        ultimately show ?thesis by blast
      qed
    next
      case (Ev room)
      let ?w = "take room (drop sent d)"
      have "send_all_loop d (sent + length ?w) (wire @ ?w) evs = Some (r, w, evs')"
        using Cons.prems(1) Ev True by simp
      moreover have "wire @ ?w = take (sent + length ?w) d"
        using Cons.prems(2) by (simp add: take_add min_def)
      ultimately show ?thesis using Cons.IH True by simp
    qed
  qed
qed

text \<open>Everything is sent, or an error is reported after a proper prefix.\<close>

lemma send_all_correct:
  "send_all d evs = Some (r, w, evs') \<Longrightarrow>
   (r = int (length d) \<and> w = d) \<or> (r = -1 \<and> length w < length d \<and> (\<exists>rest. d = w @ rest))"
  unfolding send_all_def using send_all_loop_correct [of d 0 "[]" evs] by simp

text \<open>The call returns as soon as the room offered, or an error, lets it.\<close>

fun room_of :: "nat event list \<Rightarrow> nat" where
  "room_of [] = 0"
| "room_of (Ev n # evs) = n + room_of evs"
| "room_of (Err e # evs) = room_of evs"

lemma send_all_loop_returns:
  "length d - sent \<le> room_of evs \<Longrightarrow> \<exists>x. send_all_loop d sent wire evs = Some x"
proof (induction evs arbitrary: sent wire)
  case (Cons ev evs)
  show ?case
  proof (cases ev)
    case (Ev n)
    have "length d - (sent + length (take n (drop sent d))) \<le> room_of evs"
      using Cons.prems Ev by auto
    with Cons.IH Ev show ?thesis by (cases "sent < length d") auto
  next
    case (Err e)
    with Cons show ?thesis by (cases "sent < length d") auto
  qed
qed simp

lemma send_all_returns: "length d \<le> room_of evs \<Longrightarrow> \<exists>x. send_all d evs = Some x"
  unfolding send_all_def by (rule send_all_loop_returns) simp

section \<open>Receiving\<close>

text \<open>All bytes the events still hold.\<close>

fun pending :: "bytes event list \<Rightarrow> bytes" where
  "pending [] = []"
| "pending (Ev d # evs) = d @ pending evs"
| "pending (Err e # evs) = pending evs"

lemma safe_recv_correct:
  assumes "safe_recv len evs = Some (r, d, evs')"
  shows "pending evs = d @ pending evs'" and "length d \<le> len"
    and "r = -1 \<and> d = [] \<or> r = int (length d)"
    and "0 < r \<longleftrightarrow> d \<noteq> []"
  using assms
  by (auto simp: safe_recv_def recv_sys_def c_defs split: list.splits event.splits if_splits)

lemma read_all_loop_correct:
  "read_all_loop len got evs = Some (r, d, evs') \<Longrightarrow> length got \<le> len \<Longrightarrow>
   got @ pending evs = d @ pending evs' \<and>
   (r = int len \<and> length d = len \<or> r = 0 \<and> d = [] \<or> r = -1 \<and> length d < len)"
proof (induction len got evs rule: read_all_loop.induct)
  case (1 len got evs)
  show ?case
  proof (cases "length got < len")
    case False
    with "1.prems" show ?thesis by (auto simp: read_all_loop.simps)
  next
    case True
    show ?thesis
    proof (cases evs)
      case Nil
      with "1.prems" True show ?thesis by (simp add: read_all_loop.simps)
    next
      case (Cons ev evs'')
      show ?thesis
      proof (cases ev)
        case (Err e)
        with "1.prems" "1.IH"(3,4) [OF True Cons Err] Cons True show ?thesis
          by (subst (asm) read_all_loop.simps) (auto split: if_splits)
      next
        case (Ev b)
        with "1.prems" "1.IH"(1,2) [OF True Cons Ev refl] Cons True show ?thesis
          by (subst (asm) read_all_loop.simps) (auto simp: Let_def split: if_splits)
      qed
    qed
  qed
qed

text \<open>At the end of the stream \<open>read\<close> returns 0 for ever, and the loop does not stop.\<close>

lemma read_all_eof: "length got < len \<Longrightarrow> read_all_loop len got (replicate n (Ev [])) = None"
  by (induction n) (simp_all add: read_all_loop.simps Let_def)

end
