(* ===== verification/Telnet.thy ===== *)
theory Telnet
  imports Buffer FdUtils
begin

text \<open>
  Line-oriented exchange over a socket: \<open>telnet_utils/src/telnet_io.c\<close>, \<open>telnet_msg.h\<close> and the
  command-line client \<open>telnet_client/src/main.c\<close> that uses it.

  Lemmas: \<open>recv_until\<close> returns the length of the shortest prefix that ends with the separator
  and loses no byte of the stream; it always returns when the stream holds the separator or
  more than the buffer can take; \<open>strip_telnet_cmd\<close> undoes the suffix.
\<close>

section \<open>Telnet input and output\<close>

definition TELNET_SUFFIX :: string where
  "TELNET_SUFFIX = [CR, LF]"

definition TELNET_SUFFIX_LEN :: nat where
  "TELNET_SUFFIX_LEN = 2"

text \<open>
  \<open>safe_recv(sockfd, buffer_start(buf), spc)\<close> followed by \<open>buffer_shift\<close>, whose result the code
  does not look at.
\<close>

definition store_received :: "buffer \<Rightarrow> nat \<Rightarrow> bytes \<Rightarrow> buffer" where
  "store_received b off d =
     fst (buffer_shift (b\<lparr>bf_buf := map_option (\<lambda>m. mem_write m off d) (bf_buf b)\<rparr>) (length d))"

function recv_until ::
  "buffer \<Rightarrow> string \<Rightarrow> bytes event list \<Rightarrow> (int \<times> buffer \<times> bytes event list) res option" where
  "recv_until b sep evs =
     (let pos = buffer_find b sep in
      if pos \<noteq> -1 then Some (Inr (pos + int (length sep), b, evs))
      else case buffer_space b of
        Inl e \<Rightarrow> Some (Inl e)
      | Inr spc \<Rightarrow>
          if spc = 0 then Some (Inr (0, b, evs))
          else case buffer_start b of
            Inl e \<Rightarrow> Some (Inl e)
          | Inr off \<Rightarrow>
             (case safe_recv spc evs of
                None \<Rightarrow> None
              | Some (len, d, evs') \<Rightarrow>
                  if len < 0 then Some (Inr (-1, b, evs'))
                  else recv_until (store_received b off d) sep evs'))"
  by pat_completeness auto

fun event_weight :: "bytes event list \<Rightarrow> nat" where
  "event_weight [] = 0"
| "event_weight (Ev d # evs) = 1 + length d + event_weight evs"
| "event_weight (Err e # evs) = 1 + event_weight evs"

lemma safe_recv_weight:
  "0 < spc \<Longrightarrow> safe_recv spc evs = Some (len, d, evs') \<Longrightarrow> event_weight evs' < event_weight evs"
  by (auto simp: safe_recv_def recv_sys_def split: list.splits event.splits if_splits)

termination recv_until
proof (relation "measure (\<lambda>(b, sep, evs). event_weight evs)", goal_cases)
  case (2 b sep evs pos spc off x len y d evs')
  then show ?case using safe_recv_weight [of spc evs len d evs'] by auto
qed simp

declare recv_until.simps [simp del]

definition send_wsuffix ::
  "string option \<Rightarrow> string \<Rightarrow> nat event list \<Rightarrow> (int \<times> bytes \<times> nat event list) option" where
  "send_wsuffix line suffix evs =
     (case (case line of None \<Rightarrow> Some (0, [], evs) | Some l \<Rightarrow> send_all l evs) of
        None \<Rightarrow> None
      | Some (nsent1, w1, evs1) \<Rightarrow>
          if nsent1 = -1 then Some (-1, w1, evs1)
          else
            (case send_all suffix evs1 of
               None \<Rightarrow> None
             | Some (nsent2, w2, evs2) \<Rightarrow>
                 if nsent2 = -1 then Some (-1, w1 @ w2, evs2)
                 else Some (nsent1 + nsent2, w1 @ w2, evs2)))"

text \<open>\<open>strip_telnet_cmd\<close>: the result and the string afterwards.\<close>

definition strip_telnet_cmd :: "string \<Rightarrow> int \<times> string" where
  "strip_telnet_cmd cmd =
     (let len = length cmd in
      if len < TELNET_SUFFIX_LEN then (-1, cmd)
      else if strcmp (drop (len - TELNET_SUFFIX_LEN) cmd) TELNET_SUFFIX \<noteq> 0 then (-1, cmd)
      else (0, take (len - TELNET_SUFFIX_LEN) cmd))"

section \<open>The telnet client\<close>

text \<open>
  One turn of the client's loop on the line that \<open>fgets\<close> read. \<open>Quit r\<close> leaves the loop with
  that result, \<open>Shown s\<close> goes on after printing \<open>s\<close>. The answer is cut at the length of the
  request line, and the terminator is written three bytes before its end.
\<close>

datatype client_turn = Quit int | Shown string

definition chomp :: "string \<Rightarrow> string" where
  "chomp req = (if req \<noteq> [] \<and> last req = LF then butlast req else req)"

definition client_step ::
  "alloc \<Rightarrow> buffer \<Rightarrow> string \<Rightarrow> nat event list \<Rightarrow> bytes event list \<Rightarrow>
   (client_turn \<times> bytes \<times> buffer \<times> bytes event list) res option" where
  "client_step al answer line sevs revs =
     (let len = length line; req = chomp line in
      if req = [CHR 0x5C, CHR 0x71] then Some (Inr (Quit 0, [], answer, revs))
      else
        (case send_all (req @ TELNET_SUFFIX) sevs of
           None \<Rightarrow> None
         | Some (n, wire, sevs') \<Rightarrow>
             if n = -1 then Some (Inr (Quit (-1), wire, answer, revs))
             else
               (case recv_until answer TELNET_SUFFIX revs of
                  None \<Rightarrow> None
                | Some (Inl e) \<Rightarrow> Some (Inl e)
                | Some (Inr (nrecv, answer', revs')) \<Rightarrow>
                    if nrecv < 0 then Some (Inr (Quit (-1), wire, answer', revs'))
                    else
                      (case buffer_cut al answer' len of
                         (b, None) \<Rightarrow> Some (Inr (Quit (-1), wire, b, revs'))
                       | (b, Some ans) \<Rightarrow>
                           if len < 1 + TELNET_SUFFIX_LEN then Some (Inl Out_of_bounds)
                           else Some (Inr (Shown (cstr (ans[len - 1 - TELNET_SUFFIX_LEN := NUL])),
                                           wire, b, revs'))))))"

section \<open>Receiving up to a separator\<close>

lemma store_received_correct:
  assumes "buffer_inv b" and "length d \<le> bf_size b - bf_pos b"
  shows "buffer_inv (store_received b (bf_pos b) d)"
    and "buffer_data (store_received b (bf_pos b) d) = buffer_data b @ d"
    and "bf_size (store_received b (bf_pos b) d) = bf_size b"
proof -
  from assms(1) obtain m where m: "bf_buf b = Some m" by (rule buffer_invE)
  note R = buffer_receive [OF assms m]
  show "buffer_inv (store_received b (bf_pos b) d)"
    using R(2) m by (simp add: store_received_def)
  show "buffer_data (store_received b (bf_pos b) d) = buffer_data b @ d"
    using R(3) m by (simp add: store_received_def)
  show "bf_size (store_received b (bf_pos b) d) = bf_size b"
    using R(1) m by (simp add: store_received_def)
qed

text \<open>What the result of \<open>recv_until\<close> says of the buffer it leaves.\<close>

definition recv_until_post :: "buffer \<Rightarrow> string \<Rightarrow> int \<Rightarrow> buffer \<Rightarrow> bool" where
  "recv_until_post b sep r b' \<longleftrightarrow>
     (\<exists>k. r = int (k + length sep) \<and> occurs_at sep (buffer_data b') k \<and>
        (\<forall>j < k. \<not> occurs_at sep (buffer_data b') j)) \<or>
     (r = 0 \<and> bf_pos b' = bf_size b \<and> (\<forall>j. \<not> occurs_at sep (buffer_data b') j)) \<or>
     (r = -1 \<and> (\<forall>j. \<not> occurs_at sep (buffer_data b') j))"

lemma recv_until_step:
  assumes "buffer_inv b"
  shows "recv_until b sep evs =
    (if buffer_find b sep \<noteq> -1 then Some (Inr (buffer_find b sep + int (length sep), b, evs))
     else if bf_pos b = bf_size b then Some (Inr (0, b, evs))
     else (case safe_recv (bf_size b - bf_pos b) evs of
             None \<Rightarrow> None
           | Some (len, d, evs') \<Rightarrow>
               if len < 0 then Some (Inr (-1, b, evs'))
               else recv_until (store_received b (bf_pos b) d) sep evs'))"
proof -
  have "bf_pos b \<le> bf_size b" using assms by (auto simp: buffer_inv_def)
  then show ?thesis
    by (subst recv_until.simps)
      (auto simp: buffer_space_correct [OF assms] buffer_start_correct [OF assms] Let_def)
qed

lemma recv_until_correct:
  "buffer_inv b \<Longrightarrow> recv_until b sep evs = Some res \<Longrightarrow>
   \<exists>r b' evs'. res = Inr (r, b', evs') \<and> buffer_inv b' \<and> bf_size b' = bf_size b \<and>
     buffer_data b @ pending evs = buffer_data b' @ pending evs' \<and> recv_until_post b sep r b'"
proof (induction "event_weight evs" arbitrary: b evs rule: less_induct)
  case less
  note inv = \<open>buffer_inv b\<close>
  note step = less.prems(2) [unfolded recv_until_step [OF inv]]
  show ?case
  proof (cases "buffer_find b sep = -1")
    case False
    then obtain k where "buffer_find b sep = int k" "occurs_at sep (buffer_data b) k"
      "\<forall>j < k. \<not> occurs_at sep (buffer_data b) j"
      using buffer_find_Some [OF inv] by metis
    with step False inv show ?thesis by (auto simp: recv_until_post_def)
  next
    case True
    note absent = buffer_find_None [OF inv True]
    show ?thesis
    proof (cases "bf_pos b = bf_size b")
      case full: True
      with step True absent inv show ?thesis by (auto simp: recv_until_post_def)
    next
      case False
      with step True obtain len d evs' where
        recv: "safe_recv (bf_size b - bf_pos b) evs = Some (len, d, evs')"
        and rest: "(if len < 0 then Some (Inr (-1, b, evs'))
          else recv_until (store_received b (bf_pos b) d) sep evs') = Some res"
        by (auto split: option.splits)
      note R = safe_recv_correct [OF recv]
      show ?thesis
      proof (cases "len < 0")
        case True
        with rest R absent inv show ?thesis by (auto simp: recv_until_post_def)
      next
        case ge: False
        have lt: "event_weight evs' < event_weight evs"
          using False inv safe_recv_weight [OF _ recv]
          by (auto simp: buffer_inv_def)
        note S = store_received_correct [OF inv R(2)]
        from less.hyps [OF lt S(1)] rest ge obtain r b' evs'' where
          "res = Inr (r, b', evs'')" "buffer_inv b'" "bf_size b' = bf_size b"
          "buffer_data b @ d @ pending evs' = buffer_data b' @ pending evs''"
          "recv_until_post (store_received b (bf_pos b) d) sep r b'"
          by (auto simp: S(2,3))
        with R(1) show ?thesis by (auto simp: recv_until_post_def S(3))
      qed
    qed
  qed
qed

text \<open>It blocks only when all pending bytes fit and hold no separator.\<close>

lemma recv_until_blocks:
  "buffer_inv b \<Longrightarrow> recv_until b sep evs = None \<Longrightarrow>
   length (buffer_data b @ pending evs) < bf_size b \<and>
   (\<forall>j. \<not> occurs_at sep (buffer_data b @ pending evs) j)"
proof (induction "event_weight evs" arbitrary: b evs rule: less_induct)
  case less
  note inv = \<open>buffer_inv b\<close>
  note step = less.prems(2) [unfolded recv_until_step [OF inv]]
  from step have find: "buffer_find b sep = -1" and ne: "bf_pos b \<noteq> bf_size b"
    by (auto split: if_splits)
  show ?case
  proof (cases "safe_recv (bf_size b - bf_pos b) evs")
    case None
    then have "evs = []" by (auto simp: safe_recv_def recv_sys_def split: list.splits event.splits)
    with ne inv show ?thesis
      using buffer_find_None [OF inv find] length_buffer_data [OF inv]
      by (auto simp: buffer_inv_def)
  next
    case (Some a)
    obtain len d evs' where recv: "safe_recv (bf_size b - bf_pos b) evs = Some (len, d, evs')"
      using Some by (cases a) auto
    with step find ne have rest: "recv_until (store_received b (bf_pos b) d) sep evs' = None"
      by (auto split: if_splits)
    note R = safe_recv_correct [OF recv]
    have lt: "event_weight evs' < event_weight evs"
      using ne inv safe_recv_weight [OF _ recv]
      by (auto simp: buffer_inv_def)
    note S = store_received_correct [OF inv R(2)]
    from less.hyps [OF lt S(1) rest] show ?thesis by (simp add: S(2,3) R(1))
  qed
qed

section \<open>Suffixes\<close>

lemma strip_telnet_cmd_correct:
  "strip_telnet_cmd cmd = (r, cmd') \<Longrightarrow>
   (r = 0 \<and> cmd = cmd' @ TELNET_SUFFIX) \<or>
   (r = -1 \<and> cmd' = cmd \<and> (\<nexists>s. cmd = s @ TELNET_SUFFIX))"
proof -
  assume r: "strip_telnet_cmd cmd = (r, cmd')"
  have 1: "cmd = take (length cmd - 2) cmd @ TELNET_SUFFIX"
    if "drop (length cmd - 2) cmd = TELNET_SUFFIX"
    using append_take_drop_id [of "length cmd - 2" cmd] that by simp
  have 2: "\<not> length cmd < 2 \<and> drop (length cmd - 2) cmd = TELNET_SUFFIX" if "cmd = s @ TELNET_SUFFIX" for s
    using that by (simp add: TELNET_SUFFIX_def)
  from r 1 2 show ?thesis
    by (auto simp: strip_telnet_cmd_def TELNET_SUFFIX_LEN_def Let_def split: if_splits)
qed

lemma strip_telnet_cmd_suffix: "strip_telnet_cmd (s @ TELNET_SUFFIX) = (0, s)"
  by (simp add: strip_telnet_cmd_def TELNET_SUFFIX_LEN_def TELNET_SUFFIX_def)

lemma send_wsuffix_correct:
  "send_wsuffix line suffix evs = Some (r, w, evs') \<Longrightarrow>
   (r = int (length w) \<and> w = (case line of None \<Rightarrow> [] | Some l \<Rightarrow> l) @ suffix) \<or>
   (r = -1 \<and> (\<exists>rest. (case line of None \<Rightarrow> [] | Some l \<Rightarrow> l) @ suffix = w @ rest))"
  by (auto simp: send_wsuffix_def split: option.splits if_splits
    dest!: send_all_correct)

end
