(* ===== verification/Cmds.thy ===== *)
theory Cmds
  imports DbLock Telnet
begin

text \<open>
  The command interpreter \<open>server_lib/src/cmds.c\<close>, a client connection
  (\<open>server_lib/src/cnct.c\<close>, \<open>cnct.h\<close>) and the exchange of one command over it
  (\<open>server_lib/src/cnct_io.c\<close>), for any database behind \<open>struct vdb\<close>.

  The mutex of a connection makes each of its operations atomic; \<open>fatal\<close> on its calls is not
  modelled. A connection of the polling server reads its descriptor from its \<open>pollfd\<close> slot.

  Lemmas: what each command does to the stored map, in terms of \<open>vdb_contract\<close>; the states of
  a connection with unanswered requests; and what one call of \<open>process_cnct\<close> does with the
  bytes received.
\<close>

section \<open>Commands\<close>

text \<open>
  \<open>notify\<close> is \<open>arg->before_async_get\<close> on the connection \<open>c\<close> (\<open>None\<close> for a NULL pointer). The
  result: database, connection, answer or NULL, \<open>*to_send\<close>, calls of the result callback.
\<close>

definition process_cmd ::
  "alloc \<Rightarrow> ('d, 'arg) vdb \<Rightarrow> 'd \<Rightarrow> ('c \<Rightarrow> 'c res) option \<Rightarrow> 'c \<Rightarrow> 'arg \<Rightarrow> string \<Rightarrow>
   ('d \<times> 'c \<times> string option \<times> bool \<times> 'arg db_result list) res" where
  "process_cmd al ops db notify c arg request =
     (case request of
        [] \<Rightarrow> Inr (db, c, None, True, [])
      | x # key \<Rightarrow>
          if x = CHR ''='' then
            (case split_at CHR '' '' request of
               None \<Rightarrow> Inr (db, c, None, True, [])
             | Some (pre, value) \<Rightarrow>
                 bind_res (vdb_set ops al db (drop 1 pre) (Some value)) (\<lambda>(db', r).
                   Inr (db', c, None, True, [])))
          else if x = CHR ''?'' then
            (if \<not> vdb_async_result ops then
               (case vdb_get ops of
                  None \<Rightarrow> Inl Assert_failed
                | Some get \<Rightarrow> bind_res (get al db key) (\<lambda>value. Inr (db, c, value, True, [])))
             else
               (case vdb_geta ops of
                  None \<Rightarrow> Inl Assert_failed
                | Some geta \<Rightarrow>
                    bind_res (case notify of None \<Rightarrow> Inr c | Some f \<Rightarrow> f c) (\<lambda>c'.
                      bind_res (geta al db key arg) (\<lambda>(db', results, r).
                        Inr (db', c', None, False, results)))))
          else if x = CHR ''-'' then
            bind_res (vdb_set ops al db key None) (\<lambda>(db', r). Inr (db', c, None, True, []))
          else Inr (db, c, None, True, []))"

section \<open>Connections\<close>

datatype cnct_state = CNCT_SHUT | CNCT_OPEN | CNCT_WAIT

record cnct =
  ct_fd :: int
  ct_pollfd :: "nat option"     \<comment> \<open>the slot \<open>pollfd\<close> points to\<close>
  ct_buf :: buffer
  ct_queue_cnt :: int
  ct_state :: cnct_state

text \<open>\<open>fds\<close> are the descriptors in the server's \<open>pollfd\<close> array.\<close>

definition cnct_fd :: "int list \<Rightarrow> cnct \<Rightarrow> int" where
  "cnct_fd fds c = (case ct_pollfd c of Some i \<Rightarrow> fds ! i | None \<Rightarrow> ct_fd c)"

definition state_of_fd :: "int \<Rightarrow> cnct_state" where
  "state_of_fd fd = (if fd < 0 then CNCT_SHUT else CNCT_OPEN)"

definition reset_fd_cnct :: "cnct \<Rightarrow> int \<Rightarrow> cnct res" where
  "reset_fd_cnct c fd =
     (if ct_pollfd c \<noteq> None then Inl Assert_failed
      else Inr (c\<lparr>ct_fd := fd, ct_queue_cnt := 0, ct_state := state_of_fd fd,
                  ct_buf := reset_buffer (ct_buf c)\<rparr>))"

definition reset_poll_cnct :: "int list \<Rightarrow> cnct \<Rightarrow> cnct" where
  "reset_poll_cnct fds c =
     c\<lparr>ct_queue_cnt := 0, ct_state := state_of_fd (cnct_fd fds c), ct_buf := reset_buffer (ct_buf c)\<rparr>"

definition CNCT_BUF_SIZE :: nat where
  "CNCT_BUF_SIZE = 128 * 1024"

text \<open>
  \<open>init_fd_cnct\<close>: \<open>mutex_ok\<close> is the outcome of \<open>pthread_mutex_init\<close>, \<open>mem\<close> the block for the
  buffer, \<open>c0\<close> the uninitialised structure. The second component tells whether the mutex is
  left initialised, the third is the value returned.
\<close>

definition init_fd_cnct :: "bool \<Rightarrow> bytes option \<Rightarrow> cnct \<Rightarrow> int \<Rightarrow> (cnct \<times> bool \<times> int) res" where
  "init_fd_cnct mutex_ok mem c0 fd =
     (if \<not> mutex_ok then Inr (c0, False, -1)
      else
        (let (b, r) = init_buffer mem CNCT_BUF_SIZE in
         if r \<noteq> 0 then Inr (c0\<lparr>ct_buf := b\<rparr>, False, -1)
         else bind_res (reset_fd_cnct (c0\<lparr>ct_buf := b, ct_pollfd := None\<rparr>) fd)
                (\<lambda>c. Inr (c, True, 0))))"

definition init_poll_cnct ::
  "bool \<Rightarrow> bytes option \<Rightarrow> cnct \<Rightarrow> int list \<Rightarrow> nat \<Rightarrow> (cnct \<times> bool \<times> int) res" where
  "init_poll_cnct mutex_ok mem c0 fds slot =
     bind_res (init_fd_cnct mutex_ok mem c0 (fds ! slot)) (\<lambda>(c, m, r).
       if r \<noteq> 0 then Inr (c, m, -1)
       else Inr (c\<lparr>ct_fd := -1, ct_pollfd := Some slot\<rparr>, m, 0))"

definition destroy_cnct :: "cnct \<Rightarrow> cnct res" where
  "destroy_cnct c =
     (if ct_queue_cnt c \<noteq> 0 then Inl Assert_failed
      else Inr (c\<lparr>ct_buf := destroy_buffer (ct_buf c)\<rparr>))"

definition inc_queue_cnt :: "cnct \<Rightarrow> cnct res" where
  "inc_queue_cnt c =
     (if ct_state c \<noteq> CNCT_OPEN then Inl Assert_failed
      else Inr (c\<lparr>ct_queue_cnt := ct_queue_cnt c + 1\<rparr>))"

definition dec_queue_cnt :: "cnct \<Rightarrow> cnct res" where
  "dec_queue_cnt c =
     (let n = ct_queue_cnt c - 1 in
      if \<not> n \<ge> 0 then Inl Assert_failed
      else Inr (c\<lparr>ct_queue_cnt := n,
                  ct_state := (if ct_state c = CNCT_WAIT \<and> n = 0 then CNCT_SHUT else ct_state c)\<rparr>))"

definition is_cnct_queue_empty :: "cnct \<Rightarrow> bool" where
  "is_cnct_queue_empty c \<longleftrightarrow> ct_queue_cnt c = 0"

definition shutdown_cnct :: "cnct \<Rightarrow> cnct \<times> cnct_state" where
  "shutdown_cnct c =
     (let s = (if ct_queue_cnt c = 0 then CNCT_SHUT else CNCT_WAIT) in (c\<lparr>ct_state := s\<rparr>, s))"

section \<open>One command over a connection\<close>

text \<open>
  \<open>process_request\<close>: \<open>sevs\<close> are the socket's send events. The result: value returned,
  connection, database, bytes sent, calls of the result callback, events left.
\<close>

definition process_request ::
  "alloc \<Rightarrow> ('d, 'arg) vdb \<Rightarrow> 'arg \<Rightarrow> cnct \<Rightarrow> string \<Rightarrow> 'd \<Rightarrow> nat event list \<Rightarrow>
   (int \<times> cnct \<times> 'd \<times> bytes \<times> 'arg db_result list \<times> nat event list) res option" where
  "process_request al ops arg c request db sevs =
     (case process_cmd al ops db (Some inc_queue_cnt) c arg request of
        Inl e \<Rightarrow> Some (Inl e)
      | Inr (db', c', result, to_send, calls) \<Rightarrow>
          if \<not> to_send then Some (Inr (0, c', db', [], calls, sevs))
          else
            (case (case result of None \<Rightarrow> Some (0, [], sevs) | Some s \<Rightarrow> send_all s sevs) of
               None \<Rightarrow> None
             | Some (n1, w1, sevs1) \<Rightarrow>
                 if n1 = -1 then Some (Inr (-1, c', db', w1, calls, sevs1))
                 else
                   (case send_all TELNET_SUFFIX sevs1 of
                      None \<Rightarrow> None
                    | Some (n2, w2, sevs2) \<Rightarrow>
                        Some (Inr (if n2 = -1 then -1 else 0, c', db', w1 @ w2, calls, sevs2)))))"

definition process_cnct ::
  "alloc \<Rightarrow> ('d, 'arg) vdb \<Rightarrow> 'arg \<Rightarrow> cnct \<Rightarrow> 'd \<Rightarrow> bytes event list \<Rightarrow> nat event list \<Rightarrow>
   (int \<times> cnct \<times> 'd \<times> bytes \<times> 'arg db_result list \<times> bytes event list \<times> nat event list) res option"
where
  "process_cnct al ops arg c db revs sevs =
     (case buffer_space (ct_buf c) of
        Inl e \<Rightarrow> Some (Inl e)
      | Inr spc \<Rightarrow>
          if spc = 0 then Some (Inr (-1, c, db, [], [], revs, sevs))
          else case buffer_start (ct_buf c) of
            Inl e \<Rightarrow> Some (Inl e)
          | Inr off \<Rightarrow>
             (case safe_recv spc revs of
                None \<Rightarrow> None
              | Some (len, d, revs') \<Rightarrow>
                  if len < 0 then Some (Inr (-1, c, db, [], [], revs', sevs))
                  else if len = 0 then Some (Inr (0, c, db, [], [], revs', sevs))
                  else
                    (let b = store_received (ct_buf c) off d; pos = buffer_find b TELNET_SUFFIX in
                     if pos = -1 then Some (Inr (0, c\<lparr>ct_buf := b\<rparr>, db, [], [], revs', sevs))
                     else
                       (case buffer_cut al b (nat pos + TELNET_SUFFIX_LEN) of
                          (b', None) \<Rightarrow> Some (Inr (0, c\<lparr>ct_buf := b'\<rparr>, db, [], [], revs', sevs))
                        | (b', Some line) \<Rightarrow>
                            (case strip_telnet_cmd (cstr line) of
                               (r, request) \<Rightarrow>
                                 if r \<noteq> 0
                                 then Some (Inr (-1, c\<lparr>ct_buf := b'\<rparr>, db, [], [], revs', sevs))
                                 else
                                   (case process_request (\<lambda>i. al (Suc i)) ops arg
                                           (c\<lparr>ct_buf := b'\<rparr>) request db sevs of
                                      None \<Rightarrow> None
                                    | Some (Inl e) \<Rightarrow> Some (Inl e)
                                    | Some (Inr (r', c', db', w, calls, sevs')) \<Rightarrow>
                                        Some (Inr (if r' \<noteq> -1 then 1 else -1, c', db', w, calls,
                                                   revs', sevs'))))))))"

section \<open>What the commands mean\<close>

definition set_cmd :: "string \<Rightarrow> string \<Rightarrow> string" where
  "set_cmd key value = CHR ''='' # key @ CHR '' '' # value"

definition get_cmd :: "string \<Rightarrow> string" where
  "get_cmd key = CHR ''?'' # key"

definition del_cmd :: "string \<Rightarrow> string" where
  "del_cmd key = CHR ''-'' # key"

lemma split_set_cmd:
  "CHR '' '' \<notin> set key \<Longrightarrow> split_at CHR '' '' (set_cmd key v) = Some (CHR ''='' # key, v)"
  by (simp add: set_cmd_def split_at_append)

lemma process_set_cmd:
  "CHR '' '' \<notin> set key \<Longrightarrow>
   process_cmd al ops db notify c arg (set_cmd key v) =
     bind_res (vdb_set ops al db key (Some v)) (\<lambda>(db', r). Inr (db', c, None, True, []))"
  using split_set_cmd [of key v] by (simp add: process_cmd_def set_cmd_def)

lemma process_del_cmd:
  "process_cmd al ops db notify c arg (del_cmd key) =
     bind_res (vdb_set ops al db key None) (\<lambda>(db', r). Inr (db', c, None, True, []))"
  by (simp add: process_cmd_def del_cmd_def)

lemma process_get_cmd:
  "\<not> vdb_async_result ops \<Longrightarrow> vdb_get ops = Some get \<Longrightarrow>
   process_cmd al ops db notify c arg (get_cmd key) =
     bind_res (get al db key) (\<lambda>value. Inr (db, c, value, True, []))"
  by (simp add: process_cmd_def get_cmd_def)

text \<open>Every other request changes nothing and is answered by an empty line.\<close>

lemma process_other_cmd:
  assumes "(\<forall>x xs. request = x # xs \<longrightarrow> x \<notin> {CHR ''='', CHR ''?'', CHR ''-''}) \<or>
    (\<exists>xs. request = CHR ''='' # xs \<and> CHR '' '' \<notin> set xs)"
  shows "process_cmd al ops db notify c arg request = Inr (db, c, None, True, [])"
  using assms split_at_None [of "CHR '' ''" request]
  by (cases request) (auto simp: process_cmd_def)

context vdb_contract
begin

text \<open>The three commands on a synchronous database.\<close>

lemma set_cmd_correct:
  assumes "inv d" and "ok k" and "CHR '' '' \<notin> set k"
  shows "\<exists>d'. process_cmd all_ok ops d notify c arg (set_cmd k v) = Inr (d', c, None, True, []) \<and>
    inv d' \<and> contents d' = (contents d)(k \<mapsto> v)"
  using set_ok [OF assms(1,2), of "Some v"] by (auto simp: process_set_cmd [OF assms(3)])

lemma del_cmd_correct:
  assumes "inv d" and "ok k"
  shows "\<exists>d'. process_cmd all_ok ops d notify c arg (del_cmd k) = Inr (d', c, None, True, []) \<and>
    inv d' \<and> contents d' = (contents d)(k := None)"
  using set_ok [OF assms, of None] by (auto simp: process_del_cmd)

lemma get_cmd_correct:
  assumes "inv d" and "ok k" and "\<not> vdb_async_result ops" and "vdb_get ops = Some get_op"
  shows "process_cmd all_ok ops d notify c arg (get_cmd k) = Inr (d, c, contents d k, True, [])"
  using get_ok [OF assms(1,2)] by (simp add: process_get_cmd [OF assms(3,4)])

end

section \<open>The states of a connection\<close>

text \<open>
  A closed slot has no unanswered request, a waiting one has, and the counter is never
  negative.
\<close>

definition cnct_ok :: "cnct \<Rightarrow> bool" where
  "cnct_ok c \<longleftrightarrow> 0 \<le> ct_queue_cnt c \<and> (ct_state c = CNCT_SHUT \<longrightarrow> ct_queue_cnt c = 0) \<and>
     (ct_state c = CNCT_WAIT \<longrightarrow> 0 < ct_queue_cnt c)"

lemma inc_queue_cnt_ok:
  "cnct_ok c \<Longrightarrow> inc_queue_cnt c = Inr c' \<Longrightarrow> cnct_ok c' \<and> ct_queue_cnt c' = ct_queue_cnt c + 1"
  by (auto simp: inc_queue_cnt_def cnct_ok_def split: if_splits)

lemma dec_queue_cnt_ok:
  "cnct_ok c \<Longrightarrow> 0 < ct_queue_cnt c \<Longrightarrow>
   \<exists>c'. dec_queue_cnt c = Inr c' \<and> cnct_ok c' \<and> ct_queue_cnt c' = ct_queue_cnt c - 1 \<and>
     (ct_state c' = CNCT_SHUT \<longleftrightarrow> ct_state c = CNCT_WAIT \<and> ct_queue_cnt c = 1)"
  by (auto simp: dec_queue_cnt_def cnct_ok_def Let_def)

lemma shutdown_cnct_ok:
  "cnct_ok c \<Longrightarrow> shutdown_cnct c = (c', s) \<Longrightarrow>
   cnct_ok c' \<and> ct_state c' = s \<and> ct_queue_cnt c' = ct_queue_cnt c \<and>
   (s = CNCT_SHUT \<longleftrightarrow> ct_queue_cnt c = 0)"
  by (auto simp: shutdown_cnct_def cnct_ok_def Let_def split: if_splits)

lemma reset_poll_cnct_ok: "cnct_ok (reset_poll_cnct fds c)"
  by (simp add: reset_poll_cnct_def cnct_ok_def state_of_fd_def)

section \<open>One call of process_cnct\<close>

text \<open>
  The bytes in the buffer and those received now, up to the first line end, are the request;
  the rest stays in the buffer.
\<close>

lemma buffer_find_first:
  assumes "buffer_inv b" and "buffer_data b = l @ TELNET_SUFFIX @ rest"
    and "\<And>j. j < length l \<Longrightarrow> \<not> occurs_at TELNET_SUFFIX (l @ TELNET_SUFFIX @ rest) j"
  shows "buffer_find b TELNET_SUFFIX = int (length l)"
proof -
  have "occurs_at TELNET_SUFFIX (buffer_data b) (length l)"
    unfolding assms(2) by (simp add: occurs_at_def)
  with buffer_find_correct [OF assms(1), of TELNET_SUFFIX] obtain k where
    k: "buffer_find b TELNET_SUFFIX = int k" "occurs_at TELNET_SUFFIX (buffer_data b) k"
    "\<forall>j < k. \<not> occurs_at TELNET_SUFFIX (buffer_data b) j" by blast
  have "\<not> k < length l" using k(2) assms(3) [of k] unfolding assms(2) by blast
  moreover have "\<not> length l < k" using k(3) \<open>occurs_at _ _ (length l)\<close> by blast
  ultimately show ?thesis using k(1) by simp
qed

lemma process_cnct_line:
  assumes inv: "buffer_inv (ct_buf c)" and al: "\<And>i. al i"
    and recv: "safe_recv (bf_size (ct_buf c) - bf_pos (ct_buf c)) revs = Some (len, d, revs')"
    and pos: "0 < len"
    and line: "buffer_data (ct_buf c) @ d = l @ TELNET_SUFFIX @ rest"
    and first: "\<And>j. j < length l \<Longrightarrow> \<not> occurs_at TELNET_SUFFIX (l @ TELNET_SUFFIX @ rest) j"
  shows "\<exists>b'. buffer_inv b' \<and> buffer_data b' = rest \<and> bf_size b' = bf_size (ct_buf c) \<and>
    process_cnct al ops arg c db revs sevs =
      (if NUL \<in> set l then Some (Inr (-1, c\<lparr>ct_buf := b'\<rparr>, db, [], [], revs', sevs))
       else case process_request all_ok ops arg (c\<lparr>ct_buf := b'\<rparr>) l db sevs of
              None \<Rightarrow> None
            | Some (Inl e) \<Rightarrow> Some (Inl e)
            | Some (Inr (r, c', db', w, calls, sevs')) \<Rightarrow>
                Some (Inr (if r \<noteq> -1 then 1 else -1, c', db', w, calls, revs', sevs')))"
proof -
  define b where "b = store_received (ct_buf c) (bf_pos (ct_buf c)) d"
  note R = safe_recv_correct [OF recv]
  note S = store_received_correct [OF inv R(2), folded b_def]
  have find: "buffer_find b TELNET_SUFFIX = int (length l)"
    by (rule buffer_find_first [OF S(1)]) (use S(2) line first in auto)
  have le: "length l + 2 \<le> bf_pos b"
    using length_buffer_data [OF S(1)] S(2) line by (simp add: TELNET_SUFFIX_def)
  from buffer_cut_correct(2) [OF S(1), of al, OF al le] obtain b' cut where
    cut: "buffer_cut al b (length l + 2) = (b', Some (cut @ [NUL]))" "buffer_inv b'"
    "length cut = length l + 2" "buffer_data b = cut @ buffer_data b'" by blast
  from cut(4) S(2) line have "cut @ buffer_data b' = (l @ TELNET_SUFFIX) @ rest" by simp
  then have eq: "cut = l @ TELNET_SUFFIX" "buffer_data b' = rest"
    using cut(3) append_eq_append_conv [of cut "l @ TELNET_SUFFIX"] by (auto simp: TELNET_SUFFIX_def)
  have sz: "bf_size b' = bf_size (ct_buf c)"
    using cut(1) S(3) by (auto simp: buffer_cut_def split: if_splits)
  have al': "(\<lambda>i. al (Suc i)) = all_ok" using al by (auto simp: all_ok_def)
  have ne: "bf_size (ct_buf c) - bf_pos (ct_buf c) \<noteq> 0" using R(1,2,4) pos by auto
  show ?thesis
  proof (cases "NUL \<in> set l")
    case True
    then obtain l1 l2 where l: "l = l1 @ NUL # l2" "NUL \<notin> set l1" by (meson split_list_first)
    have "cstr (cut @ [NUL]) = l1"
      unfolding eq l(1) using cstr_append_NUL [OF l(2)] by simp
    moreover have "\<nexists>s. l1 = s @ TELNET_SUFFIX"
    proof
      assume "\<exists>s. l1 = s @ TELNET_SUFFIX"
      then obtain s where "l1 = s @ TELNET_SUFFIX" by blast
      with l(1) have "length s < length l" "occurs_at TELNET_SUFFIX (l @ TELNET_SUFFIX @ rest) (length s)"
        by (simp_all add: occurs_at_def)
      with first show False by blast
    qed
    then have "fst (strip_telnet_cmd l1) \<noteq> 0"
      using strip_telnet_cmd_correct [of l1] by (cases "strip_telnet_cmd l1") auto
    ultimately show ?thesis
      using True cut(1,2) eq(2) sz find recv pos ne
      by (intro exI [of _ b']) (cases "strip_telnet_cmd l1",
        simp add: process_cnct_def buffer_space_correct [OF inv] buffer_start_correct [OF inv]
        Let_def b_def [symmetric] TELNET_SUFFIX_LEN_def)
  next
    case False
    then have "cstr (cut @ [NUL]) = l @ TELNET_SUFFIX"
      unfolding eq using cstr_append_NUL [of "l @ TELNET_SUFFIX" "[]"] by (simp add: TELNET_SUFFIX_def)
    with False show ?thesis
      using cut(1,2) eq(2) sz find recv pos ne
      by (intro exI [of _ b'])
        (simp add: process_cnct_def buffer_space_correct [OF inv] buffer_start_correct [OF inv]
        Let_def b_def [symmetric] TELNET_SUFFIX_LEN_def strip_telnet_cmd_suffix al')
  qed
qed

end
