(* ===== verification/WrBuffer.thy ===== *)
theory WrBuffer
  imports FdUtils
begin

text \<open>
  The write queue of a connection, \<open>struct_wrbuffer/inc/wrbuffer.h\<close>, and its sender
  \<open>server_lib/src/wrbuf_io.c\<close>. The STAILQ is a list of strings, \<open>pos\<close> the number of bytes of
  the first one that are already sent; a NULL string (from a failed \<open>strdup\<close>) is \<open>None\<close>.

  Lemmas: the queue as a byte stream (\<open>unsent\<close>): adding appends, sending removes exactly the
  bytes that went out, and no assertion fails as long as no queued string is empty. An empty
  string is never sent and stops the process when it reaches the head.
\<close>

section \<open>State and operations\<close>

record wrbuffer =
  wb_queue :: "string option list"
  wb_pos :: int

definition init_wrbuffer :: wrbuffer where
  "init_wrbuffer = \<lparr>wb_queue = [], wb_pos = 0\<rparr>"

text \<open>\<open>reset_wrbuffer\<close> frees the strings one by one; the second component are those freed.\<close>

fun reset_loop :: "string option list \<Rightarrow> string option list \<times> string option list" where
  "reset_loop [] = ([], [])"
| "reset_loop (cur # rest) = (let (q, freed) = reset_loop rest in (q, cur # freed))"

definition reset_wrbuffer :: "wrbuffer \<Rightarrow> wrbuffer \<times> string option list" where
  "reset_wrbuffer b =
     (let (q, freed) = reset_loop (wb_queue b) in (b\<lparr>wb_queue := q, wb_pos := 0\<rparr>, freed))"

definition destroy_wrbuffer :: "wrbuffer \<Rightarrow> wrbuffer \<times> string option list" where
  "destroy_wrbuffer b = reset_wrbuffer b"

definition wrbuffer_add :: "alloc \<Rightarrow> wrbuffer \<Rightarrow> string option \<Rightarrow> wrbuffer \<times> int" where
  "wrbuffer_add al b s =
     (if \<not> al 0 then (b, -1) else (b\<lparr>wb_queue := wb_queue b @ [s]\<rparr>, 0))"

definition is_wrbuffer_empty :: "wrbuffer \<Rightarrow> bool" where
  "is_wrbuffer_empty b \<longleftrightarrow> wb_queue b = []"

definition wrbuffer_head :: "wrbuffer \<Rightarrow> string option option" where
  "wrbuffer_head b = (case wb_queue b of [] \<Rightarrow> None | q # qs \<Rightarrow> Some q)"

text \<open>\<open>wrbuffer_start\<close>: the bytes from \<open>head->string + pos\<close> on.\<close>

definition wrbuffer_start :: "wrbuffer \<Rightarrow> string res" where
  "wrbuffer_start b =
     (case wrbuffer_head b of
        None \<Rightarrow> Inl Assert_failed
      | Some None \<Rightarrow> Inl Null_deref
      | Some (Some s) \<Rightarrow> Inr (drop (nat (wb_pos b)) s))"

definition wrbuffer_shift :: "wrbuffer \<Rightarrow> int \<Rightarrow> wrbuffer res" where
  "wrbuffer_shift b len =
     (case wrbuffer_head b of
        None \<Rightarrow> Inl Assert_failed
      | Some None \<Rightarrow> Inl Null_deref
      | Some (Some s) \<Rightarrow>
          let nremains = int (length s) - wb_pos b in
          if \<not> nremains \<ge> len then Inl Assert_failed
          else if nremains > len then Inr (b\<lparr>wb_pos := wb_pos b + len\<rparr>)
          else Inr (b\<lparr>wb_pos := 0, wb_queue := List.tl (wb_queue b)\<rparr>))"

definition wrbuffer_remained :: "wrbuffer \<Rightarrow> int res" where
  "wrbuffer_remained b =
     (case wrbuffer_head b of
        None \<Rightarrow> Inr 0
      | Some None \<Rightarrow> Inl Null_deref
      | Some (Some s) \<Rightarrow>
          if \<not> wb_pos b < int (length s) then Inl Assert_failed
          else Inr (int (length s) - wb_pos b))"

text \<open>\<open>send_wrbuffer\<close>: the result, the bytes that went out, the queue and the events left.\<close>

function send_wrbuffer_loop ::
  "wrbuffer \<Rightarrow> int \<Rightarrow> bytes \<Rightarrow> nat event list \<Rightarrow>
   (int \<times> bytes \<times> wrbuffer \<times> nat event list) res option" where
  "send_wrbuffer_loop b sent_total wire evs =
     (if is_wrbuffer_empty b then Some (Inr (sent_total, wire, b, evs))
      else case wrbuffer_remained b of
        Inl e \<Rightarrow> Some (Inl e)
      | Inr to_send \<Rightarrow>
         (case wrbuffer_start b of
            Inl e \<Rightarrow> Some (Inl e)
          | Inr d \<Rightarrow>
             (case safe_send d evs of
                None \<Rightarrow> None
              | Some (nsent, w, evs') \<Rightarrow>
                  if nsent < 0 then Some (Inr (-1, wire, b, evs'))
                  else if nsent = 0 then Some (Inr (sent_total, wire, b, evs'))
                  else
                    (case wrbuffer_shift b nsent of
                       Inl e \<Rightarrow> Some (Inl e)
                     | Inr b' \<Rightarrow>
                         if nsent \<noteq> to_send
                         then Some (Inr (sent_total + nsent, wire @ w, b', evs'))
                         else send_wrbuffer_loop b' (sent_total + nsent) (wire @ w) evs'))))"
  by pat_completeness auto

lemma safe_send_fewer: "safe_send d evs = Some (r, w, evs') \<Longrightarrow> length evs' < length evs"
  by (auto simp: safe_send_def send_sys_def split: list.splits event.splits)

termination send_wrbuffer_loop
  by (relation "measure (\<lambda>(b, sent_total, wire, evs). length evs)") (auto dest: safe_send_fewer)

declare send_wrbuffer_loop.simps [simp del]

definition send_wrbuffer ::
  "wrbuffer \<Rightarrow> nat event list \<Rightarrow> (int \<times> bytes \<times> wrbuffer \<times> nat event list) res option" where
  "send_wrbuffer b evs = send_wrbuffer_loop b 0 [] evs"

section \<open>The queue as a byte stream\<close>

definition all_bytes :: "string option list \<Rightarrow> bytes" where
  "all_bytes q = concat (map (\<lambda>s. case s of None \<Rightarrow> [] | Some t \<Rightarrow> t) q)"

definition unsent :: "wrbuffer \<Rightarrow> bytes" where
  "unsent b = drop (nat (wb_pos b)) (all_bytes (wb_queue b))"

definition wb_inv :: "wrbuffer \<Rightarrow> bool" where
  "wb_inv b \<longleftrightarrow> 0 \<le> wb_pos b \<and> (\<forall>q\<in>set (wb_queue b). \<exists>s. q = Some s \<and> s \<noteq> []) \<and>
     (case wb_queue b of
        [] \<Rightarrow> wb_pos b = 0
      | None # _ \<Rightarrow> False
      | Some s # _ \<Rightarrow> wb_pos b < int (length s))"

lemma all_bytes_simps [simp]:
  "all_bytes [] = []" "all_bytes (Some s # q) = s @ all_bytes q"
  "all_bytes (q1 @ q2) = all_bytes q1 @ all_bytes q2"
  by (simp_all add: all_bytes_def)

lemma reset_loop_eq: "reset_loop q = ([], q)"
  by (induction q) simp_all

lemma reset_wrbuffer_correct:
  "reset_wrbuffer b = (b', freed) \<Longrightarrow> wb_inv b' \<and> unsent b' = [] \<and> freed = wb_queue b"
  by (auto simp: reset_wrbuffer_def reset_loop_eq wb_inv_def unsent_def)

lemma wb_inv_init: "wb_inv init_wrbuffer" "unsent init_wrbuffer = []"
  by (simp_all add: wb_inv_def init_wrbuffer_def unsent_def)

lemma wb_invE:
  assumes "wb_inv b" and "\<not> is_wrbuffer_empty b"
  obtains s q where "wb_queue b = Some s # q" "0 \<le> wb_pos b" "wb_pos b < int (length s)"
    "\<forall>q\<in>set q. \<exists>s. q = Some s \<and> s \<noteq> []"
  using assms by (auto simp: wb_inv_def is_wrbuffer_empty_def split: list.splits option.splits)

lemma wb_inv_empty: "wb_inv b \<Longrightarrow> is_wrbuffer_empty b \<Longrightarrow> wb_pos b = 0 \<and> unsent b = []"
  by (auto simp: wb_inv_def is_wrbuffer_empty_def unsent_def)

lemma wrbuffer_add_correct:
  assumes "wb_inv b" and "s \<noteq> []" and "al 0"
  shows "\<exists>b'. wrbuffer_add al b (Some s) = (b', 0) \<and> wb_inv b' \<and> unsent b' = unsent b @ s"
proof (cases "is_wrbuffer_empty b")
  case True
  with assms wb_inv_empty [OF assms(1) True] show ?thesis
    by (auto simp: wrbuffer_add_def is_wrbuffer_empty_def wb_inv_def unsent_def)
next
  case False
  with assms(1) obtain s' q where "wb_queue b = Some s' # q" "0 \<le> wb_pos b"
    "wb_pos b < int (length s')" "\<forall>q\<in>set q. \<exists>s. q = Some s \<and> s \<noteq> []" by (rule wb_invE)
  with assms show ?thesis by (auto simp: wrbuffer_add_def wb_inv_def unsent_def)
qed

text \<open>Sending a non-empty prefix of the head.\<close>

lemma wrbuffer_shift_correct:
  assumes "wb_inv b" and "\<not> is_wrbuffer_empty b" and "wrbuffer_start b = Inr d"
    and "w = take n d" and "w \<noteq> []"
  shows "\<exists>b'. wrbuffer_shift b (int (length w)) = Inr b' \<and> wb_inv b' \<and> unsent b = w @ unsent b'"
proof -
  from assms(1,2) obtain s q where q: "wb_queue b = Some s # q" "0 \<le> wb_pos b"
    "wb_pos b < int (length s)" "\<forall>q\<in>set q. \<exists>s. q = Some s \<and> s \<noteq> []" by (rule wb_invE)
  define k where "k = nat (wb_pos b)"
  have k: "wb_pos b = int k" "k < length s" using q by (auto simp: k_def)
  have d: "d = drop k s" using assms(3) q k by (simp add: wrbuffer_start_def wrbuffer_head_def)
  have len: "length w \<le> length s - k" "0 < length w" using assms(4,5) d by auto
  have w: "w = take (length w) (drop k s)" using assms(4) d by (cases "n \<le> length s - k") simp_all
  have uns: "unsent b = w @ drop (k + length w) s @ all_bytes q"
    using q k len append_take_drop_id [of "length w" "drop k s"]
    by (simp add: unsent_def w [symmetric] add.commute)
  show ?thesis
  proof (cases "k + length w < length s")
    case True
    then have "wrbuffer_shift b (int (length w)) = Inr (b\<lparr>wb_pos := int (k + length w)\<rparr>)"
      using q k by (simp add: wrbuffer_shift_def wrbuffer_head_def)
    moreover have "wb_inv (b\<lparr>wb_pos := int (k + length w)\<rparr>)"
      using True q by (auto simp: wb_inv_def)
    ultimately show ?thesis
      using uns True q(1) by (auto simp: unsent_def nat_add_distrib)
  next
    case False
    then have e: "k + length w = length s" using len k by linarith
    then have "wrbuffer_shift b (int (length w)) = Inr (b\<lparr>wb_pos := 0, wb_queue := q\<rparr>)"
      using q k len by (simp add: wrbuffer_shift_def wrbuffer_head_def)
    moreover have "wb_inv (b\<lparr>wb_pos := 0, wb_queue := q\<rparr>)"
      using q(4) by (cases q) (auto simp: wb_inv_def)
    ultimately show ?thesis using uns e by (auto simp: unsent_def)
  qed
qed

lemma wrbuffer_head_ok:
  assumes "wb_inv b" and "\<not> is_wrbuffer_empty b"
  shows "\<exists>d. wrbuffer_start b = Inr d \<and> wrbuffer_remained b = Inr (int (length d)) \<and> d \<noteq> []"
proof -
  from assms obtain s q where "wb_queue b = Some s # q" "0 \<le> wb_pos b"
    "wb_pos b < int (length s)" by (rule wb_invE)
  then show ?thesis
    by (auto simp: wrbuffer_start_def wrbuffer_remained_def wrbuffer_head_def)
qed

lemma safe_send_correct:
  assumes "safe_send d evs = Some (r, w, evs')"
  shows "(\<exists>n. w = take n d)" and "r = -1 \<and> w = [] \<or> r = int (length w)"
  using assms
  by (auto simp: safe_send_def send_sys_def c_defs split: list.splits event.splits if_splits
    intro: exI [of _ 0])

lemma send_wrbuffer_loop_correct:
  "wb_inv b \<Longrightarrow> send_wrbuffer_loop b tot wire evs = Some res \<Longrightarrow>
   \<exists>r w b' evs'. res = Inr (r, wire @ w, b', evs') \<and> wb_inv b' \<and> unsent b = w @ unsent b' \<and>
     (r = -1 \<or> r = tot + int (length w))"
proof (induction "length evs" arbitrary: b tot wire evs rule: less_induct)
  case less
  note inv = \<open>wb_inv b\<close>
  show ?case
  proof (cases "is_wrbuffer_empty b")
    case True
    with less.prems show ?thesis by (auto simp: send_wrbuffer_loop.simps)
  next
    case False
    from wrbuffer_head_ok [OF inv False] obtain d where
      d: "wrbuffer_start b = Inr d" "wrbuffer_remained b = Inr (int (length d))" by blast
    with less.prems(2) False obtain nsent w evs' where
      send: "safe_send d evs = Some (nsent, w, evs')"
      by (subst (asm) send_wrbuffer_loop.simps) (auto split: option.splits)
    note S = safe_send_correct [OF send]
    show ?thesis
    proof (cases "nsent \<le> 0")
      case True
      with less.prems(2) False d send S(2) inv show ?thesis
        by (subst (asm) send_wrbuffer_loop.simps) (auto split: if_splits)
    next
      case pos: False
      with S(2) have n: "nsent = int (length w)" and "w \<noteq> []" by auto
      from S(1) obtain k where "w = take k d" by blast
      from wrbuffer_shift_correct [OF inv False d(1) this \<open>w \<noteq> []\<close>] obtain b' where
        b': "wrbuffer_shift b nsent = Inr b'" "wb_inv b'" "unsent b = w @ unsent b'"
        by (auto simp: n)
      have res: "Some res = (if nsent \<noteq> int (length d)
          then Some (Inr (tot + nsent, wire @ w, b', evs'))
          else send_wrbuffer_loop b' (tot + nsent) (wire @ w) evs')"
        using less.prems(2) False d send pos b'(1)
        by (subst (asm) send_wrbuffer_loop.simps) simp
      show ?thesis
      proof (cases "nsent = int (length d)")
        case True
        with res have "send_wrbuffer_loop b' (tot + nsent) (wire @ w) evs' = Some res" by simp
        from less.hyps [OF safe_send_fewer [OF send] b'(2) this] b'(3) n show ?thesis by auto
      next
        case False
        with res b' n show ?thesis by auto
      qed
    qed
  qed
qed

text \<open>An empty string at the head stops the process: the assertion \<open>pos < slen\<close> fails.\<close>

lemma send_wrbuffer_empty_string:
  "wb_queue b = Some [] # q \<Longrightarrow> 0 \<le> wb_pos b \<Longrightarrow> send_wrbuffer b evs = Some (Inl Assert_failed)"
  by (simp add: send_wrbuffer_def send_wrbuffer_loop.simps is_wrbuffer_empty_def
    wrbuffer_remained_def wrbuffer_head_def)

end
