(* ===== verification/QueueSem.thy ===== *)
theory QueueSem
  imports Prelude
begin

text \<open>
  The bounded queue \<open>struct_queue_sem/inc/queue_sem.h\<close>: a ring of pointers, one semaphore
  that counts free slots and one that counts filled slots. There is no mutex: one thread
  pushes, another pops, and their instructions interleave.

  Each function is the sequence of its atomic actions, each a definition of its own; the
  step relation \<open>ring_step\<close> interleaves the same actions. Lemmas: for every interleaving,
  what is popped is a prefix of what was pushed, the assertion of \<open>queue_sem_push\<close> never
  fails, and the queue never holds more than \<open>size\<close> entries.
\<close>

section \<open>State and atomic actions\<close>

record 'a queue_sem =
  qs_full :: nat            \<comment> \<open>semaphore: free slots\<close>
  qs_empty :: nat           \<comment> \<open>semaphore: filled slots\<close>
  qs_head :: nat
  qs_tail :: nat
  qs_size :: nat
  qs_q :: "'a option list"  \<comment> \<open>\<open>None\<close> is a NULL pointer\<close>

text \<open>
  \<open>init_queue_sem\<close>: \<open>sem1\<close>, \<open>sem2\<close> and \<open>al 0\<close> are the outcomes of the two \<open>sem_init\<close> and of
  \<open>calloc\<close>. The second component are the semaphores left initialised (empty, full), the third
  the value returned.
\<close>

definition init_queue_sem ::
  "bool \<Rightarrow> bool \<Rightarrow> alloc \<Rightarrow> nat \<Rightarrow> ('a queue_sem option \<times> (bool \<times> bool) \<times> int) res" where
  "init_queue_sem sem1 sem2 al sz =
     (if \<not> sz > 0 then Inl Assert_failed
      else if \<not> sem1 then Inr (None, (False, False), -1)
      else if \<not> sem2 then Inr (None, (False, False), -1)
      else if \<not> al 0 then Inr (None, (False, False), -1)
      else Inr (Some \<lparr>qs_full = sz, qs_empty = 0, qs_head = 0, qs_tail = 0, qs_size = sz,
                      qs_q = replicate sz None\<rparr>, (True, True), 0))"

definition destroy_queue_sem :: "'a queue_sem \<Rightarrow> 'a queue_sem" where
  "destroy_queue_sem q = q\<lparr>qs_size := 0, qs_empty := 0, qs_full := 0, qs_q := []\<rparr>"

text \<open>
  The \<open>while (sem_wait(..))\<close> loop on a semaphore of value \<open>s\<close>; \<open>errs\<close> are the errors of the
  calls that fail before one succeeds or blocks.
\<close>

fun sem_wait_loop :: "errno list \<Rightarrow> nat \<Rightarrow> nat res option" where
  "sem_wait_loop [] s = (if s = 0 then None else Some (Inr (s - 1)))"
| "sem_wait_loop (e # errs) s = check_eintr e (sem_wait_loop errs s) (Some (Inl Exit_failure))"

definition push_claim :: "'a queue_sem \<Rightarrow> nat \<Rightarrow> 'a queue_sem" where
  "push_claim q s = q\<lparr>qs_full := s\<rparr>"

definition push_store :: "'a queue_sem \<Rightarrow> 'a option \<Rightarrow> 'a queue_sem res" where
  "push_store q e =
     (if \<not> qs_q q ! qs_head q = None then Inl Assert_failed
      else Inr (q\<lparr>qs_q := (qs_q q)[qs_head q := e]\<rparr>))"

definition push_advance :: "'a queue_sem \<Rightarrow> 'a queue_sem" where
  "push_advance q = q\<lparr>qs_head := if Suc (qs_head q) = qs_size q then 0 else Suc (qs_head q)\<rparr>"

definition push_post :: "'a queue_sem \<Rightarrow> 'a queue_sem" where
  "push_post q = q\<lparr>qs_empty := Suc (qs_empty q)\<rparr>"

definition pop_claim :: "'a queue_sem \<Rightarrow> nat \<Rightarrow> 'a queue_sem" where
  "pop_claim q s = q\<lparr>qs_empty := s\<rparr>"

definition pop_read :: "'a queue_sem \<Rightarrow> 'a option" where
  "pop_read q = qs_q q ! qs_tail q"

definition pop_clear :: "'a queue_sem \<Rightarrow> 'a queue_sem" where
  "pop_clear q = q\<lparr>qs_q := (qs_q q)[qs_tail q := None]\<rparr>"

definition pop_advance :: "'a queue_sem \<Rightarrow> 'a queue_sem" where
  "pop_advance q = q\<lparr>qs_tail := if Suc (qs_tail q) = qs_size q then 0 else Suc (qs_tail q)\<rparr>"

definition pop_post :: "'a queue_sem \<Rightarrow> 'a queue_sem" where
  "pop_post q = q\<lparr>qs_full := Suc (qs_full q)\<rparr>"

section \<open>The two operations\<close>

text \<open>\<open>None\<close>: the call blocks on its semaphore.\<close>

definition queue_sem_push ::
  "errno list \<Rightarrow> 'a queue_sem \<Rightarrow> 'a option \<Rightarrow> 'a queue_sem res option" where
  "queue_sem_push errs q e =
     map_option (\<lambda>s. bind_res s (\<lambda>s. bind_res (push_store (push_claim q s) e) (\<lambda>q.
       Inr (push_post (push_advance q))))) (sem_wait_loop errs (qs_full q))"

definition queue_sem_pop ::
  "errno list \<Rightarrow> 'a queue_sem \<Rightarrow> ('a option \<times> 'a queue_sem) res option" where
  "queue_sem_pop errs q =
     map_option (\<lambda>s. bind_res s (\<lambda>s.
       let q = pop_claim q s; entry = pop_read q
       in Inr (entry, pop_post (pop_advance (pop_clear q))))) (sem_wait_loop errs (qs_empty q))"

section \<open>Interleavings of one producer and one consumer\<close>

datatype 'a prod_pc = P_idle | P_claimed "'a option" | P_stored | P_moved | P_dead
datatype 'a cons_pc = C_idle | C_claimed | C_read "'a option" | C_cleared | C_moved

record 'a ring =
  rg_q :: "'a queue_sem"
  rg_prod :: "'a prod_pc"
  rg_cons :: "'a cons_pc"
  rg_pushed :: "'a option list"   \<comment> \<open>entries stored so far, oldest first\<close>
  rg_popped :: "'a option list"   \<comment> \<open>entries taken so far, oldest first\<close>

definition ring_init :: "nat \<Rightarrow> 'a ring" where
  "ring_init n =
     \<lparr>rg_q = \<lparr>qs_full = n, qs_empty = 0, qs_head = 0, qs_tail = 0, qs_size = n,
              qs_q = replicate n None\<rparr>,
      rg_prod = P_idle, rg_cons = C_idle, rg_pushed = [], rg_popped = []\<rparr>"

inductive ring_step :: "'a ring \<Rightarrow> 'a ring \<Rightarrow> bool" where
  p_claim: "rg_prod g = P_idle \<Longrightarrow> sem_wait_loop [] (qs_full (rg_q g)) = Some (Inr s) \<Longrightarrow>
    ring_step g (g\<lparr>rg_q := push_claim (rg_q g) s, rg_prod := P_claimed e\<rparr>)"
| p_store: "rg_prod g = P_claimed e \<Longrightarrow> push_store (rg_q g) e = Inr q \<Longrightarrow>
    ring_step g (g\<lparr>rg_q := q, rg_prod := P_stored, rg_pushed := rg_pushed g @ [e]\<rparr>)"
| p_abort: "rg_prod g = P_claimed e \<Longrightarrow> push_store (rg_q g) e = Inl f \<Longrightarrow>
    ring_step g (g\<lparr>rg_prod := P_dead\<rparr>)"
| p_advance: "rg_prod g = P_stored \<Longrightarrow>
    ring_step g (g\<lparr>rg_q := push_advance (rg_q g), rg_prod := P_moved\<rparr>)"
| p_post: "rg_prod g = P_moved \<Longrightarrow>
    ring_step g (g\<lparr>rg_q := push_post (rg_q g), rg_prod := P_idle\<rparr>)"
| c_claim: "rg_cons g = C_idle \<Longrightarrow> sem_wait_loop [] (qs_empty (rg_q g)) = Some (Inr s) \<Longrightarrow>
    ring_step g (g\<lparr>rg_q := pop_claim (rg_q g) s, rg_cons := C_claimed\<rparr>)"
| c_read: "rg_cons g = C_claimed \<Longrightarrow>
    ring_step g (g\<lparr>rg_cons := C_read (pop_read (rg_q g))\<rparr>)"
| c_clear: "rg_cons g = C_read e \<Longrightarrow>
    ring_step g (g\<lparr>rg_q := pop_clear (rg_q g), rg_cons := C_cleared,
                   rg_popped := rg_popped g @ [e]\<rparr>)"
| c_advance: "rg_cons g = C_cleared \<Longrightarrow>
    ring_step g (g\<lparr>rg_q := pop_advance (rg_q g), rg_cons := C_moved\<rparr>)"
| c_post: "rg_cons g = C_moved \<Longrightarrow>
    ring_step g (g\<lparr>rg_q := pop_post (rg_q g), rg_cons := C_idle\<rparr>)"

inductive_cases ring_stepE: "ring_step g g'"

section \<open>The invariant\<close>

text \<open>How many claims, stores and so on the two threads are ahead of the semaphores.\<close>

definition p_holds :: "'a prod_pc \<Rightarrow> nat" where
  "p_holds p = (case p of P_claimed e \<Rightarrow> 1 | _ \<Rightarrow> 0)"

definition p_unposted :: "'a prod_pc \<Rightarrow> nat" where
  "p_unposted p = (case p of P_stored \<Rightarrow> 1 | P_moved \<Rightarrow> 1 | _ \<Rightarrow> 0)"

definition c_holds :: "'a cons_pc \<Rightarrow> nat" where
  "c_holds c = (case c of C_claimed \<Rightarrow> 1 | C_read e \<Rightarrow> 1 | _ \<Rightarrow> 0)"

definition c_unposted :: "'a cons_pc \<Rightarrow> nat" where
  "c_unposted c = (case c of C_cleared \<Rightarrow> 1 | C_moved \<Rightarrow> 1 | _ \<Rightarrow> 0)"

definition ring_inv :: "'a ring \<Rightarrow> bool" where
  "ring_inv g \<longleftrightarrow>
     (let q = rg_q g; w = length (rg_pushed g); r = length (rg_popped g); n = qs_size q in
      0 < n \<and> length (qs_q q) = n \<and> r \<le> w \<and>
      qs_head q = (if rg_prod g = P_stored then w - 1 else w) mod n \<and>
      (rg_prod g = P_stored \<longrightarrow> 0 < w) \<and>
      qs_tail q = (if rg_cons g = C_cleared then r - 1 else r) mod n \<and>
      (rg_cons g = C_cleared \<longrightarrow> 0 < r) \<and>
      qs_full q + w + p_holds (rg_prod g) + c_unposted (rg_cons g) = n + r \<and>
      qs_empty q + r + p_unposted (rg_prod g) + c_holds (rg_cons g) = w \<and>
      (\<forall>i. r \<le> i \<and> i < w \<longrightarrow> qs_q q ! (i mod n) = rg_pushed g ! i) \<and>
      (\<forall>i. w \<le> i \<and> i < r + n \<longrightarrow> qs_q q ! (i mod n) = None) \<and>
      rg_popped g = take r (rg_pushed g) \<and>
      (\<forall>e. rg_cons g = C_read e \<longrightarrow> e = rg_pushed g ! r) \<and>
      rg_prod g \<noteq> P_dead)"

lemma mod_inj_window:
  fixes i j n :: nat
  assumes "i mod n = j mod n" and "r \<le> i" and "i < r + n" and "r \<le> j" and "j < r + n"
  shows "i = j"
proof -
  have aux: False if "a < b" "a mod n = b mod n" "b < a + n" for a b :: nat
    using mod_eq_dvd_iff_nat [of a b n] that by (auto dest!: dvd_imp_le)
  show ?thesis
    using aux [of i j] aux [of j i] assms by (cases i j rule: linorder_cases) auto
qed

lemma mod_advance:
  fixes i n :: nat
  assumes "0 < n"
  shows "(if Suc (i mod n) = n then 0 else Suc (i mod n)) = Suc i mod n"
  using assms by (simp add: mod_Suc)

lemma ring_init_inv: "0 < n \<Longrightarrow> ring_inv (ring_init n)"
  by (simp add: ring_inv_def ring_init_def p_holds_def p_unposted_def c_holds_def c_unposted_def)

lemmas ring_counts = p_holds_def p_unposted_def c_holds_def c_unposted_def

lemmas ring_actions = push_claim_def push_advance_def push_post_def pop_claim_def pop_advance_def
  pop_post_def

lemma ring_inv_store:
  assumes inv: "ring_inv g" and pc: "rg_prod g = P_claimed e"
  shows "\<exists>q. push_store (rg_q g) e = Inr q \<and>
    ring_inv (g\<lparr>rg_q := q, rg_prod := P_stored, rg_pushed := rg_pushed g @ [e]\<rparr>)"
proof -
  define q where "q = rg_q g"
  define n where "n = qs_size q"
  define w where "w = length (rg_pushed g)"
  define r where "r = length (rg_popped g)"
  note D = q_def n_def w_def r_def
  from inv pc have I: "0 < n" "length (qs_q q) = n" "r \<le> w" "qs_head q = w mod n"
    "qs_tail q = (if rg_cons g = C_cleared then r - 1 else r) mod n"
    "rg_cons g = C_cleared \<longrightarrow> 0 < r"
    "qs_full q + w + 1 + c_unposted (rg_cons g) = n + r"
    "qs_empty q + r + c_holds (rg_cons g) = w"
    "rg_popped g = take r (rg_pushed g)"
    and old: "\<And>i. r \<le> i \<Longrightarrow> i < w \<Longrightarrow> qs_q q ! (i mod n) = rg_pushed g ! i"
    and free: "\<And>i. w \<le> i \<Longrightarrow> i < r + n \<Longrightarrow> qs_q q ! (i mod n) = None"
    and rd: "\<And>e. rg_cons g = C_read e \<Longrightarrow> e = rg_pushed g ! r"
    by (simp_all add: ring_inv_def Let_def D p_holds_def p_unposted_def)
  have lt: "w < r + n" using I(7) by linarith
  then have none: "qs_q q ! qs_head q = None" using free [of w] I(4) by simp
  let ?q' = "q\<lparr>qs_q := (qs_q q)[qs_head q := e]\<rparr>"
  have ps: "push_store (rg_q g) e = Inr ?q'"
    using none by (simp add: push_store_def q_def)
  have ne: "i mod n \<noteq> w mod n" if "r \<le> i" "i < r + n" "i \<noteq> w" for i
    using mod_inj_window [of i n w r] that lt I(3) by blast
  have m: "w mod n < n" using I(1) by simp
  have A: "(qs_q q)[w mod n := e] ! (i mod n) = (rg_pushed g @ [e]) ! i" if "r \<le> i" "i < Suc w" for i
  proof (cases "i = w")
    case True
    then show ?thesis using m I(2) by (simp add: nth_append w_def)
  next
    case False
    with that lt have "i < w" "i < r + n" by auto
    with ne [of i] old [of i] that False show ?thesis by (simp add: nth_append w_def)
  qed
  have B: "(qs_q q)[w mod n := e] ! (i mod n) = None" if "Suc w \<le> i" "i < r + n" for i
    using ne [of i] free [of i] that I(3) by simp
  have C: "e' = (rg_pushed g @ [e]) ! r" if "rg_cons g = C_read e'" for e'
    using rd [OF that] I(8) that by (simp add: c_holds_def nth_append w_def)
  have "ring_inv (g\<lparr>rg_q := ?q', rg_prod := P_stored, rg_pushed := rg_pushed g @ [e]\<rparr>)"
    unfolding ring_inv_def Let_def
    using I A B C lt
    by (simp add: p_holds_def p_unposted_def n_def [symmetric] w_def [symmetric] r_def [symmetric])
  with ps show ?thesis by blast
qed

lemma ring_inv_clear:
  assumes inv: "ring_inv g" and pc: "rg_cons g = C_read e"
  shows "ring_inv (g\<lparr>rg_q := pop_clear (rg_q g), rg_cons := C_cleared,
    rg_popped := rg_popped g @ [e]\<rparr>)"
proof -
  define q where "q = rg_q g"
  define n where "n = qs_size q"
  define w where "w = length (rg_pushed g)"
  define r where "r = length (rg_popped g)"
  note D = q_def n_def w_def r_def
  from inv pc have I: "0 < n" "length (qs_q q) = n" "r \<le> w"
    "qs_head q = (if rg_prod g = P_stored then w - 1 else w) mod n"
    "rg_prod g = P_stored \<longrightarrow> 0 < w" "qs_tail q = r mod n"
    "qs_full q + w + p_holds (rg_prod g) = n + r"
    "qs_empty q + r + p_unposted (rg_prod g) + 1 = w"
    "rg_popped g = take r (rg_pushed g)" "rg_prod g \<noteq> P_dead" "e = rg_pushed g ! r"
    and old: "\<And>i. r \<le> i \<Longrightarrow> i < w \<Longrightarrow> qs_q q ! (i mod n) = rg_pushed g ! i"
    and free: "\<And>i. w \<le> i \<Longrightarrow> i < r + n \<Longrightarrow> qs_q q ! (i mod n) = None"
    by (simp_all add: ring_inv_def Let_def D c_holds_def c_unposted_def)
  have lt: "r < w" using I(8) by linarith
  have le: "w \<le> r + n" using I(7) by linarith
  have ne: "i mod n \<noteq> r mod n" if "Suc r \<le> i" "i < r + n" for i
    using mod_inj_window [of i n r r] that I(1) by auto
  have m: "r mod n < n" using I(1) by simp
  have A: "(qs_q q)[r mod n := None] ! (i mod n) = rg_pushed g ! i" if "Suc r \<le> i" "i < w" for i
    using ne [of i] old [of i] that le by simp
  have B: "(qs_q q)[r mod n := None] ! (i mod n) = None" if "w \<le> i" "i < Suc r + n" for i
  proof (cases "i = r + n")
    case True
    then show ?thesis using m I(2) by simp
  next
    case False
    with that ne [of i] free [of i] lt show ?thesis by simp
  qed
  have T: "rg_popped g @ [e] = take (Suc r) (rg_pushed g)"
    using I(9,11) lt by (simp add: take_Suc_conv_app_nth w_def)
  show ?thesis
    unfolding ring_inv_def Let_def
    using I A B T lt
    by (simp add: c_holds_def c_unposted_def n_def [symmetric] w_def [symmetric]
      r_def [symmetric] pop_clear_def q_def [symmetric])
qed

lemma ring_inv_read:
  assumes inv: "ring_inv g" and pc: "rg_cons g = C_claimed"
  shows "ring_inv (g\<lparr>rg_cons := C_read (pop_read (rg_q g))\<rparr>)"
proof -
  have lt: "length (rg_popped g) < length (rg_pushed g)"
    using inv pc by (simp add: ring_inv_def Let_def c_holds_def)
  then show ?thesis
    using inv pc by (simp add: ring_inv_def Let_def c_holds_def c_unposted_def pop_read_def)
qed

lemma advance_fields:
  "qs_full (push_advance q) = qs_full q" "qs_empty (push_advance q) = qs_empty q"
  "qs_tail (push_advance q) = qs_tail q" "qs_size (push_advance q) = qs_size q"
  "qs_q (push_advance q) = qs_q q"
  "qs_full (pop_advance q) = qs_full q" "qs_empty (pop_advance q) = qs_empty q"
  "qs_head (pop_advance q) = qs_head q" "qs_size (pop_advance q) = qs_size q"
  "qs_q (pop_advance q) = qs_q q"
  by (simp_all add: push_advance_def pop_advance_def)

lemma advance_index:
  "0 < qs_size q \<Longrightarrow> qs_head q = k mod qs_size q \<Longrightarrow> qs_head (push_advance q) = Suc k mod qs_size q"
  "0 < qs_size q \<Longrightarrow> qs_tail q = k mod qs_size q \<Longrightarrow> qs_tail (pop_advance q) = Suc k mod qs_size q"
  by (simp_all add: push_advance_def pop_advance_def mod_Suc)

lemma ring_inv_push_advance:
  assumes inv: "ring_inv g" and pc: "rg_prod g = P_stored"
  shows "ring_inv (g\<lparr>rg_q := push_advance (rg_q g), rg_prod := P_moved\<rparr>)"
proof -
  have "qs_head (push_advance (rg_q g)) = length (rg_pushed g) mod qs_size (rg_q g)"
    using inv pc advance_index(1) [of "rg_q g" "length (rg_pushed g) - 1"]
    by (simp add: ring_inv_def Let_def)
  with inv pc show ?thesis
    by (simp add: ring_inv_def Let_def ring_counts advance_fields)
qed

lemma ring_inv_pop_advance:
  assumes inv: "ring_inv g" and pc: "rg_cons g = C_cleared"
  shows "ring_inv (g\<lparr>rg_q := pop_advance (rg_q g), rg_cons := C_moved\<rparr>)"
proof -
  have "qs_tail (pop_advance (rg_q g)) = length (rg_popped g) mod qs_size (rg_q g)"
    using inv pc advance_index(2) [of "rg_q g" "length (rg_popped g) - 1"]
    by (simp add: ring_inv_def Let_def)
  with inv pc show ?thesis
    by (simp add: ring_inv_def Let_def ring_counts advance_fields)
qed

lemma ring_step_inv:
  assumes "ring_step g g'" and inv: "ring_inv g"
  shows "ring_inv g'"
  using assms(1)
proof (cases rule: ring_step.cases)
  case (p_claim s e)
  with inv show ?thesis
    by (simp add: ring_inv_def Let_def ring_counts push_claim_def split: if_splits)
next
  case (p_store e q)
  with ring_inv_store [OF inv p_store(2)] show ?thesis by simp
next
  case (p_abort e f)
  with ring_inv_store [OF inv p_abort(2)] show ?thesis by simp
next
  case p_advance
  with ring_inv_push_advance [OF inv p_advance(2)] show ?thesis by simp
next
  case p_post
  with inv show ?thesis
    by (simp add: ring_inv_def Let_def ring_counts push_post_def)
next
  case (c_claim s)
  with inv show ?thesis
    by (simp add: ring_inv_def Let_def ring_counts pop_claim_def split: if_splits)
next
  case c_read
  with ring_inv_read [OF inv c_read(2)] show ?thesis by simp
next
  case (c_clear e)
  with ring_inv_clear [OF inv c_clear(2)] show ?thesis by simp
next
  case c_advance
  with ring_inv_pop_advance [OF inv c_advance(2)] show ?thesis by simp
next
  case c_post
  with inv show ?thesis
    by (simp add: ring_inv_def Let_def ring_counts pop_post_def)
qed

abbreviation ring_reachable :: "nat \<Rightarrow> 'a ring \<Rightarrow> bool" where
  "ring_reachable n g \<equiv> ring_step\<^sup>*\<^sup>* (ring_init n) g"

lemma ring_reachable_inv: "ring_reachable n g \<Longrightarrow> 0 < n \<Longrightarrow> ring_inv g"
  by (induction rule: rtranclp_induct) (use ring_init_inv ring_step_inv in blast)+

section \<open>The operations run one after the other\<close>

text \<open>A queue between two operations: both threads are outside.\<close>

definition queue_inv :: "'a queue_sem \<Rightarrow> bool" where
  "queue_inv q \<longleftrightarrow> 0 < qs_size q \<and> length (qs_q q) = qs_size q \<and> qs_tail q < qs_size q \<and>
     qs_head q = (qs_tail q + qs_empty q) mod qs_size q \<and> qs_full q + qs_empty q = qs_size q \<and>
     (\<forall>i. qs_empty q \<le> i \<and> i < qs_size q \<longrightarrow> qs_q q ! ((qs_tail q + i) mod qs_size q) = None)"

definition queue_items :: "'a queue_sem \<Rightarrow> 'a option list" where
  "queue_items q = map (\<lambda>i. qs_q q ! ((qs_tail q + i) mod qs_size q)) [0..<qs_empty q]"

text \<open>Such a queue as an idle state of the interleaving model.\<close>

definition ring_of :: "'a queue_sem \<Rightarrow> 'a ring" where
  "ring_of q = \<lparr>rg_q = q, rg_prod = P_idle, rg_cons = C_idle,
     rg_pushed = replicate (qs_tail q) None @ queue_items q, rg_popped = replicate (qs_tail q) None\<rparr>"

lemma ring_of_inv:
  assumes "queue_inv q"
  shows "ring_inv (ring_of q)"
proof -
  let ?p = "replicate (qs_tail q) None @ queue_items q"
  from assms have free: "qs_q q ! ((qs_tail q + i) mod qs_size q) = None"
    if "qs_empty q \<le> i" "i < qs_size q" for i
    using that by (simp add: queue_inv_def)
  have len: "length (queue_items q) = qs_empty q" by (simp add: queue_items_def)
  have A: "qs_q q ! (i mod qs_size q) = ?p ! i" if "qs_tail q \<le> i" "i < qs_tail q + qs_empty q" for i
  proof -
    from that have "i - qs_tail q < qs_empty q" by linarith
    with that show ?thesis by (simp add: nth_append queue_items_def)
  qed
  have B: "qs_q q ! (i mod qs_size q) = None"
    if "qs_tail q + qs_empty q \<le> i" "i < qs_tail q + qs_size q" for i
    using free [of "i - qs_tail q"] that by simp
  show ?thesis
    unfolding ring_inv_def Let_def ring_of_def
    using assms A B by (simp add: ring_counts queue_inv_def len)
qed

lemma ring_inv_idle:
  assumes "ring_inv g" and "rg_prod g = P_idle" and "rg_cons g = C_idle"
  shows "queue_inv (rg_q g)" and "rg_pushed g = rg_popped g @ queue_items (rg_q g)"
proof -
  define q where "q = rg_q g"
  define n where "n = qs_size q"
  define w where "w = length (rg_pushed g)"
  define r where "r = length (rg_popped g)"
  from assms have I: "0 < n" "length (qs_q q) = n" "r \<le> w" "qs_head q = w mod n"
    "qs_tail q = r mod n" "qs_full q + w = n + r" "qs_empty q + r = w"
    "rg_popped g = take r (rg_pushed g)"
    and old: "\<And>i. r \<le> i \<Longrightarrow> i < w \<Longrightarrow> qs_q q ! (i mod n) = rg_pushed g ! i"
    and free: "\<And>i. w \<le> i \<Longrightarrow> i < r + n \<Longrightarrow> qs_q q ! (i mod n) = None"
    by (simp_all add: ring_inv_def Let_def q_def n_def w_def r_def ring_counts)
  have w: "w = r + qs_empty q" using I(7) by simp
  have "qs_q q ! ((r mod n + i) mod n) = None" if "qs_empty q \<le> i" "i < n" for i
    using free [of "r + i"] that w by (simp add: mod_add_left_eq)
  then show "queue_inv (rg_q g)"
    using I w by (simp add: queue_inv_def q_def [symmetric] n_def [symmetric] mod_add_left_eq)
  have "queue_items q = drop r (rg_pushed g)"
  proof (rule nth_equalityI)
    show "length (queue_items q) = length (drop r (rg_pushed g))"
      using w by (simp add: queue_items_def w_def [symmetric])
    show "queue_items q ! i = drop r (rg_pushed g) ! i" if "i < length (queue_items q)" for i
      using that old [of "r + i"] w I(3,5)
      by (simp add: queue_items_def n_def [symmetric] mod_add_left_eq w_def [symmetric])
  qed
  then show "rg_pushed g = rg_popped g @ queue_items (rg_q g)"
    using I(8) append_take_drop_id [of r "rg_pushed g"] by (simp add: q_def)
qed


text \<open>Push appends, pop takes the first entry; they block exactly when full or empty.\<close>

lemma ring_of_simps [simp]:
  "rg_q (ring_of q) = q" "rg_prod (ring_of q) = P_idle" "rg_cons (ring_of q) = C_idle"
  "rg_popped (ring_of q) = replicate (qs_tail q) None"
  "rg_pushed (ring_of q) = replicate (qs_tail q) None @ queue_items q"
  by (simp_all add: ring_of_def)

lemma queue_sem_push_correct:
  assumes inv: "queue_inv q"
  shows "length (queue_items q) < qs_size q \<Longrightarrow>
      \<exists>q'. queue_sem_push [] q e = Some (Inr q') \<and> queue_inv q' \<and>
        queue_items q' = queue_items q @ [e] \<and> qs_size q' = qs_size q"
    and "length (queue_items q) = qs_size q \<Longrightarrow> queue_sem_push [] q e = None"
proof -
  have full: "qs_full q + length (queue_items q) = qs_size q"
    using inv by (simp add: queue_inv_def queue_items_def)
  then show "queue_sem_push [] q e = None" if "length (queue_items q) = qs_size q"
    using that by (simp add: queue_sem_push_def)
  assume "length (queue_items q) < qs_size q"
  with full have pos: "0 < qs_full q" by simp
  define g0 where "g0 = ring_of q"
  define g1 where "g1 = g0\<lparr>rg_q := push_claim q (qs_full q - 1), rg_prod := P_claimed e\<rparr>"
  have g1: "ring_inv g1"
    by (rule ring_step_inv [OF _ ring_of_inv [OF inv]])
      (use p_claim [of g0 "qs_full q - 1" e] pos in \<open>simp add: g0_def g1_def\<close>)
  from ring_inv_store [OF g1, of e] obtain q2 where q2: "push_store (rg_q g1) e = Inr q2"
    "ring_inv (g1\<lparr>rg_q := q2, rg_prod := P_stored, rg_pushed := rg_pushed g1 @ [e]\<rparr>)"
    by (auto simp: g1_def)
  let ?g2 = "g1\<lparr>rg_q := q2, rg_prod := P_stored, rg_pushed := rg_pushed g1 @ [e]\<rparr>"
  let ?g3 = "?g2\<lparr>rg_q := push_advance q2, rg_prod := P_moved\<rparr>"
  let ?g4 = "?g3\<lparr>rg_q := push_post (push_advance q2), rg_prod := P_idle\<rparr>"
  have "ring_inv ?g3" using ring_inv_push_advance [OF q2(2)] by simp
  then have "ring_inv ?g4" using ring_step_inv [OF p_post [of ?g3]] by simp
  note I = ring_inv_idle [OF this]
  have "queue_sem_push [] q e = Some (Inr (push_post (push_advance q2)))"
    using pos q2(1) by (simp add: queue_sem_push_def g1_def)
  moreover have "queue_items (push_post (push_advance q2)) = queue_items q @ [e]"
    using I(2) by (simp add: g1_def g0_def)
  moreover have "qs_size (push_post (push_advance q2)) = qs_size q"
    using q2(1) by (auto simp: push_post_def push_advance_def push_store_def g1_def push_claim_def
      split: if_splits)
  ultimately show "\<exists>q'. queue_sem_push [] q e = Some (Inr q') \<and> queue_inv q' \<and>
      queue_items q' = queue_items q @ [e] \<and> qs_size q' = qs_size q"
    using I(1) by (auto simp: g1_def g0_def)
qed

lemma queue_sem_pop_correct:
  assumes inv: "queue_inv q"
  shows "queue_items q = e # es \<Longrightarrow>
      \<exists>q'. queue_sem_pop [] q = Some (Inr (e, q')) \<and> queue_inv q' \<and> queue_items q' = es \<and>
        qs_size q' = qs_size q"
    and "queue_items q = [] \<Longrightarrow> queue_sem_pop [] q = None"
proof -
  have empty: "length (queue_items q) = qs_empty q" by (simp add: queue_items_def)
  then show "queue_sem_pop [] q = None" if "queue_items q = []"
    using that by (simp add: queue_sem_pop_def)
  assume items: "queue_items q = e # es"
  with empty have pos: "0 < qs_empty q" by auto
  define g0 where "g0 = ring_of q"
  define q1 where "q1 = pop_claim q (qs_empty q - 1)"
  define g1 where "g1 = g0\<lparr>rg_q := q1, rg_cons := C_claimed\<rparr>"
  have g1: "ring_inv g1"
    by (rule ring_step_inv [OF _ ring_of_inv [OF inv]])
      (use c_claim [of g0 "qs_empty q - 1"] pos in \<open>simp add: g0_def g1_def q1_def\<close>)
  let ?g2 = "g1\<lparr>rg_cons := C_read (pop_read q1)\<rparr>"
  let ?g3 = "?g2\<lparr>rg_q := pop_clear q1, rg_cons := C_cleared, rg_popped := rg_popped g1 @ [pop_read q1]\<rparr>"
  let ?g4 = "?g3\<lparr>rg_q := pop_advance (pop_clear q1), rg_cons := C_moved\<rparr>"
  let ?g5 = "?g4\<lparr>rg_q := pop_post (pop_advance (pop_clear q1)), rg_cons := C_idle\<rparr>"
  have "ring_inv ?g2" using ring_inv_read [OF g1] by (simp add: g1_def)
  then have "ring_inv ?g3" using ring_inv_clear [of ?g2 "pop_read q1"] by (simp add: g1_def)
  then have "ring_inv ?g4" using ring_inv_pop_advance [of ?g3] by simp
  then have "ring_inv ?g5" using ring_step_inv [OF c_post [of ?g4]] by simp
  note I = ring_inv_idle [OF this]
  let ?q' = "pop_post (pop_advance (pop_clear q1))"
  have "queue_sem_pop [] q = Some (Inr (pop_read q1, ?q'))"
    using pos by (simp add: queue_sem_pop_def q1_def Let_def)
  moreover have "pop_read q1 # queue_items ?q' = e # es"
    using I(2) items by (simp add: g1_def g0_def)
  moreover have "qs_size ?q' = qs_size q"
    by (simp add: pop_post_def pop_advance_def pop_clear_def q1_def pop_claim_def)
  ultimately show "\<exists>q'. queue_sem_pop [] q = Some (Inr (e, q')) \<and> queue_inv q' \<and>
      queue_items q' = es \<and> qs_size q' = qs_size q"
    using I(1) by (auto simp: g1_def g0_def)
qed

lemma sem_wait_interrupted: "set errs \<subseteq> {EINTR} \<Longrightarrow> sem_wait_loop errs s = sem_wait_loop [] s"
  by (induction errs) (auto simp: c_defs)

lemma init_queue_sem_inv:
  "init_queue_sem True True al sz = Inr (Some q, ok, r) \<Longrightarrow>
   queue_inv q \<and> queue_items q = [] \<and> qs_size q = sz"
  by (auto simp: init_queue_sem_def queue_inv_def queue_items_def split: if_splits)

lemma queue_items_bound: "queue_inv q \<Longrightarrow> length (queue_items q) \<le> qs_size q"
  by (simp add: queue_inv_def queue_items_def)

lemma fresh_ring_queue:
  "0 < n \<Longrightarrow> queue_inv (rg_q (ring_init n)) \<and> queue_items (rg_q (ring_init n)) = []"
  by (simp add: queue_inv_def ring_init_def queue_items_def)

lemma ring_inv_fifo:
  assumes "ring_inv g"
  shows "rg_popped g = take (length (rg_popped g)) (rg_pushed g) \<and>
    length (rg_pushed g) \<le> length (rg_popped g) + qs_size (rg_q g)"
proof -
  from assms have "qs_full (rg_q g) + length (rg_pushed g) + p_holds (rg_prod g) +
      c_unposted (rg_cons g) = qs_size (rg_q g) + length (rg_popped g)"
    and "rg_popped g = take (length (rg_popped g)) (rg_pushed g)"
    unfolding ring_inv_def Let_def by blast+
  then show ?thesis by linarith
qed

end
