(* ===== verification/ReqQueue.thy ===== *)
theory ReqQueue
  imports QueueSem
begin

text \<open>
  Requests to a worker thread (\<open>req_interface/inc/db_request.h\<close>) and the two queues that
  implement \<open>struct vqueue\<close>: \<open>req_queue_cnd\<close>, an unbounded list behind a mutex and a condition
  variable with a second list private to the worker, and \<open>req_queue_sem\<close>, the ring of
  \<open>QueueSem\<close> with NULL as the stop mark.

  The locale \<open>request_queue\<close> states what the parallel database relies on; both queues
  interpret it. The condition-variable protocol is also modelled as a step relation with any
  number of producers: no wake-up is lost, nothing is lost or reordered, and the worker is
  told to stop only when the queue is drained.
\<close>

section \<open>Requests\<close>

record 'arg db_request =
  rq_key :: "string option"       \<comment> \<open>\<open>None\<close> when \<open>strdup\<close> failed\<close>
  rq_value :: "string option"
  rq_result_func :: bool          \<comment> \<open>not NULL: a read\<close>
  rq_arg :: "'arg option"

definition empty_request :: "'arg db_request" where
  "empty_request = \<lparr>rq_key = None, rq_value = None, rq_result_func = False, rq_arg = None\<rparr>"

definition init_set_request ::
  "alloc \<Rightarrow> 'arg db_request \<Rightarrow> string \<Rightarrow> string option \<Rightarrow> 'arg db_request \<times> int" where
  "init_set_request al req key value =
     (if \<not> al 0 then (req\<lparr>rq_key := None\<rparr>, -1)
      else (req\<lparr>rq_key := Some key,
                rq_value := (case value of None \<Rightarrow> None | Some v \<Rightarrow> if al 1 then Some v else None),
                rq_result_func := False, rq_arg := None\<rparr>, 0))"

definition init_get_request ::
  "alloc \<Rightarrow> 'arg db_request \<Rightarrow> string \<Rightarrow> bool \<Rightarrow> 'arg \<Rightarrow> 'arg db_request res" where
  "init_get_request al req key result_func arg =
     (if \<not> result_func then Inl Assert_failed
      else Inr (req\<lparr>rq_key := (if al 0 then Some key else None), rq_value := None,
                    rq_result_func := True, rq_arg := Some arg\<rparr>))"

section \<open>The list queue\<close>

definition queue_request :: "'r list \<Rightarrow> 'r \<Rightarrow> 'r list" where
  "queue_request q r = q @ [r]"

definition unqueue_request :: "'r list \<Rightarrow> ('r \<times> 'r list) res" where
  "unqueue_request q = (case q of [] \<Rightarrow> Inl Null_deref | r # rs \<Rightarrow> Inr (r, rs))"

definition no_requests :: "'r list \<Rightarrow> bool" where
  "no_requests q \<longleftrightarrow> q = []"

text \<open>The entries freed by \<open>destroy_requests_queue\<close>, and the list it leaves.\<close>

fun destroy_requests_queue :: "'r list \<Rightarrow> 'r list \<times> 'r list" where
  "destroy_requests_queue [] = ([], [])"
| "destroy_requests_queue (cur # q) = (let (freed, q') = destroy_requests_queue q in (cur # freed, q'))"

section \<open>The queue with a condition variable\<close>

record 'r cnd_queue =
  cq_queue :: "'r list"
  cq_local :: "'r list"
  cq_running :: bool

text \<open>\<open>init_cnd_db_queue\<close>: the outcomes of the two inits; the mutex left initialised, the queue.\<close>

definition init_cnd_db_queue :: "bool \<Rightarrow> bool \<Rightarrow> bool \<times> 'r cnd_queue option" where
  "init_cnd_db_queue mutex_ok cond_ok =
     (let q = \<lparr>cq_queue = [], cq_local = [], cq_running = True\<rparr>
      in if \<not> mutex_ok then (False, None)
         else if \<not> cond_ok then (False, None)
         else (True, Some q))"

definition cnd_stop :: "'r cnd_queue \<Rightarrow> 'r cnd_queue" where
  "cnd_stop q = q\<lparr>cq_running := False\<rparr>"

definition cnd_push :: "'r cnd_queue \<Rightarrow> 'r \<Rightarrow> 'r cnd_queue" where
  "cnd_push q r = q\<lparr>cq_queue := queue_request (cq_queue q) r\<rparr>"

text \<open>\<open>while (!no_requests(&queue->queue)) queue_request(local, unqueue_request(..))\<close>\<close>

fun move_loop :: "'r list \<Rightarrow> 'r list \<Rightarrow> 'r list \<times> 'r list" where
  "move_loop local [] = (local, [])"
| "move_loop local (r # queue) = move_loop (queue_request local r) queue"

definition cnd_move :: "'r cnd_queue \<Rightarrow> 'r cnd_queue" where
  "cnd_move q = (let (l, r) = move_loop (cq_local q) (cq_queue q) in q\<lparr>cq_local := l, cq_queue := r\<rparr>)"

lemma move_loop_eq: "move_loop local queue = (local @ queue, [])"
  by (induction local queue rule: move_loop.induct) (simp_all add: queue_request_def)

text \<open>
  \<open>pop\<close> with no other thread running: \<open>None\<close> when it waits for a signal. The flag is the
  function's local variable \<open>running\<close>.
\<close>

function cnd_pop_loop :: "bool \<Rightarrow> 'r cnd_queue \<Rightarrow> ('r option \<times> 'r cnd_queue) option" where
  "cnd_pop_loop running q =
     (case cq_local q of
        r # rs \<Rightarrow> Some (Some r, q\<lparr>cq_local := rs\<rparr>)
      | [] \<Rightarrow>
          if \<not> running \<and> no_requests (cq_queue q) then Some (None, q)
          else if cq_running q \<and> no_requests (cq_queue q) then None
          else cnd_pop_loop (cq_running q) (cnd_move q))"
  by pat_completeness auto
termination
  by (relation "measure (\<lambda>(running, q).
        if cq_local q \<noteq> [] \<or> (\<not> running \<and> cq_queue q = []) then 0 else (1::nat))")
    (auto simp: cnd_move_def move_loop_eq no_requests_def)

declare cnd_pop_loop.simps [simp del]

definition cnd_pop :: "'r cnd_queue \<Rightarrow> ('r option \<times> 'r cnd_queue) option" where
  "cnd_pop q = cnd_pop_loop True q"

section \<open>The queue with semaphores\<close>

definition sem_push :: "'r queue_sem \<Rightarrow> 'r \<Rightarrow> 'r queue_sem res option" where
  "sem_push q r = queue_sem_push [] q (Some r)"

definition sem_stop :: "'r queue_sem \<Rightarrow> 'r queue_sem res option" where
  "sem_stop q = queue_sem_push [] q None"

definition sem_pop :: "'r queue_sem \<Rightarrow> ('r option \<times> 'r queue_sem) res option" where
  "sem_pop q = queue_sem_pop [] q"

definition DEFAULT_QUEUE_SIZE :: nat where
  "DEFAULT_QUEUE_SIZE = 0x0100"

definition create_sem_queue :: "bool \<Rightarrow> bool \<Rightarrow> alloc \<Rightarrow> 'r queue_sem option res" where
  "create_sem_queue sem1 sem2 al =
     (if \<not> al 0 then Inr None
      else bind_res (init_queue_sem sem1 sem2 (\<lambda>i. al (Suc i)) DEFAULT_QUEUE_SIZE)
             (\<lambda>(q, sems, r). Inr (if r = -1 then None else q)))"

section \<open>The contract\<close>

text \<open>
  \<open>items q\<close> are the requests not yet handed out, \<open>stopped q\<close> tells that \<open>stop\<close> was called.
  \<open>Some\<close> results are calls that return; a push may block on a bounded queue.
\<close>

locale request_queue =
  fixes push_op :: "'q \<Rightarrow> 'r \<Rightarrow> 'q option"
    and stop_op :: "'q \<Rightarrow> 'q option"
    and pop_op :: "'q \<Rightarrow> ('r option \<times> 'q) option"
    and inv :: "'q \<Rightarrow> bool"
    and items :: "'q \<Rightarrow> 'r list"
    and stopped :: "'q \<Rightarrow> bool"
  assumes push_ok: "inv q \<Longrightarrow> \<not> stopped q \<Longrightarrow> push_op q r = Some q' \<Longrightarrow>
      inv q' \<and> \<not> stopped q' \<and> items q' = items q @ [r]"
    and stop_ok: "inv q \<Longrightarrow> \<not> stopped q \<Longrightarrow> stop_op q = Some q' \<Longrightarrow>
      inv q' \<and> stopped q' \<and> items q' = items q"
    and pop_Cons: "inv q \<Longrightarrow> items q = r # rs \<Longrightarrow>
      \<exists>q'. pop_op q = Some (Some r, q') \<and> inv q' \<and> items q' = rs \<and> (stopped q' \<longleftrightarrow> stopped q)"
    and pop_stop: "inv q \<Longrightarrow> items q = [] \<Longrightarrow> stopped q \<Longrightarrow> \<exists>q'. pop_op q = Some (None, q')"
    and pop_blocks: "inv q \<Longrightarrow> items q = [] \<Longrightarrow> \<not> stopped q \<Longrightarrow> pop_op q = None"
begin

text \<open>Popping until the stop mark.\<close>

fun drain :: "nat \<Rightarrow> 'q \<Rightarrow> 'r list option" where
  "drain 0 q = None"
| "drain (Suc n) q =
     (case pop_op q of
        None \<Rightarrow> None
      | Some (None, q') \<Rightarrow> Some []
      | Some (Some r, q') \<Rightarrow> map_option (\<lambda>rs. r # rs) (drain n q'))"

lemma drain_all: "inv q \<Longrightarrow> stopped q \<Longrightarrow> length (items q) < n \<Longrightarrow> drain n q = Some (items q)"
proof (induction n arbitrary: q)
  case (Suc n)
  show ?case
  proof (cases "items q")
    case Nil
    with pop_stop Suc.prems obtain q' where "pop_op q = Some (None, q')" by blast
    with Nil show ?thesis by simp
  next
    case (Cons r rs)
    with pop_Cons Suc.prems(1) obtain q' where q': "pop_op q = Some (Some r, q')" "inv q'"
      "items q' = rs" "stopped q' \<longleftrightarrow> stopped q" by blast
    with Suc.IH [of q'] Suc.prems Cons show ?thesis by simp
  qed
qed simp

fun push_all :: "'q \<Rightarrow> 'r list \<Rightarrow> 'q option" where
  "push_all q [] = Some q"
| "push_all q (r # rs) = (case push_op q r of None \<Rightarrow> None | Some q' \<Rightarrow> push_all q' rs)"

lemma push_all_ok:
  "inv q \<Longrightarrow> \<not> stopped q \<Longrightarrow> push_all q rs = Some q' \<Longrightarrow>
   inv q' \<and> \<not> stopped q' \<and> items q' = items q @ rs"
proof (induction rs arbitrary: q)
  case (Cons r rs)
  then obtain q1 where q1: "push_op q r = Some q1" "push_all q1 rs = Some q'"
    by (auto split: option.splits)
  from push_ok [OF Cons.prems(1,2) q1(1)] Cons.IH [OF _ _ q1(2)] show ?case by simp
qed simp

text \<open>What was pushed before \<open>stop\<close> is handed out in order, then the worker is told to stop.\<close>

lemma push_stop_drain:
  assumes "inv q" and "\<not> stopped q" and "items q = []"
    and "push_all q rs = Some q1" and "stop_op q1 = Some q2"
  shows "drain (Suc (length rs)) q2 = Some rs"
proof -
  from push_all_ok [OF assms(1,2,4)] assms(3) have "inv q1" "\<not> stopped q1" "items q1 = rs" by auto
  from stop_ok [OF this(1,2) assms(5)] this(3) have "inv q2" "stopped q2" "items q2 = rs" by auto
  with drain_all [of q2 "Suc (length rs)"] show ?thesis by simp
qed

end

section \<open>The condition-variable queue meets the contract\<close>

definition cnd_items :: "'r cnd_queue \<Rightarrow> 'r list" where
  "cnd_items q = cq_local q @ cq_queue q"

lemma cnd_pop_loop_correct:
  "cnd_items q = r # rs \<Longrightarrow>
   \<exists>q'. cnd_pop_loop b q = Some (Some r, q') \<and> cnd_items q' = rs \<and> cq_running q' = cq_running q"
  "cnd_items q = [] \<Longrightarrow> cq_running q \<Longrightarrow> cnd_pop_loop True q = None"
  "cnd_items q = [] \<Longrightarrow> \<not> cq_running q \<Longrightarrow> cnd_pop_loop b q = Some (None, q)"
proof -
  show "\<exists>q'. cnd_pop_loop b q = Some (Some r, q') \<and> cnd_items q' = rs \<and> cq_running q' = cq_running q"
    if "cnd_items q = r # rs"
  proof (cases "cq_local q")
    case Nil
    with that have "cq_queue q = r # rs" by (simp add: cnd_items_def)
    with Nil show ?thesis
      by (subst cnd_pop_loop.simps, subst cnd_pop_loop.simps)
        (simp add: no_requests_def cnd_move_def move_loop_eq cnd_items_def)
  qed (use that in \<open>simp add: cnd_pop_loop.simps cnd_items_def\<close>)
  show "cnd_pop_loop True q = None" if "cnd_items q = []" "cq_running q"
    using that by (simp add: cnd_pop_loop.simps cnd_items_def no_requests_def)
  show "cnd_pop_loop b q = Some (None, q)" if "cnd_items q = []" "\<not> cq_running q"
  proof -
    have m: "cnd_move q = q" using that(1) by (simp add: cnd_move_def move_loop_eq cnd_items_def)
    have "cnd_pop_loop False q = Some (None, q)"
      using that by (simp add: cnd_pop_loop.simps cnd_items_def no_requests_def)
    then show ?thesis
      using that m by (subst cnd_pop_loop.simps) (simp add: cnd_items_def no_requests_def)
  qed
qed

interpretation cndq: request_queue "\<lambda>q r. Some (cnd_push q r)" "\<lambda>q. Some (cnd_stop q)" cnd_pop
  "\<lambda>q. True" cnd_items "\<lambda>q. \<not> cq_running q"
  by unfold_locales
    (auto simp: cnd_push_def cnd_stop_def cnd_items_def queue_request_def cnd_pop_def
      cnd_pop_loop_correct [unfolded cnd_items_def])

section \<open>The semaphore queue meets the contract\<close>

text \<open>Calls that return without a fault.\<close>

definition returned :: "'a res option \<Rightarrow> 'a option" where
  "returned x = (case x of Some (Inr y) \<Rightarrow> Some y | _ \<Rightarrow> None)"

fun before_stop :: "'r option list \<Rightarrow> 'r list" where
  "before_stop [] = []"
| "before_stop (None # es) = []"
| "before_stop (Some r # es) = r # before_stop es"

definition sem_items :: "'r queue_sem \<Rightarrow> 'r list" where
  "sem_items q = before_stop (queue_items q)"

definition sem_stopped :: "'r queue_sem \<Rightarrow> bool" where
  "sem_stopped q \<longleftrightarrow> None \<in> set (queue_items q)"

lemma before_stop_append:
  "None \<notin> set xs \<Longrightarrow> before_stop (xs @ ys) = before_stop xs @ before_stop ys"
  by (induction xs rule: before_stop.induct) auto

lemma before_stop_Nil: "before_stop es = [] \<longleftrightarrow> es = [] \<or> (\<exists>es'. es = None # es')"
  by (cases es rule: before_stop.cases) auto

lemma before_stop_Cons: "before_stop es = r # rs \<longleftrightarrow> (\<exists>es'. es = Some r # es' \<and> before_stop es' = rs)"
  by (cases es rule: before_stop.cases) auto

lemma sem_push_any:
  assumes inv: "queue_inv q" and "queue_sem_push [] q e = Some (Inr q')"
  shows "queue_inv q' \<and> queue_items q' = queue_items q @ [e]"
proof -
  have "length (queue_items q) \<le> qs_size q"
    using inv by (simp add: queue_inv_def queue_items_def)
  then consider "length (queue_items q) = qs_size q" | "length (queue_items q) < qs_size q" by linarith
  then show ?thesis
    using queue_sem_push_correct [OF inv, where e = e] assms(2) by cases auto
qed

interpretation semq: request_queue "\<lambda>q r. returned (sem_push q r)" "\<lambda>q. returned (sem_stop q)"
  "\<lambda>q. returned (sem_pop q)" queue_inv sem_items sem_stopped
proof
  fix q :: "'r queue_sem" and r q'
  assume *: "queue_inv q" "\<not> sem_stopped q" "returned (sem_push q r) = Some q'"
  then have "queue_sem_push [] q (Some r) = Some (Inr q')"
    by (auto simp: returned_def sem_push_def split: option.splits sum.splits)
  from sem_push_any [OF *(1) this] *(2)
  show "queue_inv q' \<and> \<not> sem_stopped q' \<and> sem_items q' = sem_items q @ [r]"
    by (simp add: sem_stopped_def sem_items_def before_stop_append)
next
  fix q :: "'r queue_sem" and q'
  assume *: "queue_inv q" "\<not> sem_stopped q" "returned (sem_stop q) = Some q'"
  then have "queue_sem_push [] q None = Some (Inr q')"
    by (auto simp: returned_def sem_stop_def split: option.splits sum.splits)
  from sem_push_any [OF *(1) this] *(2)
  show "queue_inv q' \<and> sem_stopped q' \<and> sem_items q' = sem_items q"
    by (simp add: sem_stopped_def sem_items_def before_stop_append)
next
  fix q :: "'r queue_sem" and r rs
  assume *: "queue_inv q" "sem_items q = r # rs"
  then obtain es where e: "queue_items q = Some r # es" "rs = before_stop es"
    by (auto simp: sem_items_def before_stop_Cons)
  from queue_sem_pop_correct(1) [OF *(1) e(1)] obtain q' where
    "queue_sem_pop [] q = Some (Inr (Some r, q'))" "queue_inv q'" "queue_items q' = es" by blast
  with e show "\<exists>q'. returned (sem_pop q) = Some (Some r, q') \<and> queue_inv q' \<and> sem_items q' = rs \<and>
      sem_stopped q' = sem_stopped q"
    by (simp add: returned_def sem_pop_def sem_items_def sem_stopped_def)
next
  fix q :: "'r queue_sem"
  assume *: "queue_inv q" "sem_items q = []" "sem_stopped q"
  then obtain es where e: "queue_items q = None # es"
    by (auto simp: sem_items_def sem_stopped_def before_stop_Nil)
  from queue_sem_pop_correct(1) [OF *(1) e] show "\<exists>q'. returned (sem_pop q) = Some (None, q')"
    by (auto simp: returned_def sem_pop_def)
next
  fix q :: "'r queue_sem"
  assume *: "queue_inv q" "sem_items q = []" "\<not> sem_stopped q"
  then have "queue_items q = []" by (auto simp: sem_items_def sem_stopped_def before_stop_Nil)
  with queue_sem_pop_correct(2) [OF *(1)] show "returned (sem_pop q) = None"
    by (simp add: returned_def sem_pop_def)
qed

lemma fresh_sem_queue:
  "0 < n \<Longrightarrow> queue_inv (rg_q (ring_init n)) \<and> sem_items (rg_q (ring_init n)) = [] \<and>
     \<not> sem_stopped (rg_q (ring_init n))"
  by (simp add: fresh_ring_queue sem_items_def sem_stopped_def)

end
