(* ===== verification/CndProtocol.thy ===== *)
theory CndProtocol
  imports ReqQueue
begin

text \<open>
  \<open>req_queue_cnd/src/req_queue_cnd.c\<close> with all its threads: any number of them call \<open>push\<close> or
  \<open>stop\<close>, one worker calls \<open>pop\<close> again and again. One step is one action between two points
  where another thread can run: taking or leaving the mutex, the list operations, the signal,
  going to sleep. A sleeping worker may also wake up without a signal.

  Lemmas: the mutex excludes, the requests handed out are those pushed, in order, a sleeping
  worker has nothing to do unless a signal is on its way, and \<open>pop\<close> returns NULL only after
  \<open>stop\<close> and with every request handed out.
\<close>

section \<open>State and steps\<close>

datatype 'r call = Push 'r | Stop

datatype 'r caller_pc =
    R_idle
  | R_lock "'r call"        \<comment> \<open>before \<open>pthread_mutex_lock\<close>\<close>
  | R_locked "'r call"      \<comment> \<open>before the list operation or the write of \<open>running\<close>\<close>
  | R_signal                \<comment> \<open>before \<open>pthread_cond_signal\<close>\<close>
  | R_unlock                \<comment> \<open>before \<open>pthread_mutex_unlock\<close>\<close>

datatype 'r worker_pc =
    K_check                 \<comment> \<open>the two tests at the head of the loop\<close>
  | K_lock
  | K_locked                \<comment> \<open>reads \<open>running\<close>, decides whether to wait\<close>
  | K_waiting               \<comment> \<open>asleep in \<open>pthread_cond_wait\<close>\<close>
  | K_woken                 \<comment> \<open>awake, takes the mutex again\<close>
  | K_move
  | K_unlock
  | K_return "'r option"

datatype holder = Caller nat | Worker

record 'r cnd_state =
  cp_q :: "'r cnd_queue"
  cp_mutex :: "holder option"
  cp_worker :: "'r worker_pc"
  cp_running :: bool               \<comment> \<open>the local variable of \<open>pop\<close>\<close>
  cp_caller :: "nat \<Rightarrow> 'r caller_pc"
  cp_pushed :: "'r list"
  cp_popped :: "'r list"

definition cnd_init :: "'r cnd_state" where
  "cnd_init = \<lparr>cp_q = \<lparr>cq_queue = [], cq_local = [], cq_running = True\<rparr>, cp_mutex = None,
     cp_worker = K_check, cp_running = True, cp_caller = (\<lambda>_. R_idle), cp_pushed = [],
     cp_popped = []\<rparr>"

text \<open>What \<open>push\<close> and \<open>stop\<close> do while they hold the mutex.\<close>

fun apply_call :: "'r call \<Rightarrow> 'r cnd_queue \<Rightarrow> 'r cnd_queue" where
  "apply_call (Push r) q = cnd_push q r"
| "apply_call Stop q = cnd_stop q"

fun call_log :: "'r call \<Rightarrow> 'r list" where
  "call_log (Push r) = [r]"
| "call_log Stop = []"

inductive cnd_step :: "'r cnd_state \<Rightarrow> 'r cnd_state \<Rightarrow> bool" where
  r_call: "cp_caller s i = R_idle \<Longrightarrow>
    cnd_step s (s\<lparr>cp_caller := (cp_caller s)(i := R_lock c)\<rparr>)"
| r_lock: "cp_caller s i = R_lock c \<Longrightarrow> cp_mutex s = None \<Longrightarrow>
    cnd_step s (s\<lparr>cp_caller := (cp_caller s)(i := R_locked c), cp_mutex := Some (Caller i)\<rparr>)"
| r_apply: "cp_caller s i = R_locked c \<Longrightarrow>
    cnd_step s (s\<lparr>cp_caller := (cp_caller s)(i := R_signal), cp_q := apply_call c (cp_q s),
                  cp_pushed := cp_pushed s @ call_log c\<rparr>)"
| r_signal: "cp_caller s i = R_signal \<Longrightarrow>
    cnd_step s (s\<lparr>cp_caller := (cp_caller s)(i := R_unlock),
                  cp_worker := (if cp_worker s = K_waiting then K_woken else cp_worker s)\<rparr>)"
| r_unlock: "cp_caller s i = R_unlock \<Longrightarrow>
    cnd_step s (s\<lparr>cp_caller := (cp_caller s)(i := R_idle), cp_mutex := None\<rparr>)"
| k_take: "cp_worker s = K_check \<Longrightarrow> cq_local (cp_q s) = r # rs \<Longrightarrow>
    cnd_step s (s\<lparr>cp_worker := K_return (Some r), cp_q := (cp_q s)\<lparr>cq_local := rs\<rparr>,
                  cp_popped := cp_popped s @ [r]\<rparr>)"
| k_null: "cp_worker s = K_check \<Longrightarrow> cq_local (cp_q s) = [] \<Longrightarrow> \<not> cp_running s \<Longrightarrow>
    no_requests (cq_queue (cp_q s)) \<Longrightarrow> cnd_step s (s\<lparr>cp_worker := K_return None\<rparr>)"
| k_check: "cp_worker s = K_check \<Longrightarrow> cq_local (cp_q s) = [] \<Longrightarrow>
    \<not> (\<not> cp_running s \<and> no_requests (cq_queue (cp_q s))) \<Longrightarrow>
    cnd_step s (s\<lparr>cp_worker := K_lock\<rparr>)"
| k_lock: "cp_worker s = K_lock \<Longrightarrow> cp_mutex s = None \<Longrightarrow>
    cnd_step s (s\<lparr>cp_worker := K_locked, cp_mutex := Some Worker\<rparr>)"
| k_wait: "cp_worker s = K_locked \<Longrightarrow> cq_running (cp_q s) \<Longrightarrow> no_requests (cq_queue (cp_q s)) \<Longrightarrow>
    cnd_step s (s\<lparr>cp_worker := K_waiting, cp_running := True, cp_mutex := None\<rparr>)"
| k_go: "cp_worker s = K_locked \<Longrightarrow> \<not> (cq_running (cp_q s) \<and> no_requests (cq_queue (cp_q s))) \<Longrightarrow>
    cnd_step s (s\<lparr>cp_worker := K_move, cp_running := cq_running (cp_q s)\<rparr>)"
| k_spurious: "cp_worker s = K_waiting \<Longrightarrow> cnd_step s (s\<lparr>cp_worker := K_woken\<rparr>)"
| k_woken: "cp_worker s = K_woken \<Longrightarrow> cp_mutex s = None \<Longrightarrow>
    cnd_step s (s\<lparr>cp_worker := K_move, cp_mutex := Some Worker\<rparr>)"
| k_move: "cp_worker s = K_move \<Longrightarrow>
    cnd_step s (s\<lparr>cp_worker := K_unlock, cp_q := cnd_move (cp_q s)\<rparr>)"
| k_unlock: "cp_worker s = K_unlock \<Longrightarrow>
    cnd_step s (s\<lparr>cp_worker := K_check, cp_mutex := None\<rparr>)"
| k_again: "cp_worker s = K_return (Some r) \<Longrightarrow>
    cnd_step s (s\<lparr>cp_worker := K_check, cp_running := True\<rparr>)"

inductive_cases cnd_stepE: "cnd_step s s'"

abbreviation cnd_reachable :: "'r cnd_state \<Rightarrow> bool" where
  "cnd_reachable s \<equiv> cnd_step\<^sup>*\<^sup>* cnd_init s"

section \<open>The mutex\<close>

fun in_section :: "'r caller_pc \<Rightarrow> bool" where
  "in_section (R_locked c) = True"
| "in_section R_signal = True"
| "in_section R_unlock = True"
| "in_section _ = False"

fun worker_in_section :: "'r worker_pc \<Rightarrow> bool" where
  "worker_in_section K_locked = True"
| "worker_in_section K_move = True"
| "worker_in_section K_unlock = True"
| "worker_in_section _ = False"

definition mutex_inv :: "'r cnd_state \<Rightarrow> bool" where
  "mutex_inv s \<longleftrightarrow>
     (\<forall>i. in_section (cp_caller s i) \<longleftrightarrow> cp_mutex s = Some (Caller i)) \<and>
     (worker_in_section (cp_worker s) \<longleftrightarrow> cp_mutex s = Some Worker)"

lemma mutex_step:
  assumes "cnd_step s s'" and "mutex_inv s"
  shows "mutex_inv s'"
proof -
  from assms(2) have I: "in_section (cp_caller s i) \<longleftrightarrow> cp_mutex s = Some (Caller i)"
    and K: "worker_in_section (cp_worker s) \<longleftrightarrow> cp_mutex s = Some Worker" for i
    by (auto simp: mutex_inv_def)
  from assms(1) show ?thesis
  proof (cases rule: cnd_step.cases)
    case (r_call i c)
    with I [of i] I K show ?thesis unfolding mutex_inv_def by auto
  next
    case (r_lock i c)
    with I [of i] I K show ?thesis unfolding mutex_inv_def by auto
  next
    case (r_apply i c)
    with I [of i] I K show ?thesis unfolding mutex_inv_def by auto
  next
    case (r_signal i)
    with I [of i] I K show ?thesis unfolding mutex_inv_def by auto
  next
    case (r_unlock i)
    with I [of i] I K show ?thesis unfolding mutex_inv_def by auto
  qed (use I K in \<open>auto simp: mutex_inv_def\<close>)
qed

section \<open>Requests in order\<close>

definition order_inv :: "'r cnd_state \<Rightarrow> bool" where
  "order_inv s \<longleftrightarrow> cp_pushed s = cp_popped s @ cnd_items (cp_q s)"

lemma order_step: "cnd_step s s' \<Longrightarrow> order_inv s \<Longrightarrow> order_inv s'"
proof (induction rule: cnd_step.induct)
  case (r_apply s i c)
  then show ?case
    by (cases c) (simp_all add: order_inv_def cnd_items_def cnd_push_def cnd_stop_def queue_request_def)
qed (simp_all add: order_inv_def cnd_items_def cnd_move_def move_loop_eq)

section \<open>Waiting\<close>

text \<open>The local \<open>running\<close> lags behind the flag, and a worker past its tests has no local work.\<close>

definition wait_inv :: "'r cnd_state \<Rightarrow> bool" where
  "wait_inv s \<longleftrightarrow>
     (\<not> cp_running s \<longrightarrow> \<not> cq_running (cp_q s)) \<and>
     (cp_worker s \<in> {K_lock, K_locked, K_waiting, K_woken, K_move} \<longrightarrow> cq_local (cp_q s) = []) \<and>
     (cp_worker s = K_waiting \<longrightarrow>
        cq_queue (cp_q s) = [] \<and> cq_running (cp_q s) \<or> (\<exists>i. cp_caller s i = R_signal)) \<and>
     (cp_worker s = K_return None \<longrightarrow> cq_local (cp_q s) = [] \<and> \<not> cq_running (cp_q s))"

lemma wait_step:
  assumes "cnd_step s s'" and "mutex_inv s" and "wait_inv s"
  shows "wait_inv s'"
  using assms
proof (induction rule: cnd_step.induct)
  case (r_apply s i c)
  then show ?case
    by (cases c) (auto simp: wait_inv_def cnd_push_def cnd_stop_def queue_request_def)
next
  case (r_signal s i)
  then show ?case by (simp add: wait_inv_def)
next
  case (r_lock s i c)
  have "cp_caller s j \<noteq> R_signal" for j
    using r_lock(2,3) in_section.simps(2) by (metis mutex_inv_def option.distinct(1))
  with r_lock show ?case by (auto simp: wait_inv_def)
next
  case (r_unlock s i)
  have "cp_caller s j \<noteq> R_signal" for j
  proof
    assume "cp_caller s j = R_signal"
    then have "in_section (cp_caller s j)" "in_section (cp_caller s i)" using r_unlock(1) by simp_all
    then have "j = i" using r_unlock(2) by (simp add: mutex_inv_def)
    with r_unlock(1) \<open>cp_caller s j = R_signal\<close> show False by simp
  qed
  with r_unlock show ?case by (auto simp: wait_inv_def)
next
  case (r_call s i c)
  then have "((cp_caller s)(i := R_lock c)) j = R_signal \<longleftrightarrow> cp_caller s j = R_signal" for j
    by (cases "j = i") simp_all
  with r_call show ?case by (simp add: wait_inv_def del: fun_upd_apply)
qed (auto simp: wait_inv_def no_requests_def cnd_move_def move_loop_eq)

lemma cnd_reachable_inv: "cnd_reachable s \<Longrightarrow> mutex_inv s \<and> order_inv s \<and> wait_inv s"
proof (induction rule: rtranclp_induct)
  case base
  show ?case by (simp add: cnd_init_def mutex_inv_def order_inv_def wait_inv_def cnd_items_def)
next
  case (step s s')
  then show ?case using mutex_step order_step wait_step by blast
qed

lemma cnd_waiting_idle:
  assumes "wait_inv s" and "cp_worker s = K_waiting" and "\<forall>i. cp_caller s i \<noteq> R_signal"
  shows "cnd_items (cp_q s) = [] \<and> cq_running (cp_q s)"
  using assms unfolding wait_inv_def cnd_items_def by simp

lemma cnd_mutex_excludes:
  assumes "mutex_inv s" and "in_section (cp_caller s i)" and "in_section (cp_caller s j)"
  shows "i = j"
proof -
  from assms have "cp_mutex s = Some (Caller i)" "cp_mutex s = Some (Caller j)"
    unfolding mutex_inv_def by blast+
  then show ?thesis by simp
qed

text \<open>The step that makes \<open>pop\<close> return NULL is taken only when everything was handed out.\<close>

lemma cnd_null_drained:
  assumes "cnd_step s s'" and "cp_worker s' = K_return None" and "cp_worker s \<noteq> K_return None"
  shows "cnd_items (cp_q s') = [] \<and> \<not> cp_running s'"
  using assms by (cases rule: cnd_step.cases) (auto simp: cnd_items_def no_requests_def split: if_splits)

text \<open>A run that gets there: a caller stops the empty queue while the worker waits.\<close>

lemma cnd_null_run:
  "\<exists>s s' :: 'r cnd_state. cnd_reachable s \<and> cnd_step s s' \<and> cp_worker s \<noteq> K_return None \<and>
     cp_worker s' = K_return None"
proof -
  let ?s0 = "cnd_init :: 'r cnd_state"
  let ?s1 = "?s0\<lparr>cp_caller := (cp_caller ?s0)(0 := R_lock Stop)\<rparr>"
  let ?s2 = "?s1\<lparr>cp_caller := (cp_caller ?s1)(0 := R_locked Stop), cp_mutex := Some (Caller 0)\<rparr>"
  let ?s3 = "?s2\<lparr>cp_caller := (cp_caller ?s2)(0 := R_signal), cp_q := apply_call Stop (cp_q ?s2),
    cp_pushed := cp_pushed ?s2 @ call_log Stop\<rparr>"
  let ?s4 = "?s3\<lparr>cp_caller := (cp_caller ?s3)(0 := R_unlock),
    cp_worker := (if cp_worker ?s3 = K_waiting then K_woken else cp_worker ?s3)\<rparr>"
  let ?s5 = "?s4\<lparr>cp_caller := (cp_caller ?s4)(0 := R_idle), cp_mutex := None\<rparr>"
  let ?s6 = "?s5\<lparr>cp_worker := K_lock\<rparr>"
  let ?s7 = "?s6\<lparr>cp_worker := K_locked, cp_mutex := Some Worker\<rparr>"
  let ?s8 = "?s7\<lparr>cp_worker := K_move, cp_running := cq_running (cp_q ?s7)\<rparr>"
  let ?s9 = "?s8\<lparr>cp_worker := K_unlock, cp_q := cnd_move (cp_q ?s8)\<rparr>"
  let ?s10 = "?s9\<lparr>cp_worker := K_check, cp_mutex := None\<rparr>"
  let ?s11 = "?s10\<lparr>cp_worker := K_return None\<rparr>"
  have d: "cnd_step ?s0 ?s1" by (rule r_call) (simp add: cnd_init_def)
  have "cnd_step ?s1 ?s2" by (rule r_lock) (simp_all add: cnd_init_def)
  with d have r2: "cnd_reachable ?s2" by (blast intro: rtranclp.rtrancl_into_rtrancl)
  have "cnd_step ?s2 ?s3" by (rule r_apply) simp
  moreover have "cnd_step ?s3 ?s4" by (rule r_signal) simp
  ultimately have r4: "cnd_reachable ?s4" using r2 by (blast intro: rtranclp.rtrancl_into_rtrancl)
  have "cnd_step ?s4 ?s5" by (rule r_unlock) simp
  moreover have "cnd_step ?s5 ?s6" by (rule k_check) (simp_all add: cnd_init_def cnd_stop_def)
  ultimately have r6: "cnd_reachable ?s6" using r4 by (blast intro: rtranclp.rtrancl_into_rtrancl)
  have "cnd_step ?s6 ?s7" by (rule k_lock) (simp_all add: cnd_init_def)
  moreover have "cnd_step ?s7 ?s8" by (rule k_go) (simp_all add: cnd_init_def cnd_stop_def)
  ultimately have r8: "cnd_reachable ?s8" using r6 by (blast intro: rtranclp.rtrancl_into_rtrancl)
  have "cnd_step ?s8 ?s9" by (rule k_move) simp
  moreover have "cnd_step ?s9 ?s10" by (rule k_unlock) simp
  ultimately have r10: "cnd_reachable ?s10" using r8 by (blast intro: rtranclp.rtrancl_into_rtrancl)
  have "cnd_step ?s10 ?s11"
    by (rule k_null) (simp_all add: cnd_init_def cnd_stop_def cnd_move_def move_loop_eq no_requests_def)
  with r10 show ?thesis by (intro exI [of _ ?s10] exI [of _ ?s11]) simp
qed

end
