(* ===== verification/DbParallel.thy ===== *)
theory DbParallel
  imports DbLock CndProtocol
begin

text \<open>
  The parallel database \<open>db_parallel/src/db_parallel.c\<close>: 255 simple databases, each owned by a
  worker thread with a request queue. \<open>set\<close> and \<open>geta\<close> only put a request into the queue that
  the key's hash selects; the worker applies it and calls the result function.

  The queue is a parameter, as \<open>create_queue\<close> is in the code: its three operations are
  arguments, and lemmas assume the contract \<open>request_queue\<close>, which both queues of \<open>ReqQueue\<close>
  interpret. Lemmas: whatever the interleaving of callers and workers, every read is answered
  with the value that the earlier calls for its stripe determine; \<open>destroy\<close> first serves all
  requests; a failed initialisation leaves no queue and no thread behind.
\<close>

section \<open>State\<close>

record 'q parallel_db =
  par_queue :: "'q list"
  par_sub :: "simple_db list"

definition get_queue :: "string \<Rightarrow> nat res" where
  "get_queue key =
     (let t = string_hash key
      in if \<not> (0 \<le> t \<and> t < int N_SUBS) then Inl Assert_failed else Inr (nat t))"

section \<open>Calls\<close>

text \<open>
  \<open>mem\<close> is the block \<open>new_request\<close> gets from \<open>malloc\<close> (site 0), with whatever it contains. The
  outer option is \<open>None\<close> when the push blocks on a full queue. The result of
  \<open>init_set_request\<close> is not looked at.
\<close>

definition push_request ::
  "('q \<Rightarrow> 'arg db_request \<Rightarrow> 'q option) \<Rightarrow> 'q parallel_db \<Rightarrow> nat \<Rightarrow> 'arg db_request \<Rightarrow>
   ('q parallel_db \<times> int) res option" where
  "push_request push db t req =
     (case push (par_queue db ! t) req of
        None \<Rightarrow> None
      | Some q \<Rightarrow> Some (Inr (db\<lparr>par_queue := (par_queue db)[t := q]\<rparr>, 0)))"

definition parallel_geta ::
  "('q \<Rightarrow> 'arg db_request \<Rightarrow> 'q option) \<Rightarrow> alloc \<Rightarrow> 'arg db_request \<Rightarrow> bool \<Rightarrow>
   'q parallel_db \<Rightarrow> string \<Rightarrow> 'arg \<Rightarrow> ('q parallel_db \<times> int) res option" where
  "parallel_geta push al mem async db key arg =
     (if \<not> async then Some (Inl Assert_failed)
      else case get_queue key of
        Inl e \<Rightarrow> Some (Inl e)
      | Inr t \<Rightarrow>
          if \<not> al 0 then Some (Inr (db, -1))
          else case init_get_request (\<lambda>i. al (Suc i)) mem key async arg of
            Inl e \<Rightarrow> Some (Inl e)
          | Inr req \<Rightarrow> push_request push db t req)"

definition parallel_set ::
  "('q \<Rightarrow> 'arg db_request \<Rightarrow> 'q option) \<Rightarrow> alloc \<Rightarrow> 'arg db_request \<Rightarrow>
   'q parallel_db \<Rightarrow> string \<Rightarrow> string option \<Rightarrow> ('q parallel_db \<times> int) res option" where
  "parallel_set push al mem db key value =
     (case get_queue key of
        Inl e \<Rightarrow> Some (Inl e)
      | Inr t \<Rightarrow>
          if \<not> al 0 then Some (Inr (db, -1))
          else push_request push db t (fst (init_set_request (\<lambda>i. al (Suc i)) mem key value)))"

section \<open>The worker\<close>

text \<open>
  One turn of \<open>db_thread\<close> after \<open>pop\<close>: the stripe's new tree and the call of the result
  function. A NULL key is compared by \<open>strcmp\<close> as soon as the tree has a node; a NULL key that
  would be stored in an empty tree is refused here already.
\<close>

definition serve_request ::
  "alloc \<Rightarrow> 'arg db_request \<Rightarrow> simple_db \<Rightarrow>
   (simple_db \<times> (string option \<times> string option \<times> 'arg option) option) res" where
  "serve_request al req db =
     (case rq_key req of
        None \<Rightarrow>
          if db \<noteq> Leaf \<or> \<not> rq_result_func req \<and> rq_value req \<noteq> None then Inl Null_deref
          else Inr (db, if rq_result_func req then Some (None, None, rq_arg req) else None)
      | Some key \<Rightarrow>
          if rq_result_func req
          then bind_res (simple_get al db key) (\<lambda>value. Inr (db, Some (Some key, value, rq_arg req)))
          else bind_res (simple_set_inst al db key (rq_value req)) (\<lambda>(db', r). Inr (db', None)))"

text \<open>The whole thread: requests until \<open>pop\<close> returns NULL; fuel bounds the number of pops.\<close>

fun db_thread ::
  "('q \<Rightarrow> ('arg db_request option \<times> 'q) option) \<Rightarrow> nat \<Rightarrow> 'q \<Rightarrow> simple_db \<Rightarrow>
   (simple_db \<times> (string option \<times> string option \<times> 'arg option) list) res option" where
  "db_thread pop 0 q db = None"
| "db_thread pop (Suc n) q db =
     (case pop q of
        None \<Rightarrow> None
      | Some (None, q') \<Rightarrow> Some (Inr (db, []))
      | Some (Some req, q') \<Rightarrow>
          (case serve_request all_ok req db of
             Inl e \<Rightarrow> Some (Inl e)
           | Inr (db', answer) \<Rightarrow>
               map_option (\<lambda>x. bind_res x (\<lambda>(db'', answers).
                 Inr (db'', (case answer of None \<Rightarrow> [] | Some a \<Rightarrow> [a]) @ answers)))
                 (db_thread pop n q' db')))"

section \<open>Initialisation\<close>

text \<open>
  \<open>queue_ok i\<close> and \<open>thread_ok i\<close> are the outcomes of the \<open>i\<close>-th \<open>create_queue\<close> and
  \<open>pthread_create\<close>; \<open>init_simple_db\<close> cannot fail. \<open>create_upto\<close> is a creation loop: its counter
  and the indices created; \<open>undo_upto\<close> is a clean-up loop. The result: the trees, queues and
  threads that exist at the end, and the pointer returned (\<open>False\<close> for NULL).
\<close>

fun create_upto :: "(nat \<Rightarrow> bool) \<Rightarrow> nat \<Rightarrow> nat \<Rightarrow> nat set \<Rightarrow> nat \<times> nat set" where
  "create_upto ok 0 i made = (i, made)"
| "create_upto ok (Suc todo) i made =
     (if ok i then create_upto ok todo (Suc i) (insert i made) else (i, made))"

fun undo_upto :: "nat \<Rightarrow> nat set \<Rightarrow> nat set" where
  "undo_upto 0 made = made"
| "undo_upto (Suc n) made = undo_upto n made - {n}"

definition init_parallel_db ::
  "(nat \<Rightarrow> bool) \<Rightarrow> (nat \<Rightarrow> bool) \<Rightarrow> (nat set \<times> nat set \<times> nat set) \<times> bool" where
  "init_parallel_db queue_ok thread_ok =
     (let (ndbs, dbs) = create_upto (\<lambda>i. True) N_SUBS 0 {};
          (nreqs, reqs) = create_upto queue_ok N_SUBS 0 {}
      in if nreqs < N_SUBS then ((undo_upto ndbs dbs, undo_upto nreqs reqs, {}), False)
         else
           (let (ntrds, trds) = create_upto thread_ok N_SUBS 0 {}
            in if ntrds < N_SUBS
               then ((undo_upto ndbs dbs, undo_upto nreqs reqs, undo_upto ntrds trds), False)
               else ((dbs, reqs, trds), True)))"

text \<open>
  \<open>destroy\<close>: stop and join every worker, then destroy every tree. \<open>None\<close>: a \<open>stop\<close> blocks or
  a worker does not end within the fuel.
\<close>

fun destroy_stripes ::
  "('q \<Rightarrow> 'q option) \<Rightarrow> ('q \<Rightarrow> ('arg db_request option \<times> 'q) option) \<Rightarrow> nat \<Rightarrow> 'q list \<Rightarrow> simple_db list \<Rightarrow>
   (simple_db list \<times> (string option \<times> string option \<times> 'arg option) list) res option" where
  "destroy_stripes stop pop n (q # qs) (d # ds) =
     (case stop q of
        None \<Rightarrow> None
      | Some q' \<Rightarrow>
          (case db_thread pop n q' d of
             None \<Rightarrow> None
           | Some (Inl e) \<Rightarrow> Some (Inl e)
           | Some (Inr (d', answers)) \<Rightarrow>
               map_option (\<lambda>x. bind_res x (\<lambda>(ds', answers'). Inr (d' # ds', answers @ answers')))
                 (destroy_stripes stop pop n qs ds)))"
| "destroy_stripes stop pop n qs ds = Some (Inr ([], []))"

fun destroy_subs :: "simple_db list \<Rightarrow> simple_db list res" where
  "destroy_subs [] = Inr []"
| "destroy_subs (d # ds) =
     (case simple_destroy d of
        Some (Inr (freed, t)) \<Rightarrow> bind_res (destroy_subs ds) (\<lambda>ts. Inr (t # ts))
      | Some (Inl e) \<Rightarrow> Inl e
      | None \<Rightarrow> Inl Exit_failure)"

definition parallel_destroy ::
  "('q \<Rightarrow> 'q option) \<Rightarrow> ('q \<Rightarrow> ('arg db_request option \<times> 'q) option) \<Rightarrow> nat \<Rightarrow> 'q parallel_db \<Rightarrow>
   ('q parallel_db \<times> (string option \<times> string option \<times> 'arg option) list) res option" where
  "parallel_destroy stop pop n db =
     (case destroy_stripes stop pop n (par_queue db) (par_sub db) of
        None \<Rightarrow> None
      | Some (Inl e) \<Rightarrow> Some (Inl e)
      | Some (Inr (ds, answers)) \<Rightarrow>
          Some (bind_res (destroy_subs ds) (\<lambda>ts. Inr (db\<lparr>par_sub := ts\<rparr>, answers))))"

text \<open>
  The operations table that \<open>init_parallel_db\<close> fills in, here with the unbounded queue, on
  which a push never blocks: \<open>geta\<close> only queues the request, so it calls no result function.
  \<open>mem\<close> is the block \<open>malloc\<close> gives to \<open>new_request\<close>. \<open>destroy\<close> needs one pop per request and
  one for the stop of each stripe.
\<close>

definition parallel_vdb :: "'arg db_request \<Rightarrow> ('arg db_request cnd_queue parallel_db, 'arg) vdb" where
  "parallel_vdb mem =
     \<lparr>vdb_destroy = (\<lambda>db.
        case parallel_destroy (\<lambda>q. Some (cnd_stop q)) cnd_pop
               (Suc (sum_list (map (\<lambda>q. length (cq_local q) + length (cq_queue q)) (par_queue db)))) db of
          None \<Rightarrow> Inl Exit_failure
        | Some x \<Rightarrow> bind_res x (\<lambda>(db', answers). Inr db')),
      vdb_set = (\<lambda>al db key value.
        case parallel_set (\<lambda>q r. Some (cnd_push q r)) al mem db key value of
          None \<Rightarrow> Inl Exit_failure
        | Some x \<Rightarrow> x),
      vdb_set_inst = None,
      vdb_get = None,
      vdb_geta = Some (\<lambda>al db key arg.
        case parallel_geta (\<lambda>q r. Some (cnd_push q r)) al mem True db key arg of
          None \<Rightarrow> Inl Exit_failure
        | Some x \<Rightarrow> bind_res x (\<lambda>(db', r). Inr (db', [], r))),
      vdb_async_result = True\<rparr>"

section \<open>Serving one request\<close>

text \<open>Requests as \<open>set\<close> and \<open>geta\<close> build them when no allocation fails.\<close>

definition request_job :: "'arg db_request \<Rightarrow> job" where
  "request_job req = (case rq_key req of
     None \<Rightarrow> Job_get []
   | Some k \<Rightarrow> if rq_result_func req then Job_get k else Job_set k (rq_value req))"

definition request_ok :: "'arg db_request \<Rightarrow> bool" where
  "request_ok req \<longleftrightarrow> rq_key req \<noteq> None"

definition answer_value :: "(string option \<times> string option \<times> 'arg option) option \<Rightarrow> string option" where
  "answer_value a = (case a of None \<Rightarrow> None | Some (k, v, arg) \<Rightarrow> v)"

lemma serve_request_correct:
  assumes "db_inv db" and "request_ok req"
  shows "\<exists>db' a. serve_request all_ok req db = Inr (db', a) \<and> db_inv db' \<and>
    db_contents db' = log_effect (request_job req, answer_value a) (db_contents db) \<and>
    entry_ok (request_job req, answer_value a) (db_contents db) \<and>
    (a \<noteq> None \<longleftrightarrow> rq_result_func req) \<and>
    (\<forall>k v arg. a = Some (k, v, arg) \<longrightarrow> k = rq_key req \<and> arg = rq_arg req)"
proof -
  from assms(2) obtain k where k: "rq_key req = Some k" by (auto simp: request_ok_def)
  show ?thesis
  proof (cases "rq_result_func req")
    case True
    with k assms(1) show ?thesis
      by (simp add: serve_request_def simple_get_correct answer_value_def request_job_def)
  next
    case False
    from simple_set_inst_correct [OF assms(1), of "rq_value req" all_ok k] obtain db' where
      "simple_set_inst all_ok db k (rq_value req) = Inr (db', 0)" "db_inv db'"
      "db_contents db' = (db_contents db)(k := rq_value req)" by auto
    with k False show ?thesis by (simp add: serve_request_def answer_value_def request_job_def)
  qed
qed

section \<open>Initialisation leaves all or nothing\<close>

lemma create_upto_spec:
  "create_upto ok todo i {..<i} = (m, made) \<Longrightarrow>
   i \<le> m \<and> m \<le> i + todo \<and> made = {..<m} \<and>
   (m = i + todo \<longleftrightarrow> (\<forall>j. i \<le> j \<and> j < i + todo \<longrightarrow> ok j))"
proof (induction todo arbitrary: i)
  case 0
  then show ?case by auto
next
  case (Suc todo)
  show ?case
  proof (cases "ok i")
    case True
    with Suc.prems have "create_upto ok todo (Suc i) {..<Suc i} = (m, made)"
      by (simp add: lessThan_Suc)
    note IH = Suc.IH [OF this]
    have eq: "(\<forall>j. i \<le> j \<and> j < i + Suc todo \<longrightarrow> ok j) \<longleftrightarrow>
        (\<forall>j. Suc i \<le> j \<and> j < Suc i + todo \<longrightarrow> ok j)" (is "?L \<longleftrightarrow> ?R")
    proof
      assume R: ?R
      show ?L
      proof (intro allI impI)
        fix j assume "i \<le> j \<and> j < i + Suc todo"
        with R True show "ok j" by (cases "j = i") simp_all
      qed
    qed auto
    show ?thesis unfolding eq using IH by simp
  next
    case False
    with Suc.prems show ?thesis by auto
  qed
qed

lemma undo_upto_all: "undo_upto n {..<m} = {..<m} - {..<n}"
proof (induction n)
  case (Suc n)
  show ?case unfolding undo_upto.simps Suc.IH lessThan_Suc by blast
qed simp

lemma init_parallel_db_correct:
  "init_parallel_db queue_ok thread_ok =
     (if (\<forall>i < N_SUBS. queue_ok i) \<and> (\<forall>i < N_SUBS. thread_ok i)
      then (({..<N_SUBS}, {..<N_SUBS}, {..<N_SUBS}), True) else (({}, {}, {}), False))"
proof -
  obtain nd d where d: "create_upto (\<lambda>i. True) N_SUBS 0 {} = (nd, d)" by fastforce
  obtain nr r where r: "create_upto queue_ok N_SUBS 0 {} = (nr, r)" by fastforce
  obtain nt t where t: "create_upto thread_ok N_SUBS 0 {} = (nt, t)" by fastforce
  from create_upto_spec [of "\<lambda>i. True" N_SUBS 0 nd d] d have "nd = N_SUBS" "d = {..<N_SUBS}" by auto
  moreover from create_upto_spec [of queue_ok N_SUBS 0 nr r] r have
    "r = {..<nr}" "nr \<le> N_SUBS" "nr = N_SUBS \<longleftrightarrow> (\<forall>i < N_SUBS. queue_ok i)" by auto
  moreover from create_upto_spec [of thread_ok N_SUBS 0 nt t] t have
    "t = {..<nt}" "nt \<le> N_SUBS" "nt = N_SUBS \<longleftrightarrow> (\<forall>i < N_SUBS. thread_ok i)" by auto
  ultimately show ?thesis
    using le_neq_implies_less [of nr N_SUBS] le_neq_implies_less [of nt N_SUBS]
    by (auto simp: init_parallel_db_def d r t undo_upto_all simp del: not_less)
qed

section \<open>Workers and callers interleaved\<close>

text \<open>
  \<open>pr_calls t\<close> are the calls made for stripe \<open>t\<close> so far, \<open>pr_log t\<close> those its worker has
  served, with the value handed to the result function.
\<close>

record 'q par_run =
  pr_db :: "'q parallel_db"
  pr_calls :: "nat \<Rightarrow> job list"
  pr_log :: "nat \<Rightarrow> (job \<times> string option) list"

inductive par_step ::
  "('q \<Rightarrow> 'arg db_request \<Rightarrow> 'q option) \<Rightarrow> ('q \<Rightarrow> ('arg db_request option \<times> 'q) option) \<Rightarrow>
   'q par_run \<Rightarrow> 'q par_run \<Rightarrow> bool"
  for push pop where
  par_set: "get_queue key = Inr t \<Longrightarrow>
    parallel_set push all_ok mem (pr_db s) key value = Some (Inr (db, 0)) \<Longrightarrow>
    par_step push pop s (s\<lparr>pr_db := db,
      pr_calls := (pr_calls s)(t := pr_calls s t @ [Job_set key value])\<rparr>)"
| par_geta: "get_queue key = Inr t \<Longrightarrow>
    parallel_geta push all_ok mem True (pr_db s) key arg = Some (Inr (db, 0)) \<Longrightarrow>
    par_step push pop s (s\<lparr>pr_db := db,
      pr_calls := (pr_calls s)(t := pr_calls s t @ [Job_get key])\<rparr>)"
| par_serve: "t < N_SUBS \<Longrightarrow> pop (par_queue (pr_db s) ! t) = Some (Some req, q) \<Longrightarrow>
    serve_request all_ok req (par_sub (pr_db s) ! t) = Inr (d, a) \<Longrightarrow>
    par_step push pop s (s\<lparr>pr_db := \<lparr>par_queue = (par_queue (pr_db s))[t := q],
                                     par_sub = (par_sub (pr_db s))[t := d]\<rparr>,
      pr_log := (pr_log s)(t := pr_log s t @ [(request_job req, answer_value a)])\<rparr>)"

text \<open>The start: every queue is fresh.\<close>

definition par_start :: "'q \<Rightarrow> 'q par_run" where
  "par_start q0 = \<lparr>pr_db = \<lparr>par_queue = replicate N_SUBS q0, par_sub = replicate N_SUBS empty_simple_db\<rparr>,
     pr_calls = (\<lambda>_. []), pr_log = (\<lambda>_. [])\<rparr>"

lemma get_queue_bound: "get_queue key = Inr t \<Longrightarrow> t < N_SUBS"
  by (auto simp: get_queue_def Let_def split: if_splits)

locale parallel_queue = request_queue push_op stop_op pop_op inv items stopped
  for push_op :: "'q \<Rightarrow> 'arg db_request \<Rightarrow> 'q option"
    and stop_op :: "'q \<Rightarrow> 'q option"
    and pop_op :: "'q \<Rightarrow> ('arg db_request option \<times> 'q) option"
    and inv :: "'q \<Rightarrow> bool"
    and items :: "'q \<Rightarrow> 'arg db_request list"
    and stopped :: "'q \<Rightarrow> bool"
begin

text \<open>Stripe \<open>t\<close> of a state in which no worker was told to stop.\<close>

definition stripe_good :: "'q parallel_db \<Rightarrow> nat \<Rightarrow> job list \<Rightarrow> (job \<times> string option) list \<Rightarrow> bool" where
  "stripe_good db t calls log \<longleftrightarrow>
     inv (par_queue db ! t) \<and> \<not> stopped (par_queue db ! t) \<and>
     (\<forall>r\<in>set (items (par_queue db ! t)). request_ok r) \<and>
     calls = map fst log @ map request_job (items (par_queue db ! t)) \<and>
     db_inv (par_sub db ! t) \<and> db_contents (par_sub db ! t) = log_map log \<and> log_consistent log"

definition par_inv :: "'q par_run \<Rightarrow> bool" where
  "par_inv s \<longleftrightarrow> length (par_queue (pr_db s)) = N_SUBS \<and> length (par_sub (pr_db s)) = N_SUBS \<and>
     (\<forall>t < N_SUBS. stripe_good (pr_db s) t (pr_calls s t) (pr_log s t))"

lemma par_inv_start:
  assumes "inv q0" and "\<not> stopped q0" and "items q0 = []"
  shows "par_inv (par_start q0)"
  using assms by (simp add: par_inv_def par_start_def stripe_good_def db_inv_empty log_map_def
    log_consistent_def)

lemma push_request_good:
  assumes "par_inv s" and "t < N_SUBS" and "request_ok req"
    and "push_request push_op (pr_db s) t req = Some (Inr (db, r))"
  shows "par_inv (s\<lparr>pr_db := db, pr_calls := (pr_calls s)(t := pr_calls s t @ [request_job req])\<rparr>)"
proof -
  from assms(4) obtain q where q: "push_op (par_queue (pr_db s) ! t) req = Some q"
    "db = (pr_db s)\<lparr>par_queue := (par_queue (pr_db s))[t := q]\<rparr>"
    by (auto simp: push_request_def split: option.splits)
  from assms(1,2) have len: "t < length (par_queue (pr_db s))" by (auto simp: par_inv_def)
  from assms(1) have good: "stripe_good (pr_db s) t' (pr_calls s t') (pr_log s t')" if "t' < N_SUBS" for t'
    using that by (auto simp: par_inv_def)
  from push_ok [OF _ _ q(1)] good [OF assms(2)] len assms(3) q(2) have
    "stripe_good db t (pr_calls s t @ [request_job req]) (pr_log s t)"
    by (simp add: stripe_good_def)
  moreover have "stripe_good db t' (pr_calls s t') (pr_log s t')" if "t' < N_SUBS" "t' \<noteq> t" for t'
    using good [OF that(1)] that(2) q(2) by (simp add: stripe_good_def)
  ultimately show ?thesis
    using assms(1) q(2) by (simp add: par_inv_def)
qed

lemma par_serve_good:
  assumes "par_inv s" and t: "t < N_SUBS" and pop: "pop_op (par_queue (pr_db s) ! t) = Some (Some req, q)"
    and serve: "serve_request all_ok req (par_sub (pr_db s) ! t) = Inr (d, a)"
  shows "par_inv (s\<lparr>pr_db := \<lparr>par_queue = (par_queue (pr_db s))[t := q],
      par_sub = (par_sub (pr_db s))[t := d]\<rparr>,
    pr_log := (pr_log s)(t := pr_log s t @ [(request_job req, answer_value a)])\<rparr>)"
proof -
  let ?q = "par_queue (pr_db s) ! t" and ?d = "par_sub (pr_db s) ! t"
  let ?db = "\<lparr>par_queue = (par_queue (pr_db s))[t := q], par_sub = (par_sub (pr_db s))[t := d]\<rparr>"
  from assms(1) t have len: "t < length (par_queue (pr_db s))" "t < length (par_sub (pr_db s))"
    by (auto simp: par_inv_def)
  from assms(1) have good: "stripe_good (pr_db s) t' (pr_calls s t') (pr_log s t')"
    if "t' < N_SUBS" for t' using that by (auto simp: par_inv_def)
  note g = good [OF t, unfolded stripe_good_def]
  from g pop pop_blocks [of ?q] obtain r rs where items: "items ?q = r # rs"
    by (cases "items ?q") auto
  with g pop_Cons [OF _ items] pop have
    q: "r = req" "inv q" "items q = rs" "\<not> stopped q" by auto
  from g items q(1) have ok: "request_ok req" and dinv: "db_inv ?d" by auto
  from serve_request_correct [OF dinv ok] serve have
    "db_inv d" "db_contents d = log_effect (request_job req, answer_value a) (db_contents ?d)"
    "entry_ok (request_job req, answer_value a) (db_contents ?d)" by auto
  with g items q len have "stripe_good ?db t (pr_calls s t)
      (pr_log s t @ [(request_job req, answer_value a)])"
    unfolding stripe_good_def by (simp add: log_consistent_snoc)
  moreover have "stripe_good ?db t' (pr_calls s t') (pr_log s t')" if "t' < N_SUBS" "t' \<noteq> t" for t'
    using good [OF that(1)] that(2) by (simp add: stripe_good_def)
  ultimately show ?thesis
    using assms(1) by (simp add: par_inv_def)
qed

lemma par_step_good: "par_step push_op pop_op s s' \<Longrightarrow> par_inv s \<Longrightarrow> par_inv s'"
proof (induction rule: par_step.induct)
  case (par_set key t mem s val db)
  let ?req = "fst (init_set_request (\<lambda>i. all_ok (Suc i)) mem key val)"
  have "request_ok ?req" "request_job ?req = Job_set key val"
    by (simp_all add: init_set_request_def request_ok_def request_job_def split: option.split)
  moreover from par_set(1,2) have "push_request push_op (pr_db s) t ?req = Some (Inr (db, 0))"
    by (simp add: parallel_set_def)
  ultimately show ?case
    using push_request_good [OF par_set(3) get_queue_bound [OF par_set(1)]] by metis
next
  case (par_geta key t mem s arg db)
  obtain req where req: "init_get_request (\<lambda>i. all_ok (Suc i)) mem key True arg = Inr req"
    "request_ok req" "request_job req = Job_get key"
    by (simp add: init_get_request_def request_ok_def request_job_def)
  with par_geta(1,2) have "push_request push_op (pr_db s) t req = Some (Inr (db, 0))"
    by (simp add: parallel_geta_def)
  with req show ?case
    using push_request_good [OF par_geta(3) get_queue_bound [OF par_geta(1)]] by metis
next
  case (par_serve t s req q d a)
  then show ?case using par_serve_good by blast
qed

lemma par_reachable_good:
  assumes "(par_step push_op pop_op)\<^sup>*\<^sup>* (par_start q0) s"
    and "inv q0" and "\<not> stopped q0" and "items q0 = []"
  shows "par_inv s"
  using assms(1) by (induction rule: rtranclp_induct) (use par_inv_start assms(2-4) par_step_good in blast)+

text \<open>The worker serves every queued request before it ends, and its tree is then up to date.\<close>

fun serve_all :: "'arg db_request list \<Rightarrow> (string \<rightharpoonup> string) \<Rightarrow> (string \<rightharpoonup> string)" where
  "serve_all [] m = m"
| "serve_all (r # rs) m = serve_all rs (log_effect (request_job r, None) m)"

lemma log_effect_value: "log_effect (j, v) m = log_effect (j, None) m"
  by (cases j) simp_all

lemma db_thread_correct:
  "inv q \<Longrightarrow> stopped q \<Longrightarrow> length (items q) < n \<Longrightarrow> \<forall>r\<in>set (items q). request_ok r \<Longrightarrow> db_inv d \<Longrightarrow>
   \<exists>d' answers. db_thread pop_op n q d = Some (Inr (d', answers)) \<and> db_inv d' \<and>
     db_contents d' = serve_all (items q) (db_contents d) \<and>
     length answers = length (filter rq_result_func (items q))"
proof (induction n arbitrary: q d)
  case (Suc n)
  show ?case
  proof (cases "items q")
    case Nil
    with pop_stop Suc.prems obtain q' where "pop_op q = Some (None, q')" by blast
    with Nil Suc.prems show ?thesis by simp
  next
    case (Cons r rs)
    with pop_Cons Suc.prems(1,2) obtain q' where q': "pop_op q = Some (Some r, q')" "inv q'"
      "items q' = rs" "stopped q'" by blast
    from Suc.prems(4) Cons have "request_ok r" by simp
    from serve_request_correct [OF Suc.prems(5) this] obtain d1 a where
      d1: "serve_request all_ok r d = Inr (d1, a)" "db_inv d1"
      "db_contents d1 = log_effect (request_job r, answer_value a) (db_contents d)"
      "a \<noteq> None \<longleftrightarrow> rq_result_func r" by blast
    from Suc.IH [OF q'(2,4) _ _ d1(2)] Suc.prems Cons q'(3) obtain d' answers where
      "db_thread pop_op n q' d1 = Some (Inr (d', answers))" "db_inv d'"
      "db_contents d' = serve_all rs (db_contents d1)"
      "length answers = length (filter rq_result_func rs)" by auto
    with q'(1) d1 Cons show ?thesis
      by (auto simp: log_effect_value [of _ "answer_value a"] split: option.splits)
  qed
qed simp

end

interpretation cndp: parallel_queue "\<lambda>q r. Some (cnd_push q r)" "\<lambda>q. Some (cnd_stop q)" cnd_pop
  "\<lambda>q. True" cnd_items "\<lambda>q. \<not> cq_running q"
  by unfold_locales

interpretation semp: parallel_queue "\<lambda>q r. returned (sem_push q r)" "\<lambda>q. returned (sem_stop q)"
  "\<lambda>q. returned (sem_pop q)" queue_inv sem_items sem_stopped
  by unfold_locales

end
