(* ===== verification/PollSafety.thy ===== *)
theory PollSafety
  imports PollServer DbParallel
begin

text \<open>
  Safety of the polling server with any asynchronous database: the handlers of \<open>PollServer\<close>
  and the answers of the database as steps in any order.

  Every connection has a generation, which changes when its slot is reused; a request carries
  the generation that asked. \<open>pv_pending\<close> are the requests the database has not answered,
  \<open>pv_pipe\<close> the generations of the messages in the control pipe and \<open>pv_delivered\<close> the
  deliveries so far (slot, generation that asked, generation served).
\<close>

section \<open>What the server relies on\<close>

text \<open>\<open>geta\<close> calls the result function at most once, with the argument it was given.\<close>

locale async_vdb =
  fixes ops :: "('d, 'arg) vdb"
  assumes geta_calls: "vdb_geta ops = Some geta \<Longrightarrow> geta al d k a = Inr (d', rs, r) \<Longrightarrow>
    rs = [] \<or> (\<exists>v. rs = [(k, v, a)])"
begin

lemma process_cmd_calls:
  assumes "process_cmd al ops db (Some inc_queue_cnt) c arg req = Inr (db', c', ans, send, calls)"
  shows "(c' = c \<and> calls = [] \<and> send) \<or>
    (ct_state c = CNCT_OPEN \<and> c' = c\<lparr>ct_queue_cnt := ct_queue_cnt c + 1\<rparr> \<and>
     (calls = [] \<or> (\<exists>k v. calls = [(k, v, arg)])))"
proof (cases "\<exists>key. req = CHR ''?'' # key \<and> vdb_async_result ops")
  case True
  then obtain key where key: "req = CHR ''?'' # key" "vdb_async_result ops" by blast
  with assms obtain geta where geta: "vdb_geta ops = Some geta"
    by (auto simp: process_cmd_def split: option.splits)
  with assms key obtain c1 r where c1: "inc_queue_cnt c = Inr c1"
    and g: "geta al db key arg = Inr (db', calls, r)" "c' = c1"
    by (auto simp: process_cmd_def bind_res_eq_Inr)
  from geta_calls [OF geta g(1)] c1 g(2) show ?thesis
    by (auto simp: inc_queue_cnt_def split: if_splits)
next
  case False
  with assms show ?thesis
    by (cases req) (auto simp: process_cmd_def bind_res_eq_Inr split: if_splits option.splits)
qed

lemma process_request_calls:
  assumes "process_request al ops arg c req db sevs = Some (Inr (r, c', db', w, calls, sevs'))"
  shows "(c' = c \<and> calls = []) \<or>
    (ct_state c = CNCT_OPEN \<and> c' = c\<lparr>ct_queue_cnt := ct_queue_cnt c + 1\<rparr> \<and>
     (calls = [] \<or> (\<exists>k v. calls = [(k, v, arg)])))"
proof -
  obtain db1 c1 ans send calls1 where
    p: "process_cmd al ops db (Some inc_queue_cnt) c arg req = Inr (db1, c1, ans, send, calls1)"
    using assms by (auto simp: process_request_def split: sum.splits)
  with assms have "c' = c1" "calls = calls1"
    by (auto simp: process_request_def split: if_splits option.splits)
  with process_cmd_calls [OF p] show ?thesis by auto
qed

text \<open>One call of \<open>process_cnct\<close> makes at most one asynchronous read, and counts it.\<close>

lemma process_cnct_calls:
  assumes "process_cnct al ops arg c db revs sevs = Some (Inr (r, c', db', w, calls, revs', sevs'))"
  shows "\<exists>b. (c' = c\<lparr>ct_buf := b\<rparr> \<and> calls = []) \<or>
    (ct_state c = CNCT_OPEN \<and> c' = c\<lparr>ct_buf := b, ct_queue_cnt := ct_queue_cnt c + 1\<rparr> \<and>
     (calls = [] \<or> (\<exists>k v. calls = [(k, v, arg)])))"
proof -
  have triv: "c = c\<lparr>ct_buf := ct_buf c\<rparr>" by simp
  from assms consider "c' = c" "calls = []" | b where "c' = c\<lparr>ct_buf := b\<rparr>" "calls = []"
    | b al' req r' w' s' where "process_request al' ops arg (c\<lparr>ct_buf := b\<rparr>) req db sevs =
        Some (Inr (r', c', db', w', calls, s'))"
    by (auto simp: process_cnct_def Let_def split: sum.splits if_splits option.splits prod.splits)
  then show ?thesis
  proof cases
    case 1
    with triv show ?thesis by metis
  next
    case (2 b)
    then show ?thesis by blast
  next
    case (3 b al' req r' w' s')
    from process_request_calls [OF this] show ?thesis
      by (intro exI [of _ b]) auto
  qed
qed

end

interpretation simple_async: async_vdb "simple_vdb a"
  by unfold_locales
    (auto simp: simple_vdb_def simple_geta_def bind_res_eq_Inr split: if_splits)

interpretation lock_async: async_vdb "lock_vdb a"
  by unfold_locales
    (auto simp: lock_vdb_def lock_geta_def bind_res_eq_Inr split: if_splits)

interpretation parallel_async: async_vdb "parallel_vdb mem"
  by unfold_locales
    (auto simp: parallel_vdb_def bind_res_eq_Inr split: option.splits)

section \<open>States and steps\<close>

record 'd poll_run =
  pv_server :: "'d poll_server"
  pv_gen :: "nat \<Rightarrow> nat"
  pv_pending :: "(nat \<times> nat) list"
  pv_pipe :: "nat list"
  pv_delivered :: "(nat \<times> nat \<times> nat) list"

inductive poll_step :: "('d, nat) vdb \<Rightarrow> 'd poll_run \<Rightarrow> 'd poll_run \<Rightarrow> bool" for ops where
  poll_accept: "add_fd (pv_server s) (int sock) = (sv, int i) \<Longrightarrow>
    poll_step ops s (s\<lparr>pv_server := sv, pv_gen := (pv_gen s)(i := Suc (pv_gen s i))\<rparr>)"
| poll_input: "nfd < max_cnct (pv_server s) \<Longrightarrow> sv_fds (pv_server s) ! nfd \<noteq> -1 \<Longrightarrow>
    process_cnct al ops nfd (sv_cncts (pv_server s) ! nfd) (sv_db (pv_server s)) revs sevs =
      Some (Inr (r, c, db, w, calls, revs', sevs')) \<Longrightarrow>
    client_input al ops (pv_server s) nfd revs sevs = Some (Inr (r, sv, w, revs', sevs')) \<Longrightarrow>
    asked = nat (ct_queue_cnt c - ct_queue_cnt (sv_cncts (pv_server s) ! nfd)) \<Longrightarrow>
    poll_step ops s (s\<lparr>pv_server := sv,
      pv_pending := pv_pending s @ replicate (asked - length calls) (nfd, pv_gen s nfd),
      pv_pipe := pv_pipe s @ replicate (length calls) (pv_gen s nfd)\<rparr>)"
| poll_answer: "pv_pending s = p1 @ (nfd, g) # p2 \<Longrightarrow>
    poll_step ops s (s\<lparr>pv_server := async_response (key, val, nfd) (pv_server s),
      pv_pending := p1 @ p2, pv_pipe := pv_pipe s @ [g]\<rparr>)"
| poll_control: "sv_control (pv_server s) = req # reqs \<Longrightarrow> pv_pipe s = g # gs \<Longrightarrow>
    control_message al req ((pv_server s)\<lparr>sv_control := reqs\<rparr>) = Inr sv \<Longrightarrow>
    poll_step ops s (s\<lparr>pv_server := sv, pv_pipe := gs,
      pv_delivered := (if sv_fds (pv_server s) ! an_nfd req \<noteq> -1
        then pv_delivered s @ [(an_nfd req, g, pv_gen s (an_nfd req))] else pv_delivered s)\<rparr>)"
| poll_output: "nfd < max_cnct (pv_server s) \<Longrightarrow>
    client_output (pv_server s) nfd sevs = Some (Inr (r, sv, w, sevs')) \<Longrightarrow>
    poll_step ops s (s\<lparr>pv_server := sv\<rparr>)"
| poll_remove: "nfd < max_cnct (pv_server s) \<Longrightarrow>
    poll_step ops s (s\<lparr>pv_server := remove_connection (pv_server s) nfd\<rparr>)"

inductive_cases poll_stepE: "poll_step ops s s'"

text \<open>A server as \<open>init_server\<close> leaves it, with \<open>n\<close> free slots.\<close>

definition server_fresh :: "'d poll_server \<Rightarrow> bool" where
  "server_fresh s \<longleftrightarrow> sv_control s = [] \<and> sv_fds s = replicate (max_cnct s) (-1) \<and>
     length (sv_wrbufs s) = max_cnct s \<and> length (sv_events s) = max_cnct s \<and>
     (\<forall>i < max_cnct s. ct_state (sv_cncts s ! i) = CNCT_SHUT \<and>
        ct_queue_cnt (sv_cncts s ! i) = 0 \<and> ct_pollfd (sv_cncts s ! i) = Some i)"

definition run_start :: "'d poll_server \<Rightarrow> 'd poll_run" where
  "run_start s = \<lparr>pv_server = s, pv_gen = (\<lambda>_. 0), pv_pending = [], pv_pipe = [], pv_delivered = []\<rparr>"

abbreviation poll_reachable :: "('d, nat) vdb \<Rightarrow> 'd poll_server \<Rightarrow> 'd poll_run \<Rightarrow> bool" where
  "poll_reachable ops s0 s \<equiv> (poll_step ops)\<^sup>*\<^sup>* (run_start s0) s"

section \<open>The invariant\<close>

text \<open>The requests of slot \<open>i\<close> that are not yet delivered.\<close>

definition outstanding :: "'d poll_run \<Rightarrow> nat \<Rightarrow> nat" where
  "outstanding s i =
     count_list (map fst (pv_pending s)) i + count_list (map an_nfd (sv_control (pv_server s))) i"

definition slots_ok :: "'d poll_run \<Rightarrow> bool" where
  "slots_ok s \<longleftrightarrow>
     (let sv = pv_server s in
      length (sv_fds sv) = max_cnct sv \<and>
      (\<forall>i < max_cnct sv. cnct_ok (sv_cncts sv ! i) \<and> ct_pollfd (sv_cncts sv ! i) = Some i \<and>
         ct_queue_cnt (sv_cncts sv ! i) = int (outstanding s i) \<and>
         (sv_fds sv ! i \<noteq> -1 \<longleftrightarrow> ct_state (sv_cncts sv ! i) = CNCT_OPEN)))"

definition gens_ok :: "'d poll_run \<Rightarrow> bool" where
  "gens_ok s \<longleftrightarrow>
     length (pv_pipe s) = length (sv_control (pv_server s)) \<and>
     (\<forall>i g. (i, g) \<in> set (pv_pending s) \<longrightarrow> i < max_cnct (pv_server s) \<and> g = pv_gen s i) \<and>
     (\<forall>a g. (a, g) \<in> set (zip (sv_control (pv_server s)) (pv_pipe s)) \<longrightarrow>
        an_nfd a < max_cnct (pv_server s) \<and> g = pv_gen s (an_nfd a)) \<and>
     (\<forall>i g g'. (i, g, g') \<in> set (pv_delivered s) \<longrightarrow> g = g')"

definition poll_inv :: "'d poll_run \<Rightarrow> bool" where
  "poll_inv s \<longleftrightarrow> slots_ok s \<and> gens_ok s"

lemma poll_inv_start: "server_fresh s \<Longrightarrow> poll_inv (run_start s)"
  by (auto simp: poll_inv_def slots_ok_def gens_ok_def run_start_def server_fresh_def outstanding_def
    cnct_ok_def Let_def)

lemma find_shut_Some:
  "find_shut cs i = Some k \<Longrightarrow> i \<le> k \<and> k < i + length cs \<and> ct_state (cs ! (k - i)) = CNCT_SHUT"
proof (induction cs i rule: find_shut.induct)
  case (2 c cs i)
  then show ?case by (auto simp: nth_Cons' split: if_splits)
qed simp

lemma find_shut_None: "find_shut cs i = None \<longleftrightarrow> (\<forall>c\<in>set cs. ct_state c \<noteq> CNCT_SHUT)"
  by (induction cs i rule: find_shut.induct) auto

lemma add_fd_Some:
  assumes "add_fd s sock = (s', int i)"
  shows "i < max_cnct s" and "ct_state (sv_cncts s ! i) = CNCT_SHUT"
    and "s' = s\<lparr>sv_fds := (sv_fds s)[i := sock],
      sv_cncts := (sv_cncts s)[i := reset_poll_cnct ((sv_fds s)[i := sock]) (sv_cncts s ! i)]\<rparr>"
  using assms find_shut_Some [of "sv_cncts s" 0 i]
  by (auto simp: add_fd_def Let_def split: option.splits)

lemma count_zero: "count_list xs i = 0 \<longleftrightarrow> i \<notin> set xs"
  by (induction xs) auto

lemma outstanding_zero:
  "outstanding s i = 0 \<longleftrightarrow>
     i \<notin> fst ` set (pv_pending s) \<and> i \<notin> an_nfd ` set (sv_control (pv_server s))"
  by (simp add: outstanding_def count_zero)

text \<open>A slot that is handed to a new client has no request outstanding.\<close>

lemma shut_slot_idle:
  assumes "poll_inv s" and "i < max_cnct (pv_server s)"
    and "ct_state (sv_cncts (pv_server s) ! i) = CNCT_SHUT"
  shows "outstanding s i = 0"
  using assms by (auto simp: poll_inv_def slots_ok_def cnct_ok_def Let_def)

lemma accept_inv:
  assumes inv: "poll_inv s" and add: "add_fd (pv_server s) (int sock) = (sv, int i)"
  shows "poll_inv (s\<lparr>pv_server := sv, pv_gen := (pv_gen s)(i := Suc (pv_gen s i))\<rparr>)"
proof -
  note A = add_fd_Some [OF add]
  have idle: "outstanding s i = 0" by (rule shut_slot_idle [OF inv A(1,2)])
  then have np: "i \<notin> fst ` set (pv_pending s)" "i \<notin> an_nfd ` set (sv_control (pv_server s))"
    by (simp_all add: outstanding_zero)
  have "slots_ok (s\<lparr>pv_server := sv, pv_gen := (pv_gen s)(i := Suc (pv_gen s i))\<rparr>)"
    unfolding slots_ok_def Let_def
  proof (intro conjI allI impI)
    let ?s = "s\<lparr>pv_server := sv, pv_gen := (pv_gen s)(i := Suc (pv_gen s i))\<rparr>"
    show "length (sv_fds (pv_server ?s)) = max_cnct (pv_server ?s)"
      using inv A(3) by (simp add: poll_inv_def slots_ok_def Let_def)
    fix j assume "j < max_cnct (pv_server ?s)"
    then have j: "j < max_cnct (pv_server s)" using A(3) by simp
    have out: "outstanding ?s j = outstanding s j" using A(3) by (simp add: outstanding_def)
    have old: "cnct_ok (sv_cncts (pv_server s) ! j)" "ct_pollfd (sv_cncts (pv_server s) ! j) = Some j"
      "ct_queue_cnt (sv_cncts (pv_server s) ! j) = int (outstanding s j)"
      "sv_fds (pv_server s) ! j \<noteq> -1 \<longleftrightarrow> ct_state (sv_cncts (pv_server s) ! j) = CNCT_OPEN"
      "length (sv_fds (pv_server s)) = max_cnct (pv_server s)"
      using inv j by (auto simp: poll_inv_def slots_ok_def Let_def)
    show "cnct_ok (sv_cncts (pv_server ?s) ! j)"
      using A j old by (cases "j = i") (simp_all add: reset_poll_cnct_ok)
    show "ct_pollfd (sv_cncts (pv_server ?s) ! j) = Some j"
      using A j old by (cases "j = i") (simp_all add: reset_poll_cnct_def)
    show "ct_queue_cnt (sv_cncts (pv_server ?s) ! j) = int (outstanding ?s j)"
      using A j old idle out by (cases "j = i") (simp_all add: reset_poll_cnct_def)
    show "sv_fds (pv_server ?s) ! j \<noteq> -1 \<longleftrightarrow> ct_state (sv_cncts (pv_server ?s) ! j) = CNCT_OPEN"
      using A j old by (cases "j = i") (simp_all add: reset_poll_cnct_def cnct_fd_def state_of_fd_def)
  qed
  moreover have "gens_ok (s\<lparr>pv_server := sv, pv_gen := (pv_gen s)(i := Suc (pv_gen s i))\<rparr>)"
  proof -
    have "j \<noteq> i" if "(j, g) \<in> set (pv_pending s)" for j g
      using np(1) that by force
    moreover have "an_nfd a \<noteq> i" if "(a, g) \<in> set (zip (sv_control (pv_server s)) (pv_pipe s))" for a g
      using np(2) set_zip_leftD [OF that] by auto
    ultimately show ?thesis
      using inv A(3) by (auto simp: poll_inv_def gens_ok_def)
  qed
  ultimately show ?thesis by (simp add: poll_inv_def)
qed

text \<open>A client's input: what changes in the slots and what is added to the two lists.\<close>

lemma fold_async_response:
  "fold async_response calls s =
     s\<lparr>sv_control := sv_control s @ map (\<lambda>(k, v, n). \<lparr>an_nfd = n, an_value = v\<rparr>) calls\<rparr>"
  by (induction calls arbitrary: s) (auto simp: send_answer_def)

lemma slots_ok_update:
  assumes "slots_ok s" and "nfd < max_cnct (pv_server s)"
    and "sv_fds (pv_server s') = sv_fds (pv_server s)"
    and "sv_cncts (pv_server s') = (sv_cncts (pv_server s))[nfd := c]"
    and "cnct_ok c" and "ct_pollfd c = Some nfd" and "ct_queue_cnt c = int (outstanding s' nfd)"
    and "ct_state c = CNCT_OPEN \<longleftrightarrow> ct_state (sv_cncts (pv_server s) ! nfd) = CNCT_OPEN"
    and "\<And>j. j \<noteq> nfd \<Longrightarrow> outstanding s' j = outstanding s j"
  shows "slots_ok s'"
  unfolding slots_ok_def Let_def
proof (intro conjI allI impI)
  show "length (sv_fds (pv_server s')) = max_cnct (pv_server s')"
    using assms(1,3,4) by (simp add: slots_ok_def Let_def)
  fix j assume "j < max_cnct (pv_server s')"
  then have j: "j < max_cnct (pv_server s)" using assms(4) by simp
  have old: "cnct_ok (sv_cncts (pv_server s) ! j)" "ct_pollfd (sv_cncts (pv_server s) ! j) = Some j"
    "ct_queue_cnt (sv_cncts (pv_server s) ! j) = int (outstanding s j)"
    "sv_fds (pv_server s) ! j \<noteq> -1 \<longleftrightarrow> ct_state (sv_cncts (pv_server s) ! j) = CNCT_OPEN"
    using assms(1) j by (auto simp: slots_ok_def Let_def)
  show "cnct_ok (sv_cncts (pv_server s') ! j)"
    using assms j old by (cases "j = nfd") simp_all
  show "ct_pollfd (sv_cncts (pv_server s') ! j) = Some j"
    using assms j old by (cases "j = nfd") simp_all
  show "ct_queue_cnt (sv_cncts (pv_server s') ! j) = int (outstanding s' j)"
    using assms j old by (cases "j = nfd") simp_all
  show "sv_fds (pv_server s') ! j \<noteq> -1 \<longleftrightarrow> ct_state (sv_cncts (pv_server s') ! j) = CNCT_OPEN"
    using assms j old by (cases "j = nfd") simp_all
qed

lemma count_list_replicate: "count_list (replicate n x) y = (if x = y then n else 0)"
  by (induction n) auto

context async_vdb
begin

text \<open>The effect of \<open>process_cnct\<close> on the counter, in numbers.\<close>

lemma process_cnct_numbers:
  assumes "process_cnct al ops arg c db revs sevs = Some (Inr (r, c', db', w, calls, revs', sevs'))"
    and "cnct_ok c"
  shows "cnct_ok c' \<and> ct_pollfd c' = ct_pollfd c \<and> ct_state c' = ct_state c \<and>
    ct_queue_cnt c \<le> ct_queue_cnt c' \<and> int (length calls) \<le> ct_queue_cnt c' - ct_queue_cnt c \<and>
    (\<forall>(k, v, a)\<in>set calls. a = arg)"
  using process_cnct_calls [OF assms(1)] assms(2) by (auto simp: cnct_ok_def)

end

lemma message_slots:
  "\<forall>(k, v, a)\<in>set calls. a = nfd \<Longrightarrow>
   map an_nfd (map (\<lambda>(k, v, n). \<lparr>an_nfd = n, an_value = v\<rparr>) calls) = replicate (length calls) nfd"
  by (induction calls) auto

lemma input_inv:
  assumes db: "async_vdb ops" and inv: "poll_inv s" and nfd: "nfd < max_cnct (pv_server s)"
    and cnct: "process_cnct al ops nfd (sv_cncts (pv_server s) ! nfd) (sv_db (pv_server s)) revs sevs =
      Some (Inr (r, c, db', w, calls, revs', sevs'))"
    and inp: "client_input al ops (pv_server s) nfd revs sevs = Some (Inr (r, sv, w, revs', sevs'))"
    and asked: "asked = nat (ct_queue_cnt c - ct_queue_cnt (sv_cncts (pv_server s) ! nfd))"
  shows "poll_inv (s\<lparr>pv_server := sv,
      pv_pending := pv_pending s @ replicate (asked - length calls) (nfd, pv_gen s nfd),
      pv_pipe := pv_pipe s @ replicate (length calls) (pv_gen s nfd)\<rparr>)" (is "poll_inv ?s")
proof -
  let ?c = "sv_cncts (pv_server s) ! nfd"
  let ?msgs = "map (\<lambda>(k, v, n). \<lparr>an_nfd = n, an_value = v\<rparr>) calls"
  have sv: "sv = (pv_server s)\<lparr>sv_cncts := (sv_cncts (pv_server s))[nfd := c], sv_db := db',
      sv_control := sv_control (pv_server s) @ ?msgs\<rparr>"
    using inp cnct by (simp add: client_input_def fold_async_response)
  from inv nfd have old: "cnct_ok ?c" "ct_pollfd ?c = Some nfd"
    "ct_queue_cnt ?c = int (outstanding s nfd)"
    by (auto simp: poll_inv_def slots_ok_def Let_def)
  note N = async_vdb.process_cnct_numbers [OF db cnct old(1)]
  have nfds: "map an_nfd ?msgs = replicate (length calls) nfd"
    using N by (intro message_slots) blast
  have out: "outstanding ?s j = outstanding s j + (if j = nfd then asked else 0)" for j
    using N asked
    by (simp add: outstanding_def sv nfds count_list_replicate del: map_map) linarith?
  have "slots_ok ?s"
    by (rule slots_ok_update [of s nfd _ c])
      (use inv nfd sv N old out asked in \<open>simp_all add: poll_inv_def\<close>)
  moreover have "gens_ok ?s"
  proof -
    from inv have g: "length (pv_pipe s) = length (sv_control (pv_server s))"
      by (simp add: poll_inv_def gens_ok_def)
    have "an_nfd ` set ?msgs \<subseteq> {nfd}" using nfds by (metis set_map set_replicate_conv_if subset_refl empty_subsetI)
    then have new: "an_nfd a = nfd \<and> h = pv_gen s nfd"
      if "(a, h) \<in> set (zip ?msgs (replicate (length calls) (pv_gen s nfd)))" for a h
    proof -
      from set_zip_leftD [OF that] have "an_nfd a \<in> an_nfd ` set ?msgs" by (rule imageI)
      with \<open>an_nfd ` set ?msgs \<subseteq> {nfd}\<close> have "an_nfd a = nfd" by blast
      moreover from set_zip_rightD [OF that] have "h = pv_gen s nfd" by (simp split: if_splits)
      ultimately show ?thesis ..
    qed
    from inv have old: "\<And>i g. (i, g) \<in> set (pv_pending s) \<Longrightarrow> i < max_cnct (pv_server s) \<and> g = pv_gen s i"
      "\<And>a g. (a, g) \<in> set (zip (sv_control (pv_server s)) (pv_pipe s)) \<Longrightarrow>
        an_nfd a < max_cnct (pv_server s) \<and> g = pv_gen s (an_nfd a)"
      "\<And>i g g'. (i, g, g') \<in> set (pv_delivered s) \<Longrightarrow> g = g'"
      by (simp_all add: poll_inv_def gens_ok_def)
    have z: "zip (sv_control (pv_server ?s)) (pv_pipe ?s) =
        zip (sv_control (pv_server s)) (pv_pipe s) @
        zip ?msgs (replicate (length calls) (pv_gen s nfd))"
      using g sv by (simp add: zip_append)
    have mx: "max_cnct (pv_server ?s) = max_cnct (pv_server s)" using sv by simp
    show ?thesis
      unfolding gens_ok_def z mx
    proof (intro conjI allI impI)
      show "length (pv_pipe ?s) = length (sv_control (pv_server ?s))" using g sv by simp
    next
      fix i h assume "(i, h) \<in> set (pv_pending ?s)"
      then consider "(i, h) \<in> set (pv_pending s)" | "i = nfd" "h = pv_gen s nfd" by (auto split: if_splits)
      then have "i < max_cnct (pv_server s) \<and> h = pv_gen s i" using old(1) nfd by cases simp_all
      then show "i < max_cnct (pv_server s)" and "h = pv_gen ?s i" by simp_all
    next
      fix a h assume "(a, h) \<in> set (zip (sv_control (pv_server s)) (pv_pipe s) @
        zip ?msgs (replicate (length calls) (pv_gen s nfd)))"
      then consider "(a, h) \<in> set (zip (sv_control (pv_server s)) (pv_pipe s))"
        | "(a, h) \<in> set (zip ?msgs (replicate (length calls) (pv_gen s nfd)))" unfolding set_append by blast
      then have "an_nfd a < max_cnct (pv_server s) \<and> h = pv_gen s (an_nfd a)"
        by cases (use old(2) [of a h] new [of a h] nfd in simp_all)
      then show "an_nfd a < max_cnct (pv_server s)" and "h = pv_gen ?s (an_nfd a)" by simp_all
    next
      fix i h h' assume "(i, h, h') \<in> set (pv_delivered ?s)"
      then show "h = h'" using old(3) [of i h h'] by simp
    qed
  qed
  ultimately show ?thesis by (simp add: poll_inv_def)
qed

lemma answer_inv:
  assumes inv: "poll_inv s" and pend: "pv_pending s = p1 @ (nfd, g) # p2"
  shows "poll_inv (s\<lparr>pv_server := async_response (key, val, nfd) (pv_server s),
      pv_pending := p1 @ p2, pv_pipe := pv_pipe s @ [g]\<rparr>)" (is "poll_inv ?s")
proof -
  have sv: "pv_server ?s = (pv_server s)\<lparr>sv_control := sv_control (pv_server s) @
      [\<lparr>an_nfd = nfd, an_value = val\<rparr>]\<rparr>"
    by (simp add: send_answer_def)
  have out: "outstanding ?s j = outstanding s j" for j
    by (simp add: outstanding_def pend send_answer_def)
  have "slots_ok ?s"
    using inv out by (simp add: poll_inv_def slots_ok_def send_answer_def Let_def)
  moreover have "gens_ok ?s"
    using inv pend by (auto simp: poll_inv_def gens_ok_def send_answer_def)
  ultimately show ?thesis by (simp add: poll_inv_def)
qed

text \<open>A message of the pipe always finds its request counted.\<close>

lemma control_message_ok:
  assumes inv: "poll_inv s" and req: "sv_control (pv_server s) = req # reqs" and "nfd = an_nfd req"
  shows "nfd < max_cnct (pv_server s)"
    and "\<exists>c. dec_queue_cnt (sv_cncts (pv_server s) ! nfd) = Inr c \<and> cnct_ok c \<and>
      ct_pollfd c = Some nfd \<and> ct_queue_cnt c = int (outstanding s nfd) - 1 \<and>
      (ct_state c = CNCT_OPEN \<longleftrightarrow> ct_state (sv_cncts (pv_server s) ! nfd) = CNCT_OPEN)"
proof -
  from inv req obtain g gs where "pv_pipe s = g # gs"
    by (cases "pv_pipe s") (auto simp: poll_inv_def gens_ok_def)
  with inv req assms(3) show lt: "nfd < max_cnct (pv_server s)"
    by (auto simp: poll_inv_def gens_ok_def)
  let ?c = "sv_cncts (pv_server s) ! nfd"
  have "0 < outstanding s nfd" using req assms(3) by (simp add: outstanding_def)
  with inv lt have c: "cnct_ok ?c" "0 < ct_queue_cnt ?c" "ct_pollfd ?c = Some nfd"
    "ct_queue_cnt ?c = int (outstanding s nfd)"
    by (auto simp: poll_inv_def slots_ok_def Let_def)
  from dec_queue_cnt_ok [OF c(1,2)] c show "\<exists>c. dec_queue_cnt ?c = Inr c \<and> cnct_ok c \<and>
      ct_pollfd c = Some nfd \<and> ct_queue_cnt c = int (outstanding s nfd) - 1 \<and>
      (ct_state c = CNCT_OPEN \<longleftrightarrow> ct_state ?c = CNCT_OPEN)"
    by (auto simp: dec_queue_cnt_def Let_def split: if_splits)
qed

lemma control_message_effect:
  assumes "control_message al req sv = Inr sv'"
  shows "\<exists>c. dec_queue_cnt (sv_cncts sv ! an_nfd req) = Inr c \<and>
    sv_cncts sv' = (sv_cncts sv)[an_nfd req := c] \<and> sv_fds sv' = sv_fds sv \<and>
    sv_control sv' = sv_control sv"
  using assms by (auto simp: control_message_def Let_def bind_res_eq_Inr split: if_splits)

lemma control_inv:
  assumes inv: "poll_inv s" and req: "sv_control (pv_server s) = req # reqs"
    and pipe: "pv_pipe s = g # gs"
    and msg: "control_message al req ((pv_server s)\<lparr>sv_control := reqs\<rparr>) = Inr sv"
  shows "poll_inv (s\<lparr>pv_server := sv, pv_pipe := gs,
      pv_delivered := (if sv_fds (pv_server s) ! an_nfd req \<noteq> -1
        then pv_delivered s @ [(an_nfd req, g, pv_gen s (an_nfd req))] else pv_delivered s)\<rparr>)"
    (is "poll_inv ?s")
proof -
  let ?nfd = "an_nfd req"
  from control_message_effect [OF msg] obtain c where
    c: "dec_queue_cnt (sv_cncts (pv_server s) ! ?nfd) = Inr c"
    "sv_cncts sv = (sv_cncts (pv_server s))[?nfd := c]" "sv_fds sv = sv_fds (pv_server s)"
    "sv_control sv = reqs" by auto
  note M = control_message_ok [OF inv req refl]
  have out: "outstanding ?s j + (if j = ?nfd then 1 else 0) = outstanding s j" for j
    by (simp add: outstanding_def req c(4))
  have out_other: "outstanding ?s j = outstanding s j" if "j \<noteq> ?nfd" for j
    using out [of j] that by simp
  have "slots_ok ?s"
  proof (rule slots_ok_update [of s ?nfd _ c])
    show "slots_ok s" using inv by (simp add: poll_inv_def)
    show "?nfd < max_cnct (pv_server s)" by (rule M(1))
    show "sv_fds (pv_server ?s) = sv_fds (pv_server s)"
      "sv_cncts (pv_server ?s) = (sv_cncts (pv_server s))[?nfd := c]" using c by simp_all
    show "cnct_ok c" "ct_pollfd c = Some ?nfd"
      "ct_state c = CNCT_OPEN \<longleftrightarrow> ct_state (sv_cncts (pv_server s) ! ?nfd) = CNCT_OPEN"
      using M(2) c(1) by auto
    show "ct_queue_cnt c = int (outstanding ?s ?nfd)"
      using M(2) c(1) out [of ?nfd] by auto
    show "outstanding ?s j = outstanding s j" if "j \<noteq> ?nfd" for j by (rule out_other [OF that])
  qed
  moreover have "gens_ok ?s"
    using inv req pipe c by (auto simp: poll_inv_def gens_ok_def)
  ultimately show ?thesis by (simp add: poll_inv_def)
qed

lemma output_inv:
  assumes inv: "poll_inv s" and out: "client_output (pv_server s) nfd sevs = Some (Inr (r, sv, w, sevs'))"
  shows "poll_inv (s\<lparr>pv_server := sv\<rparr>)"
proof -
  from out have "sv_cncts sv = sv_cncts (pv_server s)" "sv_fds sv = sv_fds (pv_server s)"
    "sv_control sv = sv_control (pv_server s)"
    by (auto simp: client_output_def split: option.splits sum.splits)
  with inv show ?thesis
    by (simp add: poll_inv_def slots_ok_def gens_ok_def outstanding_def Let_def)
qed

lemma remove_inv:
  assumes inv: "poll_inv s" and nfd: "nfd < max_cnct (pv_server s)"
  shows "poll_inv (s\<lparr>pv_server := remove_connection (pv_server s) nfd\<rparr>)"
proof (cases "sv_fds (pv_server s) ! nfd = -1")
  case True
  with inv show ?thesis
    by (simp add: remove_connection_def poll_inv_def slots_ok_def gens_ok_def outstanding_def)
next
  case False
  let ?c = "sv_cncts (pv_server s) ! nfd"
  let ?s = "s\<lparr>pv_server := remove_connection (pv_server s) nfd\<rparr>"
  obtain c' st where sh: "shutdown_cnct ?c = (c', st)" by fastforce
  from inv nfd have old: "cnct_ok ?c" "ct_pollfd ?c = Some nfd" by (auto simp: poll_inv_def slots_ok_def Let_def)
  from sh have st: "ct_state c' \<noteq> CNCT_OPEN" "ct_pollfd c' = ct_pollfd ?c"
    by (auto simp: shutdown_cnct_def Let_def split: if_splits)
  have sv: "sv_cncts (pv_server ?s) = (sv_cncts (pv_server s))[nfd := c']"
    "sv_fds (pv_server ?s) = (sv_fds (pv_server s))[nfd := -1]"
    "sv_control (pv_server ?s) = sv_control (pv_server s)"
    using False sh by (simp_all add: remove_connection_def)
  have out: "outstanding ?s j = outstanding s j" for j
    by (simp add: outstanding_def remove_connection_def)
  have "slots_ok ?s"
    unfolding slots_ok_def Let_def sv out
  proof (intro conjI allI impI)
    show "length ((sv_fds (pv_server s))[nfd := -1]) = length ((sv_cncts (pv_server s))[nfd := c'])"
      using inv by (simp add: poll_inv_def slots_ok_def Let_def)
    fix j assume "j < length ((sv_cncts (pv_server s))[nfd := c'])"
    then have j: "j < max_cnct (pv_server s)" by simp
    from inv j have o: "cnct_ok (sv_cncts (pv_server s) ! j)" "ct_pollfd (sv_cncts (pv_server s) ! j) = Some j"
      "ct_queue_cnt (sv_cncts (pv_server s) ! j) = int (outstanding s j)"
      "sv_fds (pv_server s) ! j \<noteq> -1 \<longleftrightarrow> ct_state (sv_cncts (pv_server s) ! j) = CNCT_OPEN"
      "length (sv_fds (pv_server s)) = max_cnct (pv_server s)"
      by (auto simp: poll_inv_def slots_ok_def Let_def)
    show "cnct_ok ((sv_cncts (pv_server s))[nfd := c'] ! j)"
      using o nfd shutdown_cnct_ok [OF old(1) sh] by (cases "j = nfd") simp_all
    show "ct_pollfd ((sv_cncts (pv_server s))[nfd := c'] ! j) = Some j"
      using o nfd st old by (cases "j = nfd") simp_all
    show "ct_queue_cnt ((sv_cncts (pv_server s))[nfd := c'] ! j) = int (outstanding s j)"
      using o nfd shutdown_cnct_ok [OF old(1) sh] by (cases "j = nfd") simp_all
    show "(sv_fds (pv_server s))[nfd := -1] ! j \<noteq> -1 \<longleftrightarrow>
        ct_state ((sv_cncts (pv_server s))[nfd := c'] ! j) = CNCT_OPEN"
      using o nfd st by (cases "j = nfd") simp_all
  qed
  moreover have "gens_ok ?s"
    using inv sv by (simp add: poll_inv_def gens_ok_def)
  ultimately show ?thesis by (simp add: poll_inv_def)
qed

lemma poll_step_inv:
  assumes "async_vdb ops" and "poll_step ops s s'" and inv: "poll_inv s"
  shows "poll_inv s'"
  using assms(2)
proof (cases rule: poll_step.cases)
  case poll_accept
  with accept_inv [OF inv] show ?thesis by blast
next
  case poll_input
  with input_inv [OF assms(1) inv] show ?thesis by blast
next
  case poll_answer
  with answer_inv [OF inv] show ?thesis by blast
next
  case poll_control
  with control_inv [OF inv] show ?thesis by blast
next
  case poll_output
  with output_inv [OF inv] show ?thesis by blast
next
  case poll_remove
  with remove_inv [OF inv] show ?thesis by blast
qed

lemma poll_reachable_inv:
  "poll_reachable ops s0 s \<Longrightarrow> async_vdb ops \<Longrightarrow> server_fresh s0 \<Longrightarrow> poll_inv s"
  by (induction rule: rtranclp_induct) (use poll_inv_start poll_step_inv in blast)+

section \<open>Shutdown\<close>

lemma remove_all_cnt:
  assumes "poll_inv s" and "i + n \<le> max_cnct (pv_server s)"
  shows "poll_inv (s\<lparr>pv_server := remove_all n i (pv_server s)\<rparr>) \<and>
    max_cnct (remove_all n i (pv_server s)) = max_cnct (pv_server s) \<and>
    outstanding (s\<lparr>pv_server := remove_all n i (pv_server s)\<rparr>) = outstanding s"
  using assms
proof (induction n arbitrary: i s)
  case 0
  then show ?case by simp
next
  case (Suc n)
  let ?s1 = "s\<lparr>pv_server := remove_connection (pv_server s) i\<rparr>"
  have 1: "poll_inv ?s1" using Suc.prems by (intro remove_inv) auto
  have 2: "max_cnct (pv_server ?s1) = max_cnct (pv_server s)" by (simp add: remove_connection_def)
  have 3: "outstanding ?s1 = outstanding s"
    by (rule ext) (simp add: outstanding_def remove_connection_def)
  from Suc.IH [OF 1, of "Suc i"] Suc.prems(2) 2 3 show ?case by simp
qed

lemma destroy_cncts_busy:
  "\<forall>c\<in>set cs. 0 \<le> ct_queue_cnt c \<Longrightarrow> \<exists>c\<in>set cs. ct_queue_cnt c \<noteq> 0 \<Longrightarrow>
   destroy_cncts cs = Inl Assert_failed"
  by (induction cs) (auto simp: destroy_cnct_def bind_res_def split: sum.splits)

lemma destroy_cncts_idle: "\<forall>c\<in>set cs. ct_queue_cnt c = 0 \<Longrightarrow> \<exists>cs'. destroy_cncts cs = Inr cs'"
  by (induction cs) (auto simp: destroy_cnct_def)

text \<open>
  \<open>run_server\<close> ends by removing all connections. If any read is then unanswered, or answered
  but its message still in the pipe, \<open>destroy_server\<close> stops at an assertion.
\<close>

lemma shutdown_outcome:
  assumes inv: "poll_inv s"
  defines "sv \<equiv> remove_all (max_cnct (pv_server s)) 0 (pv_server s)"
  shows "(\<exists>i < max_cnct (pv_server s). 0 < outstanding s i) \<Longrightarrow> destroy_server sv = Inl Assert_failed"
    and "(\<forall>i < max_cnct (pv_server s). outstanding s i = 0) \<Longrightarrow> \<exists>sv'. destroy_server sv = Inr sv'"
proof -
  have R: "poll_inv (s\<lparr>pv_server := sv\<rparr>)" "max_cnct sv = max_cnct (pv_server s)"
    "outstanding (s\<lparr>pv_server := sv\<rparr>) = outstanding s"
    using remove_all_cnt [OF inv, of 0 "max_cnct (pv_server s)"] by (simp_all add: sv_def)
  have cnt: "ct_queue_cnt (sv_cncts sv ! i) = int (outstanding s i)"
    if "i < max_cnct (pv_server s)" for i
    using R that by (simp add: poll_inv_def slots_ok_def Let_def)
  have nonneg: "\<forall>c\<in>set (sv_cncts sv). 0 \<le> ct_queue_cnt c"
    unfolding all_set_conv_all_nth R(2) using cnt by simp
  show "destroy_server sv = Inl Assert_failed" if ex: "\<exists>i < max_cnct (pv_server s). 0 < outstanding s i"
  proof -
    from ex obtain i where i: "i < max_cnct (pv_server s)" "0 < outstanding s i" by blast
    then have "ct_queue_cnt (sv_cncts sv ! i) \<noteq> 0" using cnt by simp
    moreover have "sv_cncts sv ! i \<in> set (sv_cncts sv)" using i(1) R(2) by simp
    ultimately have "destroy_cncts (sv_cncts sv) = Inl Assert_failed"
      using destroy_cncts_busy [OF nonneg] by blast
    then show ?thesis by (simp add: destroy_server_def)
  qed
  show "\<exists>sv'. destroy_server sv = Inr sv'" if all: "\<forall>i < max_cnct (pv_server s). outstanding s i = 0"
  proof -
    have "\<forall>c\<in>set (sv_cncts sv). ct_queue_cnt c = 0"
      unfolding all_set_conv_all_nth R(2) using cnt all by simp
    from destroy_cncts_idle [OF this] show ?thesis by (auto simp: destroy_server_def)
  qed
qed

section \<open>A run with a parallel database\<close>

text \<open>One client connects and reads a key; its answer comes through the pipe.\<close>

definition one_slot_server :: "nat db_request cnd_queue parallel_db poll_server" where
  "one_slot_server =
     \<lparr>sv_binded = 3, sv_control = [], sv_fds = [-1], sv_events = [{POLLIN}],
      sv_cncts = [blank_cnct\<lparr>ct_fd := -1, ct_pollfd := Some 0,
                    ct_buf := \<lparr>bf_buf = Some ''........'', bf_size = 8, bf_pos = 0\<rparr>\<rparr>],
      sv_wrbufs = [init_wrbuffer],
      sv_db = pr_db (par_start \<lparr>cq_queue = [], cq_local = [], cq_running = True\<rparr>)\<rparr>"

lemma one_slot_fresh: "server_fresh one_slot_server"
  by (simp add: server_fresh_def one_slot_server_def blank_cnct_def)

lemma one_slot_history:
  "(\<exists>s req. poll_reachable (parallel_vdb empty_request) one_slot_server s \<and>
      sv_control (pv_server s) = [req] \<and> an_nfd req < max_cnct (pv_server s)) \<and>
   (\<exists>s g. poll_reachable (parallel_vdb empty_request) one_slot_server s \<and>
      (0, 1, g) \<in> set (pv_delivered s))"
proof -
  let ?ops = "parallel_vdb (empty_request :: nat db_request)"
  let ?b0 = "\<lparr>bf_buf = Some ''........'', bf_size = 8, bf_pos = 0\<rparr> :: buffer"
  let ?c1 = "blank_cnct\<lparr>ct_fd := -1, ct_pollfd := Some 0, ct_buf := ?b0, ct_state := CNCT_OPEN\<rparr>"
  let ?sv1 = "one_slot_server\<lparr>sv_fds := [5], sv_cncts := [?c1]\<rparr>"
  let ?s0 = "run_start one_slot_server"
  let ?s1 = "?s0\<lparr>pv_server := ?sv1, pv_gen := (pv_gen ?s0)(0 := Suc (pv_gen ?s0 0))\<rparr>"
  have "add_fd (pv_server ?s0) (int 5) = (?sv1, int 0)"
    by (simp add: add_fd_def one_slot_server_def run_start_def blank_cnct_def reset_poll_cnct_def
      cnct_fd_def state_of_fd_def reset_buffer_def)
  from poll_accept [OF this] have "poll_step ?ops ?s0 ?s1" by simp
  then have r1: "poll_reachable ?ops one_slot_server ?s1" by simp
  let ?line = "''?a'' @ TELNET_SUFFIX"
  have b: "buffer_inv ?b0" "buffer_data ?b0 = []" by (simp_all add: buffer_inv_def buffer_data_def)
  have recv: "safe_recv (bf_size (ct_buf ?c1) - bf_pos (ct_buf ?c1)) [Ev ?line] = Some (4, ?line, [])"
    by (simp add: safe_recv_def recv_sys_def TELNET_SUFFIX_def)
  have first: "\<not> occurs_at TELNET_SUFFIX (''?a'' @ TELNET_SUFFIX @ []) j" if "j < length ''?a''" for j
    using that by (auto simp: occurs_at_def TELNET_SUFFIX_def less_Suc_eq)
  have "\<exists>db' b'. process_cnct all_ok ?ops 0 ?c1 (sv_db ?sv1) [Ev ?line] [] =
      Some (Inr (1, ?c1\<lparr>ct_buf := b', ct_queue_cnt := 1\<rparr>, db', [], [], [], []))"
  proof -
    have h: "get_queue ''a'' = Inr 97"
      by (simp add: get_queue_def string_hash_def MAX_HASH_def signed_char_def byte_of_def N_SUBS_def)
    have "\<exists>db'. process_request all_ok ?ops 0 (?c1\<lparr>ct_buf := b'\<rparr>) ''?a'' (sv_db ?sv1) [] =
        Some (Inr (0, ?c1\<lparr>ct_buf := b', ct_queue_cnt := 1\<rparr>, db', [], [], []))" for b'
      by (simp add: process_request_def process_cmd_def parallel_vdb_def parallel_geta_def h
        init_get_request_def push_request_def inc_queue_cnt_def blank_cnct_def)
    note req = this
    have b1: "buffer_inv (ct_buf ?c1)" "buffer_data (ct_buf ?c1) @ ?line = ''?a'' @ TELNET_SUFFIX @ []"
      using b by simp_all
    have "(0::int) < 4" by simp
    from process_cnct_line [of ?c1 all_ok, OF b1(1) all_ok_apply recv this b1(2) first,
      where ops = ?ops and arg = 0 and db = "sv_db ?sv1" and sevs = "[]"]
    obtain b' where pc: "process_cnct all_ok ?ops 0 ?c1 (sv_db ?sv1) [Ev ?line] [] =
        (if NUL \<in> set ''?a'' then Some (Inr (-1, ?c1\<lparr>ct_buf := b'\<rparr>, sv_db ?sv1, [], [], [], []))
         else case process_request all_ok ?ops 0 (?c1\<lparr>ct_buf := b'\<rparr>) ''?a'' (sv_db ?sv1) [] of
           None \<Rightarrow> None
         | Some (Inl e) \<Rightarrow> Some (Inl e)
         | Some (Inr (r, c', db', w, calls, sevs')) \<Rightarrow>
             Some (Inr (if r \<noteq> -1 then 1 else -1, c', db', w, calls, [], sevs')))" by blast
    from req [of b'] obtain db' where "process_request all_ok ?ops 0 (?c1\<lparr>ct_buf := b'\<rparr>) ''?a'' (sv_db ?sv1) [] =
        Some (Inr (0, ?c1\<lparr>ct_buf := b', ct_queue_cnt := 1\<rparr>, db', [], [], []))" by blast
    then have "process_cnct all_ok ?ops 0 ?c1 (sv_db ?sv1) [Ev ?line] [] =
        Some (Inr (1, ?c1\<lparr>ct_buf := b', ct_queue_cnt := 1\<rparr>, db', [], [], [], []))"
      unfolding pc by simp
    then show ?thesis by blast
  qed
  then obtain db' b' where cn: "process_cnct all_ok ?ops 0 ?c1 (sv_db ?sv1) [Ev ?line] [] =
      Some (Inr (1, ?c1\<lparr>ct_buf := b', ct_queue_cnt := 1\<rparr>, db', [], [], [], []))" by blast
  let ?c2 = "?c1\<lparr>ct_buf := b', ct_queue_cnt := 1\<rparr>"
  let ?sv2 = "?sv1\<lparr>sv_cncts := [?c2], sv_db := db'\<rparr>"
  let ?s2 = "?s1\<lparr>pv_server := ?sv2, pv_pending := [(0, 1)]\<rparr>"
  have "poll_step ?ops ?s1 ?s2"
    using poll_input [of 0 ?s1 all_ok ?ops "[Ev ?line]" "[]" 1 ?c2 db' "[]" "[]" "[]" "[]" ?sv2 1] cn
    by (simp add: client_input_def run_start_def blank_cnct_def)
  with r1 have r2: "poll_reachable ?ops one_slot_server ?s2" by (rule rtranclp.rtrancl_into_rtrancl)
  let ?msg = "\<lparr>an_nfd = 0, an_value = None\<rparr> :: answer"
  let ?sv3 = "?sv2\<lparr>sv_control := [?msg]\<rparr>"
  let ?s3 = "?s2\<lparr>pv_server := ?sv3, pv_pending := [], pv_pipe := [1]\<rparr>"
  have "poll_step ?ops ?s2 ?s3"
    using poll_answer [of ?s2 "[]" 0 1 "[]" ?ops "''a''" None]
    by (simp add: send_answer_def run_start_def one_slot_server_def)
  with r2 have r3: "poll_reachable ?ops one_slot_server ?s3" by (rule rtranclp.rtrancl_into_rtrancl)
  have "\<exists>sv. control_message all_ok ?msg ((pv_server ?s3)\<lparr>sv_control := []\<rparr>) = Inr sv"
    by (simp add: control_message_def dec_queue_cnt_def Let_def)
  then obtain sv where "control_message all_ok ?msg ((pv_server ?s3)\<lparr>sv_control := []\<rparr>) = Inr sv" by blast
  from poll_control [of ?s3 ?msg "[]" 1 "[]" all_ok sv ?ops, OF _ _ this] have
    "poll_step ?ops ?s3 (?s3\<lparr>pv_server := sv, pv_pipe := [], pv_delivered := [(0, 1, 1)]\<rparr>)"
    by (simp add: run_start_def)
  with r3 have "poll_reachable ?ops one_slot_server
      (?s3\<lparr>pv_server := sv, pv_pipe := [], pv_delivered := [(0, 1, 1)]\<rparr>)"
    by (rule rtranclp.rtrancl_into_rtrancl)
  then have "\<exists>s g. poll_reachable ?ops one_slot_server s \<and> (0, 1, g) \<in> set (pv_delivered s)"
    by fastforce
  moreover from r3 have "\<exists>s req. poll_reachable ?ops one_slot_server s \<and>
      sv_control (pv_server s) = [req] \<and> an_nfd req < max_cnct (pv_server s)"
    by (intro exI [of _ ?s3] exI [of _ ?msg]) simp
  ultimately show ?thesis by blast
qed

lemmas one_slot_answered = one_slot_history [THEN conjunct1]
lemmas one_slot_run = one_slot_history [THEN conjunct2]

end
