(* ===== verification/Session.thy ===== *)
theory Session
  imports Cmds
begin

text \<open>
  What a client sees of the database: an abstract server that is a map from keys to values and
  one reply per line, and the proof that the exchange of commands over a connection implements
  it. On top of it the server that serves one client after the other,
  \<open>server_dumb/src/dumb_server.c\<close>.

  Lemmas: \<open>process_cmd\<close>, \<open>process_request\<close> and \<open>process_cnct\<close> against the abstract commands, for
  every synchronous implementation of \<open>vdb_contract\<close>; a client that waits for each reply gets
  the replies of the abstract session.
\<close>

section \<open>The abstract server\<close>

definition abs_cmd :: "(string \<rightharpoonup> string) \<Rightarrow> string \<Rightarrow> (string \<rightharpoonup> string) \<times> string option" where
  "abs_cmd m request =
     (case request of
        [] \<Rightarrow> (m, None)
      | x # key \<Rightarrow>
          if x = CHR ''='' then
            (case split_at CHR '' '' key of None \<Rightarrow> (m, None) | Some (k, v) \<Rightarrow> (m(k \<mapsto> v), None))
          else if x = CHR ''?'' then (m, m key)
          else if x = CHR ''-'' then (m(key := None), None)
          else (m, None))"

text \<open>The keys a request names.\<close>

definition cmd_keys :: "string \<Rightarrow> string set" where
  "cmd_keys request =
     (case request of
        [] \<Rightarrow> {}
      | x # key \<Rightarrow>
          if x = CHR ''='' then (case split_at CHR '' '' key of None \<Rightarrow> {} | Some (k, v) \<Rightarrow> {k})
          else if x = CHR ''?'' \<or> x = CHR ''-'' then {key} else {})"

definition reply :: "string option \<Rightarrow> bytes" where
  "reply a = (case a of None \<Rightarrow> [] | Some s \<Rightarrow> s) @ TELNET_SUFFIX"

fun abs_session :: "(string \<rightharpoonup> string) \<Rightarrow> string list \<Rightarrow> (string \<rightharpoonup> string) \<times> bytes" where
  "abs_session m [] = (m, [])"
| "abs_session m (l # ls) =
     (case abs_cmd m l of (m', a) \<Rightarrow>
        (case abs_session m' ls of (m'', w) \<Rightarrow> (m'', reply a @ w)))"

fun abs_sessions :: "(string \<rightharpoonup> string) \<Rightarrow> string list list \<Rightarrow> (string \<rightharpoonup> string) \<times> bytes list" where
  "abs_sessions m [] = (m, [])"
| "abs_sessions m (ls # lss) =
     (case abs_session m ls of (m', w) \<Rightarrow>
        (case abs_sessions m' lss of (m'', ws) \<Rightarrow> (m'', w # ws)))"

section \<open>The server for one client at a time\<close>

text \<open>
  The inner loop of \<open>run_server\<close> in \<open>dumb_server.c\<close>. The first number counts how often the flag
  \<open>running\<close> is still read as true; \<open>als n\<close> are the allocations of the turn with \<open>n\<close> turns left.
  The result: turns left, connection, database, bytes sent.
\<close>

fun dumb_client ::
  "(nat \<Rightarrow> alloc) \<Rightarrow> ('d, 'arg) vdb \<Rightarrow> 'arg \<Rightarrow> nat \<Rightarrow> cnct \<Rightarrow> 'd \<Rightarrow> bytes event list \<Rightarrow> nat event list \<Rightarrow>
   (nat \<times> cnct \<times> 'd \<times> bytes) res option" where
  "dumb_client als ops arg 0 c db revs sevs = Some (Inr (0, c, db, []))"
| "dumb_client als ops arg (Suc n) c db revs sevs =
     (case process_cnct (als n) ops arg c db revs sevs of
        None \<Rightarrow> None
      | Some (Inl e) \<Rightarrow> Some (Inl e)
      | Some (Inr (r, c', db', w, calls, revs', sevs')) \<Rightarrow>
          if r \<ge> 0
          then map_option (map_sum id (\<lambda>(n', c'', db'', w'). (n', c'', db'', w @ w')))
                 (dumb_client als ops arg n c' db' revs' sevs')
          else Some (Inr (n, c', db', w)))"

text \<open>
  What \<open>accept\<close> gives for one client: the socket, the outcome of \<open>pthread_mutex_init\<close>, the
  block for the buffer, and the events of the socket.
\<close>

record dumb_env =
  du_socket :: nat
  du_mutex :: bool
  du_mem :: "bytes option"
  du_recv :: "bytes event list"
  du_send :: "nat event list"

lemma dumb_client_turns:
  "dumb_client als ops arg n c db revs sevs = Some (Inr (n', c', db', w)) \<Longrightarrow> n' \<le> n"
proof (induction n arbitrary: c db revs sevs n' c' db' w)
  case (Suc n)
  obtain x where x: "process_cnct (als n) ops arg c db revs sevs = Some x"
    using Suc.prems by (auto split: option.splits)
  obtain r c1 db1 w1 calls revs1 sevs1 where y: "x = Inr (r, c1, db1, w1, calls, revs1, sevs1)"
    using Suc.prems x by (cases x) auto
  show ?case
  proof (cases "0 \<le> r")
    case True
    with Suc.prems x y obtain z where
      z: "dumb_client als ops arg n c1 db1 revs1 sevs1 = Some z" by auto
    with Suc.prems x y True obtain n2 c2 db2 w2 where "z = Inr (n2, c2, db2, w2)" "n' = n2"
      by (cases z) auto
    with Suc.IH [of c1 db1 revs1 sevs1 n2 c2 db2 w2] z show ?thesis by simp
  next
    case False
    with Suc.prems x y show ?thesis by simp
  qed
qed simp

text \<open>
  \<open>run_server\<close> in \<open>dumb_server.c\<close>; \<open>c0\<close> is the uninitialised \<open>struct cnct\<close>. The result: the
  database and, for every client served, the socket that was closed and the bytes sent on it.
\<close>

function dumb_server ::
  "(nat \<Rightarrow> alloc) \<Rightarrow> ('d, 'arg) vdb \<Rightarrow> 'arg \<Rightarrow> cnct \<Rightarrow> nat \<Rightarrow> dumb_env event list \<Rightarrow> 'd \<Rightarrow>
   ('d \<times> (nat \<times> bytes) list) res option" where
  "dumb_server als ops arg c0 0 evs db = Some (Inr (db, []))"
| "dumb_server als ops arg c0 (Suc n) [] db = None"
| "dumb_server als ops arg c0 (Suc n) (Err e # evs) db =
     check_eintr e (dumb_server als ops arg c0 n evs db) (Some (Inr (db, [])))"
| "dumb_server als ops arg c0 (Suc n) (Ev cl # evs) db =
     (case init_fd_cnct (du_mutex cl) (du_mem cl) c0 (int (du_socket cl)) of
        Inl e \<Rightarrow> Some (Inl e)
      | Inr (c, m, r) \<Rightarrow>
          if r \<noteq> 0 then Some (Inr (db, []))
          else
            (case dumb_client als ops arg n c db (du_recv cl) (du_send cl) of
               None \<Rightarrow> None
             | Some (Inl e) \<Rightarrow> Some (Inl e)
             | Some (Inr (n', c', db', w)) \<Rightarrow>
                 (case destroy_cnct c' of
                    Inl e \<Rightarrow> Some (Inl e)
                  | Inr c'' \<Rightarrow>
                      map_option (map_sum id (\<lambda>(db'', outs). (db'', (du_socket cl, w) # outs)))
                        (dumb_server als ops arg c0 n' evs db'))))"
  by pat_completeness auto
termination
  by (relation "measure (\<lambda>(als, ops, arg, c0, n, evs, db). n)") (auto dest: dumb_client_turns)

section \<open>Commands against the abstract server\<close>

lemma split_at_eq_sign:
  "split_at CHR '' '' (CHR ''='' # key) =
     map_option (\<lambda>(a, b). (CHR ''='' # a, b)) (split_at CHR '' '' key)"
  by simp

context vdb_contract
begin

lemma process_cmd_abs:
  assumes inv: "inv d" and keys: "\<forall>k \<in> cmd_keys request. ok k"
    and sync: "\<not> vdb_async_result ops" and get: "vdb_get ops = Some get_op"
  shows "\<exists>d'. process_cmd all_ok ops d notify c arg request =
      Inr (d', c, snd (abs_cmd (contents d) request), True, []) \<and>
    inv d' \<and> contents d' = fst (abs_cmd (contents d) request)"
proof (cases request)
  case Nil
  then show ?thesis using inv by (simp add: process_cmd_def abs_cmd_def)
next
  case (Cons x key)
  consider "x = CHR ''=''" | "x = CHR ''?''" | "x = CHR ''-''"
    | "x \<noteq> CHR ''=''" "x \<noteq> CHR ''?''" "x \<noteq> CHR ''-''" by blast
  then show ?thesis
  proof cases
    case 1
    show ?thesis
    proof (cases "split_at CHR '' '' key")
      case None
      with 1 Cons inv show ?thesis by (simp add: process_cmd_def abs_cmd_def)
    next
      case (Some kv)
      obtain k v where kv: "kv = (k, v)" by fastforce
      from keys 1 Cons Some kv have "ok k" by (simp add: cmd_keys_def)
      from set_ok [OF inv this, of "Some v"] show ?thesis
        using 1 Cons Some kv by (auto simp: process_cmd_def abs_cmd_def)
    qed
  next
    case 2
    with keys Cons have "ok key" by (simp add: cmd_keys_def)
    from get_ok [OF inv this] show ?thesis
      using 2 Cons inv sync get by (simp add: process_cmd_def abs_cmd_def)
  next
    case 3
    with keys Cons have "ok key" by (simp add: cmd_keys_def)
    from set_ok [OF inv this, of None] show ?thesis
      using 3 Cons by (auto simp: process_cmd_def abs_cmd_def)
  next
    case 4
    with Cons inv show ?thesis by (simp add: process_cmd_def abs_cmd_def)
  qed
qed

end

section \<open>Replies\<close>

text \<open>A socket that takes at least one byte per call, unless the call is interrupted.\<close>

definition willing :: "nat event list \<Rightarrow> bool" where
  "willing evs \<longleftrightarrow> (\<forall>e \<in> set evs. e = Err EINTR \<or> (\<exists>n. e = Ev (Suc n)))"

definition sends_left :: "nat event list \<Rightarrow> nat" where
  "sends_left evs = length (filter (\<lambda>e. e \<noteq> Err EINTR) evs)"

lemma take_drop_rest:
  "k \<le> length d - sent \<Longrightarrow> take k (drop sent d) @ drop (sent + k) d = drop sent d"
  using append_take_drop_id [of k "drop sent d"] by (simp add: add.commute)

lemma send_all_loop_willing:
  "willing evs \<Longrightarrow> length d - sent \<le> sends_left evs \<Longrightarrow> sent \<le> length d \<Longrightarrow>
   \<exists>evs'. send_all_loop d sent wire evs = Some (int (length d), wire @ drop sent d, evs') \<and>
     willing evs' \<and> sends_left evs \<le> sends_left evs' + (length d - sent)"
proof (induction evs arbitrary: sent wire)
  case Nil
  then show ?case by (simp add: sends_left_def)
next
  case (Cons e evs)
  have w: "willing evs" using Cons.prems(1) by (simp add: willing_def)
  show ?case
  proof (cases "sent < length d")
    case False
    then show ?thesis using Cons.prems by (intro exI [of _ "e # evs"]) simp
  next
    case True
    from Cons.prems(1) consider "e = Err EINTR" | n where "e = Ev (Suc n)"
      by (auto simp: willing_def)
    then show ?thesis
    proof cases
      case 1
      then show ?thesis
        using Cons.IH [OF w, of sent wire] Cons.prems True by (simp add: sends_left_def)
    next
      case 2
      let ?t = "take (Suc n) (drop sent d)"
      have len: "0 < length ?t" "sent + length ?t \<le> length d" using True by auto
      have left: "sends_left (e # evs) = Suc (sends_left evs)" by (simp add: sends_left_def 2)
      have "length d - (sent + length ?t) \<le> sends_left evs"
        using Cons.prems(2) len True unfolding left by linarith
      from Cons.IH [OF w this len(2), of "wire @ ?t"] obtain evs' where
        I: "send_all_loop d (sent + length ?t) (wire @ ?t) evs =
            Some (int (length d), (wire @ ?t) @ drop (sent + length ?t) d, evs')" "willing evs'"
          "sends_left evs \<le> sends_left evs' + (length d - (sent + length ?t))" by blast
      have "?t @ drop (sent + length ?t) d = drop sent d"
        using take_drop_rest [of "Suc n" d sent] by (cases "Suc n \<le> length d - sent") simp_all
      then show ?thesis
        using I len left 2 True by (intro exI [of _ evs']) simp
    qed
  qed
qed

lemma send_all_willing:
  "willing evs \<Longrightarrow> length d \<le> sends_left evs \<Longrightarrow>
   \<exists>evs'. send_all d evs = Some (int (length d), d, evs') \<and> willing evs' \<and>
     sends_left evs \<le> sends_left evs' + length d"
  using send_all_loop_willing [of evs d 0 "[]"] by (simp add: send_all_def)

lemma send_reply_willing:
  assumes "willing evs" and "length (reply a) \<le> sends_left evs"
  shows "\<exists>evs1 n1 w1 evs2.
    (case a of None \<Rightarrow> Some (0, [], evs) | Some s \<Rightarrow> send_all s evs) = Some (int n1, w1, evs1) \<and>
    send_all TELNET_SUFFIX evs1 = Some (2, TELNET_SUFFIX, evs2) \<and> w1 @ TELNET_SUFFIX = reply a \<and>
    willing evs2 \<and> sends_left evs \<le> sends_left evs2 + length (reply a)"
proof (cases a)
  case None
  then show ?thesis
    using assms send_all_willing [of evs TELNET_SUFFIX]
    by (auto simp: reply_def TELNET_SUFFIX_def intro: exI [of _ 0])
next
  case (Some s)
  have "length s + 2 \<le> sends_left evs" using assms(2) Some by (simp add: reply_def TELNET_SUFFIX_def)
  then obtain evs1 where 1: "send_all s evs = Some (int (length s), s, evs1)" "willing evs1"
    "sends_left evs \<le> sends_left evs1 + length s" using send_all_willing [OF assms(1), of s] by auto
  with \<open>length s + 2 \<le> _\<close> have "length TELNET_SUFFIX \<le> sends_left evs1"
    by (simp add: TELNET_SUFFIX_def)
  from send_all_willing [OF 1(2) this] 1 Some show ?thesis
    by (auto simp: reply_def TELNET_SUFFIX_def)
qed

context vdb_contract
begin

lemma process_request_abs:
  assumes inv: "inv d" and keys: "\<forall>k \<in> cmd_keys request. ok k"
    and sync: "\<not> vdb_async_result ops" and get: "vdb_get ops = Some get_op"
    and send: "willing sevs" "length (reply (snd (abs_cmd (contents d) request))) \<le> sends_left sevs"
  shows "\<exists>d' sevs'. process_request all_ok ops arg c request d sevs =
      Some (Inr (0, c, d', reply (snd (abs_cmd (contents d) request)), [], sevs')) \<and>
    inv d' \<and> contents d' = fst (abs_cmd (contents d) request) \<and> willing sevs' \<and>
    sends_left sevs \<le> sends_left sevs' + length (reply (snd (abs_cmd (contents d) request)))"
proof -
  let ?a = "snd (abs_cmd (contents d) request)"
  obtain d' where d': "process_cmd all_ok ops d (Some inc_queue_cnt) c arg request =
      Inr (d', c, ?a, True, [])" "inv d'" "contents d' = fst (abs_cmd (contents d) request)"
    using process_cmd_abs [OF inv keys sync get, where notify = "Some inc_queue_cnt" and c = c
        and arg = arg] by blast
  obtain evs1 n1 w1 evs2 where
    s: "(case ?a of None \<Rightarrow> Some (0, [], sevs) | Some s \<Rightarrow> send_all s sevs) = Some (int n1, w1, evs1)"
      "send_all TELNET_SUFFIX evs1 = Some (2, TELNET_SUFFIX, evs2)" "w1 @ TELNET_SUFFIX = reply ?a"
      "willing evs2" "sends_left sevs \<le> sends_left evs2 + length (reply ?a)"
    using send_reply_willing [OF send] by blast
  show ?thesis
    by (rule exI [of _ d'], rule exI [of _ evs2])
      (simp add: process_request_def d' s)
qed

end

section \<open>A client that waits for its replies\<close>

text \<open>A line without its end: no NUL byte, and the first line end is the one appended.\<close>

definition plain_line :: "string \<Rightarrow> bool" where
  "plain_line l \<longleftrightarrow> NUL \<notin> set l \<and>
     (\<forall>j < length l. \<not> occurs_at TELNET_SUFFIX (l @ TELNET_SUFFIX @ []) j)"

text \<open>What the socket delivers: one segment per line, then the end of the stream.\<close>

definition segments :: "string list \<Rightarrow> bytes event list" where
  "segments ls = map (\<lambda>l. Ev (l @ TELNET_SUFFIX)) ls @ [Ev []]"

context vdb_contract
begin

lemma process_cnct_abs:
  assumes buf: "buffer_inv (ct_buf c)" "buffer_data (ct_buf c) = []"
    and line: "plain_line l" "length l + 2 \<le> bf_size (ct_buf c)"
    and inv: "inv d" and keys: "\<forall>k \<in> cmd_keys l. ok k"
    and sync: "\<not> vdb_async_result ops" and get: "vdb_get ops = Some get_op"
    and send: "willing sevs" "length (reply (snd (abs_cmd (contents d) l))) \<le> sends_left sevs"
  shows "\<exists>b' d' sevs'. process_cnct all_ok ops arg c d (Ev (l @ TELNET_SUFFIX) # revs) sevs =
      Some (Inr (1, c\<lparr>ct_buf := b'\<rparr>, d', reply (snd (abs_cmd (contents d) l)), [], revs, sevs')) \<and>
    buffer_inv b' \<and> buffer_data b' = [] \<and> bf_size b' = bf_size (ct_buf c) \<and>
    inv d' \<and> contents d' = fst (abs_cmd (contents d) l) \<and> willing sevs' \<and>
    sends_left sevs \<le> sends_left sevs' + length (reply (snd (abs_cmd (contents d) l)))"
proof -
  let ?w = "l @ TELNET_SUFFIX"
  have pos: "bf_pos (ct_buf c) = 0" using length_buffer_data [OF buf(1)] buf(2) by simp
  have len: "length ?w = length l + 2" "0 < length ?w" by (simp_all add: TELNET_SUFFIX_def)
  have recv: "safe_recv (bf_size (ct_buf c) - bf_pos (ct_buf c)) (Ev ?w # revs) =
      Some (int (length ?w), ?w, revs)"
    using line(2) len pos by (simp add: safe_recv_def recv_sys_def TELNET_SUFFIX_def)
  from line(1) have first: "\<And>j. j < length l \<Longrightarrow> \<not> occurs_at TELNET_SUFFIX (l @ TELNET_SUFFIX @ []) j"
    and nul: "NUL \<notin> set l" unfolding plain_line_def by blast+
  have data: "buffer_data (ct_buf c) @ ?w = l @ TELNET_SUFFIX @ []" using buf(2) by simp
  have lenpos: "0 < int (length ?w)" by (simp add: TELNET_SUFFIX_def)
  obtain b' where b': "buffer_inv b'" "buffer_data b' = []" "bf_size b' = bf_size (ct_buf c)"
    and run: "process_cnct all_ok ops arg c d (Ev ?w # revs) sevs =
      (if NUL \<in> set l then Some (Inr (-1, c\<lparr>ct_buf := b'\<rparr>, d, [], [], revs, sevs))
       else case process_request all_ok ops arg (c\<lparr>ct_buf := b'\<rparr>) l d sevs of
              None \<Rightarrow> None
            | Some (Inl e) \<Rightarrow> Some (Inl e)
            | Some (Inr (r, c', db', w, calls, sevs')) \<Rightarrow>
                Some (Inr (if r \<noteq> -1 then 1 else -1, c', db', w, calls, revs, sevs')))"
    using process_cnct_line [where al = all_ok and ops = ops and arg = arg and db = d and sevs = sevs,
        OF buf(1) all_ok_apply recv lenpos data] first by blast
  obtain d' sevs' where r: "process_request all_ok ops arg (c\<lparr>ct_buf := b'\<rparr>) l d sevs =
      Some (Inr (0, c\<lparr>ct_buf := b'\<rparr>, d', reply (snd (abs_cmd (contents d) l)), [], sevs'))"
    "inv d'" "contents d' = fst (abs_cmd (contents d) l)" "willing sevs'"
    "sends_left sevs \<le> sends_left sevs' + length (reply (snd (abs_cmd (contents d) l)))"
    using process_request_abs [OF inv keys sync get send, where arg = arg and c = "c\<lparr>ct_buf := b'\<rparr>"]
    by blast
  show ?thesis
    by (rule exI [of _ b'], rule exI [of _ d'], rule exI [of _ sevs']) (simp add: run nul r b')
qed

lemma process_cnct_closed:
  assumes "buffer_inv (ct_buf c)" and "buffer_data (ct_buf c) = []" and "0 < bf_size (ct_buf c)"
  shows "process_cnct al ops arg c d (Ev [] # revs) sevs =
    Some (Inr (-1, c, d, [], [], revs, sevs))"
  using assms length_buffer_data [OF assms(1)]
  by (simp add: process_cnct_def buffer_space_correct [OF assms(1)] buffer_start_correct [OF assms(1)]
      safe_recv_def recv_sys_def)

lemma dumb_client_abs:
  assumes "buffer_inv (ct_buf c)" and "buffer_data (ct_buf c) = []"
    and "\<forall>l \<in> set ls. plain_line l \<and> length l + 2 \<le> bf_size (ct_buf c) \<and> (\<forall>k \<in> cmd_keys l. ok k)"
    and "0 < bf_size (ct_buf c)" and "inv d"
    and sync: "\<not> vdb_async_result ops" and get: "vdb_get ops = Some get_op"
    and "willing sevs" and "length (snd (abs_session (contents d) ls)) \<le> sends_left sevs"
  shows "\<exists>b' d'. dumb_client (\<lambda>_. all_ok) ops arg (Suc (length ls) + n) c d (segments ls) sevs =
      Some (Inr (n, c\<lparr>ct_buf := b'\<rparr>, d', snd (abs_session (contents d) ls))) \<and>
    inv d' \<and> contents d' = fst (abs_session (contents d) ls)"
  using assms(1-5,8,9)
proof (induction ls arbitrary: c d sevs)
  case Nil
  then show ?case
    using process_cnct_closed [OF Nil.prems(1,2,4)]
    by (intro exI [of _ "ct_buf c"] exI [of _ d]) (simp add: segments_def)
next
  case (Cons l ls)
  obtain m a where ma: "abs_cmd (contents d) l = (m, a)" by fastforce
  obtain m' w where mw: "abs_session m ls = (m', w)" by fastforce
  have len: "length (reply a) + length w \<le> sends_left sevs" using Cons.prems(7) ma mw by simp
  have l: "plain_line l" "length l + 2 \<le> bf_size (ct_buf c)" "\<forall>k \<in> cmd_keys l. ok k"
    using Cons.prems(3) by auto
  have "length (reply (snd (abs_cmd (contents d) l))) \<le> sends_left sevs" using len ma by simp
  from process_cnct_abs [OF Cons.prems(1,2) l(1,2) Cons.prems(5) l(3) sync get Cons.prems(6) this,
      where arg = arg and revs = "segments ls"]
  obtain b1 d1 sevs1 where
    1: "process_cnct all_ok ops arg c d (Ev (l @ TELNET_SUFFIX) # segments ls) sevs =
        Some (Inr (1, c\<lparr>ct_buf := b1\<rparr>, d1, reply a, [], segments ls, sevs1))"
      "buffer_inv b1" "buffer_data b1 = []" "bf_size b1 = bf_size (ct_buf c)"
      "inv d1" "contents d1 = m" "willing sevs1" "sends_left sevs \<le> sends_left sevs1 + length (reply a)"
    unfolding ma by auto
  have seg: "segments (l # ls) = Ev (l @ TELNET_SUFFIX) # segments ls" by (simp add: segments_def)
  have "length (snd (abs_session (contents d1) ls)) \<le> sends_left sevs1"
    using len 1(6,8) mw by simp
  moreover have "buffer_inv (ct_buf (c\<lparr>ct_buf := b1\<rparr>))" "buffer_data (ct_buf (c\<lparr>ct_buf := b1\<rparr>)) = []"
    "0 < bf_size (ct_buf (c\<lparr>ct_buf := b1\<rparr>))"
    "\<forall>l \<in> set ls. plain_line l \<and> length l + 2 \<le> bf_size (ct_buf (c\<lparr>ct_buf := b1\<rparr>)) \<and>
      (\<forall>k \<in> cmd_keys l. ok k)" using 1(2-4) Cons.prems(3,4) by simp_all
  ultimately have "\<exists>b' d'. dumb_client (\<lambda>_. all_ok) ops arg (Suc (length ls) + n) (c\<lparr>ct_buf := b1\<rparr>) d1
        (segments ls) sevs1 =
      Some (Inr (n, c\<lparr>ct_buf := b1, ct_buf := b'\<rparr>, d', snd (abs_session (contents d1) ls))) \<and>
    inv d' \<and> contents d' = fst (abs_session (contents d1) ls)"
    using Cons.IH [of "c\<lparr>ct_buf := b1\<rparr>" d1 sevs1] 1(5,7) by blast
  then obtain b' d' where
    2: "dumb_client (\<lambda>_. all_ok) ops arg (Suc (length ls) + n) (c\<lparr>ct_buf := b1\<rparr>) d1 (segments ls) sevs1 =
        Some (Inr (n, c\<lparr>ct_buf := b'\<rparr>, d', snd (abs_session (contents d1) ls)))"
      "inv d'" "contents d' = fst (abs_session (contents d1) ls)" by (auto simp del: dumb_client.simps)
  have "dumb_client (\<lambda>_. all_ok) ops arg (Suc (Suc (length ls) + n)) c d (segments (l # ls)) sevs =
      Some (Inr (n, c\<lparr>ct_buf := b'\<rparr>, d', reply a @ w))"
    by (subst dumb_client.simps(2)) (simp add: seg 1(1,6) 2(1) [unfolded add_Suc] mw del: dumb_client.simps)
  moreover have "snd (abs_session (contents d) (l # ls)) = reply a @ w"
    "fst (abs_session (contents d) (l # ls)) = contents d'" using 2(3) 1(6) mw ma by simp_all
  moreover have "Suc (length (l # ls)) + n = Suc (Suc (length ls) + n)" by simp
  ultimately show ?case using 2(2) by metis
qed

end

section \<open>One client after the other\<close>

text \<open>
  A visit: the connection can be set up, the client sends the lines and closes, and the socket
  takes the replies.
\<close>

definition visit :: "(string \<Rightarrow> bool) \<Rightarrow> dumb_env \<Rightarrow> string list \<Rightarrow> bytes \<Rightarrow> bool" where
  "visit key_ok cl ls w \<longleftrightarrow>
     du_mutex cl \<and> (\<exists>m. du_mem cl = Some m \<and> length m = CNCT_BUF_SIZE) \<and> du_recv cl = segments ls \<and>
     (\<forall>l \<in> set ls. plain_line l \<and> length l + 2 \<le> CNCT_BUF_SIZE \<and> (\<forall>k \<in> cmd_keys l. key_ok k)) \<and>
     willing (du_send cl) \<and> length w \<le> sends_left (du_send cl)"

fun visits :: "(string \<Rightarrow> bool) \<Rightarrow> dumb_env list \<Rightarrow> string list list \<Rightarrow> bytes list \<Rightarrow> bool" where
  "visits key_ok (cl # cls) (ls # lss) (w # ws) \<longleftrightarrow>
     visit key_ok cl ls w \<and> visits key_ok cls lss ws"
| "visits key_ok [] [] [] \<longleftrightarrow> True"
| "visits key_ok _ _ _ \<longleftrightarrow> False"

text \<open>How often \<open>running\<close> is read: before \<open>accept\<close>, and before every call of \<open>process_cnct\<close>.\<close>

definition turns :: "string list list \<Rightarrow> nat" where
  "turns lss = sum_list (map (\<lambda>ls. length ls + 2) lss)"

lemma init_fd_cnct_ok:
  assumes "length m = CNCT_BUF_SIZE"
  shows "\<exists>c. init_fd_cnct True (Some m) c0 fd = Inr (c, True, 0) \<and> buffer_inv (ct_buf c) \<and>
    buffer_data (ct_buf c) = [] \<and> bf_size (ct_buf c) = CNCT_BUF_SIZE \<and> ct_queue_cnt c = 0"
proof -
  let ?b = "\<lparr>bf_buf = Some m, bf_size = CNCT_BUF_SIZE, bf_pos = 0\<rparr>"
  have "buffer_inv ?b" using assms by (simp add: buffer_inv_def CNCT_BUF_SIZE_def)
  from reset_buffer_correct [OF this] show ?thesis
    by (simp add: init_fd_cnct_def init_buffer_def reset_fd_cnct_def reset_buffer_def)
qed

context vdb_contract
begin

lemma dumb_server_visit:
  assumes "visit ok cl ls (snd (abs_session (contents d) ls))" and "inv d"
    and sync: "\<not> vdb_async_result ops" and get: "vdb_get ops = Some get_op"
  shows "\<exists>d'. dumb_server (\<lambda>_. all_ok) ops arg c0 (length ls + 2 + n) (Ev cl # evs) d =
      map_option (map_sum id
        (\<lambda>(d'', outs). (d'', (du_socket cl, snd (abs_session (contents d) ls)) # outs)))
        (dumb_server (\<lambda>_. all_ok) ops arg c0 n evs d') \<and>
    inv d' \<and> contents d' = fst (abs_session (contents d) ls)"
proof -
  from assms(1) obtain m where m: "du_mutex cl" "du_mem cl = Some m" "length m = CNCT_BUF_SIZE"
    "du_recv cl = segments ls" "willing (du_send cl)"
    "\<forall>l \<in> set ls. plain_line l \<and> length l + 2 \<le> CNCT_BUF_SIZE \<and> (\<forall>k \<in> cmd_keys l. ok k)"
    "length (snd (abs_session (contents d) ls)) \<le> sends_left (du_send cl)"
    unfolding visit_def by blast
  obtain c where c: "init_fd_cnct True (Some m) c0 (int (du_socket cl)) = Inr (c, True, 0)"
    "buffer_inv (ct_buf c)" "buffer_data (ct_buf c) = []" "bf_size (ct_buf c) = CNCT_BUF_SIZE"
    "ct_queue_cnt c = 0" using init_fd_cnct_ok [OF m(3), of c0 "int (du_socket cl)"] by blast
  have "0 < bf_size (ct_buf c)" using c(4) by (simp add: CNCT_BUF_SIZE_def)
  from dumb_client_abs [OF c(2,3) m(6) [folded c(4)] this assms(2) sync get m(5,7),
      where arg = arg and n = n]
  obtain b' d' where
    1: "dumb_client (\<lambda>_. all_ok) ops arg (Suc (length ls) + n) c d (segments ls) (du_send cl) =
        Some (Inr (n, c\<lparr>ct_buf := b'\<rparr>, d', snd (abs_session (contents d) ls)))"
      "inv d'" "contents d' = fst (abs_session (contents d) ls)" by blast
  have 2: "destroy_cnct (c\<lparr>ct_buf := b'\<rparr>) = Inr (c\<lparr>ct_buf := destroy_buffer b'\<rparr>)"
    using c(5) by (simp add: destroy_cnct_def)
  have "length ls + 2 + n = Suc (Suc (length ls) + n)" by simp
  then have "dumb_server (\<lambda>_. all_ok) ops arg c0 (length ls + 2 + n) (Ev cl # evs) d =
      map_option (map_sum id
        (\<lambda>(d'', outs). (d'', (du_socket cl, snd (abs_session (contents d) ls)) # outs)))
        (dumb_server (\<lambda>_. all_ok) ops arg c0 n evs d')"
    by (simp only: dumb_server.simps m c 1 2 sum.case option.case prod.case refl simp_thms if_False)
  with 1(2,3) show ?thesis by blast
qed

lemma dumb_server_abs:
  assumes "visits ok cls lss (snd (abs_sessions (contents d) lss))" and "inv d"
    and sync: "\<not> vdb_async_result ops" and get: "vdb_get ops = Some get_op"
  shows "\<exists>d'. dumb_server (\<lambda>_. all_ok) ops arg c0 (turns lss) (map Ev cls) d =
      Some (Inr (d', zip (map du_socket cls) (snd (abs_sessions (contents d) lss)))) \<and>
    inv d' \<and> contents d' = fst (abs_sessions (contents d) lss)"
  using assms(1,2)
proof (induction lss arbitrary: cls d)
  case Nil
  then show ?case by (cases cls) (simp_all add: turns_def)
next
  case (Cons ls lss)
  obtain m w where mw: "abs_session (contents d) ls = (m, w)" by fastforce
  obtain m' ws where ms: "abs_sessions m lss = (m', ws)" by fastforce
  from Cons.prems(1) mw ms obtain cl cls' where cls: "cls = cl # cls'" "visit ok cl ls w"
    "visits ok cls' lss ws" by (cases cls) auto
  from cls(2) mw have "visit ok cl ls (snd (abs_session (contents d) ls))" by simp
  from dumb_server_visit [OF this Cons.prems(2) sync get, where arg = arg and ?c0.0 = c0
      and n = "turns lss" and evs = "map Ev cls'"] obtain d1 where
    1: "dumb_server (\<lambda>_. all_ok) ops arg c0 (length ls + 2 + turns lss) (Ev cl # map Ev cls') d =
        map_option (map_sum id (\<lambda>(d'', outs). (d'', (du_socket cl, w) # outs)))
          (dumb_server (\<lambda>_. all_ok) ops arg c0 (turns lss) (map Ev cls') d1)" "inv d1" "contents d1 = m"
    using mw by auto
  have "visits ok cls' lss (snd (abs_sessions (contents d1) lss))" using cls(3) 1(3) ms by simp
  from Cons.IH [OF this 1(2)] obtain d' where
    I: "dumb_server (\<lambda>_. all_ok) ops arg c0 (turns lss) (map Ev cls') d1 =
        Some (Inr (d', zip (map du_socket cls') (snd (abs_sessions (contents d1) lss))))" "inv d'"
      "contents d' = fst (abs_sessions (contents d1) lss)" by blast
  have
    2: "dumb_server (\<lambda>_. all_ok) ops arg c0 (turns lss) (map Ev cls') d1 =
        Some (Inr (d', zip (map du_socket cls') ws))" using I(1) unfolding 1(3) ms by simp
  have "turns (ls # lss) = length ls + 2 + turns lss" by (simp add: turns_def)
  then show ?case using 1 2 I(2,3) mw ms cls(1)
    by (intro exI [of _ d']) (simp del: all_ok_apply dumb_server.simps)
qed

end

end
