(* ===== verification/Console.thy ===== *)
theory Console
  imports Session
begin

text \<open>
  The interactive program \<open>server_lib/src/main.c\<close>: commands from standard input against one
  simple database, and the termination flag of the servers, \<open>server_lib/src/sig_handler.c\<close>.

  Standard input is the list of its bytes; at its end \<open>fgets\<close> leaves the buffer as it was, which
  is why the loop goes on with the old line. The buffer is the C string it holds.

  Lemmas: the answers are those of the abstract server; what happens to a long line and at the
  end of the input.
\<close>

definition CONSOLE_SIZE :: nat where
  "CONSOLE_SIZE = 200"

text \<open>\<open>fgets\<close> of a block of \<open>n\<close> bytes: through the first line feed, at most \<open>n - 1\<close> bytes.\<close>

fun fgets_split :: "nat \<Rightarrow> bytes \<Rightarrow> bytes \<times> bytes" where
  "fgets_split 0 inp = ([], inp)"
| "fgets_split (Suc n) [] = ([], [])"
| "fgets_split (Suc n) (c # inp) =
     (if c = LF then ([c], inp) else (case fgets_split n inp of (a, b) \<Rightarrow> (c # a, b)))"

definition fgets_line :: "nat \<Rightarrow> string \<Rightarrow> bytes \<Rightarrow> string \<times> bytes" where
  "fgets_line n s inp =
     (if inp = [] then (s, []) else (case fgets_split (n - 1) inp of (a, rest) \<Rightarrow> (cstr a, rest)))"

lemma fgets_split_shorter: "length (snd (fgets_split n inp)) = length inp - length (fst (fgets_split n inp))"
  by (induction n inp rule: fgets_split.induct) (auto split: prod.splits)

lemma fgets_split_some: "inp \<noteq> [] \<Longrightarrow> fst (fgets_split (Suc n) inp) \<noteq> []"
  by (cases inp) (auto split: prod.splits)

text \<open>A \<open>set\<close> command loses everything from its first blank on: \<open>process_cmd\<close> writes a NUL there.\<close>

definition after_cmd :: "string \<Rightarrow> string" where
  "after_cmd s =
     (case s of
        c # _ \<Rightarrow> if c = CHR ''='' then takeWhile (\<lambda>x. x \<noteq> CHR '' '') s else s
      | [] \<Rightarrow> s)"

lemma length_after_cmd: "length (after_cmd s) \<le> length s"
  by (auto simp: after_cmd_def length_takeWhile_le split: list.splits)

lemma after_cmd_shorter: "s \<noteq> [] \<Longrightarrow> length (after_cmd (butlast s)) < length s"
  using length_after_cmd [of "butlast s"] by (cases s rule: rev_cases) auto

lemma fgets_line_progress:
  "fgets_line CONSOLE_SIZE s inp = (s1, inp') \<Longrightarrow> length inp' < length inp \<or> inp' = inp \<and> s1 = s"
  using fgets_split_some [of inp 198] fgets_split_shorter [of 199 inp]
  by (auto simp: fgets_line_def CONSOLE_SIZE_def numeral_eq_Suc split: prod.splits if_splits)

text \<open>
  The loop of \<open>run\<close>: \<open>s\<close> is the buffer, \<open>inp\<close> what is still to be read. The result: the database
  and the answers printed.
\<close>

function console_loop ::
  "alloc \<Rightarrow> ('d, 'arg) vdb \<Rightarrow> 'arg \<Rightarrow> string \<Rightarrow> bytes \<Rightarrow> 'd \<Rightarrow> ('d \<times> string list) res" where
  "console_loop al ops arg s inp db =
     (case fgets_line CONSOLE_SIZE s inp of
        (s1, inp') \<Rightarrow>
          if s1 = [] then Inl Out_of_bounds
          else
            (let s2 = butlast s1
             in if strcmp s2 [CHR 0x5C, CHR ''q''] = 0 then Inr (db, [])
                else
                  (case process_cmd al ops db None () arg s2 of
                     Inl f \<Rightarrow> Inl f
                   | Inr (db', _, answer, to_send, _) \<Rightarrow>
                       if \<not> to_send then Inl Assert_failed
                       else
                         map_sum id
                           (\<lambda>(db'', out). (db'', (case answer of Some a \<Rightarrow> a # out | None \<Rightarrow> out)))
                           (console_loop al ops arg (after_cmd s2) inp' db'))))"
  by pat_completeness auto
termination
  by (relation "measures [\<lambda>(al, ops, arg, s, inp, db). length inp, \<lambda>(al, ops, arg, s, inp, db). length s]")
    (auto dest!: fgets_line_progress [OF sym] intro: after_cmd_shorter)

text \<open>The whole program: the buffer is uninitialised, the database empty.\<close>

definition console_run :: "string \<Rightarrow> bytes \<Rightarrow> (simple_db \<times> string list) res" where
  "console_run s0 inp = console_loop all_ok (simple_vdb False) () s0 inp empty_simple_db"

section \<open>The termination flag\<close>

definition term_handler :: "int \<Rightarrow> bool \<Rightarrow> bool" where
  "term_handler signal running = False"

text \<open>The outcomes of the two calls of \<open>sigaction\<close>; the result, and for which signals the handler
  is installed.\<close>

definition set_termhandler :: "bool \<Rightarrow> bool \<Rightarrow> int \<times> int list" where
  "set_termhandler term_ok int_ok =
     (if \<not> term_ok then (-1, []) else if \<not> int_ok then (-1, [15]) else (0, [15, 2]))"

section \<open>Lines\<close>

definition QUIT :: string where
  "QUIT = [CHR 0x5C, CHR ''q'']"

definition console_line :: "string \<Rightarrow> bool" where
  "console_line l \<longleftrightarrow> LF \<notin> set l \<and> NUL \<notin> set l \<and> length l < CONSOLE_SIZE - 1"

lemma fgets_split_line:
  "LF \<notin> set l \<Longrightarrow> length l < n \<Longrightarrow> fgets_split n (l @ LF # r) = (l @ [LF], r)"
proof (induction l arbitrary: n)
  case Nil
  then show ?case by (cases n) auto
next
  case (Cons c l)
  then show ?case by (cases n) auto
qed

lemma fgets_line_line: "console_line l \<Longrightarrow> fgets_line CONSOLE_SIZE s (l @ LF # r) = (l @ [LF], r)"
  by (simp add: fgets_line_def console_line_def fgets_split_line cstr_id)

text \<open>The answers of the abstract server to a list of lines.\<close>

fun abs_answers :: "(string \<rightharpoonup> string) \<Rightarrow> string list \<Rightarrow> (string \<rightharpoonup> string) \<times> string list" where
  "abs_answers m [] = (m, [])"
| "abs_answers m (l # ls) =
     (case abs_cmd m l of (m', a) \<Rightarrow>
        (case abs_answers m' ls of (m'', out) \<Rightarrow> (m'', (case a of Some s \<Rightarrow> s # out | None \<Rightarrow> out))))"

declare console_loop.simps [simp del]

context vdb_contract
begin

lemma console_abs:
  assumes sync: "\<not> vdb_async_result ops" and get: "vdb_get ops = Some get_op"
  shows "inv d \<Longrightarrow> \<forall>l \<in> set ls. console_line l \<and> l \<noteq> QUIT \<and> (\<forall>k \<in> cmd_keys l. ok k) \<Longrightarrow>
    \<exists>d'. console_loop all_ok ops arg s (concat (map (\<lambda>l. l @ [LF]) ls) @ QUIT @ LF # rest) d =
      Inr (d', snd (abs_answers (contents d) ls)) \<and> inv d' \<and> contents d' = fst (abs_answers (contents d) ls)"
proof (induction ls arbitrary: d s)
  case Nil
  have "console_line QUIT" by (simp add: console_line_def QUIT_def CONSOLE_SIZE_def)
  from fgets_line_line [OF this] Nil show ?case
    by (subst console_loop.simps) (simp add: QUIT_def)
next
  case (Cons l ls)
  from Cons.prems(2) have l: "console_line l" "l \<noteq> QUIT" "\<forall>k \<in> cmd_keys l. ok k" by simp_all
  from process_cmd_abs [OF Cons.prems(1) l(3) sync get, where notify = None and c = "()" and arg = arg] obtain d1 where
    1: "process_cmd all_ok ops d None () arg l = Inr (d1, (), snd (abs_cmd (contents d) l), True, [])"
    "inv d1" "contents d1 = fst (abs_cmd (contents d) l)" by blast
  from Cons.prems(2) have "\<forall>l \<in> set ls. console_line l \<and> l \<noteq> QUIT \<and> (\<forall>k \<in> cmd_keys l. ok k)" by simp
  from Cons.IH [OF 1(2) this, of "after_cmd l"] obtain d2 where
    2: "console_loop all_ok ops arg (after_cmd l) (concat (map (\<lambda>l. l @ [LF]) ls) @ QUIT @ LF # rest) d1 =
      Inr (d2, snd (abs_answers (contents d1) ls))" "inv d2" "contents d2 = fst (abs_answers (contents d1) ls)"
    by blast
  have "console_loop all_ok ops arg s (concat (map (\<lambda>l. l @ [LF]) (l # ls)) @ QUIT @ LF # rest) d =
      Inr (d2, case snd (abs_cmd (contents d) l) of
        Some a \<Rightarrow> a # snd (abs_answers (contents d1) ls) | None \<Rightarrow> snd (abs_answers (contents d1) ls))"
    using fgets_line_line [OF l(1), of s] l(2) 1(1) 2(1)
    by (subst console_loop.simps) (simp add: QUIT_def split: option.splits)
  with 1 2 show ?case
    by (intro exI [of _ d2]) (simp add: split_def del: all_ok_apply split: option.split)
qed

end

section \<open>The end of the input\<close>

lemma after_cmd_prefix: "\<exists>k. after_cmd s = take k s"
proof -
  have "after_cmd s = s \<or> after_cmd s = takeWhile (\<lambda>x. x \<noteq> CHR '' '') s"
    by (simp add: after_cmd_def split: list.split)
  then show ?thesis by (metis takeWhile_eq_take take_all_iff order_refl)
qed

text \<open>
  Without a line that quits, the last line is run again and again, each time without its last
  character, until the loop writes in front of the buffer.
\<close>

lemma console_eof_crashes:
  assumes sync: "\<not> vdb_async_result ops"
  shows "\<forall>k. take k s \<noteq> QUIT \<Longrightarrow> \<exists>f. console_loop al ops arg s [] db = Inl f"
proof (induction "length s" arbitrary: s db rule: less_induct)
  case less
  show ?case
  proof (cases "s = []")
    case True
    then show ?thesis by (subst console_loop.simps) (simp add: fgets_line_def)
  next
    case False
    let ?s2 = "butlast s"
    have ne: "?s2 \<noteq> QUIT" using less.prems by (metis butlast_conv_take)
    have "\<forall>k. take k (after_cmd ?s2) \<noteq> QUIT"
      using after_cmd_prefix [of ?s2] less.prems by (metis butlast_conv_take take_take)
    from less.hyps [OF after_cmd_shorter [OF False] this]
    have rec: "\<exists>f. console_loop al ops arg (after_cmd ?s2) [] db' = Inl f" for db' .
    show ?thesis
    proof (cases "process_cmd al ops db None () arg ?s2")
      case (Inl f)
      with False ne show ?thesis by (subst console_loop.simps) (simp add: fgets_line_def QUIT_def)
    next
      case (Inr x)
      obtain db' u answer to_send calls where x: "x = (db', u, answer, to_send, calls)" by (metis prod_cases5)
      obtain f where "console_loop al ops arg (after_cmd ?s2) [] db' = Inl f" using rec by blast
      with Inr x False ne show ?thesis
        by (subst console_loop.simps) (auto simp: fgets_line_def QUIT_def Let_def)
    qed
  qed
qed

text \<open>What the repeated line does before that: the line \<open>-ab\<close> ends up deleting the key \<open>a\<close>.\<close>

lemma console_eof_runs_prefixes:
  "console_loop all_ok ops arg s [] db =
   (if s = [] then Inl Out_of_bounds
    else if butlast s = QUIT then Inr (db, [])
    else bind_res (process_cmd all_ok ops db None () arg (butlast s)) (\<lambda>(db', _, answer, to_send, _).
      if \<not> to_send then Inl Assert_failed
      else map_sum id (\<lambda>(db'', out). (db'', (case answer of Some a \<Rightarrow> a # out | None \<Rightarrow> out)))
             (console_loop all_ok ops arg (after_cmd (butlast s)) [] db')))"
  by (subst console_loop.simps) (auto simp: fgets_line_def QUIT_def bind_res_def split: sum.splits)

text \<open>A line of 199 characters is cut in two, and the first part loses its last character.\<close>

lemma long_line_loses_character:
  assumes "LF \<notin> set l" and "NUL \<notin> set l" and "length l = CONSOLE_SIZE - 1"
  shows "fgets_line CONSOLE_SIZE s (l @ LF # rest) = (l, LF # rest)"
proof -
  have "LF \<notin> set l \<Longrightarrow> fgets_split (length l) (l @ r) = (l, r)" for r by (induction l) auto
  with assms show ?thesis by (auto simp: fgets_line_def cstr_id)
qed

end
