(* ===== verification/ThreadServer.thy ===== *)
theory ThreadServer
  imports Cmds
begin

text \<open>
  The server with one thread per client: the thread list \<open>server_thread/src/client_thread.c\<close>
  and the server \<open>server_thread/src/thread_server.c\<close>, as a step relation over the main thread
  and all client threads.

  A \<open>struct client_thread\<close> is named by the number of its creation, so an address that \<open>malloc\<close>
  hands out again is a new name. The lock of the list is only ever taken for writing; the lock
  of the server state is taken for writing by the main thread and for reading by the clients.
  One call of \<open>process_cnct\<close> is one step: what happens inside the database is the subject of
  \<open>DbLock\<close>. A call that \<open>accept\<close> or a lock interrupts changes nothing and has no step.

  Lemmas: the invariant of the two locks and of the list, the join at shutdown, and the reads of
  records that are freed already.
\<close>

section \<open>State\<close>

datatype server_state = SERVER_RUNNING | SERVER_SHUTDOWN

datatype holder = By_main | By_client nat

datatype main_pc =
    M_accept
  | M_lock nat int            \<comment> \<open>\<open>new_thread\<close>, before the lock\<close>
  | M_create nat              \<comment> \<open>inside the lock, before \<open>pthread_create\<close>\<close>
  | M_insert nat              \<comment> \<open>the thread runs, not in the list yet\<close>
  | M_unlock
  | M_close nat               \<comment> \<open>\<open>new_thread\<close> failed\<close>
  | M_state_lock
  | M_state_unlock
  | M_join_lock
  | M_join "nat list"         \<comment> \<open>the threads still to be joined\<close>
  | M_next nat "nat list"     \<comment> \<open>\<open>LIST_FOREACH\<close> reads the link of the first\<close>
  | M_join_unlock
  | M_done                    \<comment> \<open>\<open>run_server\<close> has returned\<close>
  | M_destroyed
  | M_abort                   \<comment> \<open>an assertion failed\<close>

datatype thread_pc =
    T_none | T_start | T_loop | T_work | T_close | T_rdlock | T_check | T_wlock | T_remove
  | T_wunlock | T_rdunlock | T_exited

record 'd thr =
  th_db :: 'd
  th_n :: int
  th_list :: "nat list"
  th_lock :: "holder option"
  th_state :: server_state
  th_readers :: "nat set"
  th_swriter :: bool
  th_running :: bool
  th_main :: main_pc
  th_pc :: "nat \<Rightarrow> thread_pc"
  th_socket :: "nat \<Rightarrow> int"
  th_cnct :: "nat \<Rightarrow> cnct"
  th_sent :: "nat \<Rightarrow> bytes"
  th_next :: nat             \<comment> \<open>the next record\<close>
  th_freed :: "nat set"      \<comment> \<open>records freed\<close>
  th_failed :: bool          \<comment> \<open>a \<open>pthread_create\<close> has failed\<close>

text \<open>
  \<open>init_server\<close>, with \<open>init_threads\<close>: the outcomes of the two \<open>pthread_rwlock_init\<close>. The second
  component tells whether the state lock is left initialised.
\<close>

definition init_thread_server ::
  "bool \<Rightarrow> bool \<Rightarrow> 'd \<Rightarrow> (nat \<Rightarrow> cnct) \<Rightarrow> 'd thr option \<times> bool" where
  "init_thread_server state_ok list_ok db cs =
     (if \<not> state_ok then (None, False)
      else if \<not> list_ok then (None, False)
      else (Some \<lparr>th_db = db, th_n = 0, th_list = [], th_lock = None, th_state = SERVER_RUNNING,
                  th_readers = {}, th_swriter = False, th_running = True, th_main = M_accept,
                  th_pc = (\<lambda>_. T_none), th_socket = (\<lambda>_. -1), th_cnct = cs, th_sent = (\<lambda>_. []),
                  th_next = 0, th_freed = {}, th_failed = False\<rparr>, True))"

text \<open>\<open>remove_thread_unsafe\<close>: count, unlink, free.\<close>

definition remove_thread_unsafe :: "nat \<Rightarrow> 'd thr \<Rightarrow> 'd thr" where
  "remove_thread_unsafe i s =
     s\<lparr>th_n := th_n s - 1, th_list := remove1 i (th_list s), th_freed := insert i (th_freed s)\<rparr>"

section \<open>Steps\<close>

text \<open>
  The operations on the list: \<open>new_thread\<close> and \<open>join_threads\<close> of the main thread (the \<open>m_\<close> steps)
  and \<open>remove_thread\<close> of a client thread (the \<open>t_\<close> steps). \<open>m_create_fail\<close> leaves the lock taken
  and the counter increased, as the \<open>error\<close> path of \<open>new_thread\<close> does.
\<close>

inductive list_step :: "'d thr \<Rightarrow> 'd thr \<Rightarrow> bool" where
  m_lock: "th_main s = M_lock i sock \<Longrightarrow> th_lock s = None \<Longrightarrow>
    list_step s (s\<lparr>th_main := M_create i, th_lock := Some By_main, th_n := th_n s + 1,
                      th_socket := (th_socket s)(i := sock)\<rparr>)"
| m_create: "th_main s = M_create i \<Longrightarrow>
    list_step s (s\<lparr>th_main := M_insert i, th_pc := (th_pc s)(i := T_start)\<rparr>)"
| m_create_fail: "th_main s = M_create i \<Longrightarrow>
    list_step s (s\<lparr>th_main := M_close i, th_freed := insert i (th_freed s), th_failed := True\<rparr>)"
| m_insert: "th_main s = M_insert i \<Longrightarrow>
    list_step s (s\<lparr>th_main := M_unlock, th_list := i # th_list s\<rparr>)"
| m_unlock: "th_main s = M_unlock \<Longrightarrow>
    list_step s (s\<lparr>th_main := M_accept, th_lock := None\<rparr>)"
| m_join_lock: "th_main s = M_join_lock \<Longrightarrow> th_lock s = None \<Longrightarrow>
    list_step s (s\<lparr>th_main := M_join (th_list s), th_lock := Some By_main\<rparr>)"
| m_join: "th_main s = M_join (i # js) \<Longrightarrow> th_pc s i = T_exited \<Longrightarrow>
    list_step s (remove_thread_unsafe i s\<lparr>th_main := M_next i js\<rparr>)"
| m_next: "th_main s = M_next i js \<Longrightarrow> list_step s (s\<lparr>th_main := M_join js\<rparr>)"
| m_joined: "th_main s = M_join [] \<Longrightarrow>
    list_step s (s\<lparr>th_main := if th_n s = 0 then M_join_unlock else M_abort\<rparr>)"
| m_join_unlock: "th_main s = M_join_unlock \<Longrightarrow>
    list_step s (s\<lparr>th_main := M_done, th_lock := None\<rparr>)"
| t_wlock: "th_pc s i = T_wlock \<Longrightarrow> th_lock s = None \<Longrightarrow>
    list_step s (s\<lparr>th_pc := (th_pc s)(i := T_remove), th_lock := Some (By_client i)\<rparr>)"
| t_remove: "th_pc s i = T_remove \<Longrightarrow>
    list_step s (remove_thread_unsafe i s\<lparr>th_pc := (th_pc s)(i := T_wunlock)\<rparr>)"
| t_wunlock: "th_pc s i = T_wunlock \<Longrightarrow>
    list_step s (s\<lparr>th_pc := (th_pc s)(i := T_rdunlock), th_lock := None\<rparr>)"

text \<open>
  \<open>run_server\<close>, \<open>destroy_server\<close> (the \<open>m_\<close> steps) and \<open>thread_func\<close> (the \<open>t_\<close> steps).
\<close>

inductive thr_step :: "('d, nat) vdb \<Rightarrow> 'd thr \<Rightarrow> 'd thr \<Rightarrow> bool" for ops where
  signal: "thr_step ops s (s\<lparr>th_running := False\<rparr>)"
| m_accept: "th_main s = M_accept \<Longrightarrow> th_running s \<Longrightarrow>
    thr_step ops s (s\<lparr>th_main := M_lock (th_next s) sock, th_next := Suc (th_next s)\<rparr>)"
| m_accept_oom: "th_main s = M_accept \<Longrightarrow> th_running s \<Longrightarrow> thr_step ops s (s\<lparr>th_main := M_accept\<rparr>)"
| m_accept_fail: "th_main s = M_accept \<Longrightarrow> th_running s \<Longrightarrow> thr_step ops s (s\<lparr>th_main := M_done\<rparr>)"
| m_close: "th_main s = M_close i \<Longrightarrow> thr_step ops s (s\<lparr>th_main := M_accept\<rparr>)"
| m_stop: "th_main s = M_accept \<Longrightarrow> \<not> th_running s \<Longrightarrow>
    thr_step ops s (s\<lparr>th_main := M_state_lock\<rparr>)"
| m_state_lock: "th_main s = M_state_lock \<Longrightarrow> th_readers s = {} \<Longrightarrow>
    thr_step ops s (s\<lparr>th_main := M_state_unlock, th_swriter := True, th_state := SERVER_SHUTDOWN\<rparr>)"
| m_state_unlock: "th_main s = M_state_unlock \<Longrightarrow>
    thr_step ops s (s\<lparr>th_main := M_join_lock, th_swriter := False\<rparr>)"
| m_destroy: "th_main s = M_done \<Longrightarrow>
    thr_step ops s (s\<lparr>th_main := if th_n s = 0 then M_destroyed else M_abort\<rparr>)"
| t_init: "th_pc s i = T_start \<Longrightarrow>
    init_fd_cnct mutex_ok mem (th_cnct s i) (th_socket s i) = Inr (c, m, r) \<Longrightarrow>
    thr_step ops s (s\<lparr>th_pc := (th_pc s)(i := if r \<noteq> 0 then T_exited else T_loop),
                      th_cnct := (th_cnct s)(i := c)\<rparr>)"
| t_loop: "th_pc s i = T_loop \<Longrightarrow>
    thr_step ops s (s\<lparr>th_pc := (th_pc s)(i := if th_running s then T_work else T_close)\<rparr>)"
| t_work: "th_pc s i = T_work \<Longrightarrow>
    process_cnct al ops i (th_cnct s i) (th_db s) revs sevs =
      Some (Inr (r, c, db, w, calls, revs', sevs')) \<Longrightarrow>
    thr_step ops s (s\<lparr>th_pc := (th_pc s)(i := if r = -1 then T_close else T_loop),
                      th_cnct := (th_cnct s)(i := c), th_db := db,
                      th_sent := (th_sent s)(i := th_sent s i @ w)\<rparr>)"
| t_close: "th_pc s i = T_close \<Longrightarrow>
    thr_step ops s (s\<lparr>th_pc := (th_pc s)(i := T_rdlock),
                      th_cnct := (th_cnct s)(i := fst (shutdown_cnct (th_cnct s i)))\<rparr>)"
| t_rdlock: "th_pc s i = T_rdlock \<Longrightarrow> \<not> th_swriter s \<Longrightarrow>
    thr_step ops s (s\<lparr>th_pc := (th_pc s)(i := T_check), th_readers := insert i (th_readers s)\<rparr>)"
| t_check: "th_pc s i = T_check \<Longrightarrow>
    thr_step ops s (s\<lparr>th_pc := (th_pc s)(i := if th_state s = SERVER_RUNNING then T_wlock else T_rdunlock)\<rparr>)"
| t_rdunlock: "th_pc s i = T_rdunlock \<Longrightarrow>
    thr_step ops s (s\<lparr>th_pc := (th_pc s)(i := T_exited), th_readers := th_readers s - {i}\<rparr>)"
| threads: "list_step s s' \<Longrightarrow> thr_step ops s s'"


definition thr_reachable :: "('d, nat) vdb \<Rightarrow> 'd thr \<Rightarrow> bool" where
  "thr_reachable ops s \<longleftrightarrow>
     (\<exists>db cs s0. init_thread_server True True db cs = (Some s0, True) \<and> (thr_step ops)\<^sup>*\<^sup>* s0 s)"

section \<open>The invariant\<close>

definition in_state_lock :: "thread_pc \<Rightarrow> bool" where
  "in_state_lock p \<longleftrightarrow> p \<in> {T_check, T_wlock, T_remove, T_wunlock, T_rdunlock}"

definition in_list_lock :: "thread_pc \<Rightarrow> bool" where
  "in_list_lock p \<longleftrightarrow> p \<in> {T_remove, T_wunlock}"

fun main_in_list_lock :: "main_pc \<Rightarrow> bool" where
  "main_in_list_lock (M_create i) = True"
| "main_in_list_lock (M_insert i) = True"
| "main_in_list_lock M_unlock = True"
| "main_in_list_lock (M_close i) = True"
| "main_in_list_lock (M_join js) = True"
| "main_in_list_lock (M_next i js) = True"
| "main_in_list_lock M_join_unlock = True"
| "main_in_list_lock _ = False"

fun shutting_down :: "main_pc \<Rightarrow> bool" where
  "shutting_down M_state_unlock = True"
| "shutting_down M_join_lock = True"
| "shutting_down (M_join js) = True"
| "shutting_down (M_next i js) = True"
| "shutting_down M_join_unlock = True"
| "shutting_down _ = False"

text \<open>Records allocated whose thread is not in the list yet.\<close>

fun unlisted :: "main_pc \<Rightarrow> nat set" where
  "unlisted (M_lock i sock) = {i}"
| "unlisted (M_create i) = {i}"
| "unlisted (M_insert i) = {i}"
| "unlisted _ = {}"

fun counted :: "main_pc \<Rightarrow> int" where
  "counted (M_create i) = 1"
| "counted (M_insert i) = 1"
| "counted _ = 0"

definition locks_ok :: "'d thr \<Rightarrow> bool" where
  "locks_ok s \<longleftrightarrow>
     (\<forall>i. th_lock s = Some (By_client i) \<longleftrightarrow> in_list_lock (th_pc s i)) \<and>
     (main_in_list_lock (th_main s) \<longrightarrow> th_lock s = Some By_main) \<and>
     (th_failed s \<longrightarrow> th_lock s = Some By_main) \<and>
     (\<forall>i. i \<in> th_readers s \<longleftrightarrow> in_state_lock (th_pc s i)) \<and>
     (th_swriter s \<longleftrightarrow> th_main s = M_state_unlock)"

definition shutdown_ok :: "'d thr \<Rightarrow> bool" where
  "shutdown_ok s \<longleftrightarrow>
     (shutting_down (th_main s) \<longrightarrow> th_state s = SERVER_SHUTDOWN) \<and>
     (th_state s = SERVER_SHUTDOWN \<longrightarrow> (\<forall>i. th_pc s i \<notin> {T_wlock, T_remove, T_wunlock}))"

definition list_ok :: "'d thr \<Rightarrow> bool" where
  "list_ok s \<longleftrightarrow>
     distinct (th_list s) \<and> set (th_list s) \<inter> (th_freed s \<union> unlisted (th_main s)) = {} \<and>
     unlisted (th_main s) \<inter> th_freed s = {} \<and>
     set (th_list s) \<union> th_freed s \<union> unlisted (th_main s) = {..<th_next s} \<and>
     (\<forall>i. th_pc s i \<in> {T_start, T_loop, T_work, T_close, T_rdlock, T_check, T_wlock, T_remove} \<longrightarrow>
        i \<in> set (th_list s) \<or> th_main s = M_insert i) \<and>
     (\<forall>i. th_pc s i \<noteq> T_none \<longrightarrow> i \<in> set (th_list s) \<union> th_freed s \<or> th_main s = M_insert i) \<and>
     (\<forall>i. i \<in> set (th_list s) \<or> th_main s = M_insert i \<longrightarrow> th_pc s i \<noteq> T_none) \<and>
     (\<forall>i. th_pc s i = T_wunlock \<longrightarrow> i \<in> th_freed s)"

definition count_ok :: "'d thr \<Rightarrow> bool" where
  "count_ok s \<longleftrightarrow>
     (\<not> th_failed s \<longrightarrow> th_n s = int (length (th_list s)) + counted (th_main s)) \<and>
     (\<forall>js. th_main s = M_join js \<longrightarrow> th_list s = js \<and> \<not> th_failed s) \<and>
     (\<forall>i js. th_main s = M_next i js \<longrightarrow> th_list s = js \<and> i \<in> th_freed s \<and> \<not> th_failed s) \<and>
     (th_main s = M_join_unlock \<longrightarrow> th_list s = [] \<and> \<not> th_failed s) \<and>
     (\<forall>i. th_main s \<in> {M_create i, M_insert i} \<longrightarrow> \<not> th_failed s) \<and>
     (th_main s = M_unlock \<longrightarrow> \<not> th_failed s)"

definition thr_inv :: "'d thr \<Rightarrow> bool" where
  "thr_inv s \<longleftrightarrow> locks_ok s \<and> shutdown_ok s \<and> list_ok s \<and> count_ok s"

lemmas section_defs = in_state_lock_def in_list_lock_def

lemma list_lock_holder:
  assumes "locks_ok s" and "in_list_lock (th_pc s i)"
  shows "th_lock s = Some (By_client i)" and "in_list_lock (th_pc s j) \<Longrightarrow> j = i"
    and "\<not> main_in_list_lock (th_main s)" and "\<not> th_failed s"
proof -
  show *: "th_lock s = Some (By_client i)" using assms unfolding locks_ok_def by blast
  show "j = i" if "in_list_lock (th_pc s j)"
  proof -
    from assms(1) that have "th_lock s = Some (By_client j)" unfolding locks_ok_def by blast
    with * show ?thesis by simp
  qed
  show "\<not> main_in_list_lock (th_main s)" "\<not> th_failed s"
    using assms(1) * unfolding locks_ok_def by auto
qed

lemma locks_ok_list_step:
  assumes "list_step s s'" and "locks_ok s" and "list_ok s" and "count_ok s"
  shows "locks_ok s'"
  using assms
proof (cases rule: list_step.cases)
  case (m_create i)
  with assms(3) have "th_pc s i = T_none" unfolding list_ok_def by fastforce
  with m_create assms(2) show ?thesis by (auto simp: locks_ok_def section_defs)
next
  case (t_wunlock i)
  then have "in_list_lock (th_pc s i)" by (simp add: section_defs)
  note h = list_lock_holder [OF assms(2) this]
  have o: "th_pc s j \<noteq> T_remove" "th_pc s j \<noteq> T_wunlock" if "j \<noteq> i" for j
    using h(2) [of j] that by (auto simp: section_defs)
  from t_wunlock assms(2) h(1,3,4) show ?thesis
    by (auto simp: locks_ok_def section_defs o)
next
  case m_unlock
  with assms(2,4) show ?thesis by (auto simp: locks_ok_def count_ok_def section_defs)
next
  case m_join_unlock
  with assms(2,4) show ?thesis by (auto simp: locks_ok_def count_ok_def section_defs)
qed (auto simp: locks_ok_def section_defs remove_thread_unsafe_def)

lemma locks_ok_step:
  assumes "thr_step ops s s'" and "locks_ok s" and "list_ok s" and "count_ok s"
  shows "locks_ok s'"
  using assms
proof (cases rule: thr_step.cases)
next
  case threads
  then show ?thesis by (rule locks_ok_list_step [OF _ assms(2-4)])
qed (auto simp: locks_ok_def section_defs remove_thread_unsafe_def)

lemma shutdown_ok_list_step:
  assumes "list_step s s'" and "shutdown_ok s" and "locks_ok s"
  shows "shutdown_ok s'"
  using assms
proof (cases rule: list_step.cases)
qed (auto simp: shutdown_ok_def remove_thread_unsafe_def split: if_splits)

lemma shutdown_ok_step:
  assumes "thr_step ops s s'" and "shutdown_ok s" and "locks_ok s"
  shows "shutdown_ok s'"
  using assms
proof (cases rule: thr_step.cases)
  case m_state_lock
  with assms(3) have "\<not> in_state_lock (th_pc s i)" for i by (simp add: locks_ok_def)
  with m_state_lock assms(2) show ?thesis by (auto simp: shutdown_ok_def section_defs)
next
  case threads
  then show ?thesis by (rule shutdown_ok_list_step [OF _ assms(2,3)])
qed (auto simp: shutdown_ok_def remove_thread_unsafe_def split: if_splits)

lemma list_ok_list_step:
  assumes "list_step s s'" and "list_ok s" and "locks_ok s" and "count_ok s"
  shows "list_ok s'"
  using assms(1)
proof (cases rule: list_step.cases)
  case (m_join i js)
  have "i \<in> set (th_list s)" using m_join assms(4) by (auto simp: count_ok_def)
  with m_join assms(2) show ?thesis
    unfolding list_ok_def remove_thread_unsafe_def by (auto simp: set_remove1_eq)
next
  case (t_remove i)
  have "\<not> main_in_list_lock (th_main s)"
    using list_lock_holder(3) [OF assms(3), of i] t_remove by (simp add: section_defs)
  then have "th_main s \<noteq> M_insert i" by auto
  with t_remove assms(2) have "i \<in> set (th_list s)" by (auto simp: list_ok_def)
  with t_remove assms(2) show ?thesis
    unfolding list_ok_def remove_thread_unsafe_def by (auto simp: set_remove1_eq)
qed (use assms(2) in \<open>auto simp: list_ok_def\<close>)

lemma list_ok_step:
  assumes "thr_step ops s s'" and "list_ok s" and "locks_ok s" and "count_ok s"
  shows "list_ok s'"
  using assms(1)
proof (cases rule: thr_step.cases)
  case (m_accept sock)
  with assms(2) have "set (th_list s) \<union> th_freed s = {..<th_next s}" by (simp add: list_ok_def)
  then have "th_next s \<notin> set (th_list s)" "th_next s \<notin> th_freed s" by auto
  with m_accept assms(2) show ?thesis by (auto simp: list_ok_def lessThan_Suc)
next
  case threads
  then show ?thesis by (rule list_ok_list_step [OF _ assms(2-4)])
qed (use assms(2) in \<open>auto simp: list_ok_def\<close>)

lemma count_ok_list_step:
  assumes "list_step s s'" and "list_ok s" and "locks_ok s" and "count_ok s"
  shows "count_ok s'"
  using assms(1)
proof (cases rule: list_step.cases)
  case (t_remove i)
  have l: "\<not> main_in_list_lock (th_main s)"
    using list_lock_holder(3) [OF assms(3), of i] t_remove by (simp add: section_defs)
  then have "th_main s \<noteq> M_insert i" by auto
  with t_remove assms(2) have "i \<in> set (th_list s)" by (auto simp: list_ok_def)
  then have "1 \<le> length (th_list s)" by (cases "th_list s") auto
  with \<open>i \<in> _\<close> t_remove assms(4) l show ?thesis
    unfolding count_ok_def remove_thread_unsafe_def by (auto simp: length_remove1 int_ops(6))
next
  case (m_join_lock)
  with assms(3,4) show ?thesis by (auto simp: count_ok_def locks_ok_def)
next
  case (m_lock i sock)
  with assms(3,4) show ?thesis by (auto simp: count_ok_def locks_ok_def)
qed (use assms(4) in \<open>auto simp: count_ok_def remove_thread_unsafe_def\<close>)

lemma count_ok_step:
  assumes "thr_step ops s s'" and "list_ok s" and "locks_ok s" and "count_ok s"
  shows "count_ok s'"
  using assms(1)
proof (cases rule: thr_step.cases)
next
  case threads
  then show ?thesis by (rule count_ok_list_step [OF _ assms(2-4)])
qed (use assms(4) in \<open>auto simp: count_ok_def remove_thread_unsafe_def\<close>)

lemma thr_inv_step:
  assumes "thr_step ops s s'" and "thr_inv s"
  shows "thr_inv s'"
proof -
  from assms(2) have i: "locks_ok s" "shutdown_ok s" "list_ok s" "count_ok s"
    unfolding thr_inv_def by blast+
  show ?thesis
    unfolding thr_inv_def
    using locks_ok_step [OF assms(1) i(1,3,4)] shutdown_ok_step [OF assms(1) i(2,1)]
      list_ok_step [OF assms(1) i(3,1,4)] count_ok_step [OF assms(1) i(3,1,4)] by simp
qed

lemma thr_inv_init: "init_thread_server True True db cs = (Some s, b) \<Longrightarrow> thr_inv s"
  by (auto simp: init_thread_server_def thr_inv_def locks_ok_def shutdown_ok_def list_ok_def
      count_ok_def section_defs)

lemma thr_steps_inv: "(thr_step ops)\<^sup>*\<^sup>* s0 s \<Longrightarrow> thr_inv s0 \<Longrightarrow> thr_inv s"
  by (induction rule: rtranclp_induct) (auto intro: thr_inv_step)

lemma thr_reachable_inv:
  assumes "thr_reachable ops s"
  shows "thr_inv s"
proof -
  from assms obtain db cs s0 where i: "init_thread_server True True db cs = (Some s0, True)"
    and run: "(thr_step ops)\<^sup>*\<^sup>* s0 s" unfolding thr_reachable_def by blast
  show ?thesis by (rule thr_steps_inv [OF run thr_inv_init [OF i]])
qed

lemma thr_reachable_step: "thr_reachable ops s \<Longrightarrow> thr_step ops s s' \<Longrightarrow> thr_reachable ops s'"
  unfolding thr_reachable_def by (meson rtranclp.rtrancl_into_rtrancl)

lemma thr_reachable_init:
  "init_thread_server True True db cs = (Some s0, True) \<Longrightarrow> thr_reachable ops s0"
  unfolding thr_reachable_def by blast

text \<open>Two short runs: a client has been accepted; then the main thread joins it, or it leaves.\<close>

lemma one_client:
  "\<exists>s. thr_reachable ops s \<and> th_main s = M_accept \<and> th_running s \<and> th_lock s = None \<and>
     th_list s = [0] \<and> th_pc s 0 = T_start \<and> th_readers s = {} \<and> \<not> th_swriter s \<and>
     th_state s = SERVER_RUNNING \<and> th_freed s = {}"
proof -
  obtain s0 :: "'a thr" where s0: "init_thread_server True True undefined undefined = (Some s0, True)"
    by (simp add: init_thread_server_def)
  note r = thr_reachable_init [OF s0, of ops]
  note i = s0 [unfolded init_thread_server_def, simplified, symmetric]
  note r1 = thr_reachable_step [OF r thr_step.m_accept [where sock = 5]]
  note r2 = thr_reachable_step [OF r1 thr_step.threads [OF list_step.m_lock [where i = 0 and sock = 5]]]
  note r3 = thr_reachable_step [OF r2 thr_step.threads [OF list_step.m_create [where i = 0]]]
  note r4 = thr_reachable_step [OF r3 thr_step.threads [OF list_step.m_insert [where i = 0]]]
  note r5 = thr_reachable_step [OF r4 thr_step.threads [OF list_step.m_unlock]]
  show ?thesis by (rule exI, rule conjI [OF r5]) (simp_all add: i)
qed

lemma one_client_joined:
  "\<exists>s. thr_reachable ops s \<and> th_main s = M_join [0] \<and> th_pc s 0 = T_start"
proof -
  obtain s where s: "thr_reachable ops s" "th_main s = M_accept" "th_lock s = None"
    "th_list s = [0]" "th_pc s 0 = T_start" "th_readers s = {}" using one_client [of ops] by blast
  note r1 = thr_reachable_step [OF s(1) thr_step.signal]
  note r2 = thr_reachable_step [OF r1 thr_step.m_stop]
  note r3 = thr_reachable_step [OF r2 thr_step.m_state_lock]
  note r4 = thr_reachable_step [OF r3 thr_step.m_state_unlock]
  note r5 = thr_reachable_step [OF r4 thr_step.threads [OF list_step.m_join_lock]]
  show ?thesis by (rule exI, rule conjI [OF r5]) (simp_all add: s)
qed

lemma one_client_left:
  "\<exists>s. thr_reachable ops s \<and> th_pc s 0 = T_wunlock"
proof -
  obtain s where s: "thr_reachable ops s" "th_running s" "th_lock s = None" "th_swriter s = False"
    "th_list s = [0]" "th_pc s 0 = T_start" "th_state s = SERVER_RUNNING"
    using one_client [of ops] by blast
  obtain c where c: "init_fd_cnct True (Some (replicate CNCT_BUF_SIZE NUL)) (th_cnct s 0) (th_socket s 0) =
      Inr (c, True, 0)"
    by (simp add: init_fd_cnct_def init_buffer_def reset_fd_cnct_def)
  note r1 = thr_reachable_step [OF s(1) thr_step.t_init [OF s(6) c]]
  note r2 = thr_reachable_step [OF r1 thr_step.signal]
  note r3 = thr_reachable_step [OF r2 thr_step.t_loop [where i = 0]]
  note r4 = thr_reachable_step [OF r3 thr_step.t_close [where i = 0]]
  note r5 = thr_reachable_step [OF r4 thr_step.t_rdlock [where i = 0]]
  note r6 = thr_reachable_step [OF r5 thr_step.t_check [where i = 0]]
  note r7 = thr_reachable_step [OF r6 thr_step.threads [OF list_step.t_wlock [where i = 0]]]
  note r8 = thr_reachable_step [OF r7 thr_step.threads [OF list_step.t_remove [where i = 0]]]
  show ?thesis by (rule exI, rule conjI [OF r8]) (simp_all add: s remove_thread_unsafe_def)
qed

section \<open>Shutdown\<close>

text \<open>
  A thread that the main thread waits for holds or awaits no lock: unless it has ended, or waits
  for its client inside \<open>process_cnct\<close>, it can go on.
\<close>

lemma join_progress:
  assumes "thr_inv s" and "th_main s = M_join (i # js)"
  shows "i \<notin> th_freed s"
    and "th_pc s i = T_exited \<or> th_pc s i = T_work \<or>
      (\<exists>s'. thr_step ops s s' \<and> th_pc s' i \<noteq> th_pc s i \<and> th_main s' = th_main s)"
proof -
  have inv: "locks_ok s" "shutdown_ok s" "list_ok s" "count_ok s"
    using assms(1) unfolding thr_inv_def by blast+
  have "i \<in> set (th_list s)" using inv(4) assms(2) by (auto simp: count_ok_def)
  with inv(3) show "i \<notin> th_freed s" by (auto simp: list_ok_def)
  have "th_pc s i \<notin> {T_none, T_wlock, T_remove, T_wunlock}" and sw: "\<not> th_swriter s"
    using inv assms(2) \<open>i \<in> _\<close> by (auto simp: list_ok_def shutdown_ok_def locks_ok_def)
  have go: "th_pc s i = T_exited \<or> th_pc s i = T_work \<or>
      (\<exists>s'. thr_step ops s s' \<and> th_pc s' i \<noteq> th_pc s i \<and> th_main s' = th_main s)"
    if "thr_step ops s s'" "th_pc s' i \<noteq> th_pc s i" "th_main s' = th_main s" for s'
    using that by blast
  from \<open>th_pc s i \<notin> _\<close> consider "th_pc s i = T_exited" | "th_pc s i = T_work" | "th_pc s i = T_start"
    | "th_pc s i = T_loop" | "th_pc s i = T_close" | "th_pc s i = T_rdlock" | "th_pc s i = T_check"
    | "th_pc s i = T_rdunlock" by (cases "th_pc s i") auto
  then show "th_pc s i = T_exited \<or> th_pc s i = T_work \<or>
    (\<exists>s'. thr_step ops s s' \<and> th_pc s' i \<noteq> th_pc s i \<and> th_main s' = th_main s)"
  proof cases
    case 3
    have init: "init_fd_cnct False None (th_cnct s i) (th_socket s i) = Inr (th_cnct s i, False, -1)"
      by (simp add: init_fd_cnct_def)
    show ?thesis by (rule go [OF thr_step.t_init [OF 3 init]]) (simp_all add: 3)
  next
    case 4
    show ?thesis by (rule go [OF thr_step.t_loop [OF 4]]) (simp_all add: 4)
  next
    case 5
    show ?thesis by (rule go [OF thr_step.t_close [OF 5]]) (simp_all add: 5)
  next
    case 6
    show ?thesis by (rule go [OF thr_step.t_rdlock [OF 6 sw]]) (simp_all add: 6)
  next
    case 7
    show ?thesis by (rule go [OF thr_step.t_check [OF 7]]) (simp_all add: 7)
  next
    case 8
    show ?thesis by (rule go [OF thr_step.t_rdunlock [OF 8]]) (simp_all add: 8)
  qed auto
qed

lemma join_drained:
  assumes "thr_inv s"
  shows "th_main s = M_join [] \<Longrightarrow> th_n s = 0"
    and "th_main s = M_join_unlock \<Longrightarrow> th_n s = 0 \<and> th_list s = [] \<and> th_freed s = {..<th_next s}"
  using assms by (auto simp: thr_inv_def count_ok_def list_ok_def)

text \<open>After a failed \<open>pthread_create\<close> the lock of the list is never given back.\<close>

lemma failed_lock_kept:
  assumes "thr_inv s" and "th_failed s" and "(thr_step ops)\<^sup>*\<^sup>* s s'"
  shows "th_failed s' \<and> th_lock s' = Some By_main"
proof -
  have "thr_inv s'" using thr_steps_inv [OF assms(3,1)] .
  moreover have list: "th_failed t \<Longrightarrow> list_step t t' \<Longrightarrow> th_failed t'" for t t' :: "'a thr"
    by (erule list_step.cases) (simp_all add: remove_thread_unsafe_def)
  have "th_failed t \<Longrightarrow> thr_step ops t t' \<Longrightarrow> th_failed t'" for t t'
    by (erule thr_step.cases) (simp_all add: list)
  with assms(3) have "th_failed s'" by (induction rule: rtranclp_induct) (auto simp: assms(2))
  ultimately show ?thesis by (simp add: thr_inv_def locks_ok_def)
qed

section \<open>Records read after they are freed\<close>

text \<open>
  \<open>thread_func\<close> reads \<open>thread->server\<close> to give back the state lock after \<open>remove_thread\<close> has freed
  \<open>thread\<close>, and \<open>join_threads\<close> reads the link of a record that it has just freed.
\<close>

lemma freed_records:
  assumes "thr_inv s"
  shows "th_pc s i = T_wunlock \<Longrightarrow> i \<in> th_freed s"
    and "th_main s = M_next i js \<Longrightarrow> i \<in> th_freed s"
  using assms by (auto simp: thr_inv_def list_ok_def count_ok_def)

end
