(* ===== verification/ServerFsm.thy ===== *)
theory ServerFsm
  imports ServerParse
begin

text \<open>
  The test server \<open>server-2008\<close>: its state machine (\<open>src/server-fsm.c\<close>, generated from
  \<open>src/server.def\<close>), the command handlers (\<open>src/server-cmd.c\<close>), the state (\<open>src/server-state.c\<close>)
  and the loop that feeds it the lines of a file (\<open>src/server-run.c\<close>).

  A file is the list of its bytes and the end-of-file flag of the stream. Messages on stderr are
  not modelled.

  Lemmas: the table is the one the definitions file describes; a session needs the right name
  and password; how a run over a file ends.
\<close>

section \<open>The machine\<close>

datatype fsm_state =
    ST_INIT | ST_USER_KNOWN | ST_AUTHORIZATION | ST_SESSION | ST_INVALID | ST_DONE

datatype fsm_trans =
    TR_AUTHORIZATION_CMD_QUIT | TR_AUTHORIZATION_PASSWORD_ACCEPTED
  | TR_AUTHORIZATION_PASSWORD_INVALID | TR_AUTHORIZATION_TIMEOUT
  | TR_AUTHORIZATION_TOO_MANY_ATTEMPTS | TR_INIT_CMD_QUIT | TR_INIT_CMD_USER | TR_INIT_TIMEOUT
  | TR_INVALID | TR_SESSION_CMD_PROCEED | TR_SESSION_CMD_QUIT | TR_SESSION_TIMEOUT
  | TR_USER_KNOWN_CMD_PASSW | TR_USER_KNOWN_CMD_QUIT | TR_USER_KNOWN_TIMEOUT

text \<open>The numbers of the enumerations, by which the table is indexed.\<close>

fun state_no :: "fsm_state \<Rightarrow> nat" where
  "state_no ST_INIT = 0" | "state_no ST_USER_KNOWN = 1" | "state_no ST_AUTHORIZATION = 2"
| "state_no ST_SESSION = 3" | "state_no ST_INVALID = 4" | "state_no ST_DONE = 5"

fun event_no :: "fsm_event \<Rightarrow> nat" where
  "event_no EV_TIMEOUT = 0" | "event_no EV_CMD_PROCEED = 1" | "event_no EV_CMD_QUIT = 2"
| "event_no EV_CMD_USER = 3" | "event_no EV_CMD_PASSW = 4" | "event_no EV_PASSWORD_ACCEPTED = 5"
| "event_no EV_PASSWORD_INVALID = 6" | "event_no EV_TOO_MANY_ATTEMPTS = 7" | "event_no EV_INVALID = 8"

definition fsm_trans_table :: "(fsm_state \<times> fsm_trans) list list" where
  "fsm_trans_table =
    [[(ST_DONE, TR_INIT_TIMEOUT), (ST_INVALID, TR_INVALID), (ST_DONE, TR_INIT_CMD_QUIT),
      (ST_USER_KNOWN, TR_INIT_CMD_USER), (ST_INVALID, TR_INVALID), (ST_INVALID, TR_INVALID),
      (ST_INVALID, TR_INVALID), (ST_INVALID, TR_INVALID)],
     [(ST_DONE, TR_USER_KNOWN_TIMEOUT), (ST_INVALID, TR_INVALID), (ST_DONE, TR_USER_KNOWN_CMD_QUIT),
      (ST_INVALID, TR_INVALID), (ST_AUTHORIZATION, TR_USER_KNOWN_CMD_PASSW), (ST_INVALID, TR_INVALID),
      (ST_INVALID, TR_INVALID), (ST_INVALID, TR_INVALID)],
     [(ST_DONE, TR_AUTHORIZATION_TIMEOUT), (ST_INVALID, TR_INVALID),
      (ST_DONE, TR_AUTHORIZATION_CMD_QUIT), (ST_INVALID, TR_INVALID), (ST_INVALID, TR_INVALID),
      (ST_SESSION, TR_AUTHORIZATION_PASSWORD_ACCEPTED), (ST_INIT, TR_AUTHORIZATION_PASSWORD_INVALID),
      (ST_DONE, TR_AUTHORIZATION_TOO_MANY_ATTEMPTS)],
     [(ST_DONE, TR_SESSION_TIMEOUT), (ST_SESSION, TR_SESSION_CMD_PROCEED),
      (ST_DONE, TR_SESSION_CMD_QUIT), (ST_INVALID, TR_INVALID), (ST_INVALID, TR_INVALID),
      (ST_INVALID, TR_INVALID), (ST_INVALID, TR_INVALID), (ST_INVALID, TR_INVALID)]]"

section \<open>State and handlers\<close>

text \<open>\<open>fs_lost\<close> is a ghost: the strings whose only pointer has been overwritten.\<close>

record fsm_server =
  fs_state :: fsm_state
  fs_user :: "string option"
  fs_password :: "string option"
  fs_attempts :: int
  fs_lost :: "string list"

definition init_state :: fsm_server where
  "init_state = \<lparr>fs_state = ST_INIT, fs_user = None, fs_password = None, fs_attempts = 0,
                 fs_lost = []\<rparr>"

fun opt_list :: "'a option \<Rightarrow> 'a list" where
  "opt_list None = []"
| "opt_list (Some x) = [x]"

text \<open>\<open>free_state\<close>: the state left and the strings freed.\<close>

definition free_state :: "fsm_server \<Rightarrow> fsm_server \<times> string list" where
  "free_state s = (init_state\<lparr>fs_lost := fs_lost s\<rparr>, opt_list (fs_user s) @ opt_list (fs_password s))"

text \<open>A NULL \<open>cmd\<close> would be passed on to \<open>regexec\<close>.\<close>

definition server_cmd_user :: "alloc \<Rightarrow> string option \<Rightarrow> fsm_server \<Rightarrow> (fsm_server \<times> int) res" where
  "server_cmd_user al cmd s =
     (case cmd of
        None \<Rightarrow> Inl Null_deref
      | Some c \<Rightarrow> Inr (s\<lparr>fs_user := get_param al EV_CMD_USER c,
                        fs_lost := fs_lost s @ opt_list (fs_user s)\<rparr>, 0))"

definition server_cmd_password :: "alloc \<Rightarrow> string option \<Rightarrow> fsm_server \<Rightarrow> (fsm_server \<times> int) res" where
  "server_cmd_password al cmd s =
     (case cmd of
        None \<Rightarrow> Inl Null_deref
      | Some c \<Rightarrow> Inr (s\<lparr>fs_password := get_param al EV_CMD_PASSW c,
                        fs_lost := fs_lost s @ opt_list (fs_password s)\<rparr>, 0))"

definition server_authorize :: "fsm_server \<Rightarrow> fsm_server \<times> int" where
  "server_authorize s =
     (if fs_user s = Some ''user'' \<and> fs_password s = Some ''password'' then (s, 0)
      else (s\<lparr>fs_attempts := fs_attempts s + 1\<rparr>, -1))"

text \<open>\<open>server_fsm_step\<close>: the transitions without a handler only leave the \<open>switch\<close>.\<close>

definition fsm_handler ::
  "alloc \<Rightarrow> fsm_trans \<Rightarrow> fsm_state \<Rightarrow> string option \<Rightarrow> fsm_server \<Rightarrow> (fsm_state \<times> fsm_server) res" where
  "fsm_handler al tr nxt cmd s =
     (case tr of
        TR_INIT_CMD_USER \<Rightarrow>
          bind_res (server_cmd_user al cmd s) (\<lambda>(s', r). Inr (if r \<noteq> 0 then ST_INVALID else nxt, s'))
      | TR_USER_KNOWN_CMD_PASSW \<Rightarrow>
          bind_res (server_cmd_password al cmd s)
            (\<lambda>(s', r). Inr (if r \<noteq> 0 then ST_INVALID else nxt, s'))
      | _ \<Rightarrow> Inr (nxt, s))"

definition server_fsm_step ::
  "alloc \<Rightarrow> fsm_state \<Rightarrow> fsm_event \<Rightarrow> string option \<Rightarrow> fsm_server \<Rightarrow> (fsm_state \<times> fsm_server) res" where
  "server_fsm_step al st ev cmd s =
     (if state_no st \<ge> state_no ST_INVALID then Inr (ST_INIT, s)
      else if event_no ev \<ge> event_no EV_INVALID then fsm_handler al TR_INVALID ST_INVALID cmd s
      else case fsm_trans_table ! state_no st ! event_no ev of
             (nxt, tr) \<Rightarrow> fsm_handler al tr nxt cmd s)"

section \<open>The loop over a file\<close>

definition MAXCMDLEN :: nat where
  "MAXCMDLEN = 1024"

text \<open>\<open>fgets\<close>: the bytes stored, the rest of the file, and whether its end was met.\<close>

fun fgets_take :: "nat \<Rightarrow> bytes \<Rightarrow> bytes \<times> bytes \<times> bool" where
  "fgets_take 0 s = ([], s, False)"
| "fgets_take (Suc n) [] = ([], [], True)"
| "fgets_take (Suc n) (c # s) =
     (if c = LF then ([c], s, False)
      else case fgets_take n s of (l, s', e) \<Rightarrow> (c # l, s', e))"

text \<open>
  \<open>read_cmd\<close>: \<open>Inr None\<close> is the result 1. At the end of the file \<open>fgets\<close> returns NULL, which
  \<open>strchr\<close> dereferences.
\<close>

definition read_cmd :: "bytes \<Rightarrow> ((fsm_event \<times> string) option \<times> bytes \<times> bool) res" where
  "read_cmd file =
     (case fgets_take (MAXCMDLEN - 1) file of
        (l, rest, eof) \<Rightarrow>
          if l = [] then Inl Null_deref
          else if LF \<notin> set (cstr l) then Inr (None, rest, eof)
          else Inr (Some (parse_cmd (cstr l), cstr l), rest, eof))"

text \<open>One turn of the loop of \<open>run\<close> after \<open>read_cmd\<close>; the second component is \<open>break\<close>.\<close>

definition fsm_turn :: "alloc \<Rightarrow> fsm_event \<Rightarrow> string \<Rightarrow> fsm_server \<Rightarrow> (fsm_server \<times> bool) res" where
  "fsm_turn al ev cmd s =
     bind_res (server_fsm_step al (fs_state s) ev (Some cmd) s) (\<lambda>(new, s1).
       if new = ST_INVALID then Inr (s1, False)
       else if new = ST_AUTHORIZATION then
         (case server_authorize (s1\<lparr>fs_state := new\<rparr>) of
            (s2, r) \<Rightarrow>
              bind_res (server_fsm_step al (fs_state s2)
                  (if r = 0 then EV_PASSWORD_ACCEPTED else if r = -2 then EV_TOO_MANY_ATTEMPTS
                   else EV_PASSWORD_INVALID) None s2)
                (\<lambda>(new2, s3). Inr (s3\<lparr>fs_state := new2\<rparr>, new2 = ST_DONE)))
       else Inr (s1\<lparr>fs_state := new\<rparr>, new = ST_DONE))"

lemma fgets_take_append: "fgets_take n s = (l, s', e) \<Longrightarrow> s = l @ s'"
  by (induction n s arbitrary: l rule: fgets_take.induct) (auto split: if_splits prod.splits)

lemma read_cmd_shorter: "read_cmd file = Inr (x, rest, eof) \<Longrightarrow> length rest < length file"
  by (auto simp: read_cmd_def split: prod.splits if_splits dest!: fgets_take_append)

function run_loop :: "(nat \<Rightarrow> alloc) \<Rightarrow> nat \<Rightarrow> bytes \<Rightarrow> bool \<Rightarrow> fsm_server \<Rightarrow> (fsm_server \<times> int) res" where
  "run_loop als n file eof s =
     (if eof then Inr (s, 0)
      else case read_cmd file of
        Inl e \<Rightarrow> Inl e
      | Inr (None, rest, eof') \<Rightarrow> Inr (s, 1)
      | Inr (Some (ev, cmd), rest, eof') \<Rightarrow>
          (case fsm_turn (als n) ev cmd s of
             Inl e \<Rightarrow> Inl e
           | Inr (s', stop) \<Rightarrow>
               if stop then Inr (s', 0) else run_loop als (Suc n) rest eof' s'))"
  by pat_completeness auto
termination
  by (relation "measure (\<lambda>(als, n, file, eof, s). length file)") (auto dest: read_cmd_shorter)

declare run_loop.simps [simp del]

text \<open>\<open>run\<close>: \<open>None\<close> is a file that cannot be opened. The result: the state before it is freed.\<close>

definition run :: "(nat \<Rightarrow> alloc) \<Rightarrow> bytes option \<Rightarrow> (fsm_server \<times> int) res" where
  "run als file =
     (case file of None \<Rightarrow> Inr (init_state, -1) | Some f \<Rightarrow> run_loop als 0 f False init_state)"

section \<open>The table and the definitions file\<close>

text \<open>The transitions of \<open>server.def\<close>; \<open>None\<close> is the state \<open>"*"\<close>.\<close>

definition def_transitions :: "(fsm_state option \<times> fsm_event \<times> fsm_state) list" where
  "def_transitions =
     [(Some ST_INIT, EV_CMD_USER, ST_USER_KNOWN),
      (Some ST_USER_KNOWN, EV_CMD_PASSW, ST_AUTHORIZATION),
      (Some ST_AUTHORIZATION, EV_PASSWORD_ACCEPTED, ST_SESSION),
      (Some ST_AUTHORIZATION, EV_PASSWORD_INVALID, ST_INIT),
      (Some ST_AUTHORIZATION, EV_TOO_MANY_ATTEMPTS, ST_DONE),
      (Some ST_SESSION, EV_CMD_PROCEED, ST_SESSION),
      (None, EV_TIMEOUT, ST_DONE),
      (None, EV_CMD_QUIT, ST_DONE)]"

definition def_next :: "fsm_state \<Rightarrow> fsm_event \<Rightarrow> fsm_state option" where
  "def_next st ev =
     map_option (\<lambda>(f, e, nxt). nxt)
       (find (\<lambda>(f, e, nxt). e = ev \<and> (f = None \<or> f = Some st)) def_transitions)"

lemma table_is_def:
  assumes "st \<notin> {ST_INVALID, ST_DONE}" and "ev \<noteq> EV_INVALID"
  shows "fst (fsm_trans_table ! state_no st ! event_no ev) =
      (case def_next st ev of None \<Rightarrow> ST_INVALID | Some nxt \<Rightarrow> nxt)"
    and "snd (fsm_trans_table ! state_no st ! event_no ev) = TR_INVALID \<longleftrightarrow> def_next st ev = None"
  using assms
  by (cases st; cases ev; simp add: fsm_trans_table_def def_next_def def_transitions_def)+

lemma def_deterministic:
  "(f, e, n) \<in> set def_transitions \<Longrightarrow> (f', e, n') \<in> set def_transitions \<Longrightarrow>
   f = None \<or> f' = None \<or> f = f' \<Longrightarrow> n = n'"
  by (auto simp: def_transitions_def)

section \<open>One turn\<close>

text \<open>The lines of a file, one after the other, without the reading.\<close>

fun fsm_session ::
  "(nat \<Rightarrow> alloc) \<Rightarrow> nat \<Rightarrow> string list \<Rightarrow> fsm_server \<Rightarrow> (fsm_server \<times> bool) res" where
  "fsm_session als n [] s = Inr (s, False)"
| "fsm_session als n (l # ls) s =
     (case fsm_turn (als n) (parse_cmd (l @ [LF])) (l @ [LF]) s of
        Inl e \<Rightarrow> Inl e
      | Inr (s', stop) \<Rightarrow> if stop then Inr (s', True) else fsm_session als (Suc n) ls s')"

lemmas fsm_defs = fsm_turn_def server_fsm_step_def fsm_handler_def fsm_trans_table_def
  server_cmd_user_def server_cmd_password_def server_authorize_def

lemma fsm_turn_no_fault: "fsm_turn al ev cmd s \<noteq> Inl e"
  by (cases "fs_state s"; cases ev; simp add: fsm_defs)

lemma fsm_turn_total: "\<exists>s' stop. fsm_turn al ev cmd s = Inr (s', stop)"
  using fsm_turn_no_fault [of al ev cmd s] by (cases "fsm_turn al ev cmd s") auto

text \<open>What a turn does in the three states in which it can start.\<close>

lemma fsm_turn_init:
  "fs_state s = ST_INIT \<Longrightarrow> fsm_turn al ev cmd s =
     Inr (if ev \<in> {EV_TIMEOUT, EV_CMD_QUIT} then (s\<lparr>fs_state := ST_DONE\<rparr>, True)
          else if ev = EV_CMD_USER
          then (s\<lparr>fs_state := ST_USER_KNOWN, fs_user := get_param al EV_CMD_USER cmd,
                  fs_lost := fs_lost s @ opt_list (fs_user s)\<rparr>, False)
          else (s, False))"
  by (cases ev) (simp_all add: fsm_defs)

lemma fsm_turn_user_known:
  "fs_state s = ST_USER_KNOWN \<Longrightarrow> fsm_turn al ev cmd s =
     Inr (if ev \<in> {EV_TIMEOUT, EV_CMD_QUIT} then (s\<lparr>fs_state := ST_DONE\<rparr>, True)
          else if ev = EV_CMD_PASSW then
            (let p = get_param al EV_CMD_PASSW cmd;
                 s1 = s\<lparr>fs_password := p, fs_lost := fs_lost s @ opt_list (fs_password s)\<rparr>
             in if fs_user s = Some ''user'' \<and> p = Some ''password''
                then (s1\<lparr>fs_state := ST_SESSION\<rparr>, False)
                else (s1\<lparr>fs_state := ST_INIT, fs_attempts := fs_attempts s + 1\<rparr>, False))
          else (s, False))"
  by (cases ev) (simp_all add: fsm_defs Let_def)

lemma fsm_turn_session:
  "fs_state s = ST_SESSION \<Longrightarrow> fsm_turn al ev cmd s =
     Inr (if ev \<in> {EV_TIMEOUT, EV_CMD_QUIT} then (s\<lparr>fs_state := ST_DONE\<rparr>, True) else (s, False))"
  by (cases ev) (simp_all add: fsm_defs)

section \<open>A session needs the password\<close>

definition named :: "string list \<Rightarrow> string \<Rightarrow> bool" where
  "named ls u \<longleftrightarrow> (\<exists>l \<in> set ls. denotes RE_CMD_USER (l @ [LF]) (Some u))"

definition logged_in :: "string list \<Rightarrow> bool" where
  "logged_in ls \<longleftrightarrow>
     (\<exists>ls1 l ls2. ls = ls1 @ l # ls2 \<and> named ls1 ''user'' \<and>
        denotes RE_CMD_PASSWORD (l @ [LF]) (Some ''password''))"

definition auth_inv :: "string list \<Rightarrow> fsm_server \<Rightarrow> bool" where
  "auth_inv ls s \<longleftrightarrow>
     fs_state s \<in> {ST_INIT, ST_USER_KNOWN, ST_SESSION, ST_DONE} \<and>
     (fs_state s = ST_USER_KNOWN \<longrightarrow> (\<forall>u. fs_user s = Some u \<longrightarrow> named ls u)) \<and>
     (fs_state s = ST_SESSION \<longrightarrow> logged_in ls)"

lemma named_snoc: "named ls u \<Longrightarrow> named (ls @ [l]) u"
  by (auto simp: named_def)

lemma logged_in_snoc: "logged_in ls \<Longrightarrow> logged_in (ls @ [l])"
  unfolding logged_in_def by (metis append.assoc append_Cons)

lemma auth_inv_turn:
  assumes "auth_inv ls s" and "fs_state s \<noteq> ST_DONE"
    and "fsm_turn al (parse_cmd (l @ [LF])) (l @ [LF]) s = Inr (s', stop)"
  shows "auth_inv (ls @ [l]) s'" and "stop \<longleftrightarrow> fs_state s' = ST_DONE"
proof -
  from assms(1,2) consider "fs_state s = ST_INIT" | "fs_state s = ST_USER_KNOWN"
    | "fs_state s = ST_SESSION" unfolding auth_inv_def by blast
  then have "auth_inv (ls @ [l]) s' \<and> (stop \<longleftrightarrow> fs_state s' = ST_DONE)"
  proof cases
    case 1
    then show ?thesis
      using assms get_param_correct [of EV_CMD_USER RE_CMD_USER al "l @ [LF]"]
      by (auto simp: fsm_turn_init auth_inv_def named_def split: if_splits)
  next
    case 2
    then show ?thesis
      using assms get_param_correct [of EV_CMD_PASSW RE_CMD_PASSWORD al "l @ [LF]" "''password''"]
      by (auto simp: fsm_turn_user_known auth_inv_def Let_def logged_in_def intro: named_snoc
          split: if_splits)
  next
    case 3
    then show ?thesis
      using assms logged_in_snoc by (auto simp: fsm_turn_session auth_inv_def split: if_splits)
  qed
  then show "auth_inv (ls @ [l]) s'" "stop \<longleftrightarrow> fs_state s' = ST_DONE" by blast+
qed

lemma auth_inv_session:
  "fsm_session als n ls s = Inr (s', stop) \<Longrightarrow> auth_inv ls0 s \<Longrightarrow> fs_state s \<noteq> ST_DONE \<Longrightarrow>
   (stop \<longleftrightarrow> fs_state s' = ST_DONE) \<and> (\<not> stop \<longrightarrow> auth_inv (ls0 @ ls) s')"
proof (induction ls arbitrary: n s ls0)
  case (Cons l ls)
  obtain s1 stop1 where t: "fsm_turn (als n) (parse_cmd (l @ [LF])) (l @ [LF]) s = Inr (s1, stop1)"
    using fsm_turn_total by blast
  note T = auth_inv_turn [OF Cons.prems(2,3) t]
  show ?case
  proof (cases stop1)
    case True
    with Cons.prems(1) t T show ?thesis by auto
  next
    case False
    then have "fsm_session als (Suc n) ls s1 = Inr (s', stop)" "fs_state s1 \<noteq> ST_DONE"
      using Cons.prems(1) t T(2) by auto
    from Cons.IH [OF this(1) T(1) this(2)] show ?thesis by simp
  qed
qed simp

lemma auth_inv_init: "auth_inv [] init_state"
  by (simp add: auth_inv_def init_state_def)

lemma session_logged_in:
  assumes "fsm_session als n ls init_state = Inr (s, False)" and "fs_state s = ST_SESSION"
  shows "logged_in ls"
  using auth_inv_session [OF assms(1) auth_inv_init] assms(2)
  by (simp add: auth_inv_def init_state_def)

text \<open>Wrong passwords are counted, but no number of them ends the session.\<close>

lemma wrong_password_turns:
  assumes "fs_state s = ST_INIT" and "denotes RE_CMD_USER (lu @ [LF]) (Some u)"
    and "denotes RE_CMD_PASSWORD (lp @ [LF]) (Some p)" and "u \<noteq> ''user'' \<or> p \<noteq> ''password''"
  shows "\<exists>s'. fsm_session (\<lambda>_. all_ok) n (concat (replicate k [lu, lp])) s = Inr (s', False) \<and>
    fs_state s' = ST_INIT \<and> fs_attempts s' = fs_attempts s + int k"
  using assms(1)
proof (induction k arbitrary: n s)
  case (Suc k)
  have ev: "parse_cmd (lu @ [LF]) = EV_CMD_USER" "parse_cmd (lp @ [LF]) = EV_CMD_PASSW"
    using parse_cmd_iff assms(2,3) by (metis event_re.simps(2) fsm_event.distinct, metis event_re.simps(3))
  have pu: "get_param all_ok EV_CMD_USER (lu @ [LF]) = Some u"
    "get_param all_ok EV_CMD_PASSW (lp @ [LF]) = Some p"
    using get_param_correct [of EV_CMD_USER RE_CMD_USER] get_param_correct [of EV_CMD_PASSW RE_CMD_PASSWORD]
      assms(2,3) by auto
  obtain s1 where s1: "fsm_turn all_ok EV_CMD_USER (lu @ [LF]) s = Inr (s1, False)"
    "fs_state s1 = ST_USER_KNOWN" "fs_user s1 = Some u" "fs_attempts s1 = fs_attempts s"
    using Suc.prems pu(1) by (auto simp: fsm_turn_init)
  obtain s2 where s2: "fsm_turn all_ok EV_CMD_PASSW (lp @ [LF]) s1 = Inr (s2, False)"
    "fs_state s2 = ST_INIT" "fs_attempts s2 = fs_attempts s + 1"
    using s1 pu(2) assms(4) by (auto simp: fsm_turn_user_known Let_def)
  from Suc.IH [OF s2(2), of "Suc (Suc n)"] s1(1) s2(1,3) ev show ?case
    by (auto simp del: all_ok_apply)
qed simp

section \<open>How a run ends\<close>

lemma fgets_take_line:
  "LF \<notin> set l \<Longrightarrow> length l < n \<Longrightarrow> fgets_take n (l @ LF # rest) = (l @ [LF], rest, False)"
proof (induction l arbitrary: n)
  case Nil
  then show ?case by (cases n) auto
next
  case (Cons c l)
  then show ?case by (cases n) auto
qed

lemma fgets_take_no_LF:
  "fgets_take n s = (l, s', e) \<Longrightarrow> LF \<notin> set s \<Longrightarrow> LF \<notin> set l"
  using fgets_take_append by fastforce

lemma fgets_take_Nil: "0 < n \<Longrightarrow> fgets_take n s = (l, s', e) \<Longrightarrow> l = [] \<longleftrightarrow> s = []"
  by (cases n; cases s) (auto split: if_splits prod.splits)

definition script_line :: "string \<Rightarrow> bool" where
  "script_line l \<longleftrightarrow> LF \<notin> set l \<and> NUL \<notin> set l \<and> length l + 2 \<le> MAXCMDLEN"

lemma read_cmd_line:
  "script_line l \<Longrightarrow>
   read_cmd (l @ LF # rest) = Inr (Some (parse_cmd (l @ [LF]), l @ [LF]), rest, False)"
  unfolding script_line_def
  by (simp add: read_cmd_def fgets_take_line MAXCMDLEN_def cstr_id)

lemma read_cmd_last:
  "LF \<notin> set rest \<Longrightarrow> read_cmd rest =
     (if rest = [] then Inl Null_deref
      else Inr (None, snd (fgets_take (MAXCMDLEN - 1) rest)))"
proof -
  assume r: "LF \<notin> set rest"
  obtain l s' e where f: "fgets_take (MAXCMDLEN - 1) rest = (l, s', e)" by (metis prod_cases3)
  have "LF \<notin> set (cstr l)"
    using fgets_take_no_LF [OF f r] by (auto simp: cstr_def dest: set_takeWhileD)
  moreover have "l = [] \<longleftrightarrow> rest = []"
    by (rule fgets_take_Nil [OF _ f]) (simp add: MAXCMDLEN_def)
  ultimately show ?thesis using f by (simp add: read_cmd_def)
qed

text \<open>
  A file of proper lines and a rest without line end: the run stops at the first turn that
  reaches \<open>ST_DONE\<close>; otherwise the rest is an error, and without a rest the end of the file
  makes the program dereference NULL.
\<close>

lemma run_loop_script:
  assumes "\<forall>l \<in> set ls. script_line l" and "LF \<notin> set rest"
  shows "run_loop als n (concat (map (\<lambda>l. l @ [LF]) ls) @ rest) False s =
    (case fsm_session als n ls s of
       Inl e \<Rightarrow> Inl e
     | Inr (s', True) \<Rightarrow> Inr (s', 0)
     | Inr (s', False) \<Rightarrow> if rest = [] then Inl Null_deref else Inr (s', 1))"
  using assms(1)
proof (induction ls arbitrary: n s)
  case Nil
  then show ?case
    using read_cmd_last [OF assms(2)]
    by (cases "fgets_take (MAXCMDLEN - 1) rest") (simp add: run_loop.simps [of als n rest])
next
  case (Cons l ls)
  obtain s1 stop where t: "fsm_turn (als n) (parse_cmd (l @ [LF])) (l @ [LF]) s = Inr (s1, stop)"
    using fsm_turn_total by blast
  have "read_cmd (l @ LF # concat (map (\<lambda>l. l @ [LF]) ls) @ rest) =
      Inr (Some (parse_cmd (l @ [LF]), l @ [LF]), concat (map (\<lambda>l. l @ [LF]) ls) @ rest, False)"
    using Cons.prems by (intro read_cmd_line) simp
  with t Cons show ?case
    by (simp add: run_loop.simps [of als n "l @ LF # _"])
qed

end
