(* ===== verification/StrLib.thy ===== *)
theory StrLib
  imports Prelude
begin

text \<open>
  The bounded string operations of \<open>libs/cfsm_lib/mtemplate\<close>: \<open>strlcpy.c\<close>, \<open>strlcat.c\<close> and
  \<open>strstcpy.c\<close>, and the character encoding \<open>vis.c\<close>.

  A C string argument is the list of its bytes, without the terminating NUL that the loops see
  as the end of the list. What a call stores at \<open>dst\<close> is the list of bytes written from there
  on; it never writes past \<open>siz\<close> bytes.

  Lemmas: what is written and returned, in terms of prefixes.
\<close>

section \<open>strlcpy\<close>

text \<open>
  The copying loop with \<open>n\<close> as on entry to \<open>while (--n != 0)\<close>: the bytes written, the rest of the
  source, whether the NUL was copied, and the \<open>n\<close> left.
\<close>

fun lcpy_loop :: "nat \<Rightarrow> string \<Rightarrow> bytes \<times> string \<times> bool \<times> nat" where
  "lcpy_loop (Suc (Suc n)) [] = ([NUL], [], True, Suc n)"
| "lcpy_loop (Suc (Suc n)) (c # s) =
     (case lcpy_loop (Suc n) s of (w, r, stop, k) \<Rightarrow> (c # w, r, stop, k))"
| "lcpy_loop n s = ([], s, False, 0)"

definition strlcpy :: "string \<Rightarrow> nat \<Rightarrow> bytes \<times> nat" where
  "strlcpy src siz =
     (if siz = 0 then ([], length src)
      else case lcpy_loop siz src of
             (w, r, stop, n) \<Rightarrow>
               if n = 0 then (w @ [NUL], length w + length r)
               else (w, length w - 1))"

section \<open>strlcat\<close>

text \<open>
  \<open>dst\<close> is the whole destination block of \<open>siz\<close> bytes. The second loop: \<open>n\<close> free bytes,
  counting the one for the NUL.
\<close>

fun lcat_loop :: "nat \<Rightarrow> string \<Rightarrow> bytes" where
  "lcat_loop n [] = []"
| "lcat_loop n (c # s) = (if n \<noteq> 1 then c # lcat_loop (n - 1) s else lcat_loop n s)"

definition strlcat :: "bytes \<Rightarrow> string \<Rightarrow> nat \<Rightarrow> bytes \<times> nat" where
  "strlcat dst src siz =
     (let dlen = length (cstr (take siz dst)); n = siz - dlen in
      if n = 0 then (dst, dlen + length src)
      else (let w = lcat_loop n src @ [NUL] in
            (take dlen dst @ w @ drop (dlen + length w) dst, dlen + length src)))"

section \<open>strstcpy\<close>

text \<open>
  As \<open>strlcpy\<close>, up to a stop character. \<open>strchr\<close> also finds the NUL at the end of \<open>stopchars\<close>, so
  the end of the source is a stop character too. The result of the loop: bytes written, source
  left after the character stopped at, characters passed before it, the \<open>n\<close> left.
\<close>

fun stcpy_loop :: "nat \<Rightarrow> string \<Rightarrow> string \<Rightarrow> bytes \<times> string \<times> nat \<times> nat" where
  "stcpy_loop (Suc (Suc n)) [] stops = ([NUL], [], 0, Suc n)"
| "stcpy_loop (Suc (Suc n)) (c # s) stops =
     (if c \<in> set stops then ([NUL], s, 0, Suc n)
      else case stcpy_loop (Suc n) s stops of (w, r, l, k) \<Rightarrow> (c # w, r, Suc l, k))"
| "stcpy_loop n s stops = ([], s, 0, 0)"

fun stcpy_skip :: "string \<Rightarrow> string \<Rightarrow> nat" where
  "stcpy_skip [] stops = 0"
| "stcpy_skip (c # s) stops = (if c \<in> set stops then 0 else Suc (stcpy_skip s stops))"

definition strstcpy :: "string \<Rightarrow> nat \<Rightarrow> string \<Rightarrow> bytes \<times> nat" where
  "strstcpy src len stops =
     (if len = 0 then ([], stcpy_skip src stops)
      else case stcpy_loop len src stops of
             (w, r, l, n) \<Rightarrow>
               if n = 0 then (w @ [NUL], l + stcpy_skip r stops) else (w, l))"

section \<open>vis\<close>

datatype vis_flag =
  VIS_OCTAL | VIS_CSTYLE | VIS_SP | VIS_TAB | VIS_NL | VIS_SAFE | VIS_NOSLASH | VIS_GLOB

definition isgraph :: "char \<Rightarrow> bool" where
  "isgraph c \<longleftrightarrow> 33 \<le> byte_of c \<and> byte_of c \<le> 126"

definition isvisible :: "vis_flag set \<Rightarrow> char \<Rightarrow> bool" where
  "isvisible flag c \<longleftrightarrow>
     ((c \<notin> {CHR ''*'', CHR ''?'', CHR ''['', CHR ''#''} \<or> VIS_GLOB \<notin> flag) \<and> isgraph c) \<or>
     (VIS_SP \<notin> flag \<and> c = CHR '' '') \<or> (VIS_TAB \<notin> flag \<and> c = CHR 0x09) \<or>
     (VIS_NL \<notin> flag \<and> c = LF) \<or>
     (VIS_SAFE \<in> flag \<and> (c \<in> {CHR 0x08, CHR 0x07, CR} \<or> isgraph c))"

definition octal_digit :: "nat \<Rightarrow> char" where
  "octal_digit n = char_of (48 + n mod 8)"

definition isoctal :: "char \<Rightarrow> bool" where
  "isoctal c \<longleftrightarrow> 48 \<le> byte_of c \<and> byte_of c \<le> 55"

definition vis_cstyle :: "char \<Rightarrow> char \<Rightarrow> string option" where
  "vis_cstyle c nextc =
     (if c = LF then Some [CHR 0x5C, CHR ''n'']
      else if c = CR then Some [CHR 0x5C, CHR ''r'']
      else if c = CHR 0x08 then Some [CHR 0x5C, CHR ''b'']
      else if c = CHR 0x07 then Some [CHR 0x5C, CHR ''a'']
      else if c = CHR 0x0B then Some [CHR 0x5C, CHR ''v'']
      else if c = CHR 0x09 then Some [CHR 0x5C, CHR ''t'']
      else if c = CHR 0x0C then Some [CHR 0x5C, CHR ''f'']
      else if c = CHR '' '' then Some [CHR 0x5C, CHR ''s'']
      else if c = NUL then Some ([CHR 0x5C, CHR ''0''] @ (if isoctal nextc then ''00'' else []))
      else None)"

definition vis_meta :: "vis_flag set \<Rightarrow> char \<Rightarrow> string" where
  "vis_meta flag c =
     (let b = byte_of c; b' = b mod 128 in
      (if VIS_NOSLASH \<notin> flag then [CHR 0x5C] else []) @ (if b \<ge> 128 then ''M'' else []) @
      (if b' < 32 \<or> b' = 127 then [CHR 0x5E, if b' = 127 then CHR ''?'' else char_of (b' + 64)]
       else [CHR ''-'', char_of b']))"

definition vis :: "vis_flag set \<Rightarrow> char \<Rightarrow> char \<Rightarrow> string" where
  "vis flag c nextc =
     (if isvisible flag c
      then (if c = CHR 0x5C \<and> VIS_NOSLASH \<notin> flag then [c, CHR 0x5C] else [c])
      else case (if VIS_CSTYLE \<in> flag then vis_cstyle c nextc else None) of
             Some e \<Rightarrow> e
           | None \<Rightarrow>
               if byte_of c mod 128 = 32 \<or> VIS_OCTAL \<in> flag \<or>
                  (VIS_GLOB \<in> flag \<and> c \<in> {CHR ''*'', CHR ''?'', CHR ''['', CHR ''#''})
               then [CHR 0x5C, octal_digit (byte_of c div 64), octal_digit (byte_of c div 8),
                     octal_digit (byte_of c)]
               else vis_meta flag c)"

section \<open>What is copied\<close>

lemma lcpy_loop_correct:
  "lcpy_loop (Suc n) s =
     (if length s < n then (s @ [NUL], [], True, n - length s) else (take n s, drop n s, False, 0))"
  by (induction n arbitrary: s) (case_tac s; auto)+

lemma strlcpy_correct:
  "strlcpy s siz = (if siz = 0 then [] else take (siz - 1) s @ [NUL], length s)"
  by (cases siz) (auto simp: strlcpy_def lcpy_loop_correct)

lemma strlcpy_cstr: "0 < siz \<Longrightarrow> NUL \<notin> set s \<Longrightarrow> cstr (fst (strlcpy s siz)) = take (siz - 1) s"
  using cstr_append_NUL [of "take (siz - 1) s" "[]"] in_set_takeD [of NUL "siz - 1" s]
  by (auto simp: strlcpy_correct)

lemma lcat_loop_correct: "0 < n \<Longrightarrow> lcat_loop n s = take (n - 1) s"
proof (induction s arbitrary: n)
  case (Cons c s)
  then show ?case by (cases "n = 1") (auto simp: take_Cons')
qed simp

lemma strlcat_correct:
  assumes "length dst = siz" and "NUL \<notin> set src"
  shows "snd (strlcat dst src siz) = length (cstr dst) + length src"
    and "NUL \<in> set dst \<Longrightarrow>
      cstr (fst (strlcat dst src siz)) = cstr dst @ take (siz - length (cstr dst) - 1) src"
    and "NUL \<notin> set dst \<Longrightarrow> fst (strlcat dst src siz) = dst"
    and "length (fst (strlcat dst src siz)) = siz"
proof -
  have t: "take siz dst = dst" using assms(1) by simp
  show "snd (strlcat dst src siz) = length (cstr dst) + length src"
    by (simp add: strlcat_def t Let_def)
  show "NUL \<notin> set dst \<Longrightarrow> fst (strlcat dst src siz) = dst"
    using assms(1) by (simp add: strlcat_def t Let_def cstr_id)
  have pre: "take (length (cstr dst)) dst = cstr dst"
    unfolding cstr_def by (rule takeWhile_eq_take [symmetric])
  show "length (fst (strlcat dst src siz)) = siz"
    using assms(1) length_cstr_le [of dst]
    by (auto simp: strlcat_def t Let_def lcat_loop_correct)
  assume "NUL \<in> set dst"
  then obtain a b where "dst = a @ NUL # b" "NUL \<notin> set a" by (meson split_list_first)
  then have lt: "length (cstr dst) < siz" using assms(1) by (auto simp: cstr_append_NUL)
  let ?w = "take (siz - length (cstr dst) - 1) src"
  have "NUL \<notin> set (cstr dst @ ?w)" using assms(2) by (auto dest: in_set_takeD)
  from cstr_append_NUL [OF this] lt show
    "cstr (fst (strlcat dst src siz)) = cstr dst @ take (siz - length (cstr dst) - 1) src"
    by (simp add: strlcat_def t Let_def lcat_loop_correct pre)
qed

definition upto_stop :: "string \<Rightarrow> string \<Rightarrow> string" where
  "upto_stop s stops = takeWhile (\<lambda>c. c \<notin> set stops) s"

lemma stcpy_skip_correct: "stcpy_skip s stops = length (upto_stop s stops)"
  by (induction s) (auto simp: upto_stop_def)

lemma stcpy_loop_correct:
  "stcpy_loop (Suc n) s stops =
     (let p = upto_stop s stops in
      if length p < n then (p @ [NUL], drop (Suc (length p)) s, length p, n - length p)
      else (take n s, drop n s, n, 0))"
proof (induction n arbitrary: s)
  case 0
  then show ?case by (simp add: Let_def)
next
  case (Suc n)
  show ?case by (cases s) (auto simp: Suc.IH upto_stop_def Let_def)
qed

lemma upto_stop_take:
  "n \<le> length (upto_stop s stops) \<Longrightarrow>
   take n s = take n (upto_stop s stops) \<and> n + length (upto_stop (drop n s) stops) = length (upto_stop s stops)"
  unfolding upto_stop_def
proof (induction s arbitrary: n)
  case (Cons c s)
  then show ?case by (cases n) auto
qed simp

lemma strstcpy_correct:
  "strstcpy s len stops =
     (if len = 0 then [] else take (len - 1) (upto_stop s stops) @ [NUL],
      length (upto_stop s stops))"
proof (cases len)
  case 0
  then show ?thesis by (simp add: strstcpy_def stcpy_skip_correct)
next
  case (Suc n)
  show ?thesis
  proof (cases "length (upto_stop s stops) < n")
    case True
    with Suc show ?thesis by (simp add: strstcpy_def stcpy_loop_correct Let_def)
  next
    case False
    with upto_stop_take [of n s stops] Suc show ?thesis
      by (simp add: strstcpy_def stcpy_loop_correct stcpy_skip_correct Let_def)
  qed
qed

end
