(* ===== verification/StrVis.thy ===== *)
theory StrVis
  imports StrLib
begin

text \<open>
  Encoding whole strings with \<open>vis\<close>, \<open>strvis\<close>, \<open>strnvis\<close> and \<open>strvisx\<close> of
  \<open>libs/cfsm_lib/mtemplate/vis.c\<close>. A source string is the characters before its NUL; the
  destination is the text stored. \<open>strvis\<close> and \<open>strvisx\<close> need room for it.

  Lemmas: \<open>strnvis\<close> stores as much of the encoding as fits without cutting a character, and
  returns the length of all of it.
\<close>

definition next_char :: "string \<Rightarrow> char" where
  "next_char s = (case s of [] \<Rightarrow> NUL | c # _ \<Rightarrow> c)"

fun strvis_loop :: "vis_flag set \<Rightarrow> string \<Rightarrow> string" where
  "strvis_loop flag [] = []"
| "strvis_loop flag (c # s) = vis flag c (next_char s) @ strvis_loop flag s"

definition strvis :: "string \<Rightarrow> vis_flag set \<Rightarrow> string \<times> nat" where
  "strvis src flag = (strvis_loop flag src @ [NUL], length (strvis_loop flag src))"

text \<open>\<open>strvisx\<close> reads \<open>len\<close> bytes, NUL included; the last one is encoded as before a NUL.\<close>

fun strvisx_loop :: "vis_flag set \<Rightarrow> bytes \<Rightarrow> nat \<Rightarrow> string" where
  "strvisx_loop flag (c # s) (Suc (Suc n)) = vis flag c (next_char s) @ strvisx_loop flag s (Suc n)"
| "strvisx_loop flag (c # s) (Suc 0) = vis flag c NUL"
| "strvisx_loop flag s n = []"

definition strvisx :: "bytes \<Rightarrow> nat \<Rightarrow> vis_flag set \<Rightarrow> string \<times> nat" where
  "strvisx src len flag = (strvisx_loop flag src len @ [NUL], length (strvisx_loop flag src len))"

text \<open>
  The first loop of \<open>strnvis\<close> with the room \<open>end - dst\<close>: what is stored, the source and the room
  left, and \<open>i\<close>.
\<close>

fun strnvis_loop ::
  "vis_flag set \<Rightarrow> nat \<Rightarrow> string \<Rightarrow> nat \<Rightarrow> string \<times> string \<times> nat \<times> nat" where
  "strnvis_loop flag room [] i = ([], [], room, i)"
| "strnvis_loop flag 0 (c # s) i = ([], c # s, 0, i)"
| "strnvis_loop flag (Suc r) (c # s) i =
     (if isvisible flag c then
        (if c = CHR 0x5C \<and> VIS_NOSLASH \<notin> flag then
           (if 0 < r
            then (case strnvis_loop flag (r - 1) s 1 of (w, t, k, j) \<Rightarrow> (c # CHR 0x5C # w, t, k, j))
            else ([], c # s, Suc r, 2))
         else (case strnvis_loop flag r s 1 of (w, t, k, j) \<Rightarrow> (c # w, t, k, j)))
      else
        (let e = vis flag c (next_char s) in
         if length e \<le> Suc r
         then (case strnvis_loop flag (Suc r - length e) s (length e) of
                 (w, t, k, j) \<Rightarrow> (e @ w, t, k, j))
         else ([], c # s, Suc r, length e)))"

definition strnvis :: "string \<Rightarrow> nat \<Rightarrow> vis_flag set \<Rightarrow> string \<times> nat" where
  "strnvis src siz flag =
     (if siz = 0 then ([], length (strvis_loop flag src))
      else case strnvis_loop flag (siz - 1) src 0 of
             (w, t, room, i) \<Rightarrow>
               (w @ [NUL], length w + (if i > room then length (strvis_loop flag t) else 0)))"

section \<open>Lengths\<close>

lemma vis_cstyle_length: "vis_cstyle c d = Some e \<Longrightarrow> 0 < length e \<and> length e \<le> 4"
  by (simp add: vis_cstyle_def split: if_splits) auto

lemma vis_meta_length: "0 < length (vis_meta flag c) \<and> length (vis_meta flag c) \<le> 4"
  by (simp add: vis_meta_def Let_def)

lemma vis_length: "0 < length (vis flag c d) \<and> length (vis flag c d) \<le> 4"
proof (cases "isvisible flag c")
  case False
  define o4 where "o4 = (if byte_of c mod 128 = 32 \<or> VIS_OCTAL \<in> flag \<or>
      (VIS_GLOB \<in> flag \<and> c \<in> {CHR ''*'', CHR ''?'', CHR ''['', CHR ''#''})
    then [CHR 0x5C, octal_digit (byte_of c div 64), octal_digit (byte_of c div 8),
          octal_digit (byte_of c)] else vis_meta flag c)"
  have "0 < length o4 \<and> length o4 \<le> 4" using vis_meta_length [of flag c] unfolding o4_def by simp
  moreover have "vis flag c d = (case (if VIS_CSTYLE \<in> flag then vis_cstyle c d else None) of
      Some e \<Rightarrow> e | None \<Rightarrow> o4)"
    using False unfolding vis_def o4_def by (simp only: if_False)
  ultimately show ?thesis using vis_cstyle_length [of c d]
    by (cases "if VIS_CSTYLE \<in> flag then vis_cstyle c d else None") (auto split: if_splits)
qed (simp add: vis_def)

lemma vis_visible:
  "isvisible flag c \<Longrightarrow>
   vis flag c d = (if c = CHR 0x5C \<and> VIS_NOSLASH \<notin> flag then [c, CHR 0x5C] else [c])"
  by (simp add: vis_def)

lemma strvisx_strvis: "len \<le> length s \<Longrightarrow> strvisx_loop flag s len = strvis_loop flag (take len s)"
proof (induction flag s len rule: strvisx_loop.induct)
  case (1 flag c s n)
  then have "next_char (take (Suc n) s) = next_char s" by (cases s) (auto simp: next_char_def)
  with 1 show ?case by simp
qed (auto simp: next_char_def)

lemma strvis_length: "length (strvis_loop flag s) \<le> 4 * length s"
proof (induction s)
  case (Cons c s)
  then show ?case using vis_length [of flag c "next_char s"] by simp
qed simp

text \<open>What is left when the loop ends is the rest of the encoding, and it did not fit.\<close>

lemma strnvis_loop_correct:
  "strnvis_loop flag room s i = (w, t, k, j) \<Longrightarrow>
   strvis_loop flag s = w @ strvis_loop flag t \<and> length w + k = room \<and>
   (t = [] \<or> k < length (vis flag (hd t) (next_char (tl t))) \<and> (k < j \<or> j = i \<and> room = 0 \<and> k = 0))"
proof (induction flag room s i arbitrary: w t k j rule: strnvis_loop.induct)
  case (2 flag c s i)
  then show ?case using vis_length [of flag c "next_char s"] by auto
next
  case (3 flag r c s i)
  show ?case
  proof (cases "isvisible flag c")
    case True
    note V = vis_visible [OF True, of "next_char s"]
    show ?thesis
    proof (cases "c = CHR 0x5C \<and> VIS_NOSLASH \<notin> flag")
      case slash: True
      show ?thesis
      proof (cases "0 < r")
        case r: True
        obtain w' where 1: "strnvis_loop flag (r - 1) s 1 = (w', t, k, j)" "w = c # CHR 0x5C # w'"
          using "3.prems" True slash r by (auto split: prod.splits)
        from "3.IH"(1) [OF True slash r 1(1)] 1(2) V slash r show ?thesis by auto
      next
        case False
        then show ?thesis using "3.prems" True slash V by auto
      qed
    next
      case False
      then obtain w' where 1: "strnvis_loop flag r s 1 = (w', t, k, j)" "w = c # w'"
        using "3.prems" True by (auto split: prod.splits)
      from "3.IH"(2) [OF True False 1(1)] 1(2) V False show ?thesis by auto
    qed
  next
    case False
    show ?thesis
    proof (cases "length (vis flag c (next_char s)) \<le> Suc r")
      case le: True
      then obtain w' where 1: "strnvis_loop flag (Suc r - length (vis flag c (next_char s))) s
            (length (vis flag c (next_char s))) = (w', t, k, j)" "w = vis flag c (next_char s) @ w'"
        using "3.prems" False by (auto simp: Let_def split: prod.splits)
      from "3.IH"(3) [OF False refl le 1(1)] 1(2) le vis_length [of flag c "next_char s"]
      show ?thesis by auto
    next
      case gt: False
      then show ?thesis using "3.prems" False by (auto simp: Let_def)
    qed
  qed
qed auto

text \<open>
  \<open>strnvis\<close> stores a part of the encoding that ends with a character of the source, all of it when
  it fits. The length returned is that of all of it, except for a destination of one byte.
\<close>

lemma strnvis_correct:
  assumes "strnvis src siz flag = (out, n)"
  shows "n = (if siz = 1 then 0 else length (strvis_loop flag src)) \<and>
    (siz = 0 \<longrightarrow> out = []) \<and>
    (0 < siz \<longrightarrow> (\<exists>w t. out = w @ [NUL] \<and> length w < siz \<and>
       strvis_loop flag src = w @ strvis_loop flag t \<and>
       (t = [] \<longleftrightarrow> length (strvis_loop flag src) < siz)))"
proof (cases "siz = 0")
  case True
  then show ?thesis using assms by (auto simp: strnvis_def)
next
  case False
  obtain w t k i where l: "strnvis_loop flag (siz - 1) src 0 = (w, t, k, i)" by (metis prod_cases4)
  note L = strnvis_loop_correct [OF l]
  have out: "out = w @ [NUL]" "n = length w + (if i > k then length (strvis_loop flag t) else 0)"
    using assms False l by (auto simp: strnvis_def)
  have fits: "t = [] \<longleftrightarrow> length (strvis_loop flag src) < siz"
  proof (cases t)
    case (Cons a t')
    with L have "k < length (vis flag a (next_char t'))" by simp
    moreover have "length w + k = siz - 1" using L by blast
    moreover have "length (strvis_loop flag src) =
        length w + length (vis flag a (next_char t')) + length (strvis_loop flag t')"
      using L Cons by simp
    ultimately have "siz \<le> length (strvis_loop flag src)" using False by arith
    then show ?thesis using Cons by simp
  qed (use L False in auto)
  have "n = (if siz = 1 then 0 else length (strvis_loop flag src))"
  proof (cases "siz = 1")
    case True
    have "strnvis_loop flag 0 src 0 = ([], src, 0, 0)" by (cases src) auto
    with l True out(2) show ?thesis by simp
  next
    case sz: False
    then show ?thesis using L False out(2) by (cases t) auto
  qed
  then show ?thesis using out(1) L False fits by auto
qed

end
