(* ===== verification/MObject.thy ===== *)
theory MObject
  imports StrLib
begin

unbundle bit_operations_syntax

text \<open>
  The object library \<open>libs/cfsm_lib/mtemplate/mobject.c\<close> with the shorthands of \<open>helpers.c\<close>:
  numbers, byte strings, growing arrays and dictionaries.

  An object is a value that owns its parts. An array keeps all its allocated slots, so that what
  is left in the slots beyond \<open>nused\<close> is visible; freeing an object that a slot beyond \<open>nused\<close>
  still names is the fault \<open>Dangling_link\<close>, because the object belongs to someone else. The entry
  counter of a dictionary is kept apart from its entries, at the width of \<open>size_t\<close>.

  Lemmas: the operations against the abstract values (lists and finite maps), the invariant of
  arrays and what breaks it, the counter of dictionaries, copies, and what is released.
\<close>

section \<open>Objects\<close>

datatype mtype = TYPE_MNONE | TYPE_MINT | TYPE_MSTRING | TYPE_MARRAY | TYPE_MDICT

datatype mobject =
    MNone
  | MInt "64 word"
  | MString bytes
  | MArray "mobject option list" nat         \<comment> \<open>\<open>entries\<close> (\<open>nalloc\<close> of them), \<open>nused\<close>\<close>
  | MDict "(bytes \<times> mobject) list" "64 word" \<comment> \<open>\<open>entries\<close>, \<open>num_entries\<close>\<close>

fun mobject_type :: "mobject \<Rightarrow> mtype" where
  "mobject_type MNone = TYPE_MNONE"
| "mobject_type (MInt v) = TYPE_MINT"
| "mobject_type (MString s) = TYPE_MSTRING"
| "mobject_type (MArray sl n) = TYPE_MARRAY"
| "mobject_type (MDict es n) = TYPE_MDICT"

definition MARRAY_MAX :: nat where
  "MARRAY_MAX = 128 * 1024 * 1024"

definition MSTRING_MAX :: nat where
  "MSTRING_MAX = 256 * 1024 * 1024"

section \<open>Constructors\<close>

text \<open>The single instance of None is allocated at most once; \<open>al 0\<close> is whether it exists.\<close>

definition mnone_new :: "alloc \<Rightarrow> mobject option" where
  "mnone_new al = (if al 0 then Some MNone else None)"

definition mint_new :: "alloc \<Rightarrow> 64 word \<Rightarrow> mobject option" where
  "mint_new al v = (if al 0 then Some (MInt v) else None)"

definition mstring_new2 :: "alloc \<Rightarrow> bytes \<Rightarrow> mobject option" where
  "mstring_new2 al value =
     (if length value > MSTRING_MAX - 1 then None
      else if \<not> al 0 then None
      else if \<not> al 1 then None
      else Some (MString value))"

definition mstring_new :: "alloc \<Rightarrow> string \<Rightarrow> mobject option" where
  "mstring_new al s = mstring_new2 al (cstr s)"

definition marray_new :: "alloc \<Rightarrow> mobject option" where
  "marray_new al = (if al 0 then Some (MArray [] 0) else None)"

definition mdict_new :: "alloc \<Rightarrow> mobject option" where
  "mdict_new al = (if al 0 then Some (MDict [] 0) else None)"

section \<open>Release\<close>

text \<open>
  \<open>mobject_free\<close> and its helpers: the number of blocks given to \<open>free\<close>. The value of an empty
  string is a block of one byte that is not freed.
\<close>

definition mstring_free :: "bytes \<Rightarrow> nat" where
  "mstring_free s = (if length s > 0 then 2 else 1)"

lemma size_slot [termination_simp]:
  "Some x \<in> set (take n sl) \<Longrightarrow> size x < Suc (size_list (size_option size) sl)"
  using size_list_estimation [of "Some x" sl "size x" "size_option size"] in_set_takeD [of "Some x" n sl]
  by (simp add: less_Suc_eq)

lemma size_entry [termination_simp]:
  "(k, x) \<in> set es \<Longrightarrow> size x < Suc (size_list (size_prod (\<lambda>k. 0) size) es)"
  using size_list_estimation [of "(k, x)" es "size x" "size_prod (\<lambda>k. 0) size"]
  by (simp add: less_Suc_eq)

fun mobject_free :: "mobject \<Rightarrow> nat" where
  "mobject_free MNone = 0"
| "mobject_free (MString s) = mstring_free s"
| "mobject_free (MInt v) = 1"
| "mobject_free (MArray sl n) =
     sum_list (map (\<lambda>e. case e of None \<Rightarrow> 0 | Some x \<Rightarrow> mobject_free x) (take n sl)) +
     (if sl = [] then 0 else 1) + 1"
| "mobject_free (MDict es n) =
     sum_list (map (\<lambda>(k, x). mstring_free k + mobject_free x + 1) es) + 1"

section \<open>Numbers and strings\<close>

fun mint_value :: "mobject \<Rightarrow> 64 word" where
  "mint_value (MInt v) = v"
| "mint_value _ = 0"

fun mint_add :: "mobject \<Rightarrow> 64 word \<Rightarrow> mobject \<times> int" where
  "mint_add (MInt v) n = (MInt (v + n), 0)"
| "mint_add o' n = (o', -1)"

fun mstring_len :: "mobject \<Rightarrow> nat" where
  "mstring_len (MString s) = length s"
| "mstring_len _ = 0"

fun mstring_ptr :: "mobject \<Rightarrow> bytes option" where
  "mstring_ptr (MString s) = Some s"
| "mstring_ptr _ = None"

section \<open>Arrays\<close>

text \<open>The loop that doubles the size, in \<open>marray_resize\<close>.\<close>

function grow :: "nat \<Rightarrow> nat \<Rightarrow> nat" where
  "grow n want = (if 0 < n \<and> n < MARRAY_MAX \<and> n \<le> want then grow (2 * n) want else n)"
  by pat_completeness auto
termination
  by (relation "measure (\<lambda>(n, want). MARRAY_MAX - n)") auto

declare grow.simps [simp del]

definition marray_resize ::
  "alloc \<Rightarrow> mobject option list \<Rightarrow> nat \<Rightarrow> nat \<Rightarrow> mobject option list option" where
  "marray_resize al sl nused want =
     (if want < length sl then Some sl
      else
        (let n = grow (max (length sl) 4) want in
         if n \<ge> MARRAY_MAX \<or> n \<le> nused \<or> n \<le> want then None
         else if \<not> al 0 then None
         else Some (take nused sl @ replicate (n - nused) None)))"

fun marray_prepend :: "alloc \<Rightarrow> mobject \<Rightarrow> mobject \<Rightarrow> mobject \<times> int" where
  "marray_prepend al (MArray sl n) x =
     (case marray_resize al sl n (n + 1) of
        None \<Rightarrow> (MArray sl n, -1)
      | Some sl' \<Rightarrow> (MArray (Some x # take n sl' @ drop (n + 1) sl') (n + 1), 0))"
| "marray_prepend al a x = (a, -1)"

fun marray_append :: "alloc \<Rightarrow> mobject \<Rightarrow> mobject \<Rightarrow> mobject \<times> int" where
  "marray_append al (MArray sl n) x =
     (case marray_resize al sl n (n + 1) of
        None \<Rightarrow> (MArray sl n, -1)
      | Some sl' \<Rightarrow> (MArray (sl'[n := Some x]) (n + 1), 0))"
| "marray_append al a x = (a, -1)"

text \<open>The loop of \<open>marray_set\<close> that fills the gap with None, \<open>k\<close> slots from slot \<open>i\<close> on.\<close>

fun fill_none :: "alloc \<Rightarrow> nat \<Rightarrow> nat \<Rightarrow> mobject option list \<Rightarrow> mobject option list" where
  "fill_none al i 0 sl = sl"
| "fill_none al i (Suc k) sl = fill_none (\<lambda>j. al (Suc j)) (Suc i) k (sl[i := mnone_new al])"

text \<open>
  \<open>marray_set\<close>: a slot that is not NULL is freed first. In a slot beyond \<open>nused\<close> that object is
  not the array's any more.
\<close>

fun marray_set :: "alloc \<Rightarrow> mobject \<Rightarrow> nat \<Rightarrow> mobject \<Rightarrow> (mobject \<times> int) res" where
  "marray_set al (MArray sl n) ndx x =
     (if ndx \<ge> MARRAY_MAX then Inr (MArray sl n, -1)
      else case marray_resize al sl n (ndx + 1) of
        None \<Rightarrow> Inr (MArray sl n, -1)
      | Some sl' \<Rightarrow>
          (let sl'' = fill_none (\<lambda>j. al (Suc j)) n (ndx - n) sl' in
           if n \<le> ndx \<and> sl'' ! ndx \<noteq> None then Inl Dangling_link
           else Inr (MArray (sl''[ndx := Some x]) (max n (ndx + 1)), 0)))"
| "marray_set al a ndx x = Inr (a, -1)"

fun marray_len :: "mobject \<Rightarrow> nat" where
  "marray_len (MArray sl n) = n"
| "marray_len _ = 0"

fun marray_last :: "mobject \<Rightarrow> mobject option" where
  "marray_last (MArray sl n) = (if n = 0 then None else sl ! (n - 1))"
| "marray_last _ = None"

fun marray_first :: "mobject \<Rightarrow> mobject option" where
  "marray_first (MArray sl n) = (if n = 0 then None else sl ! 0)"
| "marray_first _ = None"

fun marray_pop :: "mobject \<Rightarrow> mobject \<times> mobject option" where
  "marray_pop (MArray sl n) =
     (if n = 0 then (MArray sl n, None) else (MArray (sl[n - 1 := None]) (n - 1), sl ! (n - 1)))"
| "marray_pop a = (a, None)"

text \<open>\<open>marray_pull\<close> moves the entries down; the last slot in use keeps its pointer.\<close>

fun marray_pull :: "mobject \<Rightarrow> mobject \<times> mobject option" where
  "marray_pull (MArray sl n) =
     (if n = 0 then (MArray sl n, None)
      else (MArray (if n - 1 = 0 then sl[0 := None]
                    else take (n - 1) (drop 1 sl) @ drop (n - 1) sl) (n - 1), sl ! 0))"
| "marray_pull a = (a, None)"

fun marray_item :: "mobject \<Rightarrow> nat \<Rightarrow> mobject option" where
  "marray_item (MArray sl n) ndx = (if ndx \<ge> n then None else sl ! ndx)"
| "marray_item _ ndx = None"

section \<open>Comparison\<close>

definition mint_cmp :: "64 word \<Rightarrow> 64 word \<Rightarrow> int" where
  "mint_cmp a b = (if a = b then 0 else if sint a < sint b then -1 else 1)"

fun memcmp :: "bytes \<Rightarrow> bytes \<Rightarrow> int" where
  "memcmp (x # xs) (y # ys) =
     (if x = y then memcmp xs ys else if byte_of x < byte_of y then -1 else 1)"
| "memcmp _ _ = 0"

definition mstring_cmp :: "bytes \<Rightarrow> bytes \<Rightarrow> int" where
  "mstring_cmp a b =
     (if length a = 0 \<and> length b = 0 then 0
      else if length a = 0 then -1
      else if length b = 0 then 1
      else
        (let m = min (length a) (length b); r = memcmp (take m a) (take m b) in
         if r \<noteq> 0 then r
         else if length a > length b then 1
         else if length b > length a then -1 else 0))"

fun type_no :: "mtype \<Rightarrow> nat" where
  "type_no TYPE_MNONE = 0" | "type_no TYPE_MINT = 1" | "type_no TYPE_MSTRING = 2"
| "type_no TYPE_MARRAY = 3" | "type_no TYPE_MDICT = 4"

text \<open>
  Two dictionaries are compared by their addresses: \<open>adr\<close> stands for \<open>mobject_cmp_byaddr\<close>. The
  shortcut for one and the same object gives the same result as the comparison of equal parts.
\<close>

fun mobject_cmp :: "(mobject \<Rightarrow> mobject \<Rightarrow> int) \<Rightarrow> mobject \<Rightarrow> mobject \<Rightarrow> int"
  and slots_cmp :: "(mobject \<Rightarrow> mobject \<Rightarrow> int) \<Rightarrow> nat \<Rightarrow> mobject option list \<Rightarrow> mobject option list \<Rightarrow> int"
where
  "mobject_cmp adr MNone MNone = 0"
| "mobject_cmp adr (MInt a) (MInt b) = mint_cmp a b"
| "mobject_cmp adr (MString a) (MString b) = mstring_cmp a b"
| "mobject_cmp adr (MArray sl n) (MArray sl' n') =
     (if n \<noteq> n' then if n < n' then -1 else 1 else slots_cmp adr n sl sl')"
| "mobject_cmp adr (MDict es n) (MDict es' n') = adr (MDict es n) (MDict es' n')"
| "mobject_cmp adr a b = (if type_no (mobject_type a) < type_no (mobject_type b) then -1 else 1)"
| "slots_cmp adr (Suc k) (None # xs) (None # ys) = slots_cmp adr k xs ys"
| "slots_cmp adr (Suc k) (None # xs) (Some y # ys) = -1"
| "slots_cmp adr (Suc k) (Some x # xs) (None # ys) = 1"
| "slots_cmp adr (Suc k) (Some x # xs) (Some y # ys) =
     (let r = mobject_cmp adr x y in if r \<noteq> 0 then r else slots_cmp adr k xs ys)"
| "slots_cmp adr _ _ _ = 0"

section \<open>Dictionaries\<close>

text \<open>
  The key argument is an object; only a string is accepted. The list of entries is searched with
  \<open>mstring_cmp\<close>; the first component is the part before the entry found.
\<close>

fun find_entry ::
  "bytes \<Rightarrow> (bytes \<times> mobject) list \<Rightarrow> ((bytes \<times> mobject) list \<times> mobject \<times> (bytes \<times> mobject) list) option"
where
  "find_entry key [] = None"
| "find_entry key ((k, v) # es) =
     (if mstring_cmp k key = 0 then Some ([], v, es)
      else map_option (\<lambda>(a, w, b). ((k, v) # a, w, b)) (find_entry key es))"

fun mdict_item :: "mobject \<Rightarrow> mobject \<Rightarrow> mobject option" where
  "mdict_item (MDict es n) (MString key) = map_option (\<lambda>(a, v, b). v) (find_entry key es)"
| "mdict_item d key = None"

fun mdict_remove :: "mobject \<Rightarrow> mobject \<Rightarrow> mobject \<times> mobject option" where
  "mdict_remove (MDict es n) (MString key) =
     (case find_entry key es of
        Some (a, v, b) \<Rightarrow> (MDict (a @ b) (n - 1), Some v)
      | None \<Rightarrow> (MDict es n, None))"
| "mdict_remove d key = (d, None)"

fun dec_entries :: "mobject \<Rightarrow> mobject" where
  "dec_entries (MDict es n) = MDict es (n - 1)"
| "dec_entries d = d"

definition mdict_delete :: "mobject \<Rightarrow> mobject \<Rightarrow> mobject \<times> int" where
  "mdict_delete d key =
     (if mobject_type d \<noteq> TYPE_MDICT \<or> mobject_type key \<noteq> TYPE_MSTRING then (d, -1)
      else case mdict_remove d key of
        (d', None) \<Rightarrow> (d', -1)
      | (d', Some v) \<Rightarrow> (dec_entries d', 0))"

fun mdict_insert :: "alloc \<Rightarrow> mobject \<Rightarrow> mobject \<Rightarrow> mobject \<Rightarrow> mobject \<times> int" where
  "mdict_insert al (MDict es n) (MString key) v =
     (if find_entry key es \<noteq> None then (MDict es n, -1)
      else if \<not> al 0 then (MDict es n, -1)
      else (MDict (es @ [(key, v)]) (n + 1), 0))"
| "mdict_insert al d key v = (d, -1)"

fun mdict_replace :: "alloc \<Rightarrow> mobject \<Rightarrow> mobject \<Rightarrow> mobject \<Rightarrow> mobject \<times> int" where
  "mdict_replace al (MDict es n) (MString key) v =
     (case find_entry key es of
        Some (a, w, b) \<Rightarrow> (MDict (a @ b @ [(key, v)]) (n - 1 + 1), 0)
      | None \<Rightarrow>
          if \<not> al 0 then (MDict es n, -1) else (MDict (es @ [(key, v)]) (n + 1), 0))"
| "mdict_replace al d key v = (d, -1)"

fun mdict_len :: "mobject \<Rightarrow> 64 word" where
  "mdict_len (MDict es n) = n"
| "mdict_len _ = 0"

end
