(* ===== verification/MObjectOps.thy ===== *)
theory MObjectOps
  imports MObject
begin

text \<open>
  The rest of \<open>mobject.c\<close> (printing, copies, iterators) and \<open>helpers.c\<close>, the shorthands that
  create an object and store it in one call.

  Allocation sites are numbered in the order of the calls; a copy returns the number of sites it
  has passed.
\<close>

section \<open>Printing\<close>

text \<open>
  \<open>mstring_to_string\<close>: the bytes stored, each with its NUL over the previous one's, and the length
  that the whole encoding has. \<open>vis\<close> looks at its last argument only with \<open>VIS_CSTYLE\<close>; for the
  last byte the code passes the NUL behind the value.
\<close>

fun to_string_loop :: "bytes \<Rightarrow> nat \<Rightarrow> bool \<Rightarrow> nat \<Rightarrow> bytes \<times> nat" where
  "to_string_loop [] len done j = ([], j)"
| "to_string_loop (c # cs) len done j =
     (let v = vis {VIS_OCTAL} c NUL; l = length v; fits = (\<not> done \<and> j + l + 1 \<le> len) in
      case to_string_loop cs len (\<not> fits) (j + l) of
        (w, r) \<Rightarrow> (if fits then v @ w else w, r))"

definition mstring_to_string :: "bytes \<Rightarrow> nat \<Rightarrow> bytes \<times> nat" where
  "mstring_to_string s len = to_string_loop s len False 0"

text \<open>
  \<open>snprintf\<close> of a text into \<open>len\<close> bytes. \<open>pr\<close> is what \<open>%p\<close> prints for the address of an object.
\<close>

definition snprintf :: "string \<Rightarrow> nat \<Rightarrow> bytes \<times> nat" where
  "snprintf text len = (if len = 0 then [] else take (len - 1) text @ [NUL], length text)"

fun mobject_to_string :: "(mobject \<Rightarrow> string) \<Rightarrow> mobject \<Rightarrow> nat \<Rightarrow> bytes \<times> nat" where
  "mobject_to_string pr MNone len = strlcpy ''None'' len"
| "mobject_to_string pr (MString s) len = mstring_to_string s len"
| "mobject_to_string pr (MInt v) len = snprintf (print_int (sint v)) len"
| "mobject_to_string pr (MArray sl n) len =
     snprintf (''marray('' @ pr (MArray sl n) @ '', '' @ digits n @ '')'') len"
| "mobject_to_string pr (MDict es n) len = snprintf (''mdict('' @ pr (MDict es n) @ '')'') len"

section \<open>Copies\<close>

text \<open>
  \<open>mobject_deepcopy\<close>. A NULL entry of an array is dereferenced. The result of \<open>marray_set\<close> is not
  looked at, so an array copy may lose an entry.
\<close>

fun deepcopy :: "alloc \<Rightarrow> mobject \<Rightarrow> nat \<Rightarrow> (mobject option \<times> nat) res"
  and copy_slots :: "alloc \<Rightarrow> mobject option list \<Rightarrow> nat \<Rightarrow> mobject \<Rightarrow> nat \<Rightarrow> nat \<Rightarrow> (mobject option \<times> nat) res"
  and copy_entries :: "alloc \<Rightarrow> (bytes \<times> mobject) list \<Rightarrow> mobject \<Rightarrow> nat \<Rightarrow> (mobject option \<times> nat) res"
where
  "deepcopy al MNone i = Inr (mnone_new (\<lambda>j. al (i + j)), Suc i)"
| "deepcopy al (MString s) i = Inr (mstring_new2 (\<lambda>j. al (i + j)) s, i + 2)"
| "deepcopy al (MInt v) i = Inr (mint_new (\<lambda>j. al (i + j)) v, Suc i)"
| "deepcopy al (MArray sl n) i =
     (case marray_new (\<lambda>j. al (i + j)) of
        None \<Rightarrow> Inr (None, Suc i)
      | Some a \<Rightarrow> copy_slots al sl n a 0 (Suc i))"
| "deepcopy al (MDict es n) i =
     (case mdict_new (\<lambda>j. al (i + j)) of
        None \<Rightarrow> Inr (None, Suc i)
      | Some d \<Rightarrow> if \<not> al (Suc i) then Inr (None, i + 2) else copy_entries al es d (i + 2))"
| "copy_slots al [] n a k i = Inr (Some a, i)"
| "copy_slots al (x # sl) n a k i =
     (if k \<ge> n then Inr (Some a, i)
      else case x of
        None \<Rightarrow> Inl Null_deref
      | Some v \<Rightarrow>
          (case deepcopy al v i of
             Inl e \<Rightarrow> Inl e
           | Inr (None, i') \<Rightarrow> Inr (None, i')
           | Inr (Some v', i') \<Rightarrow>
               (case marray_set (\<lambda>j. al (i' + j)) a k v' of
                  Inl e \<Rightarrow> Inl e
                | Inr (a', r) \<Rightarrow> copy_slots al sl n a' (Suc k) (i' + 2))))"
| "copy_entries al [] d i = Inr (Some d, i)"
| "copy_entries al ((k, v) # es) d i =
     (case mstring_new2 (\<lambda>j. al (i + j)) k of
        None \<Rightarrow> Inr (None, i + 2)
      | Some k' \<Rightarrow>
          (case deepcopy al v (i + 2) of
             Inl e \<Rightarrow> Inl e
           | Inr (None, i') \<Rightarrow> Inr (None, i')
           | Inr (Some v', i') \<Rightarrow>
               (case mdict_insert (\<lambda>j. al (i' + j)) d k' v' of
                  (d', r) \<Rightarrow> if r \<noteq> 0 then Inr (None, Suc i') else copy_entries al es d' (Suc i'))))"

section \<open>Iterators\<close>

record miterator =
  it_object :: mobject
  it_started :: bool
  it_ndx :: nat
  it_dict :: "(bytes \<times> mobject) list"

definition mobject_getiter :: "alloc \<Rightarrow> mobject \<Rightarrow> miterator option" where
  "mobject_getiter al x =
     (if mobject_type x = TYPE_MARRAY \<or> mobject_type x = TYPE_MDICT
      then (if al 0 then Some \<lparr>it_object = x, it_started = False, it_ndx = 0, it_dict = []\<rparr> else None)
      else None)"

text \<open>A key and a value, which may be a NULL entry of an array.\<close>

fun next_array ::
  "alloc \<Rightarrow> mobject option list \<Rightarrow> nat \<Rightarrow> miterator \<Rightarrow> (mobject \<times> mobject option) option \<times> miterator"
where
  "next_array al sl n it =
     (let it1 = (if it_started it then it else it\<lparr>it_ndx := 0, it_started := True\<rparr>) in
      if it_ndx it1 \<ge> n then (None, it1)
      else case mint_new al (of_nat (it_ndx it1)) of
        None \<Rightarrow> (None, it1)
      | Some key \<Rightarrow> (Some (key, sl ! it_ndx it1), it1\<lparr>it_ndx := Suc (it_ndx it1)\<rparr>))"

fun next_dict ::
  "(bytes \<times> mobject) list \<Rightarrow> miterator \<Rightarrow> (mobject \<times> mobject option) option \<times> miterator"
where
  "next_dict es it =
     (let it1 = (if it_started it then it else it\<lparr>it_dict := es, it_started := True\<rparr>) in
      case it_dict it1 of
        [] \<Rightarrow> (None, it1)
      | (k, v) # rest \<Rightarrow> (Some (MString k, Some v), it1\<lparr>it_dict := rest\<rparr>))"

definition miterator_next :: "alloc \<Rightarrow> miterator \<Rightarrow> (mobject \<times> mobject option) option \<times> miterator" where
  "miterator_next al it =
     (case it_object it of
        MArray sl n \<Rightarrow> next_array al sl n it
      | MDict es n \<Rightarrow> next_dict es it
      | _ \<Rightarrow> (None, it))"

text \<open>What is left to visit: a bound for the loops over an iterator.\<close>

definition it_left :: "miterator \<Rightarrow> nat" where
  "it_left it =
     (case it_object it of
        MArray sl n \<Rightarrow> if it_started it then n - it_ndx it else n
      | MDict es n \<Rightarrow> if it_started it then length (it_dict it) else length es
      | _ \<Rightarrow> 0)"

lemma miterator_next_left:
  "miterator_next al it = (Some x, it') \<Longrightarrow> it_left it' < it_left it \<and> it_object it' = it_object it"
  by (auto simp: miterator_next_def it_left_def Let_def
      split: mobject.splits list.splits option.splits prod.splits if_splits)

section \<open>Shorthands\<close>

text \<open>
  The pattern of \<open>helpers.c\<close>: make an object, store it, and release it again when that fails. The
  result: the container and the new object or NULL.
\<close>

definition store_new ::
  "mobject option \<Rightarrow> (mobject \<Rightarrow> mobject \<times> int) \<Rightarrow> mobject \<Rightarrow> mobject \<times> mobject option" where
  "store_new new store c =
     (case new of
        None \<Rightarrow> (c, None)
      | Some t \<Rightarrow> (case store t of (c', r) \<Rightarrow> (c', if r = -1 then None else Some t)))"

definition store_new_res ::
  "mobject option \<Rightarrow> (mobject \<Rightarrow> (mobject \<times> int) res) \<Rightarrow> mobject \<Rightarrow> (mobject \<times> mobject option) res" where
  "store_new_res new store c =
     (case new of
        None \<Rightarrow> Inr (c, None)
      | Some t \<Rightarrow> bind_res (store t) (\<lambda>(c', r). Inr (c', if r = -1 then None else Some t)))"

definition marray_append_s :: "alloc \<Rightarrow> mobject \<Rightarrow> string \<Rightarrow> mobject \<times> mobject option" where
  "marray_append_s al c v = store_new (mstring_new al v) (marray_append (\<lambda>j. al (j + 2)) c) c"

definition marray_append_d :: "alloc \<Rightarrow> mobject \<Rightarrow> mobject \<times> mobject option" where
  "marray_append_d al c = store_new (mdict_new al) (marray_append (\<lambda>j. al (j + 1)) c) c"

definition marray_append_a :: "alloc \<Rightarrow> mobject \<Rightarrow> mobject \<times> mobject option" where
  "marray_append_a al c = store_new (marray_new al) (marray_append (\<lambda>j. al (j + 1)) c) c"

definition marray_append_n :: "alloc \<Rightarrow> mobject \<Rightarrow> mobject \<times> mobject option" where
  "marray_append_n al c = store_new (mnone_new al) (marray_append (\<lambda>j. al (j + 1)) c) c"

definition marray_append_i :: "alloc \<Rightarrow> mobject \<Rightarrow> 64 word \<Rightarrow> mobject \<times> mobject option" where
  "marray_append_i al c v = store_new (mint_new al v) (marray_append (\<lambda>j. al (j + 1)) c) c"

definition marray_prepend_s :: "alloc \<Rightarrow> mobject \<Rightarrow> string \<Rightarrow> mobject \<times> mobject option" where
  "marray_prepend_s al c v = store_new (mstring_new al v) (marray_prepend (\<lambda>j. al (j + 2)) c) c"

definition marray_prepend_d :: "alloc \<Rightarrow> mobject \<Rightarrow> mobject \<times> mobject option" where
  "marray_prepend_d al c = store_new (mdict_new al) (marray_prepend (\<lambda>j. al (j + 1)) c) c"

definition marray_prepend_a :: "alloc \<Rightarrow> mobject \<Rightarrow> mobject \<times> mobject option" where
  "marray_prepend_a al c = store_new (marray_new al) (marray_prepend (\<lambda>j. al (j + 1)) c) c"

definition marray_prepend_n :: "alloc \<Rightarrow> mobject \<Rightarrow> mobject \<times> mobject option" where
  "marray_prepend_n al c = store_new (mnone_new al) (marray_prepend (\<lambda>j. al (j + 1)) c) c"

definition marray_prepend_i :: "alloc \<Rightarrow> mobject \<Rightarrow> 64 word \<Rightarrow> mobject \<times> mobject option" where
  "marray_prepend_i al c v = store_new (mint_new al v) (marray_prepend (\<lambda>j. al (j + 1)) c) c"

definition marray_set_s :: "alloc \<Rightarrow> mobject \<Rightarrow> nat \<Rightarrow> string \<Rightarrow> (mobject \<times> mobject option) res" where
  "marray_set_s al c ndx v = store_new_res (mstring_new al v) (marray_set (\<lambda>j. al (j + 2)) c ndx) c"

definition marray_set_i :: "alloc \<Rightarrow> mobject \<Rightarrow> nat \<Rightarrow> 64 word \<Rightarrow> (mobject \<times> mobject option) res" where
  "marray_set_i al c ndx v = store_new_res (mint_new al v) (marray_set (\<lambda>j. al (j + 1)) c ndx) c"

definition marray_set_d :: "alloc \<Rightarrow> mobject \<Rightarrow> nat \<Rightarrow> (mobject \<times> mobject option) res" where
  "marray_set_d al c ndx = store_new_res (mdict_new al) (marray_set (\<lambda>j. al (j + 1)) c ndx) c"

definition marray_set_a :: "alloc \<Rightarrow> mobject \<Rightarrow> nat \<Rightarrow> (mobject \<times> mobject option) res" where
  "marray_set_a al c ndx = store_new_res (marray_new al) (marray_set (\<lambda>j. al (j + 1)) c ndx) c"

definition marray_set_n :: "alloc \<Rightarrow> mobject \<Rightarrow> nat \<Rightarrow> (mobject \<times> mobject option) res" where
  "marray_set_n al c ndx = store_new_res (mnone_new al) (marray_set (\<lambda>j. al (j + 1)) c ndx) c"

text \<open>Dictionaries by C string. A key that cannot be allocated is a key that is not found.\<close>

definition mdict_item_s :: "alloc \<Rightarrow> mobject \<Rightarrow> string \<Rightarrow> mobject option" where
  "mdict_item_s al d key = (case mstring_new al key of None \<Rightarrow> None | Some t \<Rightarrow> mdict_item d t)"

definition mdict_remove_s :: "alloc \<Rightarrow> mobject \<Rightarrow> string \<Rightarrow> mobject \<times> mobject option" where
  "mdict_remove_s al d key = (case mstring_new al key of None \<Rightarrow> (d, None) | Some t \<Rightarrow> mdict_remove d t)"

definition mdict_delete_s :: "alloc \<Rightarrow> mobject \<Rightarrow> string \<Rightarrow> mobject \<times> int" where
  "mdict_delete_s al d key = (case mstring_new al key of None \<Rightarrow> (d, -1) | Some t \<Rightarrow> mdict_delete d t)"

text \<open>
  The pattern once more for the shorthands that call \<open>mdict_insert_s\<close> or \<open>mdict_replace_s\<close>.
\<close>

definition store_value_s ::
  "mobject option \<Rightarrow> (mobject \<Rightarrow> mobject \<times> mobject option) \<Rightarrow> mobject \<Rightarrow> mobject \<times> mobject option" where
  "store_value_s new store d =
     (case new of
        None \<Rightarrow> (d, None)
      | Some t \<Rightarrow> (case store t of (d', r) \<Rightarrow> (d', if r = None then None else Some t)))"

text \<open>The object returned is the new key.\<close>

definition mdict_insert_s :: "alloc \<Rightarrow> mobject \<Rightarrow> string \<Rightarrow> mobject \<Rightarrow> mobject \<times> mobject option" where
  "mdict_insert_s al d key value =
     store_new (mstring_new al key) (\<lambda>t. mdict_insert (\<lambda>j. al (j + 2)) d t value) d"

definition mdict_insert_ss :: "alloc \<Rightarrow> mobject \<Rightarrow> string \<Rightarrow> string \<Rightarrow> mobject \<times> mobject option" where
  "mdict_insert_ss al d key v =
     store_value_s (mstring_new al v) (mdict_insert_s (\<lambda>j. al (j + 2)) d key) d"

definition mdict_insert_si :: "alloc \<Rightarrow> mobject \<Rightarrow> string \<Rightarrow> 64 word \<Rightarrow> mobject \<times> mobject option" where
  "mdict_insert_si al d key v =
     store_value_s (mint_new al v) (mdict_insert_s (\<lambda>j. al (j + 1)) d key) d"

definition mdict_insert_sd :: "alloc \<Rightarrow> mobject \<Rightarrow> string \<Rightarrow> mobject \<times> mobject option" where
  "mdict_insert_sd al d key =
     store_value_s (mdict_new al) (mdict_insert_s (\<lambda>j. al (j + 1)) d key) d"

definition mdict_insert_sa :: "alloc \<Rightarrow> mobject \<Rightarrow> string \<Rightarrow> mobject \<times> mobject option" where
  "mdict_insert_sa al d key =
     store_value_s (marray_new al) (mdict_insert_s (\<lambda>j. al (j + 1)) d key) d"

definition mdict_insert_sn :: "alloc \<Rightarrow> mobject \<Rightarrow> string \<Rightarrow> mobject \<times> mobject option" where
  "mdict_insert_sn al d key =
     store_value_s (mnone_new al) (mdict_insert_s (\<lambda>j. al (j + 1)) d key) d"

text \<open>The object returned is the new key.\<close>

definition mdict_replace_s :: "alloc \<Rightarrow> mobject \<Rightarrow> string \<Rightarrow> mobject \<Rightarrow> mobject \<times> mobject option" where
  "mdict_replace_s al d key value =
     store_new (mstring_new al key) (\<lambda>t. mdict_replace (\<lambda>j. al (j + 2)) d t value) d"

definition mdict_replace_ss :: "alloc \<Rightarrow> mobject \<Rightarrow> string \<Rightarrow> string \<Rightarrow> mobject \<times> mobject option" where
  "mdict_replace_ss al d key v =
     store_value_s (mstring_new al v) (mdict_replace_s (\<lambda>j. al (j + 2)) d key) d"

definition mdict_replace_si :: "alloc \<Rightarrow> mobject \<Rightarrow> string \<Rightarrow> 64 word \<Rightarrow> mobject \<times> mobject option" where
  "mdict_replace_si al d key v =
     store_value_s (mint_new al v) (mdict_replace_s (\<lambda>j. al (j + 1)) d key) d"

definition mdict_replace_sd :: "alloc \<Rightarrow> mobject \<Rightarrow> string \<Rightarrow> mobject \<times> mobject option" where
  "mdict_replace_sd al d key =
     store_value_s (mdict_new al) (mdict_replace_s (\<lambda>j. al (j + 1)) d key) d"

definition mdict_replace_sa :: "alloc \<Rightarrow> mobject \<Rightarrow> string \<Rightarrow> mobject \<times> mobject option" where
  "mdict_replace_sa al d key =
     store_value_s (marray_new al) (mdict_replace_s (\<lambda>j. al (j + 1)) d key) d"

definition mdict_replace_sn :: "alloc \<Rightarrow> mobject \<Rightarrow> string \<Rightarrow> mobject \<times> mobject option" where
  "mdict_replace_sn al d key =
     store_value_s (mnone_new al) (mdict_replace_s (\<lambda>j. al (j + 1)) d key) d"

end
