(* ===== verification/MObjectSpec.thy ===== *)
theory MObjectSpec
  imports MObjectOps
begin

text \<open>
  What the object library promises: arrays are lists and dictionaries are finite maps, a copy has
  the value of the original, and freeing an object releases its blocks.

  An array is clean when the slots beyond \<open>nused\<close> are NULL. Every operation keeps it so except
  \<open>marray_pull\<close>, after which \<open>marray_set\<close> may free an element that is still in use.
\<close>

section \<open>Keys\<close>

lemma memcmp_0: "length xs = length ys \<Longrightarrow> memcmp xs ys = 0 \<longleftrightarrow> xs = ys"
  by (induction xs ys rule: memcmp.induct) auto

lemma mstring_cmp_0 [simp]: "mstring_cmp a b = 0 \<longleftrightarrow> a = b"
proof -
  have "a = b" if "length a = length b" "memcmp (take (length a) a) (take (length a) b) = 0"
    using that memcmp_0 [of a b] by simp
  moreover have "memcmp a a = 0" using memcmp_0 [of a a] by simp
  ultimately show ?thesis by (auto simp: mstring_cmp_def Let_def not_less split: if_splits)
qed

section \<open>Arrays\<close>

fun elems :: "mobject \<Rightarrow> mobject option list" where
  "elems (MArray sl n) = take n sl"
| "elems _ = []"

definition clean :: "mobject option list \<Rightarrow> nat \<Rightarrow> bool" where
  "clean sl n \<longleftrightarrow> n \<le> length sl \<and> drop n sl = replicate (length sl - n) None"

fun array_ok :: "mobject \<Rightarrow> bool" where
  "array_ok (MArray sl n) \<longleftrightarrow> clean sl n \<and> length sl < MARRAY_MAX"
| "array_ok _ \<longleftrightarrow> False"

lemma grow_correct:
  "0 < n \<Longrightarrow> want < grow n want \<or> MARRAY_MAX \<le> grow n want"
  "0 < n \<Longrightarrow> n \<le> want \<Longrightarrow> grow n want \<le> 2 * want"
proof (induction n want rule: grow.induct)
  case (1 n want)
  { case 1 then show ?case using "1.IH"(1) by (subst (1 2) grow.simps) auto
  next
    case 2
    show ?case
    proof (cases "n < MARRAY_MAX \<and> 2 * n \<le> want")
      case True
      with 2 have "grow (2 * n) want \<le> 2 * want" using "1.IH"(2) by auto
      with True 2 show ?thesis by (subst grow.simps) auto
    next
      case False
      then show ?thesis using 2 by (subst grow.simps) (auto simp: grow.simps [of "2 * n"])
    qed }
qed

lemma clean_nth: "clean sl n \<Longrightarrow> n \<le> i \<Longrightarrow> i < length sl \<Longrightarrow> sl ! i = None"
proof -
  assume c: "clean sl n" and i: "n \<le> i" "i < length sl"
  then have "sl ! i = drop n sl ! (i - n)" by simp
  also have "\<dots> = None" using c i by (simp add: clean_def)
  finally show ?thesis .
qed

lemma clean_iff: "clean sl n \<longleftrightarrow> n \<le> length sl \<and> (\<forall>i. n \<le> i \<and> i < length sl \<longrightarrow> sl ! i = None)"
proof
  assume r: "n \<le> length sl \<and> (\<forall>i. n \<le> i \<and> i < length sl \<longrightarrow> sl ! i = None)"
  then have "drop n sl = replicate (length sl - n) None"
    by (intro nth_equalityI) auto
  with r show "clean sl n" by (simp add: clean_def)
qed (auto simp: clean_nth, auto simp: clean_def)

lemma marray_resize_correct:
  assumes "marray_resize al sl n want = Some sl'" and "clean sl n" and "length sl < MARRAY_MAX"
  shows "want < length sl'" and "take n sl' = take n sl" and "clean sl' n" and "length sl' < MARRAY_MAX"
  using assms
  by (auto simp: marray_resize_def clean_def Let_def not_less split: if_splits)

lemma marray_resize_ok:
  assumes "clean sl n" and "length sl < MARRAY_MAX" and "2 * want < MARRAY_MAX" and "n \<le> want"
    and "al 0"
  shows "\<exists>sl'. marray_resize al sl n want = Some sl'"
proof (cases "want < length sl")
  case True
  then show ?thesis by (simp add: marray_resize_def)
next
  case False
  let ?m = "max (length sl) 4"
  have "grow ?m want < MARRAY_MAX"
  proof (cases "?m \<le> want")
    case True
    have "0 < ?m" by simp
    from grow_correct(2) [OF this True] assms(3) show ?thesis by linarith
  next
    case False
    then have "grow ?m want = ?m" by (subst grow.simps) auto
    with assms(2) show ?thesis by (simp add: MARRAY_MAX_def)
  qed
  moreover from this grow_correct(1) [of ?m want] have "want < grow ?m want" by auto
  ultimately show ?thesis using False assms(4,5) by (simp add: marray_resize_def Let_def)
qed

lemma array_cases: "array_ok a \<Longrightarrow> (\<And>sl n. a = MArray sl n \<Longrightarrow> clean sl n \<Longrightarrow> length sl < MARRAY_MAX \<Longrightarrow> P) \<Longrightarrow> P"
  by (cases a) auto

lemma marray_append_correct:
  assumes "array_ok a" and "marray_append al a x = (a', r)"
  shows "array_ok a' \<and> (r = 0 \<and> elems a' = elems a @ [Some x] \<or> r = -1 \<and> a' = a)"
proof -
  from assms(1) obtain sl n where a: "a = MArray sl n" "clean sl n" "length sl < MARRAY_MAX"
    by (rule array_cases)
  show ?thesis
  proof (cases "marray_resize al sl n (n + 1)")
    case (Some sl')
    note R = marray_resize_correct [OF Some a(2,3)]
    have "clean (sl'[n := Some x]) (n + 1)" using R(1,3) by (auto simp: clean_iff nth_list_update)
    moreover have "take (n + 1) (sl'[n := Some x]) = take n sl @ [Some x]"
      using R(1,2) by (simp add: take_Suc_conv_app_nth)
    ultimately show ?thesis using assms(2) a Some R(4) by auto
  qed (use assms a in auto)
qed

lemma marray_prepend_correct:
  assumes "array_ok a" and "marray_prepend al a x = (a', r)"
  shows "array_ok a' \<and> (r = 0 \<and> elems a' = Some x # elems a \<or> r = -1 \<and> a' = a)"
proof -
  from assms(1) obtain sl n where a: "a = MArray sl n" "clean sl n" "length sl < MARRAY_MAX"
    by (rule array_cases)
  show ?thesis
  proof (cases "marray_resize al sl n (n + 1)")
    case (Some sl')
    note R = marray_resize_correct [OF Some a(2,3)]
    let ?s = "Some x # take n sl' @ drop (n + 1) sl'"
    have len: "length ?s = length sl'" using R(1) by simp
    have "drop (n + 1) sl' = replicate (length sl' - (n + 1)) None"
      using R(3) by (auto simp: clean_iff intro: nth_equalityI)
    then have "clean ?s (n + 1)" using R(1) len by (simp add: clean_def min_def)
    moreover have "take (n + 1) ?s = Some x # take n sl"
      using R(1,2) a(2) by (simp add: min_def clean_def)
    moreover have "n \<le> length sl" using a(2) by (simp add: clean_def)
    ultimately show ?thesis using assms(2) a Some R(2,4) len by auto
  qed (use assms a in auto)
qed

lemma fill_none_length [simp]: "length (fill_none al i k sl) = length sl"
  by (induction k arbitrary: al i sl) auto

lemma fill_none_nth:
  "j < length sl \<Longrightarrow> (\<And>i. al i) \<Longrightarrow>
   fill_none al i k sl ! j = (if i \<le> j \<and> j < i + k then Some MNone else sl ! j)"
  by (induction k arbitrary: al i sl) (auto simp: mnone_new_def nth_list_update)

lemma fill_none_outside: "j < i \<or> i + k \<le> j \<Longrightarrow> fill_none al i k sl ! j = sl ! j"
  by (induction k arbitrary: al i sl) auto

text \<open>The list that \<open>marray_set\<close> stores: longer indices are reached with None.\<close>

definition list_set :: "mobject option list \<Rightarrow> nat \<Rightarrow> mobject \<Rightarrow> mobject option list" where
  "list_set xs i x = (xs @ replicate (Suc i - length xs) (Some MNone))[i := Some x]"

lemma marray_set_correct:
  assumes "array_ok a"
  shows "\<exists>a' r. marray_set al a i x = Inr (a', r) \<and> array_ok a' \<and>
    (r = -1 \<longrightarrow> a' = a) \<and> (r \<noteq> -1 \<longrightarrow> r = 0 \<and> ((\<forall>j. al j) \<longrightarrow> elems a' = list_set (elems a) i x))"
proof -
  from assms obtain sl n where a: "a = MArray sl n" "clean sl n" "length sl < MARRAY_MAX"
    by (rule array_cases)
  show ?thesis
  proof (cases "i \<ge> MARRAY_MAX \<or> marray_resize al sl n (i + 1) = None")
    case True
    then show ?thesis using a by auto
  next
    case False
    then obtain sl' where i: "i < MARRAY_MAX" and s: "marray_resize al sl n (i + 1) = Some sl'" by auto
    note R = marray_resize_correct [OF s a(2,3)]
    let ?f = "fill_none (\<lambda>j. al (Suc j)) n (i - n) sl'"
    have n: "n \<le> length sl'" using R(3) by (simp add: clean_def)
    have free: "n \<le> i \<Longrightarrow> ?f ! i = None"
      using R(1,3) by (simp add: fill_none_outside clean_nth)
    have "clean (?f[i := Some x]) (max n (i + 1))"
      using R(1,3) n by (auto simp: clean_iff nth_list_update fill_none_outside)
    moreover have "take (max n (i + 1)) (?f[i := Some x]) = list_set (take n sl) i x"
      if al: "\<forall>j. al j"
    proof (rule nth_equalityI)
      show "length (take (max n (i + 1)) (?f[i := Some x])) = length (list_set (take n sl) i x)"
        using R(1,2) n a(2) by (auto simp: list_set_def clean_def)
      fix j
      assume "j < length (take (max n (i + 1)) (?f[i := Some x]))"
      then have j: "j < max n (i + 1)" "j < length sl'" by auto
      have tk: "j < n \<Longrightarrow> sl' ! j = sl ! j" using R(2) by (metis nth_take)
      show "take (max n (i + 1)) (?f[i := Some x]) ! j = list_set (take n sl) i x ! j"
        using j al a(2) R(1) tk
        by (auto simp: list_set_def nth_list_update nth_append fill_none_nth clean_def min_def)
    qed
    ultimately show ?thesis using a s i R(4) free by (auto simp: Let_def)
  qed
qed

lemma marray_set_succeeds:
  assumes "array_ok a" and "2 * (i + 1) < MARRAY_MAX" and "length (elems a) \<le> i + 1" and "al 0"
  shows "\<exists>a'. marray_set al a i x = Inr (a', 0)"
proof -
  from assms(1) obtain sl n where a: "a = MArray sl n" "clean sl n" "length sl < MARRAY_MAX"
    by (rule array_cases)
  have "n \<le> i + 1" using assms(3) a by (auto simp: clean_def min_def split: if_splits)
  then obtain sl' where "marray_resize al sl n (i + 1) = Some sl'"
    using marray_resize_ok [of sl n "i + 1" al] a(2,3) assms(2,4) by blast
  with marray_set_correct [OF assms(1), of al i x] a assms(2) show ?thesis
    by (auto simp: Let_def split: if_splits)
qed

lemma marray_pop_correct:
  "array_ok a \<Longrightarrow> marray_pop a = (a', e) \<Longrightarrow>
   array_ok a' \<and> elems a' = butlast (elems a) \<and>
   e = (if elems a = [] then None else last (elems a))"
  by (erule array_cases)
    (auto simp: clean_iff nth_list_update butlast_take last_conv_nth min_def take_update_cancel split: if_splits)

lemma marray_pull_elems:
  "array_ok a \<Longrightarrow> marray_pull a = (a', e) \<Longrightarrow>
   elems a' = tl (elems a) \<and> e = (if elems a = [] then None else hd (elems a))"
  by (erule array_cases)
    (auto simp: clean_def tl_take hd_conv_nth min_def drop_Suc split: if_splits)

text \<open>
  After \<open>marray_pull\<close> on two or more elements the slot behind the last element still names it, and
  \<open>marray_set\<close> at the next index frees it.
\<close>

lemma marray_pull_dangling:
  assumes "clean sl n" and "2 \<le> n" and "n < length sl" and "length sl < MARRAY_MAX"
    and "sl ! (n - 1) \<noteq> None" and "marray_pull (MArray sl n) = (a', e)"
  shows "marray_len a' = n - 1" and "\<not> array_ok a'"
    and "marray_set al a' (n - 1) x = Inl Dangling_link"
proof -
  let ?s = "take (n - 1) (drop 1 sl) @ drop (n - 1) sl"
  from assms(2,6) have a': "a' = MArray ?s (n - 1)" by auto
  have len: "length ?s = length sl" "length (take (n - 1) (drop 1 sl)) = n - 1"
    using assms(2,3) by auto
  have stale: "?s ! (n - 1) \<noteq> None" using assms(3,5) len(2) by (simp add: nth_append)
  show "marray_len a' = n - 1" by (simp add: a')
  have lt: "n - 1 < length ?s" unfolding len(1) using assms(3) by simp
  have "\<not> clean ?s (n - 1)"
  proof
    assume c: "clean ?s (n - 1)"
    from clean_nth [OF c order_refl lt] stale show False by contradiction
  qed
  then show "\<not> array_ok a'" by (simp add: a')
  have "marray_resize al ?s (n - 1) (n - 1 + 1) = Some ?s"
    using assms(2,3) len(1) by (simp add: marray_resize_def del: length_append)
  with stale assms(2,3,4) show "marray_set al a' (n - 1) x = Inl Dangling_link"
    by (simp add: a' del: append_take_drop_id)
qed

section \<open>Dictionaries\<close>

fun dict_map :: "mobject \<Rightarrow> bytes \<rightharpoonup> mobject" where
  "dict_map (MDict es n) = map_of es"
| "dict_map _ = Map.empty"

text \<open>No key twice, and the counter is the number of entries.\<close>

fun dict_ok :: "mobject \<Rightarrow> bool" where
  "dict_ok (MDict es n) \<longleftrightarrow> distinct (map fst es) \<and> n = of_nat (length es)"
| "dict_ok _ \<longleftrightarrow> False"

lemma find_entry_Some:
  "find_entry key es = Some (a, v, b) \<Longrightarrow>
   es = a @ (key, v) # b \<and> key \<notin> fst ` set a \<and> map_of es key = Some v"
proof (induction es arbitrary: a)
  case (Cons e es)
  obtain k w where e: "e = (k, w)" by fastforce
  show ?case
  proof (cases "k = key")
    case False
    with Cons.prems e obtain a' where "find_entry key es = Some (a', v, b)" "a = (k, w) # a'" by auto
    with Cons.IH [of a'] False e show ?thesis by auto
  qed (use Cons.prems e in auto)
qed simp

lemma find_entry_None: "find_entry key es = None \<longleftrightarrow> key \<notin> fst ` set es"
proof (induction es)
  case (Cons e es)
  obtain k w where "e = (k, w)" by fastforce
  with Cons show ?case by (cases "k = key") auto
qed simp

lemma dict_cases: "dict_ok d \<Longrightarrow> (\<And>es n. d = MDict es n \<Longrightarrow> distinct (map fst es) \<Longrightarrow> n = of_nat (length es) \<Longrightarrow> P) \<Longrightarrow> P"
  by (cases d) auto

lemma map_of_key: "key \<notin> fst ` set es \<Longrightarrow> map_of es key = None"
  by (simp add: map_of_eq_None_iff)

lemma mdict_item_correct: "dict_ok d \<Longrightarrow> mdict_item d (MString key) = dict_map d key"
proof (erule dict_cases)
  fix es n
  assume d: "d = MDict es n"
  show ?thesis
  proof (cases "find_entry key es")
    case None
    then show ?thesis using d by (simp add: find_entry_None map_of_key)
  next
    case (Some x)
    then show ?thesis using d find_entry_Some [of key es] by (cases x) auto
  qed
qed

lemma map_of_move:
  assumes "distinct (map fst (a @ (k, w) # b))"
  shows "map_of (a @ b @ [(k, v)]) = (map_of (a @ (k, w) # b))(k \<mapsto> v)"
    and "map_of (a @ b) = (map_of (a @ (k, w) # b))(k := None)"
proof -
  from assms have k: "k \<notin> fst ` set a" "k \<notin> fst ` set b" by (auto simp: image_iff)
  show "map_of (a @ b @ [(k, v)]) = (map_of (a @ (k, w) # b))(k \<mapsto> v)"
    using k map_of_key [of k a] map_of_key [of k b] by (auto simp: map_add_def fun_eq_iff split: option.splits)
  show "map_of (a @ b) = (map_of (a @ (k, w) # b))(k := None)"
    using k map_of_key [of k a] map_of_key [of k b] by (auto simp: map_add_def fun_eq_iff split: option.splits)
qed

lemma mdict_replace_correct:
  assumes "dict_ok d" and "mdict_replace al d (MString key) v = (d', r)"
  shows "dict_ok d' \<and> (r = 0 \<and> dict_map d' = (dict_map d)(key \<mapsto> v) \<or> r = -1 \<and> d' = d \<and> \<not> al 0)"
proof -
  from assms(1) obtain es n where d: "d = MDict es n" "distinct (map fst es)" "n = of_nat (length es)"
    by (rule dict_cases)
  show ?thesis
  proof (cases "find_entry key es")
    case None
    then have k: "key \<notin> fst ` set es" by (simp add: find_entry_None)
    show ?thesis
      using assms(2) d None k map_of_key [OF k]
      by (auto simp: map_add_def fun_eq_iff split: if_splits option.splits)
  next
    case (Some x)
    obtain a w b where x: "x = (a, w, b)" by (metis prod_cases3)
    with find_entry_Some Some have e: "es = a @ (key, w) # b" by metis
    show ?thesis
      using assms(2) d Some x map_of_move(1) [of a key w b v]
      unfolding e by (auto simp: algebra_simps)
  qed
qed

lemma mdict_insert_correct:
  assumes "dict_ok d" and "mdict_insert al d (MString key) v = (d', r)"
  shows "dict_ok d' \<and> (r = 0 \<and> dict_map d key = None \<and> dict_map d' = (dict_map d)(key \<mapsto> v) \<or>
    r = -1 \<and> d' = d \<and> (dict_map d key \<noteq> None \<or> \<not> al 0))"
proof -
  from assms(1) obtain es n where d: "d = MDict es n" "distinct (map fst es)" "n = of_nat (length es)"
    by (rule dict_cases)
  show ?thesis
  proof (cases "find_entry key es")
    case None
    then have k: "key \<notin> fst ` set es" by (simp add: find_entry_None)
    show ?thesis
      using assms(2) d None k map_of_key [OF k]
      by (auto simp: map_add_def fun_eq_iff split: if_splits option.splits)
  next
    case (Some x)
    obtain a w b where x: "x = (a, w, b)" by (metis prod_cases3)
    with find_entry_Some Some have "map_of es key = Some w" by metis
    then show ?thesis using assms d Some by auto
  qed
qed

lemma mdict_remove_correct:
  assumes "dict_ok d" and "mdict_remove d (MString key) = (d', r)"
  shows "dict_ok d' \<and> r = dict_map d key \<and> dict_map d' = (dict_map d)(key := None)"
proof -
  from assms(1) obtain es n where d: "d = MDict es n" "distinct (map fst es)" "n = of_nat (length es)"
    by (rule dict_cases)
  show ?thesis
  proof (cases "find_entry key es")
    case None
    then have k: "key \<notin> fst ` set es" by (simp add: find_entry_None)
    show ?thesis using assms(2) d None map_of_key [OF k] by (auto simp: fun_eq_iff)
  next
    case (Some x)
    obtain a w b where x: "x = (a, w, b)" by (metis prod_cases3)
    with find_entry_Some Some have e: "es = a @ (key, w) # b" "map_of es key = Some w" by metis+
    show ?thesis
      using assms(2) d Some x e(2) map_of_move(2) [of a key w b]
      unfolding e(1) by auto
  qed
qed

text \<open>\<open>mdict_delete\<close> counts the removed entry twice.\<close>

lemma mdict_delete_counts_twice:
  assumes "dict_ok d" and "dict_map d key \<noteq> None"
  shows "\<exists>d'. mdict_delete d (MString key) = (d', 0) \<and>
    dict_map d' = (dict_map d)(key := None) \<and> mdict_len d' = mdict_len d - 2 \<and> \<not> dict_ok d'"
proof -
  from assms(1) obtain es n where d: "d = MDict es n" "distinct (map fst es)" "n = of_nat (length es)"
    by (rule dict_cases)
  obtain a w b where f: "find_entry key es = Some (a, w, b)"
    using assms(2) d find_entry_None [of key es] map_of_key [of key es] by (metis dict_map.simps(1) option.exhaust prod_cases3)
  from find_entry_Some [OF f] have e: "es = a @ (key, w) # b" by blast
  have r: "mdict_remove d (MString key) = (MDict (a @ b) (n - 1), Some w)" using d f by simp
  from mdict_remove_correct [OF assms(1) r] have m: "dict_map (MDict (a @ b) (n - 1)) = (dict_map d)(key := None)"
    by blast
  have "n - 1 - 1 \<noteq> of_nat (length (a @ b))" using d(3) unfolding e by simp
  then show ?thesis using r m d by (auto simp: mdict_delete_def)
qed

section \<open>Copies\<close>

text \<open>The value of an object, without allocation details and without the counter.\<close>

datatype mval = VNone | VInt "64 word" | VStr bytes | VArr "mval list" | VDict "(bytes \<times> mval) list"

fun val_of :: "mobject \<Rightarrow> mval" where
  "val_of MNone = VNone"
| "val_of (MInt v) = VInt v"
| "val_of (MString s) = VStr s"
| "val_of (MArray sl n) = VArr (map (\<lambda>e. case e of None \<Rightarrow> VNone | Some x \<Rightarrow> val_of x) (take n sl))"
| "val_of (MDict es n) = VDict (map (\<lambda>(k, x). (k, val_of x)) es)"

abbreviation val_slot :: "mobject option \<Rightarrow> mval" where
  "val_slot e \<equiv> (case e of None \<Rightarrow> VNone | Some x \<Rightarrow> val_of x)"

fun copyable :: "mobject \<Rightarrow> bool" where
  "copyable MNone \<longleftrightarrow> True"
| "copyable (MInt v) \<longleftrightarrow> True"
| "copyable (MString s) \<longleftrightarrow> length s < MSTRING_MAX"
| "copyable (MArray sl n) \<longleftrightarrow> clean sl n \<and> length sl < MARRAY_MAX \<and> 2 * n < MARRAY_MAX \<and>
     (\<forall>e \<in> set (take n sl). case e of None \<Rightarrow> False | Some x \<Rightarrow> copyable x)"
| "copyable (MDict es n) \<longleftrightarrow> distinct (map fst es) \<and>
     (\<forall>(k, x) \<in> set es. length k < MSTRING_MAX \<and> copyable x)"

abbreviation copyable_slot :: "mobject option \<Rightarrow> bool" where
  "copyable_slot e \<equiv> (case e of None \<Rightarrow> False | Some x \<Rightarrow> copyable x)"

lemma array_elems:
  "array_ok a \<Longrightarrow> \<exists>sl n. a = MArray sl n \<and> length (elems a) = n \<and> elems a = take n sl \<and> clean sl n \<and>
     length sl < MARRAY_MAX"
  by (erule array_cases) (auto simp: clean_def)

lemma deepcopy_values:
  "(\<forall>j. al j) \<Longrightarrow> copyable x \<Longrightarrow>
     \<exists>x' i'. deepcopy al x i = Inr (Some x', i') \<and> val_of x' = val_of x \<and> copyable x'"
  "(\<forall>j. al j) \<Longrightarrow> k \<le> n \<Longrightarrow> n - k \<le> length sl \<Longrightarrow> 2 * n < MARRAY_MAX \<Longrightarrow> array_ok a \<Longrightarrow>
     length (elems a) = k \<Longrightarrow> \<forall>e \<in> set (elems a) \<union> set (take (n - k) sl). copyable_slot e \<Longrightarrow>
     \<exists>a' i'. copy_slots al sl n a k i = Inr (Some a', i') \<and> array_ok a' \<and> length (elems a') = n \<and>
       map val_slot (elems a') = map val_slot (elems a @ take (n - k) sl) \<and>
       (\<forall>e \<in> set (elems a'). copyable_slot e)"
  "(\<forall>j. al j) \<Longrightarrow> d = MDict ds c \<Longrightarrow> dict_ok d \<Longrightarrow> copyable d \<Longrightarrow> distinct (map fst (ds @ es)) \<Longrightarrow>
     (\<forall>(k, x) \<in> set es. length k < MSTRING_MAX \<and> copyable x) \<Longrightarrow>
     \<exists>d' i'. copy_entries al es d i = Inr (Some d', i') \<and> dict_ok d' \<and> copyable d' \<and>
       val_of d' = VDict (map (\<lambda>(k, x). (k, val_of x)) (ds @ es))"
proof (induction al x i and al sl n a k i and al es d i arbitrary: and and ds c
    rule: deepcopy_copy_slots_copy_entries.induct)
  case (4 al sl n i)
  have new: "marray_new (\<lambda>j. al (i + j)) = Some (MArray [] 0)" using "4.prems"(1) by (simp add: marray_new_def)
  have "n \<le> length sl" "2 * n < MARRAY_MAX" using "4.prems"(2) by (simp_all add: clean_def)
  with "4.IH" [OF new "4.prems"(1)] "4.prems"(2) obtain a' i' where
    a': "copy_slots al sl n (MArray [] 0) 0 (Suc i) = Inr (Some a', i')" "array_ok a'"
    "length (elems a') = n" "map val_slot (elems a') = map val_slot (take n sl)"
    "\<forall>e \<in> set (elems a'). copyable_slot e" by (auto simp: clean_def MARRAY_MAX_def)
  from array_elems [OF a'(2)] a'(3) obtain sl' where
    e: "a' = MArray sl' n" "elems a' = take n sl'" "clean sl' n" "length sl' < MARRAY_MAX" by auto
  have "val_of a' = val_of (MArray sl n)" using a'(4) e(1,2) by simp
  moreover have "copyable a'" using a'(5) e \<open>2 * n < MARRAY_MAX\<close> by simp
  ultimately show ?case using a'(1) new by auto
next
  case (5 al es n i)
  have new: "mdict_new (\<lambda>j. al (i + j)) = Some (MDict [] 0)" using "5.prems"(1) by (simp add: mdict_new_def)
  have "\<exists>d' i'. copy_entries al es (MDict [] 0) (i + 2) = Inr (Some d', i') \<and> dict_ok d' \<and>
    copyable d' \<and> val_of d' = VDict (map (\<lambda>(k, x). (k, val_of x)) ([] @ es))"
    by (rule "5.IH" [OF new]) (use "5.prems" in auto)
  moreover from "5.prems"(1) have "al (Suc i)" by blast
  with new have "deepcopy al (MDict es n) i = copy_entries al es (MDict [] 0) (i + 2)" by simp
  ultimately show ?case by auto
next
  case (7 al x sl n a k i)
  show ?case
  proof (cases "k = n")
    case True
    then show ?thesis using "7.prems" by auto
  next
    case False
    then have k: "\<not> n \<le> k" "n - k = Suc (n - Suc k)" using "7.prems"(2) by auto
    then have "x \<in> set (take (n - k) (x # sl))" by simp
    with "7.prems"(7) have "copyable_slot x" by blast
    then obtain v where v: "x = Some v" "copyable v" by (cases x) auto
    from "7.IH"(1) [OF k(1) v(1) "7.prems"(1) v(2)] obtain v' i1 where
      1: "deepcopy al v i = Inr (Some v', i1)" "val_of v' = val_of v" "copyable v'" by blast
    have "2 * (k + 1) \<le> 2 * n" using k(1) by simp
    with "7.prems"(4) have lim: "2 * (k + 1) < MARRAY_MAX" by (rule le_less_trans [rotated])
    have al: "\<forall>j. al (i1 + j)" using "7.prems"(1) by blast
    from marray_set_succeeds [OF "7.prems"(5) lim, of "\<lambda>j. al (i1 + j)" v'] "7.prems"(1,6) obtain a1 where
      2: "marray_set (\<lambda>j. al (i1 + j)) a k v' = Inr (a1, 0)" by auto
    from marray_set_correct [OF "7.prems"(5), of "\<lambda>j. al (i1 + j)" k v'] 2 al have
      3: "array_ok a1" "elems a1 = list_set (elems a) k v'" by auto
    have 4: "elems a1 = elems a @ [Some v']"
      using 3(2) "7.prems"(6) by (simp add: list_set_def list_update_append)
    have "\<exists>a' i'. copy_slots al sl n a1 (Suc k) (i1 + 2) = Inr (Some a', i') \<and> array_ok a' \<and>
        length (elems a') = n \<and>
        map val_slot (elems a') = map val_slot (elems a1 @ take (n - Suc k) sl) \<and>
        (\<forall>e \<in> set (elems a'). copyable_slot e)"
    proof (rule "7.IH"(2) [OF k(1) v(1) 1(1) refl refl 2 refl "7.prems"(1)])
      show "Suc k \<le> n" "2 * n < MARRAY_MAX" "array_ok a1" using k(1) "7.prems"(4) 3(1) by auto
      show "n - Suc k \<le> length sl" using "7.prems"(3) by simp
      show "length (elems a1) = Suc k" using 4 "7.prems"(6) by simp
      show "\<forall>e \<in> set (elems a1) \<union> set (take (n - Suc k) sl). copyable_slot e"
        using "7.prems"(7) 1(3) unfolding 4 k(2) by auto
    qed
    then show ?thesis using k v(1) 1(1,2) 2 4 by auto
  qed
next
  case (9 al k v es d i)
  from "9.prems"(6) have kv: "length k < MSTRING_MAX" "copyable v" by auto
  have key: "mstring_new2 (\<lambda>j. al (i + j)) k = Some (MString k)"
    using "9.prems"(1) kv(1) by (simp add: mstring_new2_def)
  from "9.IH"(1) [OF key "9.prems"(1) kv(2)] obtain v' i1 where
    1: "deepcopy al v (i + 2) = Inr (Some v', i1)" "val_of v' = val_of v" "copyable v'" by blast
  have nk: "k \<notin> fst ` set ds" using "9.prems"(5) by auto
  then have "find_entry k ds = None" by (simp add: find_entry_None)
  then have 2: "mdict_insert (\<lambda>j. al (i1 + j)) d (MString k) v' = (MDict (ds @ [(k, v')]) (c + 1), 0)"
    using "9.prems"(1,2) by simp
  have "\<exists>d' i'. copy_entries al es (MDict (ds @ [(k, v')]) (c + 1)) (Suc i1) = Inr (Some d', i') \<and>
      dict_ok d' \<and> copyable d' \<and>
      val_of d' = VDict (map (\<lambda>(k, x). (k, val_of x)) ((ds @ [(k, v')]) @ es))"
  proof (rule "9.IH"(2) [OF key 1(1) refl refl 2 [symmetric] _ "9.prems"(1) refl])
    show "dict_ok (MDict (ds @ [(k, v')]) (c + 1))" using "9.prems"(2,3) nk by auto
    show "copyable (MDict (ds @ [(k, v')]) (c + 1))"
      using "9.prems"(2,4) nk kv 1(3) by auto
    show "distinct (map fst ((ds @ [(k, v')]) @ es))" using "9.prems"(5) by simp
    show "\<forall>(k, x) \<in> set es. length k < MSTRING_MAX \<and> copyable x" using "9.prems"(6) by simp
  qed simp
  then show ?case using key 1(1,2) 2 by auto
qed (auto simp: mnone_new_def mstring_new2_def mint_new_def)

text \<open>The copy of a dictionary counts its entries anew.\<close>

lemma deepcopy_correct:
  assumes "copyable x"
  shows "\<exists>x' i'. deepcopy all_ok x i = Inr (Some x', i') \<and> val_of x' = val_of x \<and> copyable x'"
  by (rule deepcopy_values(1)) (simp_all add: assms)

section \<open>Release\<close>

text \<open>The blocks that an object consists of, and the empty strings in it.\<close>

fun blocks :: "mobject \<Rightarrow> nat" where
  "blocks MNone = 0"
| "blocks (MString s) = 2"
| "blocks (MInt v) = 1"
| "blocks (MArray sl n) =
     sum_list (map (\<lambda>e. case e of None \<Rightarrow> 0 | Some x \<Rightarrow> blocks x) (take n sl)) +
     (if sl = [] then 0 else 1) + 1"
| "blocks (MDict es n) = sum_list (map (\<lambda>(k, x). 2 + blocks x + 1) es) + 1"

fun empty_strings :: "mobject \<Rightarrow> nat" where
  "empty_strings MNone = 0"
| "empty_strings (MString s) = (if s = [] then 1 else 0)"
| "empty_strings (MInt v) = 0"
| "empty_strings (MArray sl n) =
     sum_list (map (\<lambda>e. case e of None \<Rightarrow> 0 | Some x \<Rightarrow> empty_strings x) (take n sl))"
| "empty_strings (MDict es n) =
     sum_list (map (\<lambda>(k, x). (if k = [] then 1 else 0) + empty_strings x) es)"

lemma mobject_free_releases: "mobject_free x + empty_strings x = blocks x"
proof (induction x rule: mobject_free.induct)
  case (4 sl n)
  have "(case e of None \<Rightarrow> 0 | Some x \<Rightarrow> mobject_free x) + (case e of None \<Rightarrow> 0 | Some x \<Rightarrow> empty_strings x) =
      (case e of None \<Rightarrow> 0 | Some x \<Rightarrow> blocks x)" if "e \<in> set (take n sl)" for e
    using 4 that by (cases e) auto
  then show ?case by (simp add: sum_list_addf [symmetric] cong: map_cong)
next
  case (5 es n)
  have "(case e of (k, x) \<Rightarrow> mstring_free k + mobject_free x + 1) +
      (case e of (k, x) \<Rightarrow> (if k = [] then 1 else 0) + empty_strings x) =
      (case e of (k, x) \<Rightarrow> 2 + blocks x + 1)" if "e \<in> set es" for e
    using 5 [OF that] by (cases e) (auto simp: mstring_free_def)
  then show ?case by (simp add: sum_list_addf [symmetric] cong: map_cong)
qed (auto simp: mstring_free_def)

end
