(* ===== verification/MNamespace.thy ===== *)
theory MNamespace
  imports MObjectSpec
begin

text \<open>
  Paths into nested objects, \<open>libs/cfsm_lib/mtemplate/mnamespace.c\<close>: \<open>a.b[3].c\<close> names a place
  in a dictionary.

  A location is read as the list of characters left, \<open>p\<close> its position, which error messages
  mention and which numbers the allocation sites. Of an error message the kind and the position
  are kept. The walk of \<open>mnamespace_set\<close> changes objects in place: here it returns the object it
  was given with the change made, also when it fails halfway.

  Lemmas: the walk keeps the invariants of all objects on the way, and what has been set is
  found again.
\<close>

section \<open>Errors\<close>

datatype ns_error =
    Not_a_dict_namespace | Empty_location | Empty_name | Name_too_long | Name_not_found bytes
  | Not_a_dictionary bytes | Not_an_array bytes | Index_too_long | Index_empty
  | Index_not_terminated | Index_not_a_number | Index_out_of_bounds | Parse_error
  | Insert_failed | Set_failed | Dict_allocation_failed | Array_allocation_failed

definition MNAMESPACE_MAX_ID_LENGTH :: nat where
  "MNAMESPACE_MAX_ID_LENGTH = 256"

section \<open>strtol\<close>

text \<open>\<open>strtol\<close> of the C library with base 0, on a 64-bit \<open>long\<close>: value and unparsed rest.\<close>

definition digit_val :: "char \<Rightarrow> nat option" where
  "digit_val c =
     (let b = byte_of c in
      if 48 \<le> b \<and> b \<le> 57 then Some (b - 48)
      else if 97 \<le> b \<and> b \<le> 122 then Some (b - 87)
      else if 65 \<le> b \<and> b \<le> 90 then Some (b - 55) else None)"

definition is_digit :: "nat \<Rightarrow> char \<Rightarrow> bool" where
  "is_digit base c = (case digit_val c of None \<Rightarrow> False | Some d \<Rightarrow> d < base)"

definition number :: "nat \<Rightarrow> string \<Rightarrow> nat" where
  "number base s = foldl (\<lambda>n c. n * base + (case digit_val c of None \<Rightarrow> 0 | Some d \<Rightarrow> d)) 0 s"

definition saturate :: "int \<Rightarrow> int" where
  "saturate i = max (- (2 ^ 63)) (min (2 ^ 63 - 1) i)"

definition strtol_blank :: "char \<Rightarrow> bool" where
  "strtol_blank c \<longleftrightarrow> c = CHR '' '' \<or> byte_of c \<in> {9..13}"

definition strtol :: "string \<Rightarrow> int \<times> string" where
  "strtol s =
     (let t = dropWhile strtol_blank s;
          neg = (t \<noteq> [] \<and> hd t = CHR ''-'');
          u = (if t \<noteq> [] \<and> hd t \<in> {CHR ''-'', CHR ''+''} then tl t else t);
          hex = (length u > 2 \<and> hd u = CHR ''0'' \<and> u ! 1 \<in> {CHR ''x'', CHR ''X''} \<and>
                 is_digit 16 (u ! 2));
          base = (if hex then 16 else if u \<noteq> [] \<and> hd u = CHR ''0'' then 8 else 10);
          v = (if hex then drop 2 u else u);
          d = takeWhile (is_digit base) v
      in if d = [] then (0, s)
         else (saturate (if neg then - int (number base d) else int (number base d)),
               dropWhile (is_digit base) v))"

section \<open>Array indices\<close>

definition char_at :: "string \<Rightarrow> nat \<Rightarrow> char" where
  "char_at s i = (if i < length s then s ! i else NUL)"

text \<open>\<open>array_ndx\<close> on the text after \<open>[\<close>: the index and the number of characters it takes.\<close>

definition array_ndx :: "string \<Rightarrow> (ns_error \<times> nat) + (nat \<times> nat)" where
  "array_ndx s =
     (case strstcpy s 32 '']'' of
        (buf, l) \<Rightarrow>
          if l \<ge> 32 then Inl (Index_too_long, 0)
          else if l = 0 then Inl (Index_empty, 0)
          else if char_at s l \<noteq> CHR '']'' then Inl (Index_not_terminated, l)
          else
            (case strtol (cstr buf) of
               (v, rest) \<Rightarrow>
                 if char_at s 0 = NUL \<or> rest \<noteq> [] then Inl (Index_not_a_number, l + 1)
                 else if v < 0 \<or> v > 2147483647 then Inl (Index_out_of_bounds, l + 1)
                 else Inr (nat v, l + 1)))"

lemma array_ndx_skip: "array_ndx s = Inr (v, k) \<Longrightarrow> 0 < k \<and> k \<le> length s"
  by (auto simp: array_ndx_def char_at_def split: prod.splits if_splits)

lemma strstcpy_len: "strstcpy s n stops = (b, l) \<Longrightarrow> l \<le> length s"
  by (auto simp: strstcpy_correct upto_stop_def length_takeWhile_le)

lemma drop_Cons_shorter: "drop k s = c # t \<Longrightarrow> length t < length s"
  by (metis Suc_le_lessD length_Cons length_drop diff_le_self)

section \<open>Lookup\<close>

text \<open>
  The loop of \<open>mnamespace_lookup\<close> at a name, and at the label \<open>resolve_next\<close> with the object
  reached (NULL for a NULL entry of an array).
\<close>

function (sequential) lookup_name ::
  "alloc \<Rightarrow> mobject \<Rightarrow> string \<Rightarrow> nat \<Rightarrow> ((nat \<times> ns_error) + mobject option) res"
and resolve_next ::
  "alloc \<Rightarrow> mobject option \<Rightarrow> bytes \<Rightarrow> string \<Rightarrow> nat \<Rightarrow> ((nat \<times> ns_error) + mobject option) res"
where
  "lookup_name al cur loc p =
     (case strstcpy loc MNAMESPACE_MAX_ID_LENGTH ''.['' of
        (buf, l) \<Rightarrow>
          if l = 0 then Inr (Inl (p, Empty_name))
          else if l \<ge> MNAMESPACE_MAX_ID_LENGTH then Inr (Inl (p, Name_too_long))
          else
            (case mdict_item_s (\<lambda>j. al (2 * p + j)) cur (cstr buf) of
               None \<Rightarrow> Inr (Inl (p, Name_not_found (cstr buf)))
             | Some nxt \<Rightarrow> resolve_next al (Some nxt) (cstr buf) (drop l loc) (p + l)))"
| "resolve_next al nxt name [] p = Inr (Inr nxt)"
| "resolve_next al nxt name (c # loc) p =
     (if c = CHR ''.'' then
        (case nxt of
           None \<Rightarrow> Inl Null_deref
         | Some x \<Rightarrow>
             if mobject_type x \<noteq> TYPE_MDICT then Inr (Inl (p + 1, Not_a_dictionary name))
             else lookup_name al x loc (p + 1))
      else if c = CHR ''['' then
        (case nxt of
           None \<Rightarrow> Inl Null_deref
         | Some x \<Rightarrow>
             if mobject_type x \<noteq> TYPE_MARRAY then Inr (Inl (p + 1, Not_an_array name))
             else
               (case array_ndx loc of
                  Inl (e, k) \<Rightarrow> Inr (Inl (p + 1 + k, e))
                | Inr (ndx, k) \<Rightarrow>
                    if ndx \<ge> marray_len x then Inr (Inl (p + 1 + k, Index_out_of_bounds))
                    else resolve_next al (marray_item x ndx) name (drop k loc) (p + 1 + k)))
      else Inr (Inl (p + 1, Parse_error)))"
  by pat_completeness auto

termination
proof (relation "measure (\<lambda>x. case x of Inl (al, cur, loc, p) \<Rightarrow> length loc
    | Inr (al, nxt, name, loc, p) \<Rightarrow> length loc)", goal_cases)
  case (2 al cur loc p x l nxt)
  then show ?case using strstcpy_len [of loc MNAMESPACE_MAX_ID_LENGTH "''.[''" x l]
    by simp
qed (auto dest!: array_ndx_skip)

declare lookup_name.simps [simp del]

definition mnamespace_lookup ::
  "alloc \<Rightarrow> mobject \<Rightarrow> string \<Rightarrow> ((nat \<times> ns_error) + mobject option) res" where
  "mnamespace_lookup al ns loc =
     (if mobject_type ns \<noteq> TYPE_MDICT then Inr (Inl (0, Not_a_dict_namespace))
      else if loc = [] then Inr (Inl (0, Empty_location))
      else lookup_name al ns loc 0)"

section \<open>Setting\<close>

definition xalloc_by_typechar :: "alloc \<Rightarrow> char \<Rightarrow> ns_error + mobject" where
  "xalloc_by_typechar al c =
     (if c = CHR ''.''
      then (case mdict_new al of None \<Rightarrow> Inl Dict_allocation_failed | Some x \<Rightarrow> Inr x)
      else if c = CHR ''[''
      then (case marray_new al of None \<Rightarrow> Inl Array_allocation_failed | Some x \<Rightarrow> Inr x)
      else Inl Parse_error)"

text \<open>The change of a part, in place.\<close>

fun put_value :: "mobject \<Rightarrow> bytes \<Rightarrow> mobject \<Rightarrow> mobject" where
  "put_value (MDict es n) name x =
     (case find_entry name es of
        None \<Rightarrow> MDict es n
      | Some (a, w, b) \<Rightarrow> MDict (a @ (name, x) # b) n)"
| "put_value d name x = d"

fun put_slot :: "mobject \<Rightarrow> nat \<Rightarrow> mobject \<Rightarrow> mobject" where
  "put_slot (MArray sl n) i x = MArray (sl[i := Some x]) n"
| "put_slot a i x = a"

text \<open>
  \<open>set_name\<close> is the head of the loop of \<open>mnamespace_set\<close>; \<open>set_next\<close> the label \<open>next_is_dict\<close>, with
  the object \<open>nxt\<close> and the character before the rest of the location. From the label
  \<open>next_array\<close> the code reaches it without doing anything else, as the object is not NULL.
\<close>

function (sequential) set_name ::
  "alloc \<Rightarrow> mobject \<Rightarrow> string \<Rightarrow> nat \<Rightarrow> mobject \<Rightarrow> ((nat \<times> ns_error) option \<times> mobject) res"
and set_next ::
  "alloc \<Rightarrow> mobject \<Rightarrow> bytes \<Rightarrow> char \<Rightarrow> string \<Rightarrow> nat \<Rightarrow> mobject \<Rightarrow> ((nat \<times> ns_error) option \<times> mobject) res"
where
  "set_name al cur loc p x =
     (case strstcpy loc MNAMESPACE_MAX_ID_LENGTH ''.['' of
        (buf, l) \<Rightarrow>
          if l = 0 then Inr (Some (p, Empty_name), cur)
          else if l \<ge> MNAMESPACE_MAX_ID_LENGTH then Inr (Some (p, Name_too_long), cur)
          else
            (let name = cstr buf; nxt = mdict_item_s (\<lambda>j. al (8 * p + j)) cur name in
             case drop l loc of
               [] \<Rightarrow>
                 (case mdict_replace_s (\<lambda>j. al (8 * p + 2 + j)) cur name x of
                    (cur', r) \<Rightarrow> Inr (if r = None then Some (p + l + 1, Insert_failed) else None, cur'))
             | c # loc' \<Rightarrow>
                 (case (case nxt of
                          Some y \<Rightarrow> Inr (y, cur)
                        | None \<Rightarrow>
                            (case xalloc_by_typechar (\<lambda>j. al (8 * p + 2 + j)) c of
                               Inl e \<Rightarrow> Inl (e, cur)
                             | Inr y \<Rightarrow>
                                 (case mdict_replace_s (\<lambda>j. al (8 * p + 3 + j)) cur name y of
                                    (cur', r) \<Rightarrow>
                                      if r = None then Inl (Insert_failed, cur') else Inr (y, cur')))) of
                    Inl (e, cur') \<Rightarrow> Inr (Some (p + l + 1, e), cur')
                  | Inr (y, cur') \<Rightarrow>
                      map_sum id (\<lambda>(r, y'). (r, put_value cur' name y'))
                        (set_next al y name c loc' (p + l + 1) x))))"
| "set_next al nxt name c loc p x =
     (if c = CHR ''.'' then
        (if mobject_type nxt \<noteq> TYPE_MDICT then Inr (Some (p, Not_a_dictionary name), nxt)
         else set_name al nxt loc p x)
      else if c \<noteq> CHR ''['' then Inr (Some (p, Parse_error), nxt)
      else
        (case array_ndx loc of
           Inl (e, k) \<Rightarrow> Inr (Some (p + k, e), nxt)
         | Inr (ndx, k) \<Rightarrow>
             if mobject_type nxt \<noteq> TYPE_MARRAY then Inr (Some (p + k, Not_an_array name), nxt)
             else
               (case drop k loc of
                  [] \<Rightarrow>
                    bind_res (marray_set (\<lambda>j. al (8 * p + j)) nxt ndx x) (\<lambda>(a, r).
                      Inr (if r = -1 then Some (p + k + 1, Set_failed) else None, a))
                | c' # loc' \<Rightarrow>
                    (case (case marray_item nxt ndx of
                             Some y \<Rightarrow> Inr (Inr (y, nxt))
                           | None \<Rightarrow>
                               (case xalloc_by_typechar (\<lambda>j. al (8 * p + j)) c' of
                                  Inl e \<Rightarrow> Inr (Inl (e, nxt))
                                | Inr y \<Rightarrow>
                                    bind_res (marray_set (\<lambda>j. al (8 * p + 1 + j)) nxt ndx y) (\<lambda>(a, r).
                                      if r = -1 then Inr (Inl (Set_failed, a)) else Inr (Inr (y, a))))) of
                       Inl e \<Rightarrow> Inl e
                     | Inr (Inl (e, a)) \<Rightarrow> Inr (Some (p + k + 1, e), a)
                     | Inr (Inr (y, a)) \<Rightarrow>
                         map_sum id (\<lambda>(r, y'). (r, put_slot a ndx y'))
                           (set_next al y name c' loc' (p + k + 1) x)))))"
  by pat_completeness auto

termination
  by (relation "measure (\<lambda>x. case x of Inl (al, cur, loc, p, y) \<Rightarrow> 2 * length loc
      | Inr (al, nxt, name, c, loc, p, y) \<Rightarrow> 2 * length loc + 1)")
    (auto dest!: drop_Cons_shorter)

declare set_name.simps [simp del] set_next.simps [simp del]

definition mnamespace_set ::
  "alloc \<Rightarrow> mobject \<Rightarrow> string \<Rightarrow> mobject \<Rightarrow> ((nat \<times> ns_error) option \<times> mobject) res" where
  "mnamespace_set al ns loc x =
     (if mobject_type ns \<noteq> TYPE_MDICT then Inr (Some (0, Not_a_dict_namespace), ns)
      else if loc = [] then Inr (Some (0, Empty_location), ns)
      else set_name al ns loc 0 x)"

section \<open>Well-formed objects\<close>

text \<open>Every array and dictionary inside satisfies its invariant.\<close>

fun mwf :: "mobject \<Rightarrow> bool" where
  "mwf (MArray sl n) \<longleftrightarrow> array_ok (MArray sl n) \<and>
     (\<forall>e \<in> set (take n sl). case e of None \<Rightarrow> True | Some x \<Rightarrow> mwf x)"
| "mwf (MDict es n) \<longleftrightarrow> dict_ok (MDict es n) \<and> (\<forall>(k, x) \<in> set es. mwf x)"
| "mwf _ \<longleftrightarrow> True"

lemma mwf_dict:
  assumes "mobject_type d = TYPE_MDICT"
  shows "mwf d \<longleftrightarrow> dict_ok d \<and> (\<forall>k v. dict_map d k = Some v \<longrightarrow> mwf v)"
proof -
  from assms obtain es n where d: "d = MDict es n" by (cases d) auto
  have "distinct (map fst es) \<Longrightarrow> (\<forall>(k, x) \<in> set es. mwf x) \<longleftrightarrow> (\<forall>k v. map_of es k = Some v \<longrightarrow> mwf v)"
    using map_of_is_SomeI map_of_SomeD by fastforce
  then show ?thesis using d by auto
qed

lemma mwf_array:
  assumes "mobject_type a = TYPE_MARRAY"
  shows "mwf a \<longleftrightarrow> array_ok a \<and> (\<forall>i x. marray_item a i = Some x \<longrightarrow> mwf x)"
proof -
  from assms obtain sl n where a: "a = MArray sl n" by (cases a) auto
  have "(\<forall>e \<in> set (take n sl). case e of None \<Rightarrow> True | Some x \<Rightarrow> mwf x) \<longleftrightarrow>
      (\<forall>i < n. \<forall>x. sl ! i = Some x \<longrightarrow> mwf x)" if "n \<le> length sl"
  proof -
    have "set (take n sl) = (\<lambda>i. sl ! i) ` {..<n}"
      using nth_image [OF that] by (simp add: atLeast0LessThan)
    moreover have "(case e of None \<Rightarrow> True | Some x \<Rightarrow> mwf x) \<longleftrightarrow> (\<forall>x. e = Some x \<longrightarrow> mwf x)" for e
      by (cases e) auto
    ultimately show ?thesis by fastforce
  qed
  moreover have "(\<forall>i x. marray_item a i = Some x \<longrightarrow> mwf x) \<longleftrightarrow> (\<forall>i < n. \<forall>x. sl ! i = Some x \<longrightarrow> mwf x)"
    using a by (auto simp: not_le [symmetric])
  ultimately show ?thesis using a by (auto simp: clean_def)
qed

lemma marray_item_elems: "array_ok a \<Longrightarrow> marray_item a i = (if i < length (elems a) then elems a ! i else None)"
  by (erule array_cases) (auto simp: clean_def)

lemma marray_set_item:
  assumes "array_ok a" and "\<forall>j. al j" and "marray_set al a i x = Inr (a', 0)"
  shows "array_ok a'" and "marray_item a' i = Some x" and "mobject_type a' = TYPE_MARRAY"
    and "j \<noteq> i \<Longrightarrow> marray_item a' j \<in> {marray_item a j, Some MNone, None}"
proof -
  from marray_set_correct [OF assms(1), of al i x] assms(2,3)
  have a': "array_ok a'" "elems a' = list_set (elems a) i x" by auto
  show "array_ok a'" by (rule a')
  then show "mobject_type a' = TYPE_MARRAY" by (cases a') auto
  show "marray_item a' i = Some x"
    unfolding marray_item_elems [OF a'(1)] a'(2) list_set_def by (auto simp: nth_list_update)
  show "marray_item a' j \<in> {marray_item a j, Some MNone, None}" if "j \<noteq> i"
    unfolding marray_item_elems [OF a'(1)] marray_item_elems [OF assms(1)] a'(2) list_set_def
    using that by (auto simp: nth_list_update nth_append)
qed

lemma put_slot_item:
  assumes "array_ok a" and "i < marray_len a"
  shows "array_ok (put_slot a i x)" and "marray_item (put_slot a i x) i = Some x"
    and "j \<noteq> i \<Longrightarrow> marray_item (put_slot a i x) j = marray_item a j"
    and "mobject_type (put_slot a i x) = TYPE_MARRAY" and "marray_len (put_slot a i x) = marray_len a"
proof -
  from assms(1) obtain sl n where a: "a = MArray sl n" "clean sl n" "length sl < MARRAY_MAX"
    by (rule array_cases)
  have "n \<le> length sl" using a(2) by (simp add: clean_def)
  then show "array_ok (put_slot a i x)" "marray_item (put_slot a i x) i = Some x"
    "j \<noteq> i \<Longrightarrow> marray_item (put_slot a i x) j = marray_item a j"
    "mobject_type (put_slot a i x) = TYPE_MARRAY" "marray_len (put_slot a i x) = marray_len a"
    using a assms(2) by (auto simp: clean_iff nth_list_update)
qed

lemma marray_item_len: "marray_item a i = Some x \<Longrightarrow> i < marray_len a \<and> mobject_type a = TYPE_MARRAY"
  by (cases a) (auto split: if_splits)

lemma marray_set_wf:
  assumes "mwf a" and "mwf x" and "mobject_type a = TYPE_MARRAY" and "\<forall>j. al j"
    and "marray_set al a i x = Inr (a', r)" and "r \<noteq> -1"
  shows "mwf a' \<and> mobject_type a' = TYPE_MARRAY \<and> marray_item a' i = Some x"
proof -
  have a: "array_ok a" "\<And>i y. marray_item a i = Some y \<Longrightarrow> mwf y"
    using assms(1) unfolding mwf_array [OF assms(3)] by blast+
  from marray_set_correct [OF a(1), of al i x] assms(5,6)
  have s: "marray_set al a i x = Inr (a', 0)" by auto
  note S = marray_set_item [OF a(1) assms(4) s]
  have "mwf y" if "marray_item a' j = Some y" for j y
    using S(4) [of j] S(2) a(2) [of j y] that assms(2) by (cases "j = i") auto
  then show ?thesis using S(1-3) unfolding mwf_array [OF S(3)] by blast
qed

lemma put_slot_wf:
  assumes "mwf a" and "marray_item a i = Some y" and "mwf y'"
  shows "mwf (put_slot a i y') \<and> mobject_type (put_slot a i y') = TYPE_MARRAY \<and>
    marray_item (put_slot a i y') i = Some y'"
proof -
  note t = marray_item_len [OF assms(2)]
  have a: "array_ok a" "\<And>i y. marray_item a i = Some y \<Longrightarrow> mwf y"
    using assms(1) unfolding mwf_array [OF conjunct2 [OF t]] by blast+
  note P = put_slot_item [OF a(1) conjunct1 [OF t], where x = y']
  have "mwf z" if "marray_item (put_slot a i y') j = Some z" for j z
    using P(2) P(3) [of j] a(2) [of j z] that assms(3) by (cases "j = i") auto
  then show ?thesis using P unfolding mwf_array [OF P(4)] by blast
qed

lemma put_value_map:
  assumes "dict_ok d" and "dict_map d k \<noteq> None"
  shows "dict_ok (put_value d k x)" and "dict_map (put_value d k x) = (dict_map d)(k \<mapsto> x)"
    and "mobject_type (put_value d k x) = TYPE_MDICT"
proof -
  from assms(1) obtain es n where d: "d = MDict es n" "distinct (map fst es)" "n = of_nat (length es)"
    by (rule dict_cases)
  obtain a w b where f: "find_entry k es = Some (a, w, b)"
    using assms(2) d find_entry_None [of k es] map_of_key [of k es]
    by (metis dict_map.simps(1) option.exhaust prod_cases3)
  from find_entry_Some [OF f] have e: "es = a @ (k, w) # b" "k \<notin> fst ` set a" by blast+
  have k: "k \<notin> fst ` set b" using d(2) unfolding e(1) by (auto simp: image_iff)
  show "dict_ok (put_value d k x)" "mobject_type (put_value d k x) = TYPE_MDICT"
    using d f unfolding e(1) by auto
  show "dict_map (put_value d k x) = (dict_map d)(k \<mapsto> x)"
    using d(1) f e(2) k map_of_key [OF e(2)] map_of_key [OF k]
    unfolding e(1) by (auto simp: map_add_def fun_eq_iff split: option.splits)
qed

section \<open>Names\<close>

lemma name_short:
  "strstcpy loc MNAMESPACE_MAX_ID_LENGTH stops = (buf, l) \<Longrightarrow> l < MNAMESPACE_MAX_ID_LENGTH \<Longrightarrow>
   length (cstr buf) < MSTRING_MAX"
  using length_cstr_le [of buf]
  by (auto simp: strstcpy_correct MNAMESPACE_MAX_ID_LENGTH_def MSTRING_MAX_def)

lemma mstring_new_ok:
  "\<forall>j. al j \<Longrightarrow> length (cstr k) < MSTRING_MAX \<Longrightarrow> mstring_new al k = Some (MString (cstr k))"
  by (simp add: mstring_new_def mstring_new2_def)

lemma mdict_item_s_ok:
  "\<forall>j. al j \<Longrightarrow> length (cstr k) < MSTRING_MAX \<Longrightarrow> dict_ok d \<Longrightarrow>
   mdict_item_s al d k = dict_map d (cstr k)"
  by (simp add: mdict_item_s_def mstring_new_ok mdict_item_correct)

lemma mdict_replace_s_ok:
  assumes "\<forall>j. al j" and "length (cstr k) < MSTRING_MAX" and "dict_ok d"
    and "mdict_replace_s al d k v = (d', r)"
  shows "r \<noteq> None \<and> dict_ok d' \<and> dict_map d' = (dict_map d)(cstr k \<mapsto> v)"
proof -
  obtain d1 i where 1: "mdict_replace (\<lambda>j. al (j + 2)) d (MString (cstr k)) v = (d1, i)" by fastforce
  from assms(1) have "al (0 + 2)" by blast
  with mdict_replace_correct [OF assms(3) 1] have "dict_ok d1" "i = 0"
    "dict_map d1 = (dict_map d)(cstr k \<mapsto> v)" by auto
  with assms 1 show ?thesis by (auto simp: mdict_replace_s_def store_new_def mstring_new_ok)
qed

lemma dict_ok_type: "dict_ok d \<Longrightarrow> mobject_type d = TYPE_MDICT"
  by (cases d) auto

section \<open>What has been set is found\<close>

text \<open>A value that is put into a dictionary or an array, and the path that leads to it.\<close>

lemma lookup_name_step:
  assumes "\<forall>j. al j" and "strstcpy loc MNAMESPACE_MAX_ID_LENGTH ''.['' = (buf, l)"
    and "l \<noteq> 0" and "l < MNAMESPACE_MAX_ID_LENGTH"
    and "dict_ok d" and "dict_map d (cstr buf) = Some y"
  shows "lookup_name al d loc q = resolve_next al (Some y) (cstr buf) (drop l loc) (q + l)"
proof -
  have len: "length (cstr (cstr buf)) < MSTRING_MAX" using name_short [OF assms(2,4)] by simp
  have "mdict_item_s (\<lambda>j. al (2 * q + j)) d (cstr buf) = dict_map d (cstr (cstr buf))"
    by (rule mdict_item_s_ok [OF _ len assms(5)]) (use assms(1) in blast)
  then show ?thesis using assms(2-4,6) by (subst lookup_name.simps) simp
qed

lemma xalloc_wf: "xalloc_by_typechar al c = Inr y \<Longrightarrow> mwf y"
  by (auto simp: xalloc_by_typechar_def mdict_new_def marray_new_def clean_def MARRAY_MAX_def
      split: option.splits if_splits)

lemma set_then_lookup:
  "\<forall>j. al j \<Longrightarrow> mwf cur \<Longrightarrow> mwf x \<Longrightarrow> mobject_type cur = TYPE_MDICT \<Longrightarrow>
     set_name al cur loc p x = Inr (None, cur') \<Longrightarrow>
     mwf cur' \<and> mobject_type cur' = TYPE_MDICT \<and> (\<forall>q. lookup_name al cur' loc q = Inr (Inr (Some x)))"
  "\<forall>j. al j \<Longrightarrow> mwf nxt \<Longrightarrow> mwf x \<Longrightarrow> set_next al nxt name c loc p x = Inr (None, nxt') \<Longrightarrow>
     mwf nxt' \<and> mobject_type nxt' = mobject_type nxt \<and>
     (\<forall>q. resolve_next al (Some nxt') name (c # loc) q = Inr (Inr (Some x)))"
proof (induction al cur loc p x and al nxt name c loc p x arbitrary: cur' and nxt'
    rule: set_name_set_next.induct)
  case (1 al cur loc p x)
  obtain buf l where S: "strstcpy loc MNAMESPACE_MAX_ID_LENGTH ''.['' = (buf, l)" by fastforce
  from "1.prems"(5) S have l: "l \<noteq> 0" "l < MNAMESPACE_MAX_ID_LENGTH"
    by (auto simp: set_name.simps [of al cur] split: if_splits)
  have len: "length (cstr (cstr buf)) < MSTRING_MAX" using name_short [OF S l(2)] by simp
  note al = "1.prems"(1)
  have d: "dict_ok cur" "\<And>k v. dict_map cur k = Some v \<Longrightarrow> mwf v"
    using "1.prems"(2) unfolding mwf_dict [OF "1.prems"(4)] by blast+
  define nxt where "nxt = mdict_item_s (\<lambda>j. al (8 * p + j)) cur (cstr buf)"
  have nxt: "nxt = dict_map cur (cstr buf)"
    unfolding nxt_def using mdict_item_s_ok [OF _ len d(1), of "\<lambda>j. al (8 * p + j)"] al by simp
  show ?case
  proof (cases "drop l loc")
    case Nil
    obtain d' r where rep: "mdict_replace_s (\<lambda>j. al (8 * p + 2 + j)) cur (cstr buf) x = (d', r)" by fastforce
    have R: "r \<noteq> None" "dict_ok d'" "dict_map d' = (dict_map cur)(cstr buf \<mapsto> x)"
      using mdict_replace_s_ok [OF _ len d(1) rep] al by simp_all
    have cur': "cur' = d'" using "1.prems"(5) S l Nil rep R(1) by (simp add: set_name.simps [of al cur])
    have t: "mobject_type d' = TYPE_MDICT" using dict_ok_type [OF R(2)] .
    have "mwf d'" unfolding mwf_dict [OF t] using R(2,3) d(2) "1.prems"(3) by auto
    moreover have "lookup_name al d' loc q = Inr (Inr (Some x))" for q
      using lookup_name_step [OF al S l R(2), of x q] R(3) Nil by simp
    ultimately show ?thesis using cur' t by blast
  next
    case (Cons c loc')
    define step where "step = (case nxt of
        Some y \<Rightarrow> Inr (y, cur)
      | None \<Rightarrow>
          (case xalloc_by_typechar (\<lambda>j. al (8 * p + 2 + j)) c of
             Inl e \<Rightarrow> Inl (e, cur)
           | Inr y \<Rightarrow>
               (case mdict_replace_s (\<lambda>j. al (8 * p + 3 + j)) cur (cstr buf) y of
                  (cur1, r) \<Rightarrow> if r = None then Inl (Insert_failed, cur1) else Inr (y, cur1))))"
    from "1.prems"(5) S l Cons obtain y cur1 where st: "step = Inr (y, cur1)"
      by (auto simp: set_name.simps [of al cur] Let_def nxt_def [symmetric] step_def [symmetric]
          split: sum.splits)
    with "1.prems"(5) S l Cons obtain y' where
      n: "set_next al y (cstr buf) c loc' (p + l + 1) x = Inr (None, y')" "cur' = put_value cur1 (cstr buf) y'"
      by (cases "set_next al y (cstr buf) c loc' (p + l + 1) x")
        (auto simp: set_name.simps [of al cur] Let_def nxt_def [symmetric] step_def [symmetric])
    have y: "mwf y" "dict_ok cur1" "dict_map cur1 (cstr buf) = Some y"
      "\<And>k v. dict_map cur1 k = Some v \<Longrightarrow> mwf v"
    proof -
      show "mwf y"
        using st nxt d(2) by (auto simp: step_def xalloc_by_typechar_def mdict_new_def marray_new_def
            clean_def MARRAY_MAX_def split: option.splits sum.splits prod.splits if_splits)
      have *: "dict_ok cur1 \<and> dict_map cur1 = (dict_map cur)(cstr buf \<mapsto> y)"
      proof (cases nxt)
        case None
        with st have "mdict_replace_s (\<lambda>j. al (8 * p + 3 + j)) cur (cstr buf) y =
            (cur1, snd (mdict_replace_s (\<lambda>j. al (8 * p + 3 + j)) cur (cstr buf) y))"
          by (auto simp: step_def split: sum.splits prod.splits if_splits)
        from mdict_replace_s_ok [OF _ len d(1) this] al show ?thesis by simp
      next
        case (Some z)
        then have "y = z" "cur1 = cur" using st by (auto simp: step_def)
        with Some nxt d(1) show ?thesis by (metis fun_upd_triv)
      qed
      then show "dict_ok cur1" "dict_map cur1 (cstr buf) = Some y" by auto
      show "\<And>k v. dict_map cur1 k = Some v \<Longrightarrow> mwf v" using * d(2) \<open>mwf y\<close> by (auto split: if_splits)
    qed
    have I: "mwf y' \<and> mobject_type y' = mobject_type y \<and>
        (\<forall>q. resolve_next al (Some y') (cstr buf) (c # loc') q = Inr (Inr (Some x)))"
      by (rule "1.IH" [OF S [symmetric] l(1) l(2) [folded not_le] refl nxt_def Cons
            st [unfolded step_def] refl al y(1) "1.prems"(3) n(1)])
    note P = put_value_map [OF y(2), of "cstr buf" y']
    have "mwf cur'"
      unfolding n(2) using P y(3,4) I by (subst mwf_dict) auto
    moreover have "lookup_name al cur' loc q = Inr (Inr (Some x))" for q
      using lookup_name_step [OF al S l, of cur' y' q] P y(3) I Cons unfolding n(2) by simp
    ultimately show ?thesis using P(3) y(3) unfolding n(2) by simp
  qed
next
  case (2 al nxt name c loc p x)
  note al = "2.prems"(1)
  show ?case
  proof (cases "c = CHR ''.''")
    case True
    with "2.prems"(4) have t: "mobject_type nxt = TYPE_MDICT" and s: "set_name al nxt loc p x = Inr (None, nxt')"
      by (auto simp: set_next.simps split: if_splits)
    have "mwf nxt' \<and> mobject_type nxt' = TYPE_MDICT \<and> (\<forall>q. lookup_name al nxt' loc q = Inr (Inr (Some x)))"
      by (rule "2.IH"(1) [OF True _ al "2.prems"(2,3) t s]) (simp add: t)
    then show ?thesis using True t by auto
  next
    case False
    with "2.prems"(4) obtain ndx k where c: "c = CHR ''[''" and A: "array_ndx loc = Inr (ndx, k)"
      and t: "mobject_type nxt = TYPE_MARRAY"
      by (auto simp: set_next.simps split: if_splits sum.splits prod.splits)
    have found: "resolve_next al (Some a) name (c # loc) q = resolve_next al (Some y) name (drop k loc) (q + 1 + k)"
      if "marray_item a ndx = Some y" for a y q
      using marray_item_len [OF that] that c A by simp
    show ?thesis
    proof (cases "drop k loc")
      case Nil
      with "2.prems"(4) c A t obtain r where
        "marray_set (\<lambda>j. al (8 * p + j)) nxt ndx x = Inr (nxt', r)" "r \<noteq> -1"
        by (auto simp: set_next.simps bind_res_def split: if_splits sum.splits prod.splits)
      from marray_set_wf [OF "2.prems"(2,3) t _ this] al
      have "mwf nxt' \<and> mobject_type nxt' = TYPE_MARRAY \<and> marray_item nxt' ndx = Some x" by simp
      then show ?thesis using found Nil t by simp
    next
      case (Cons c' loc')
      define step :: "(ns_error \<times> mobject + mobject \<times> mobject) res" where "step =
        (case marray_item nxt ndx of
           Some y \<Rightarrow> Inr (Inr (y, nxt))
         | None \<Rightarrow>
             (case xalloc_by_typechar (\<lambda>j. al (8 * p + j)) c' of
                Inl e \<Rightarrow> Inr (Inl (e, nxt))
              | Inr y \<Rightarrow>
                  bind_res (marray_set (\<lambda>j. al (8 * p + 1 + j)) nxt ndx y) (\<lambda>(a, r).
                    if r = -1 then Inr (Inl (Set_failed, a)) else Inr (Inr (y, a)))))"
      have unf: "set_next al nxt name c loc p x =
          (case step of
             Inl e \<Rightarrow> Inl e
           | Inr (Inl (e, a)) \<Rightarrow> Inr (Some (p + k + 1, e), a)
           | Inr (Inr (y, a)) \<Rightarrow>
               map_sum id (\<lambda>(r, y'). (r, put_slot a ndx y')) (set_next al y name c' loc' (p + k + 1) x))"
        unfolding step_def by (subst set_next.simps) (simp add: c A t Cons)
      from "2.prems"(4) obtain y a where st: "step = Inr (Inr (y, a))"
        unfolding unf by (auto split: sum.splits)
      with "2.prems"(4) obtain y' where
        n: "set_next al y name c' loc' (p + k + 1) x = Inr (None, y')" "nxt' = put_slot a ndx y'"
        unfolding unf by (cases "set_next al y name c' loc' (p + k + 1) x") auto
      have y: "mwf y \<and> mwf a \<and> marray_item a ndx = Some y"
      proof (cases "marray_item nxt ndx")
        case None
        with st obtain r where X: "xalloc_by_typechar (\<lambda>j. al (8 * p + j)) c' = Inr y"
          and M: "marray_set (\<lambda>j. al (8 * p + 1 + j)) nxt ndx y = Inr (a, r)" "r \<noteq> -1"
          by (auto simp: step_def bind_res_def split: sum.splits prod.splits if_splits)
        have "mwf y" by (rule xalloc_wf [OF X])
        with marray_set_wf [OF "2.prems"(2) _ t _ M] al show ?thesis by simp
      next
        case (Some z)
        then have "y = z" "a = nxt" using st by (auto simp: step_def)
        moreover have "mwf z" using Some "2.prems"(2) unfolding mwf_array [OF t] by blast
        ultimately show ?thesis using Some "2.prems"(2) by simp
      qed
      have I: "mwf y' \<and> mobject_type y' = mobject_type y \<and>
          (\<forall>q. resolve_next al (Some y') name (c' # loc') q = Inr (Inr (Some x)))"
        by (rule "2.IH"(2) [OF False _ A refl _ Cons st [unfolded step_def] refl refl al conjunct1 [OF y]
              "2.prems"(3) n(1)])
          (simp_all add: c t)
      from put_slot_wf [of a ndx y y'] y I
      have P: "mwf nxt' \<and> mobject_type nxt' = TYPE_MARRAY \<and> marray_item nxt' ndx = Some y'"
        unfolding n(2) by blast
      then show ?thesis using found I Cons t by simp
    qed
  qed
qed

end
