(* ===== verification/TemplateParse.thy ===== *)
theory TemplateParse
  imports MNamespace
begin

text \<open>
  Templates, \<open>libs/cfsm_lib/mtemplate/mtemplate.c\<close>, first part: the tree of nodes and the parser
  \<open>mtemplate_parse\<close>.

  A node is a value that owns its text, its loop variable and its two lists of children. The
  nodes that are open while the parser runs form a stack, innermost first, with the root at the
  bottom; \<open>activep\<close> of the code is the list of the innermost node that is being filled. A loop
  variable that has been freed while the node still names it is \<open>Freed_var\<close>. Of an error message
  the kind and the line are kept. The argument \<open>i\<close> of the loop numbers the allocation sites.

  Lemmas: how text and directives are read, and what is printed is parsed back.
\<close>

section \<open>Nodes\<close>

datatype node_type =
    NODE_NONE | NODE_TEXT | NODE_DIRECTIVE_IF | NODE_DIRECTIVE_ELSE | NODE_DIRECTIVE_ENDIF
  | NODE_DIRECTIVE_FOR | NODE_DIRECTIVE_ENDFOR | NODE_DIRECTIVE_SUBST

text \<open>Type, word, parent and whether an expression is wanted.\<close>

definition node_info :: "(node_type \<times> string \<times> node_type \<times> bool) list" where
  "node_info =
    [(NODE_TEXT, ''text'', NODE_NONE, False),
     (NODE_DIRECTIVE_IF, ''if'', NODE_NONE, True),
     (NODE_DIRECTIVE_ELSE, ''else'', NODE_DIRECTIVE_IF, False),
     (NODE_DIRECTIVE_ENDIF, ''endif'', NODE_DIRECTIVE_IF, False),
     (NODE_DIRECTIVE_FOR, ''for'', NODE_NONE, True),
     (NODE_DIRECTIVE_ENDFOR, ''endfor'', NODE_DIRECTIVE_FOR, False),
     (NODE_DIRECTIVE_SUBST, ''subst'', NODE_NONE, True)]"

definition SUBST_OK :: "char set" where
  "SUBST_OK = set (''ABCDEFGHIJKLMNOPQRSTUVWXYZ'' @ ''abcdefghijklmnopqrstuvwxyz'' @ ''0123456789._[]'')"

datatype lvar = No_var | Var string | Freed_var

datatype tnode =
  TNode node_type "string option" nat lvar "tnode list" "tnode list"
    \<comment> \<open>\<open>type\<close>, \<open>text\<close>, \<open>lnum\<close>, \<open>localvar\<close>, \<open>child_nodes\<close>, \<open>child_nodes_else\<close>\<close>

text \<open>An open node.\<close>

record frame =
  fr_type :: node_type
  fr_text :: "string option"
  fr_lnum :: nat
  fr_var :: lvar
  fr_in_else :: bool
  fr_children :: "tnode list"
  fr_else :: "tnode list"

definition close_node :: "frame \<Rightarrow> tnode" where
  "close_node f = TNode (fr_type f) (fr_text f) (fr_lnum f) (fr_var f) (fr_children f) (fr_else f)"

text \<open>\<open>TAILQ_INSERT_TAIL(activep, node, entry)\<close>\<close>

definition active_else :: "frame \<Rightarrow> bool" where
  "active_else f \<longleftrightarrow> fr_type f = NODE_DIRECTIVE_IF \<and> fr_in_else f"

fun add_node :: "tnode \<Rightarrow> frame list \<Rightarrow> frame list" where
  "add_node n [] = []"
| "add_node n (f # fs) =
     (if active_else f then f\<lparr>fr_else := fr_else f @ [n]\<rparr> else f\<lparr>fr_children := fr_children f @ [n]\<rparr>) # fs"

text \<open>The nodes of the template when the open ones are closed.\<close>

fun close_all :: "frame list \<Rightarrow> tnode list" where
  "close_all [] = []"
| "close_all [f] = fr_children f"
| "close_all (f # fs) = close_all (add_node (close_node f) fs)"

section \<open>Release\<close>

fun var_blocks :: "lvar \<Rightarrow> nat" where
  "var_blocks (Var v) = 1"
| "var_blocks _ = 0"

text \<open>The number of blocks freed. The text of \<open>localvar\<close> is wiped before it is freed.\<close>

fun mtemplate_free_nodes :: "tnode list \<Rightarrow> nat res" where
  "mtemplate_free_nodes [] = Inr 0"
| "mtemplate_free_nodes (TNode ty txt ln v ch el # ns) =
     (if v = Freed_var then Inl Use_after_free
      else
        bind_res (mtemplate_free_nodes ch) (\<lambda>a.
        bind_res (mtemplate_free_nodes el) (\<lambda>b.
        bind_res (mtemplate_free_nodes ns) (\<lambda>c.
          Inr ((if txt = None then 0 else 1) + var_blocks v + a + b + 1 + c)))))"

definition mtemplate_free :: "tnode list \<Rightarrow> nat res" where
  "mtemplate_free ns = bind_res (mtemplate_free_nodes ns) (\<lambda>k. Inr (Suc k))"

section \<open>The parser\<close>

datatype tp_error =
    Template_allocation | Node_allocation | Node_text_allocation | Unterminated_directive
  | Newline_in_directive | Empty_directive | Invalid_directive
  | Directive_outside node_type node_type | Else_inside_else | Invalid_for_syntax
  | Unclosed_block node_type nat

definition alloc_node :: "alloc \<Rightarrow> string option \<Rightarrow> node_type \<Rightarrow> nat \<Rightarrow> tp_error + frame" where
  "alloc_node al p ty lnum =
     (if \<not> al 0 then Inl Node_allocation
      else if p \<noteq> None \<and> \<not> al 1 then Inl Node_text_allocation
      else Inr \<lparr>fr_type = ty, fr_text = p, fr_lnum = lnum, fr_var = No_var, fr_in_else = False,
                fr_children = [], fr_else = []\<rparr>)"

text \<open>\<open>strstr\<close>: where the first occurrence begins.\<close>

fun strstr :: "string \<Rightarrow> string \<Rightarrow> nat option" where
  "strstr [] pat = (if pat = [] then Some 0 else None)"
| "strstr (c # s) pat =
     (if take (length pat) (c # s) = pat then Some 0 else map_option Suc (strstr s pat))"

text \<open>\<open>parse_for\<close> on the text of a node: its text and \<open>localvar\<close> afterwards, and the result.\<close>

definition parse_for :: "alloc \<Rightarrow> string \<Rightarrow> string \<times> lvar \<times> int" where
  "parse_for al txt =
     (case strstr txt '' in '' of
        None \<Rightarrow> (txt, No_var, -1)
      | Some k \<Rightarrow>
          (let v = take k txt; tmp = drop (k + 4) txt in
           if \<not> al 0 then (v, No_var, -1)
           else if \<not> al 1 then (v, No_var, -1)
           else if CHR '' '' \<in> set tmp then (v, Freed_var, -1)
           else (tmp, Var v, 0)))"

text \<open>
  \<open>classify_node\<close> reads \<open>len\<close> characters of what follows the opening braces. The result: the type
  and where the expression begins, \<open>None\<close> standing for a NULL \<open>end_p\<close>.
\<close>

definition classify_rest :: "string \<Rightarrow> nat \<Rightarrow> (node_type \<times> nat option) option" where
  "classify_rest d len =
     (if hd d = CHR ''{'' \<and> length (takeWhile (\<lambda>c. c = CHR ''{'') (take len d)) \<ge> len
      then Some (NODE_TEXT, Some 0)
      else if set (take len d) \<subseteq> SUBST_OK then Some (NODE_DIRECTIVE_SUBST, Some 0)
      else None)"

fun classify_loop ::
  "(node_type \<times> string \<times> node_type \<times> bool) list \<Rightarrow> string \<Rightarrow> nat \<Rightarrow> (node_type \<times> nat option) option" where
  "classify_loop [] d len = classify_rest d len"
| "classify_loop ((n, p, parent, want) # infos) d len =
     (if len < length p \<or> take (length p) d \<noteq> p then classify_loop infos d len
      else if \<not> want then Some (n, None)
      else if len \<le> length p + 1 \<or> d ! length p \<noteq> CHR '' '' then None
      else Some (n, Some (length p + 1)))"

definition classify_node :: "string \<Rightarrow> nat \<Rightarrow> (node_type \<times> nat option) option" where
  "classify_node d len = (if len < 1 then None else classify_loop node_info d len)"

definition mtemplate_node_parent :: "node_type \<Rightarrow> node_type" where
  "mtemplate_node_parent n =
     (case find (\<lambda>(m, _). m = n) node_info of
        None \<Rightarrow> NODE_NONE
      | Some (_, _, parent, _) \<Rightarrow> parent)"

text \<open>
  The body of the loop for a directive; \<open>rest\<close> begins behind the opening braces. The result: the
  error, or how much of \<open>rest\<close> is done, with the open nodes.
\<close>

definition parse_directive ::
  "alloc \<Rightarrow> string \<Rightarrow> nat \<Rightarrow> frame list \<Rightarrow> (tp_error \<times> frame list) + (nat \<times> frame list)" where
  "parse_directive al rest lnum st =
     (case strstr rest ''}}'' of
        None \<Rightarrow> Inl (Unterminated_directive, st)
      | Some d \<Rightarrow>
          if LF \<in> set (take (Suc d) rest) then Inl (Newline_in_directive, st)
          else if d < 1 then Inl (Empty_directive, st)
          else if hd rest = CHR ''#'' then Inr (d + 2, st)
          else
            (case classify_node rest d of
               None \<Rightarrow> Inl (Invalid_directive, st)
             | Some (ty, cp) \<Rightarrow>
                 if (case cp of None \<Rightarrow> False | Some k \<Rightarrow> k \<ge> d) then Inl (Invalid_directive, st)
                 else
                   (let expected = mtemplate_node_parent ty in
                    if expected \<noteq> NODE_NONE \<and> fr_type (hd st) \<noteq> expected
                    then Inl (Directive_outside ty expected, st)
                    else if ty = NODE_DIRECTIVE_ELSE then
                      (if fr_in_else (hd st) then Inl (Else_inside_else, st)
                       else Inr (d + 2, (hd st)\<lparr>fr_in_else := True\<rparr> # tl st))
                    else if ty = NODE_DIRECTIVE_ENDIF \<or> ty = NODE_DIRECTIVE_ENDFOR then
                      Inr (d + 2, add_node (close_node (hd st)) (tl st))
                    else
                      (case alloc_node al (map_option (\<lambda>k. drop k (take d rest)) cp) ty lnum of
                         Inl e \<Rightarrow> Inl (e, st)
                       | Inr f \<Rightarrow>
                           if ty = NODE_DIRECTIVE_FOR then
                             (case parse_for (\<lambda>j. al (2 + j)) (case fr_text f of None \<Rightarrow> [] | Some t \<Rightarrow> t) of
                                (t, v, r) \<Rightarrow>
                                  (let f' = f\<lparr>fr_text := Some t, fr_var := v\<rparr> in
                                   if r = -1 then Inl (Invalid_for_syntax, f' # st)
                                   else Inr (d + 2, f' # st)))
                           else if ty = NODE_DIRECTIVE_IF then Inr (d + 2, f # st)
                           else Inr (d + 2, add_node (close_node f) st)))))"

text \<open>
  The loop: \<open>txt\<close> is the text from \<open>o\<close> on, \<open>p\<close> how much of it is known to be plain. It returns the
  open nodes and the line.
\<close>

definition plain_end :: "string \<Rightarrow> nat \<Rightarrow> nat" where
  "plain_end txt p = p + length (takeWhile (\<lambda>c. c \<noteq> LF \<and> c \<noteq> CHR ''{'') (drop p txt))"

definition add_text :: "alloc \<Rightarrow> string \<Rightarrow> nat \<Rightarrow> frame list \<Rightarrow> tp_error + frame list" where
  "add_text al t lnum st =
     (case alloc_node al (Some t) NODE_TEXT lnum of
        Inl e \<Rightarrow> Inl e
      | Inr f \<Rightarrow> Inr (add_node (close_node f) st))"

function template_loop ::
  "alloc \<Rightarrow> nat \<Rightarrow> string \<Rightarrow> nat \<Rightarrow> nat \<Rightarrow> frame list \<Rightarrow>
     ((nat \<times> tp_error) \<times> frame list) + (frame list \<times> nat)" where
  "template_loop al i txt p lnum st =
     (let q = plain_end txt p in
      if q \<ge> length txt then
        (if txt = [] then Inr (st, lnum)
         else case add_text (\<lambda>j. al (i + j)) txt lnum st of
           Inl e \<Rightarrow> Inl ((lnum, e), st)
         | Inr st' \<Rightarrow> Inr (st', lnum))
      else if txt ! q = LF then template_loop al i txt (Suc q) (Suc lnum) st
      else if char_at txt (Suc q) \<noteq> CHR ''{'' then template_loop al i txt (Suc q) lnum st
      else
        (case (if q > 0 then add_text (\<lambda>j. al (i + j)) (take q txt) lnum st else Inr st) of
           Inl e \<Rightarrow> Inl ((lnum, e), st)
         | Inr st1 \<Rightarrow>
             (case parse_directive (\<lambda>j. al (i + 2 + j)) (drop (q + 2) txt) lnum st1 of
                Inl (e, st2) \<Rightarrow> Inl ((lnum, e), st2)
              | Inr (k, st2) \<Rightarrow> template_loop al (i + 6) (drop (q + 2 + k) txt) 0 lnum st2)))"
  by pat_completeness auto
termination
  by (relation "measure (\<lambda>(al, i, txt, p, lnum, st). length txt - p)") (auto simp: plain_end_def)

declare template_loop.simps [simp del]

definition root_frame :: frame where
  "root_frame = \<lparr>fr_type = NODE_NONE, fr_text = None, fr_lnum = 0, fr_var = No_var,
     fr_in_else = False, fr_children = [], fr_else = []\<rparr>"

definition mtemplate_parse :: "alloc \<Rightarrow> string \<Rightarrow> ((nat \<times> tp_error) + tnode list) res" where
  "mtemplate_parse al txt =
     (if \<not> al 0 then Inr (Inl (0, Template_allocation))
      else
        (case (case template_loop (\<lambda>j. al (Suc j)) 0 txt 0 1 [root_frame] of
                 Inl (e, st) \<Rightarrow> (Some e, st)
               | Inr (st, lnum) \<Rightarrow>
                   (if length st \<noteq> 1
                    then Some (lnum, Unclosed_block (fr_type (hd st)) (fr_lnum (hd st))) else None, st)) of
           (Some e, st) \<Rightarrow> bind_res (mtemplate_free (close_all st)) (\<lambda>_. Inr (Inl e))
         | (None, st) \<Rightarrow> Inr (Inr (close_all st))))"

end
