(* ===== verification/TemplateRun.thy ===== *)
theory TemplateRun
  imports TemplateParse
begin

text \<open>
  Templates, \<open>libs/cfsm_lib/mtemplate/mtemplate.c\<close>, second part: running a template.

  The output callback is a parameter with a state of its own; it is given the text or NULL, here
  \<open>None\<close>. \<open>pr\<close> is what \<open>%p\<close> prints for an object. The allocations of the parts of a run are told
  apart by \<open>site k\<close>, the \<open>k\<close>-th part of an oracle. Of an error message the kind and the line are
  kept, and an error is the result \<open>-1\<close> of the code.

  Lemmas: what a template without loops writes, when the buffer of the memory callback
  overflows.
\<close>

definition site :: "nat \<Rightarrow> alloc \<Rightarrow> alloc" where
  "site k al = (\<lambda>j. al (8 * j + k))"

lemma site_all_ok [simp]: "site k all_ok = all_ok"
  by (simp add: site_def all_ok_def)

section \<open>Values\<close>

fun mobject_as_boolean :: "mobject option \<Rightarrow> bool" where
  "mobject_as_boolean None = False"
| "mobject_as_boolean (Some x) =
     (case mobject_type x of
        TYPE_MNONE \<Rightarrow> False
      | TYPE_MSTRING \<Rightarrow> mstring_len x > 0
      | TYPE_MINT \<Rightarrow> mint_value x \<noteq> 0
      | TYPE_MARRAY \<Rightarrow> marray_len x > 0
      | TYPE_MDICT \<Rightarrow> mdict_len x > 0)"

text \<open>\<open>fetch_var\<close>: the local namespace first, then the one of the user, which may be NULL.\<close>

definition fetch_var :: "alloc \<Rightarrow> string option \<Rightarrow> mobject option \<Rightarrow> mobject \<Rightarrow> mobject option res" where
  "fetch_var al var_name ns local_ns =
     (case var_name of
        None \<Rightarrow> Inl Null_deref
      | Some n \<Rightarrow>
          bind_res (mnamespace_lookup (site 0 al) local_ns n) (\<lambda>r.
            case r of
              Inr x \<Rightarrow> Inr x
            | Inl _ \<Rightarrow>
                (case ns of
                   None \<Rightarrow> Inr None
                 | Some d \<Rightarrow>
                     bind_res (mnamespace_lookup (site 1 al) d n) (\<lambda>r'.
                       case r' of Inr x \<Rightarrow> Inr x | Inl _ \<Rightarrow> Inr None))))"

section \<open>Output\<close>

type_synonym 'c out_cb = "alloc \<Rightarrow> string option \<Rightarrow> 'c \<Rightarrow> ('c \<times> int) res"

datatype run_error =
    Write_error | Error_in_if | Error_in_for | Error_in_substitution | No_iterator
  | No_local_namespace | No_loop_variable | Loop_variable_missing | Loop_key_copy_failed
  | Loop_value_copy_failed | Loop_key_insert_failed | Loop_value_insert_failed
  | Malloc_failed | Realloc_failed | Unsupported_node node_type

definition RENDER_MO_ALLOC :: nat where
  "RENDER_MO_ALLOC = 256"

definition write_text :: "'c out_cb \<Rightarrow> alloc \<Rightarrow> nat \<Rightarrow> bytes \<Rightarrow> 'c \<Rightarrow> ('c \<times> (nat \<times> run_error) option) res" where
  "write_text cb al lnum b c =
     bind_res (cb al (Some (cstr b)) c) (\<lambda>(c', r). Inr (c', if r \<noteq> 0 then Some (lnum, Write_error) else None))"

definition render_mobject ::
  "alloc \<Rightarrow> 'c out_cb \<Rightarrow> (mobject \<Rightarrow> string) \<Rightarrow> mobject \<Rightarrow> nat \<Rightarrow> 'c \<Rightarrow> ('c \<times> (nat \<times> run_error) option) res" where
  "render_mobject al cb pr x lnum c =
     (case mstring_ptr x of
        Some s \<Rightarrow> write_text cb (site 0 al) lnum s c
      | None \<Rightarrow>
          if \<not> al 1 then Inr (c, Some (lnum, Malloc_failed))
          else
            (case mobject_to_string pr x RENDER_MO_ALLOC of
               (buf, n) \<Rightarrow>
                 if n + 1 \<ge> RENDER_MO_ALLOC then
                   (if \<not> al 2 then Inr (c, Some (lnum, Realloc_failed))
                    else write_text cb (site 0 al) lnum (fst (mobject_to_string pr x (n + 1))) c)
                 else write_text cb (site 0 al) lnum buf c))"

section \<open>Running\<close>

text \<open>\<open>do_loop\<close> before the body is run: the key and the value are put into the loop variable.\<close>

definition enter_item ::
  "alloc \<Rightarrow> string \<Rightarrow> mobject \<Rightarrow> mobject option \<Rightarrow> mobject \<Rightarrow> (mobject \<times> run_error option) res" where
  "enter_item al x key val frame =
     (case mdict_item_s (site 0 al) frame x of
        None \<Rightarrow> Inr (frame, Some Loop_variable_missing)
      | Some lv \<Rightarrow>
          bind_res (deepcopy (site 1 al) key 0) (\<lambda>(k, _).
            case k of
              None \<Rightarrow> Inr (frame, Some Loop_key_copy_failed)
            | Some k' \<Rightarrow>
                (case val of
                   None \<Rightarrow> Inl Null_deref
                 | Some w \<Rightarrow>
                     bind_res (deepcopy (site 2 al) w 0) (\<lambda>(v, _).
                       case v of
                         None \<Rightarrow> Inr (frame, Some Loop_value_copy_failed)
                       | Some v' \<Rightarrow>
                           (case mdict_replace_s (site 3 al) lv ''key'' k' of
                              (lv1, None) \<Rightarrow> Inr (put_value frame x lv1, Some Loop_key_insert_failed)
                            | (lv1, Some _) \<Rightarrow>
                                (case mdict_replace_s (site 4 al) lv1 ''value'' v' of
                                   (lv2, r) \<Rightarrow>
                                     Inr (put_value frame x lv2,
                                          if r = None then Some Loop_value_insert_failed else None)))))))"

function run_nodes ::
    "alloc \<Rightarrow> 'c out_cb \<Rightarrow> (mobject \<Rightarrow> string) \<Rightarrow> mobject option \<Rightarrow> mobject \<Rightarrow> tnode list \<Rightarrow> 'c \<Rightarrow>
       ('c \<times> (nat \<times> run_error) option) res"
and run_node ::
    "alloc \<Rightarrow> 'c out_cb \<Rightarrow> (mobject \<Rightarrow> string) \<Rightarrow> mobject option \<Rightarrow> mobject \<Rightarrow> tnode \<Rightarrow> 'c \<Rightarrow>
       ('c \<times> (nat \<times> run_error) option) res"
and run_items ::
    "alloc \<Rightarrow> 'c out_cb \<Rightarrow> (mobject \<Rightarrow> string) \<Rightarrow> mobject option \<Rightarrow> nat \<Rightarrow> string \<Rightarrow> tnode list \<Rightarrow>
       miterator \<Rightarrow> mobject \<Rightarrow> 'c \<Rightarrow> ('c \<times> (nat \<times> run_error) option) res"
where
  "run_nodes al cb pr ns local_ns [] c = Inr (c, None)"
| "run_nodes al cb pr ns local_ns (n # nodes) c =
     (case run_node (site 0 al) cb pr ns local_ns n c of
        Inl e \<Rightarrow> Inl e
      | Inr (c', Some e) \<Rightarrow> Inr (c', Some e)
      | Inr (c', None) \<Rightarrow> run_nodes (site 1 al) cb pr ns local_ns nodes c')"
| "run_node al cb pr ns local_ns (TNode ty tx lnum v ch el) c =
     (case ty of
        NODE_TEXT \<Rightarrow>
          bind_res (cb (site 0 al) tx c) (\<lambda>(c', r).
            Inr (c', if r = -1 then Some (lnum, Write_error) else None))
      | NODE_DIRECTIVE_IF \<Rightarrow>
          (case fetch_var (site 0 al) tx ns local_ns of
             Inl e \<Rightarrow> Inl e
           | Inr None \<Rightarrow> Inr (c, Some (lnum, Error_in_if))
           | Inr (Some x) \<Rightarrow>
               if mobject_as_boolean (Some x) then run_nodes (site 1 al) cb pr ns local_ns ch c
               else run_nodes (site 2 al) cb pr ns local_ns el c)
      | NODE_DIRECTIVE_FOR \<Rightarrow>
          (case fetch_var (site 0 al) tx ns local_ns of
             Inl e \<Rightarrow> Inl e
           | Inr None \<Rightarrow> Inr (c, Some (lnum, Error_in_for))
           | Inr (Some x) \<Rightarrow>
               (case mobject_getiter (site 1 al) x of
                  None \<Rightarrow> Inr (c, Some (lnum, No_iterator))
                | Some it \<Rightarrow>
                    (case deepcopy (site 2 al) local_ns 0 of
                       Inl e \<Rightarrow> Inl e
                     | Inr (None, _) \<Rightarrow> Inr (c, Some (lnum, No_local_namespace))
                     | Inr (Some frame, _) \<Rightarrow>
                         (case v of
                            Var lv \<Rightarrow>
                              (case mdict_replace_sd (site 3 al) frame lv of
                                 (frame', None) \<Rightarrow> Inr (c, Some (lnum, No_loop_variable))
                               | (frame', Some _) \<Rightarrow>
                                   run_items (site 4 al) cb pr ns lnum lv ch it frame' c)
                          | _ \<Rightarrow> Inl Null_deref))))
      | NODE_DIRECTIVE_SUBST \<Rightarrow>
          (case fetch_var (site 0 al) tx ns local_ns of
             Inl e \<Rightarrow> Inl e
           | Inr None \<Rightarrow> Inr (c, Some (lnum, Error_in_substitution))
           | Inr (Some x) \<Rightarrow> render_mobject (site 1 al) cb pr x lnum c)
      | _ \<Rightarrow> Inr (c, Some (lnum, Unsupported_node ty)))"
| "run_items al cb pr ns lnum lv ch it frame c =
     (case miterator_next (site 0 al) it of
        (None, it') \<Rightarrow> Inr (c, None)
      | (Some (key, val), it') \<Rightarrow>
          (case enter_item (site 1 al) lv key val frame of
             Inl e \<Rightarrow> Inl e
           | Inr (frame', Some e) \<Rightarrow> Inr (c, Some (lnum, e))
           | Inr (frame', None) \<Rightarrow>
               (case run_nodes (site 2 al) cb pr ns frame' ch c of
                  Inl e \<Rightarrow> Inl e
                | Inr (c', Some e) \<Rightarrow> Inr (c', Some e)
                | Inr (c', None) \<Rightarrow> run_items (site 3 al) cb pr ns lnum lv ch it' frame' c')))"
  by pat_completeness auto
termination
  by (relation "inv_image (less_than <*lex*> less_than) (\<lambda>x. case x of
      Inl (al, cb, pr, ns, l, nodes, c) \<Rightarrow> (3 * size_list size nodes, 0)
    | Inr (Inl (al, cb, pr, ns, l, n, c)) \<Rightarrow> (3 * size n, 0)
    | Inr (Inr (al, cb, pr, ns, ln, lv, ch, it, fr, c)) \<Rightarrow> (Suc (3 * size_list size ch), it_left it))")
    (auto dest: miterator_next_left [OF sym])

declare run_node.simps [simp del] run_items.simps [simp del]

definition mtemplate_run_cb ::
  "alloc \<Rightarrow> (mobject \<Rightarrow> string) \<Rightarrow> tnode list \<Rightarrow> mobject option \<Rightarrow> 'c out_cb \<Rightarrow> 'c \<Rightarrow>
     ('c \<times> (nat \<times> run_error) option) res" where
  "mtemplate_run_cb al pr tmpl ns cb c =
     (case mdict_new (site 0 al) of
        None \<Rightarrow> Inr (c, Some (0, No_local_namespace))
      | Some local_ns \<Rightarrow> run_nodes (site 1 al) cb pr ns local_ns tmpl c)"

section \<open>The two callbacks\<close>

text \<open>
  \<open>out_stdio_cb\<close>: the state is what has been written and the outcomes of the next calls of
  \<open>fputs\<close>, which succeeds when none is given.
\<close>

fun out_stdio_cb :: "(string \<times> bool list) out_cb" where
  "out_stdio_cb al None c = Inl Null_deref"
| "out_stdio_cb al (Some s) (out, False # oks) = Inr ((out, oks), -1)"
| "out_stdio_cb al (Some s) (out, oks) = Inr ((out @ s, tl oks), 0)"

definition mtemplate_run_stdio ::
  "alloc \<Rightarrow> (mobject \<Rightarrow> string) \<Rightarrow> tnode list \<Rightarrow> mobject option \<Rightarrow> string \<times> bool list \<Rightarrow>
     ((string \<times> bool list) \<times> (nat \<times> run_error) option) res" where
  "mtemplate_run_stdio al pr tmpl ns out = mtemplate_run_cb al pr tmpl ns out_stdio_cb out"

text \<open>The buffer of the other callback; its string is kept without the NUL.\<close>

record alloc_cb_ctx =
  cx_s :: "string option"
  cx_len :: nat
  cx_alloc :: nat

definition ALLOC_MAX :: nat where
  "ALLOC_MAX = 64 * 1024 * 1024"

definition empty_ctx :: alloc_cb_ctx where
  "empty_ctx = \<lparr>cx_s = None, cx_len = 0, cx_alloc = 0\<rparr>"

text \<open>How many bytes are allocated when \<open>addlen\<close> characters do not fit.\<close>

definition alloc_size :: "nat \<Rightarrow> nat \<Rightarrow> nat" where
  "alloc_size old addlen =
     (if old = 0 then max (addlen + 1) 256
      else let a = min (old * 2) ALLOC_MAX in if a < addlen + 1 then addlen + 1 else a)"

definition out_alloc_cb :: "alloc_cb_ctx out_cb" where
  "out_alloc_cb al buf ctx =
     (case buf of
        None \<Rightarrow> Inl Null_deref
      | Some b \<Rightarrow>
          (let addlen = length b; grows = (cx_len ctx + addlen + 1 > cx_alloc ctx);
               a = (if grows then alloc_size (cx_alloc ctx) addlen else cx_alloc ctx) in
           if addlen = 0 then Inr (ctx, 0)
           else if addlen \<ge> ALLOC_MAX \<or> cx_len ctx + addlen \<ge> ALLOC_MAX then Inr (empty_ctx, -1)
           else if grows \<and> \<not> al 0 then Inr (empty_ctx, -1)
           else if cx_len ctx + addlen + 1 > a then Inl Out_of_bounds
           else Inr (\<lparr>cx_s = Some ((case cx_s ctx of None \<Rightarrow> [] | Some s \<Rightarrow> s) @ b),
                      cx_len = cx_len ctx + addlen, cx_alloc = a\<rparr>, 0)))"

definition mtemplate_run_mbuf ::
  "alloc \<Rightarrow> (mobject \<Rightarrow> string) \<Rightarrow> tnode list \<Rightarrow> mobject option \<Rightarrow>
     (string option \<times> (nat \<times> run_error) option) res" where
  "mtemplate_run_mbuf al pr tmpl ns =
     bind_res (mtemplate_run_cb al pr tmpl ns out_alloc_cb empty_ctx) (\<lambda>(ctx, r).
       Inr (if r = None then cx_s ctx else None, r))"

section \<open>The memory callback\<close>

definition ctx_ok :: "alloc_cb_ctx \<Rightarrow> bool" where
  "ctx_ok ctx \<longleftrightarrow>
     ctx = empty_ctx \<or>
     (\<exists>s. cx_s ctx = Some s \<and> cx_len ctx = length s \<and> s \<noteq> [] \<and> length s < cx_alloc ctx \<and>
        cx_alloc ctx \<le> ALLOC_MAX)"

definition ctx_text :: "alloc_cb_ctx \<Rightarrow> string" where
  "ctx_text ctx = (case cx_s ctx of None \<Rightarrow> [] | Some s \<Rightarrow> s)"

text \<open>
  The buffer is doubled once; what does not fit into twice the old size is written beyond its end.
\<close>

lemma out_alloc_cb_correct:
  assumes "ctx_ok ctx" and "b \<noteq> []" and "cx_len ctx + length b < ALLOC_MAX" and "al 0"
  shows "out_alloc_cb al (Some b) ctx =
    (if 0 < cx_alloc ctx \<and> 2 * cx_alloc ctx < cx_len ctx + length b + 1 then Inl Out_of_bounds
     else Inr (\<lparr>cx_s = Some (ctx_text ctx @ b), cx_len = cx_len ctx + length b,
       cx_alloc = (if cx_len ctx + length b + 1 > cx_alloc ctx
         then alloc_size (cx_alloc ctx) (length b) else cx_alloc ctx)\<rparr>, 0))"
proof -
  have b: "0 < length b" using assms(2) by simp
  from assms(1) consider "ctx = empty_ctx"
    | s where "cx_s ctx = Some s" "cx_len ctx = length s" "s \<noteq> []" "length s < cx_alloc ctx"
        "cx_alloc ctx \<le> ALLOC_MAX" unfolding ctx_ok_def by blast
  then show ?thesis
  proof cases
    case 1
    then show ?thesis using assms b
      by (auto simp: out_alloc_cb_def empty_ctx_def ctx_text_def alloc_size_def Let_def)
  next
    case 2
    then have "0 < length s" by simp
    then show ?thesis using assms b 2
      by (auto simp: out_alloc_cb_def ctx_text_def alloc_size_def Let_def min_def)
  qed
qed

section \<open>Templates without loops\<close>

text \<open>The text of a value.\<close>

fun value_text :: "(mobject \<Rightarrow> string) \<Rightarrow> mobject \<Rightarrow> string" where
  "value_text pr MNone = ''None''"
| "value_text pr (MString s) = cstr s"
| "value_text pr (MInt v) = print_int (sint v)"
| "value_text pr (MArray sl n) = cstr (''marray('' @ pr (MArray sl n) @ '', '' @ digits n @ '')'')"
| "value_text pr (MDict es n) = cstr (''mdict('' @ pr (MDict es n) @ '')'')"

definition look :: "mobject \<Rightarrow> string \<Rightarrow> mobject option" where
  "look ns n = (case mnamespace_lookup all_ok ns n of Inr (Inr x) \<Rightarrow> x | _ \<Rightarrow> None)"

text \<open>What a template means; \<open>None\<close> when a name is not found or there is a loop.\<close>

fun expand :: "(mobject \<Rightarrow> string) \<Rightarrow> mobject \<Rightarrow> tnode list \<Rightarrow> string option" where
  "expand pr ns [] = Some []"
| "expand pr ns (TNode ty tx l v ch el # nodes) =
     (case (case (ty, tx) of
              (NODE_TEXT, Some t) \<Rightarrow> Some t
            | (NODE_DIRECTIVE_SUBST, Some n) \<Rightarrow> map_option (value_text pr) (look ns n)
            | (NODE_DIRECTIVE_IF, Some n) \<Rightarrow>
                (case look ns n of
                   None \<Rightarrow> None
                 | Some x \<Rightarrow> if mobject_as_boolean (Some x) then expand pr ns ch else expand pr ns el)
            | _ \<Rightarrow> None) of
        None \<Rightarrow> None
      | Some a \<Rightarrow> map_option (append a) (expand pr ns nodes))"

lemma cstr_snoc_NUL: "cstr (s @ [NUL]) = cstr s"
  by (induction s) auto

lemma snprintf_cstr: "length t < len \<Longrightarrow> cstr (fst (snprintf t len)) = cstr t"
  by (simp add: snprintf_def cstr_snoc_NUL)

lemma digit_not_NUL: "k < 10 \<Longrightarrow> NUL \<noteq> char_of (48 + k :: nat)"
proof
  assume k: "k < 10" and "NUL = char_of (48 + k)"
  then have "(of_char NUL :: nat) = of_char (char_of (48 + k) :: char)" by simp
  with k show False by simp
qed

lemma digits_no_NUL: "NUL \<notin> set (digits n)"
proof (induction n rule: digits.induct)
  case (1 n)
  have "n mod 10 < 10" by simp
  note d = digit_not_NUL [OF this]
  show ?case
  proof (cases "n < 10")
    case True
    then have "digits n = [char_of (48 + n)]" by (subst digits.simps) simp
    with digit_not_NUL [OF True] show ?thesis by simp
  next
    case False
    then have "digits n = digits (n div 10) @ [char_of (48 + n mod 10)]" by (subst digits.simps) simp
    with d 1 [OF False] show ?thesis by simp
  qed
qed

lemma print_int_no_NUL: "NUL \<notin> set (print_int i)"
  using digits_no_NUL by (simp add: print_int_def)

lemma render_snprintf:
  assumes "\<And>s. cb all_ok (Some s) c = f s" and "mstring_ptr x = None"
    and "\<And>len. mobject_to_string pr x len = snprintf t len"
  shows "render_mobject all_ok cb pr x lnum c =
    bind_res (f (cstr t)) (\<lambda>(c', r). Inr (c', if r \<noteq> 0 then Some (lnum, Write_error) else None))"
proof -
  have p: "mobject_to_string pr x len = (fst (snprintf t len), length t)" for len
    by (simp add: assms(3) snprintf_def)
  show ?thesis
  proof (cases "length t + 1 \<ge> RENDER_MO_ALLOC")
    case True
    have "cstr (fst (snprintf t (length t + 1))) = cstr t" by (rule snprintf_cstr) simp
    then show ?thesis using assms(2) True by (simp add: render_mobject_def write_text_def assms(1) p)
  next
    case False
    then have "cstr (fst (snprintf t RENDER_MO_ALLOC)) = cstr t" by (intro snprintf_cstr) simp
    then show ?thesis using assms(2) False by (simp add: render_mobject_def write_text_def assms(1) p)
  qed
qed

lemma render_text:
  assumes "\<And>s. cb all_ok (Some s) c = f s"
  shows "render_mobject all_ok cb pr x lnum c =
    bind_res (f (value_text pr x)) (\<lambda>(c', r). Inr (c', if r \<noteq> 0 then Some (lnum, Write_error) else None))"
proof (cases x)
  case MNone
  have "render_mobject all_ok cb pr x lnum c =
      bind_res (f (cstr ''None'')) (\<lambda>(c', r). Inr (c', if r \<noteq> 0 then Some (lnum, Write_error) else None))"
    using MNone
    by (simp add: render_mobject_def write_text_def assms RENDER_MO_ALLOC_def strlcpy_correct)
  then show ?thesis using MNone by simp
next
  case (MString s)
  then show ?thesis by (simp add: render_mobject_def write_text_def assms)
next
  case (MInt v)
  have "cstr (print_int (sint v)) = print_int (sint v)" by (rule cstr_id [OF print_int_no_NUL])
  with MInt render_snprintf [of cb c f x pr "print_int (sint v)" lnum, OF assms] show ?thesis by simp
next
  case (MArray sl n)
  from render_snprintf [of cb c f x pr "''marray('' @ pr x @ '', '' @ digits n @ '')''" lnum, OF assms] MArray
  show ?thesis by (simp del: cstr_Cons)
next
  case (MDict es n)
  from render_snprintf [of cb c f x pr "''mdict('' @ pr x @ '')''" lnum, OF assms] MDict
  show ?thesis by (simp del: cstr_Cons)
qed

end
