(* ===== verification/TemplatePrint.thy ===== *)
theory TemplatePrint
  imports TemplateParse
begin

text \<open>
  Printing the nodes of a template and reading them back: \<open>mtemplate_parse\<close> inverts
  \<open>print_nodes\<close> up to line numbers, for every tree of the shape the template language has.
\<close>

section \<open>Printing\<close>

definition directive :: "string \<Rightarrow> string" where
  "directive d = ''{{'' @ d @ ''}}''"

fun print_nodes :: "tnode list \<Rightarrow> string" where
  "print_nodes [] = []"
| "print_nodes (TNode ty txt ln v ch el # ns) =
     (let t = (case txt of None \<Rightarrow> [] | Some t \<Rightarrow> t) in
      if ty = NODE_TEXT then t
      else if ty = NODE_DIRECTIVE_IF then
        directive (''if '' @ t) @ print_nodes ch @
        (if el = [] then [] else directive ''else'' @ print_nodes el) @ directive ''endif''
      else if ty = NODE_DIRECTIVE_FOR then
        directive (''for '' @ (case v of Var x \<Rightarrow> x | _ \<Rightarrow> []) @ '' in '' @ t) @ print_nodes ch @
        directive ''endfor''
      else directive t) @ print_nodes ns"

section \<open>The trees of the language\<close>

text \<open>A text has no directive in it and does not end in an opening brace.\<close>

definition plain :: "string \<Rightarrow> bool" where
  "plain t \<longleftrightarrow> t \<noteq> [] \<and> last t \<noteq> CHR ''{'' \<and>
     (\<forall>i. Suc i < length t \<longrightarrow> t ! i = CHR ''{'' \<longrightarrow> t ! Suc i \<noteq> CHR ''{'')"

definition name :: "string \<Rightarrow> bool" where
  "name n \<longleftrightarrow> n \<noteq> [] \<and> set n \<subseteq> SUBST_OK"

definition no_keyword :: "string \<Rightarrow> bool" where
  "no_keyword n \<longleftrightarrow> (\<forall>(ty, p, parent, want) \<in> set node_info. take (length p) n \<noteq> p)"

fun is_text :: "tnode \<Rightarrow> bool" where
  "is_text (TNode ty txt ln v ch el) \<longleftrightarrow> ty = NODE_TEXT"

text \<open>Two texts are never neighbours.\<close>

fun template_ok :: "tnode list \<Rightarrow> bool" where
  "template_ok [] \<longleftrightarrow> True"
| "template_ok (TNode ty txt ln v ch el # ns) \<longleftrightarrow>
     template_ok ns \<and>
     (case txt of None \<Rightarrow> False
      | Some t \<Rightarrow>
          (ty = NODE_TEXT \<and> plain t \<and> v = No_var \<and> ch = [] \<and> el = [] \<and>
             (ns = [] \<or> \<not> is_text (hd ns)) \<or>
           ty = NODE_DIRECTIVE_SUBST \<and> name t \<and> no_keyword t \<and> v = No_var \<and> ch = [] \<and> el = [] \<or>
           ty = NODE_DIRECTIVE_IF \<and> name t \<and> v = No_var \<and> template_ok ch \<and> template_ok el \<or>
           ty = NODE_DIRECTIVE_FOR \<and> name t \<and> template_ok ch \<and> el = [] \<and>
             (case v of Var x \<Rightarrow> name x | _ \<Rightarrow> False)))"

text \<open>A node without its line numbers.\<close>

fun erase_lnum :: "tnode \<Rightarrow> tnode" where
  "erase_lnum (TNode ty txt ln v ch el) = TNode ty txt 0 v (map erase_lnum ch) (map erase_lnum el)"

section \<open>Searching\<close>

lemma strstr_first:
  assumes "pat \<noteq> []" and "\<And>i. i < length a \<Longrightarrow> take (length pat) (drop i (a @ pat @ b)) \<noteq> pat"
  shows "strstr (a @ pat @ b) pat = Some (length a)"
  using assms(2)
proof (induction a)
  case Nil
  then show ?case using assms(1) by (cases pat) auto
next
  case (Cons c a)
  have "take (length pat) (c # a @ pat @ b) \<noteq> pat" using Cons.prems [of 0] by simp
  moreover have "strstr (a @ pat @ b) pat = Some (length a)"
  proof (rule Cons.IH)
    fix i
    assume "i < length a"
    then show "take (length pat) (drop i (a @ pat @ b)) \<noteq> pat" using Cons.prems [of "Suc i"] by simp
  qed
  ultimately show ?case by simp
qed

text \<open>The first occurrence, when its first character does not occur before.\<close>

lemma strstr_fresh:
  assumes "c \<notin> set a"
  shows "strstr (a @ (c # pat) @ b) (c # pat) = Some (length a)"
proof (rule strstr_first)
  fix i
  assume i: "i < length a"
  then have "hd (drop i (a @ (c # pat) @ b)) = a ! i" by (simp add: hd_drop_conv_nth nth_append)
  with i assms show "take (length (c # pat)) (drop i (a @ (c # pat) @ b)) \<noteq> c # pat"
    by (metis hd_take length_greater_0_conv list.distinct(1) list.sel(1) nth_mem)
qed simp

section \<open>Reading a text\<close>

lemma add_text_ok: "add_text all_ok t l st =
    Inr (add_node (TNode NODE_TEXT (Some t) l No_var [] []) st)"
  by (simp add: add_text_def alloc_node_def close_node_def)

lemma all_ok_shift [simp]: "(\<lambda>j. True) = all_ok"
  by (simp add: all_ok_def)

definition newlines :: "string \<Rightarrow> nat" where
  "newlines s = length (filter (\<lambda>c. c = LF) s)"

lemma newlines_plain: "\<forall>c \<in> set s. c \<noteq> LF \<Longrightarrow> newlines s = 0"
  by (induction s) (auto simp: newlines_def)

lemma newlines_append [simp]: "newlines (s @ t) = newlines s + newlines t"
  by (simp add: newlines_def)

definition at_directive :: "string \<Rightarrow> bool" where
  "at_directive r \<longleftrightarrow> r = [] \<or> (\<exists>r'. r = CHR ''{'' # CHR ''{'' # r')"

lemma plain_end_append:
  assumes "at_directive r" and "p \<le> length t"
  shows "plain_end (t @ r) p = p + length (takeWhile (\<lambda>c. c \<noteq> LF \<and> c \<noteq> CHR ''{'') (drop p t))"
proof -
  have "takeWhile (\<lambda>c. c \<noteq> LF \<and> c \<noteq> CHR ''{'') (s @ r) = takeWhile (\<lambda>c. c \<noteq> LF \<and> c \<noteq> CHR ''{'') s" for s
    using assms(1) by (induction s) (auto simp: at_directive_def)
  then show ?thesis using assms(2) by (simp add: plain_end_def)
qed

lemma template_loop_Nil: "template_loop al i [] 0 l st = Inr (st, l)"
  by (subst template_loop.simps) (simp add: plain_end_def)

lemma template_loop_directive:
  "template_loop all_ok i (CHR ''{'' # CHR ''{'' # r) 0 l st =
     (case parse_directive all_ok r l st of
        Inl (e, st2) \<Rightarrow> Inl ((l, e), st2)
      | Inr (k, st2) \<Rightarrow> template_loop all_ok (i + 6) (drop k r) 0 l st2)"
  by (subst template_loop.simps) (simp add: plain_end_def char_at_def cong: sum.case_cong)

lemma takeWhile_stop:
  assumes "length (takeWhile P s) < length s"
  shows "\<not> P (s ! length (takeWhile P s))"
    and "s = takeWhile P s @ s ! length (takeWhile P s) # drop (Suc (length (takeWhile P s))) s"
proof -
  show "\<not> P (s ! length (takeWhile P s))" by (rule nth_length_takeWhile [OF assms])
  have "take (length (takeWhile P s)) s = takeWhile P s" by (rule takeWhile_eq_take [symmetric])
  with id_take_nth_drop [OF assms]
  show "s = takeWhile P s @ s ! length (takeWhile P s) # drop (Suc (length (takeWhile P s))) s"
    by argo
qed

lemma text_read:
  assumes "plain t" and "at_directive r" and "p \<le> length t"
  shows "template_loop all_ok i (t @ r) p l st =
    template_loop all_ok i r 0 (l + newlines (drop p t))
      (add_node (TNode NODE_TEXT (Some t) (l + newlines (drop p t)) No_var [] []) st)"
  using assms(3)
proof (induction "length t - p" arbitrary: p l rule: less_induct)
  case less
  let ?k = "length (takeWhile (\<lambda>c. c \<noteq> LF \<and> c \<noteq> CHR ''{'') (drop p t))"
  define q where "q = p + ?k"
  have pe: "plain_end (t @ r) p = q" unfolding q_def by (rule plain_end_append [OF assms(2) less.prems])
  show ?case
  proof (cases "q < length t")
    case True
    then have k: "?k < length (drop p t)" unfolding q_def by simp
    from takeWhile_stop [OF k] have
      stop: "t ! q = LF \<or> t ! q = CHR ''{''" and
      split: "drop p t = takeWhile (\<lambda>c. c \<noteq> LF \<and> c \<noteq> CHR ''{'') (drop p t) @ t ! q # drop (Suc q) t"
      using less.prems True unfolding q_def by (auto simp: add.commute)
    have "newlines (takeWhile (\<lambda>c. c \<noteq> LF \<and> c \<noteq> CHR ''{'') (drop p t)) = 0"
      by (rule newlines_plain) (auto dest: set_takeWhileD)
    then have nl: "newlines (drop p t) = newlines [t ! q] + newlines (drop (Suc q) t)"
      using arg_cong [OF split, of newlines] by (simp add: newlines_def)
    have brace: "char_at (t @ r) (Suc q) \<noteq> CHR ''{''" if "t ! q = CHR ''{''"
    proof -
      have "Suc q < length t"
      proof (rule ccontr)
        assume "\<not> Suc q < length t"
        then have "q = length t - 1" "t \<noteq> []" using True by auto
        then have "last t = t ! q" by (simp add: last_conv_nth)
        with that assms(1) show False by (simp add: plain_def)
      qed
      with assms(1) that show ?thesis by (auto simp: plain_def char_at_def nth_append)
    qed
    have lt: "length t - Suc q < length t - p" "Suc q \<le> length t" using True unfolding q_def by auto
    show ?thesis
    proof (cases "t ! q = LF")
      case LF: True
      then have "template_loop all_ok i (t @ r) p l st = template_loop all_ok i (t @ r) (Suc q) (Suc l) st"
        using True by (subst template_loop.simps) (simp add: pe nth_append)
      with less.hyps [OF lt, of "Suc l"] nl LF show ?thesis by (simp add: newlines_def)
    next
      case False
      then have "t ! q = CHR ''{''" using stop by blast
      then have "template_loop all_ok i (t @ r) p l st = template_loop all_ok i (t @ r) (Suc q) l st"
        using True brace by (subst template_loop.simps) (simp add: pe nth_append)
      with less.hyps [OF lt, of l] nl False show ?thesis by (simp add: newlines_def)
    qed
  next
    case False
    have "?k \<le> length (drop p t)" by (rule length_takeWhile_le)
    with False less.prems have k: "?k = length (drop p t)" "q = length t" unfolding q_def by auto
    then have "takeWhile (\<lambda>c. c \<noteq> LF \<and> c \<noteq> CHR ''{'') (drop p t) = drop p t"
      using takeWhile_eq_take [of "\<lambda>c. c \<noteq> LF \<and> c \<noteq> CHR ''{''" "drop p t"] k(1) by simp
    then have nl: "newlines (drop p t) = 0"
      using set_takeWhileD by (intro newlines_plain ballI) force
    have t: "t \<noteq> []" using assms(1) by (simp add: plain_def)
    from assms(2) consider "r = []" | r' where "r = CHR ''{'' # CHR ''{'' # r'"
      unfolding at_directive_def by blast
    then show ?thesis
    proof cases
      case 1
      then show ?thesis using t nl pe k(2)
        by (subst template_loop.simps) (simp add: add_text_ok template_loop_Nil)
    next
      case 2
      have "template_loop all_ok i (t @ r) p l st =
          (case parse_directive all_ok r' l (add_node (TNode NODE_TEXT (Some t) l No_var [] []) st) of
             Inl (e, st2) \<Rightarrow> Inl ((l, e), st2)
           | Inr (k, st2) \<Rightarrow> template_loop all_ok (i + 6) (drop k r') 0 l st2)"
        using t pe k(2) unfolding 2
        by (subst template_loop.simps) (simp add: add_text_ok nth_append char_at_def cong: sum.case_cong)
      then show ?thesis using nl unfolding 2 by (simp add: template_loop_directive)
    qed
  qed
qed

section \<open>Reading a directive\<close>

lemma directive_read:
  assumes "parse_directive all_ok (d @ ''}}'' @ r) l st = Inr (length d + 2, st')"
  shows "template_loop all_ok i (directive d @ r) 0 l st = template_loop all_ok (i + 6) r 0 l st'"
  using assms by (simp add: directive_def template_loop_directive)

lemma name_chars:
  "name n \<Longrightarrow> c \<in> set n \<Longrightarrow> c \<notin> {CHR ''{'', CHR ''}'', CHR '' '', CHR ''#'', LF}"
  by (auto simp: name_def SUBST_OK_def)

lemma find_end: "CHR ''}'' \<notin> set d \<Longrightarrow> strstr (d @ CHR ''}'' # CHR ''}'' # r) ''}}'' = Some (length d)"
  using strstr_fresh [of "CHR ''}''" d "''}''" r] by simp

lemma no_newline: "LF \<notin> set d \<Longrightarrow> LF \<notin> set (take (Suc (length d)) (d @ CHR ''}'' # r))"
  by simp

lemma classify_skip:
  assumes "\<forall>(ty, p, parent, want) \<in> set infos. take (length p) n \<noteq> p"
  shows "classify_loop infos (n @ r) (length n) = classify_rest (n @ r) (length n)"
  using assms
proof (induction infos)
  case (Cons x infos)
  obtain ty p parent want where x: "x = (ty, p, parent, want)" by (metis prod_cases4)
  have "length n < length p \<or> take (length p) (n @ r) \<noteq> p" using Cons.prems x by auto
  with Cons x show ?case by auto
qed simp

lemma classify_subst:
  assumes "name n" and "no_keyword n"
  shows "classify_node (n @ r) (length n) = Some (NODE_DIRECTIVE_SUBST, Some 0)"
proof -
  have n: "n \<noteq> []" "hd (n @ r) \<noteq> CHR ''{''" using assms(1) name_chars [OF assms(1), of "hd n"]
    by (auto simp: name_def)
  have "classify_loop node_info (n @ r) (length n) = classify_rest (n @ r) (length n)"
    by (rule classify_skip) (use assms(2) in \<open>simp add: no_keyword_def\<close>)
  then show ?thesis
    using n assms(1) by (simp add: classify_node_def classify_rest_def name_def Suc_le_eq)
qed

lemma classify_if:
  "t \<noteq> [] \<Longrightarrow> classify_node (''if '' @ t @ r) (length (''if '' @ t)) = Some (NODE_DIRECTIVE_IF, Some 3)"
  by (cases t) (auto simp: classify_node_def node_info_def)

lemma classify_for:
  "t \<noteq> [] \<Longrightarrow> classify_node (''for '' @ t @ r) (length (''for '' @ t)) = Some (NODE_DIRECTIVE_FOR, Some 4)"
  by (cases t) (auto simp: classify_node_def node_info_def)

lemma classify_close:
  "classify_node (''else'' @ r) (length ''else'') = Some (NODE_DIRECTIVE_ELSE, None)"
  "classify_node (''endif'' @ r) (length ''endif'') = Some (NODE_DIRECTIVE_ENDIF, None)"
  "classify_node (''endfor'' @ r) (length ''endfor'') = Some (NODE_DIRECTIVE_ENDFOR, None)"
  by (simp_all add: classify_node_def node_info_def)

lemma node_parents [simp]:
  "mtemplate_node_parent NODE_TEXT = NODE_NONE"
  "mtemplate_node_parent NODE_DIRECTIVE_IF = NODE_NONE"
  "mtemplate_node_parent NODE_DIRECTIVE_FOR = NODE_NONE"
  "mtemplate_node_parent NODE_DIRECTIVE_SUBST = NODE_NONE"
  "mtemplate_node_parent NODE_DIRECTIVE_ELSE = NODE_DIRECTIVE_IF"
  "mtemplate_node_parent NODE_DIRECTIVE_ENDIF = NODE_DIRECTIVE_IF"
  "mtemplate_node_parent NODE_DIRECTIVE_ENDFOR = NODE_DIRECTIVE_FOR"
  by (simp_all add: mtemplate_node_parent_def node_info_def)

text \<open>A directive that is well-formed up to its class.\<close>

definition proper :: "string \<Rightarrow> bool" where
  "proper d \<longleftrightarrow> d \<noteq> [] \<and> CHR ''}'' \<notin> set d \<and> LF \<notin> set d \<and> hd d \<noteq> CHR ''#''"

definition open_node :: "node_type \<Rightarrow> string \<Rightarrow> nat \<Rightarrow> lvar \<Rightarrow> frame" where
  "open_node ty t l v = \<lparr>fr_type = ty, fr_text = Some t, fr_lnum = l, fr_var = v, fr_in_else = False,
     fr_children = [], fr_else = []\<rparr>"

lemma parse_directive_node:
  assumes "proper d" and "classify_node (d @ ''}}'' @ r) (length d) = Some (ty, Some k)" and "k < length d"
    and "mtemplate_node_parent ty = NODE_NONE"
    and "ty \<notin> {NODE_DIRECTIVE_ELSE, NODE_DIRECTIVE_ENDIF, NODE_DIRECTIVE_ENDFOR}"
  shows "parse_directive all_ok (d @ ''}}'' @ r) l st =
    (if ty = NODE_DIRECTIVE_FOR then
       (case parse_for all_ok (drop k d) of
          (t, v, e) \<Rightarrow>
            if e = -1 then Inl (Invalid_for_syntax, open_node ty t l v # st)
            else Inr (length d + 2, open_node ty t l v # st))
     else if ty = NODE_DIRECTIVE_IF then Inr (length d + 2, open_node ty (drop k d) l No_var # st)
     else Inr (length d + 2, add_node (TNode ty (Some (drop k d)) l No_var [] []) st))"
  using assms no_newline [of d "CHR ''}'' # r"] find_end [of d r]
  by (auto simp: parse_directive_def proper_def alloc_node_def open_node_def close_node_def Let_def
      Suc_le_eq split: prod.splits)

lemma name_proper: "name n \<Longrightarrow> proper n"
  using name_chars [of n] by (auto simp: proper_def name_def)

lemma read_subst:
  assumes "name n" and "no_keyword n"
  shows "template_loop all_ok i (directive n @ r) 0 l st =
    template_loop all_ok (i + 6) r 0 l
      (add_node (TNode NODE_DIRECTIVE_SUBST (Some n) l No_var [] []) st)"
proof (rule directive_read)
  have "0 < length n" using assms(1) by (simp add: name_def)
  from parse_directive_node [OF name_proper [OF assms(1)] classify_subst [OF assms] this]
  show "parse_directive all_ok (n @ ''}}'' @ r) l st =
      Inr (length n + 2, add_node (TNode NODE_DIRECTIVE_SUBST (Some n) l No_var [] []) st)"
    by simp
qed

lemma read_if:
  assumes "name n"
  shows "template_loop all_ok i (directive (''if '' @ n) @ r) 0 l st =
    template_loop all_ok (i + 6) r 0 l (open_node NODE_DIRECTIVE_IF n l No_var # st)"
proof (rule directive_read)
  have "n \<noteq> []" using assms by (simp add: name_def)
  moreover from this have "proper (''if '' @ n)" using name_proper [OF assms] by (simp add: proper_def)
  ultimately show "parse_directive all_ok ((''if '' @ n) @ ''}}'' @ r) l st =
      Inr (length (''if '' @ n) + 2, open_node NODE_DIRECTIVE_IF n l No_var # st)"
    using parse_directive_node [of "''if '' @ n" r NODE_DIRECTIVE_IF 3 l st] classify_if [of n "''}}'' @ r"]
    by simp
qed

lemma read_for:
  assumes "name n" and "name x"
  shows "template_loop all_ok i (directive (''for '' @ x @ '' in '' @ n) @ r) 0 l st =
    template_loop all_ok (i + 6) r 0 l (open_node NODE_DIRECTIVE_FOR n l (Var x) # st)"
proof (rule directive_read)
  let ?e = "x @ '' in '' @ n"
  have sp: "CHR '' '' \<notin> set x" "CHR '' '' \<notin> set n"
    using name_chars [OF assms(1)] name_chars [OF assms(2)] by auto
  have "strstr ?e '' in '' = Some (length x)" using strstr_fresh [OF sp(1), of "''in ''" n] by simp
  then have "parse_for all_ok ?e = (n, Var x, 0)" using sp by (simp add: parse_for_def Let_def)
  moreover have "proper (''for '' @ ?e)"
    using name_proper [OF assms(1)] name_proper [OF assms(2)] by (simp add: proper_def)
  ultimately show "parse_directive all_ok ((''for '' @ ?e) @ ''}}'' @ r) l st =
      Inr (length (''for '' @ ?e) + 2, open_node NODE_DIRECTIVE_FOR n l (Var x) # st)"
    using parse_directive_node [of "''for '' @ ?e" r NODE_DIRECTIVE_FOR 4 l st]
      classify_for [of ?e "''}}'' @ r"] by simp
qed

lemma read_close:
  "template_loop all_ok i (directive ''else'' @ r) 0 l (f # st) =
     template_loop all_ok (i + 6) r 0 l (f\<lparr>fr_in_else := True\<rparr> # st)"
  if "fr_type f = NODE_DIRECTIVE_IF" and "\<not> fr_in_else f"
  using that find_end [of "''else''" r] classify_close(1) [of "''}}'' @ r"]
  by (intro directive_read) (simp add: parse_directive_def Let_def)

lemma read_end:
  assumes "fr_type f = NODE_DIRECTIVE_IF \<and> d = ''endif'' \<or> fr_type f = NODE_DIRECTIVE_FOR \<and> d = ''endfor''"
  shows "template_loop all_ok i (directive d @ r) 0 l (f # st) =
     template_loop all_ok (i + 6) r 0 l (add_node (close_node f) st)"
  using assms find_end [of d r] classify_close [of "''}}'' @ r"]
  by (intro directive_read) (auto simp: parse_directive_def Let_def)

section \<open>What is printed is parsed\<close>

definition add_nodes :: "tnode list \<Rightarrow> frame \<Rightarrow> frame" where
  "add_nodes ns f =
     (if active_else f then f\<lparr>fr_else := fr_else f @ ns\<rparr> else f\<lparr>fr_children := fr_children f @ ns\<rparr>)"

lemma add_nodes_simps:
  "add_nodes [] f = f"
  "active_else (add_nodes ns f) = active_else f"
  "fr_type (add_nodes ns f) = fr_type f"
  "fr_in_else (add_nodes ns f) = fr_in_else f"
  "add_node n (f # fs) = add_nodes [n] f # fs"
  "add_nodes ms (add_nodes ns f) = add_nodes (ns @ ms) f"
  by (auto simp: add_nodes_def active_else_def)

lemma add_nodes_open:
  "add_nodes ns (open_node ty t l v) = (open_node ty t l v)\<lparr>fr_children := ns\<rparr>"
  by (simp add: add_nodes_def active_else_def open_node_def)

lemma print_starts:
  "template_ok ns \<Longrightarrow> ns = [] \<or> \<not> is_text (hd ns) \<Longrightarrow> at_directive r \<Longrightarrow> at_directive (print_nodes ns @ r)"
  by (cases ns rule: print_nodes.cases) (auto simp: at_directive_def directive_def Let_def)

lemma at_directive_directive: "at_directive (directive d @ r)"
  by (simp add: at_directive_def directive_def)

lemma print_parse:
  "template_ok ns \<Longrightarrow> at_directive r \<Longrightarrow>
   \<exists>i' l' ns'. map erase_lnum ns' = map erase_lnum ns \<and>
     template_loop all_ok i (print_nodes ns @ r) 0 l (f # fs) = template_loop all_ok i' r 0 l' (add_nodes ns' f # fs)"
proof (induction ns arbitrary: i l r f fs rule: print_nodes.induct)
  case 1
  show ?case by (rule exI [of _ i], rule exI [of _ l], rule exI [of _ "[]"]) (simp add: add_nodes_simps)
next
  case (2 ty tx ln v ch el ns)
  let ?r = "print_nodes ns @ r"
  from "2.prems"(1) have ns: "template_ok ns" by simp
  from "2.prems"(1) obtain t where t: "tx = Some t" by (cases tx) auto
  \<comment> \<open>the node is read, then the others\<close>
  have rest: ?case
    if "erase_lnum n' = erase_lnum (TNode ty tx ln v ch el)"
      and "template_loop all_ok i (print_nodes [TNode ty tx ln v ch el] @ ?r) 0 l (f # fs) =
        template_loop all_ok i1 ?r 0 l1 (add_node n' (f # fs))" for i1 l1 n'
  proof -
    have "print_nodes (TNode ty tx ln v ch el # ns) @ r = print_nodes [TNode ty tx ln v ch el] @ ?r"
      by simp
    moreover from "2.IH"(4) [OF ns "2.prems"(2)] obtain i2 l2 ns' where
      "map erase_lnum ns' = map erase_lnum ns"
      "template_loop all_ok i1 ?r 0 l1 (add_nodes [n'] f # fs) =
         template_loop all_ok i2 r 0 l2 (add_nodes ns' (add_nodes [n'] f) # fs)" by blast
    ultimately show ?thesis
      using that by (intro exI [of _ i2] exI [of _ l2] exI [of _ "n' # ns'"]) (simp only: add_nodes_simps, simp)
  qed
  from "2.prems"(1) t consider
    (plain_text) "ty = NODE_TEXT" "plain t" "v = No_var" "ch = []" "el = []" "ns = [] \<or> \<not> is_text (hd ns)"
  | (subst) "ty = NODE_DIRECTIVE_SUBST" "name t" "no_keyword t" "v = No_var" "ch = []" "el = []"
  | (cond) "ty = NODE_DIRECTIVE_IF" "name t" "v = No_var" "template_ok ch" "template_ok el"
  | (loop) x where "ty = NODE_DIRECTIVE_FOR" "name t" "v = Var x" "name x" "template_ok ch" "el = []"
    by (cases v) auto
  then show ?case
  proof cases
    case plain_text
    have "at_directive ?r" by (rule print_starts [OF ns plain_text(6) "2.prems"(2)])
    from text_read [OF plain_text(2) this, of 0 i l "f # fs"] show ?thesis
      by (intro rest) (simp_all add: plain_text t)
  next
    case subst
    show ?thesis
      by (rule rest [of "TNode NODE_DIRECTIVE_SUBST (Some t) l No_var [] []" "i + 6" l])
        (simp_all add: subst t read_subst)
  next
    case (loop x)
    let ?g = "open_node NODE_DIRECTIVE_FOR t l (Var x)"
    from "2.IH"(3) [OF refl _ _ loop(1,5) at_directive_directive [of "''endfor''" ?r], of "i + 6" l ?g "f # fs"]
    obtain i1 l1 ch' where c: "map erase_lnum ch' = map erase_lnum ch"
      "template_loop all_ok (i + 6) (print_nodes ch @ directive ''endfor'' @ ?r) 0 l (?g # f # fs) =
       template_loop all_ok i1 (directive ''endfor'' @ ?r) 0 l1 (add_nodes ch' ?g # f # fs)"
      by (auto simp: loop)
    have "template_loop all_ok i1 (directive ''endfor'' @ ?r) 0 l1 (add_nodes ch' ?g # f # fs) =
        template_loop all_ok (i1 + 6) ?r 0 l1 (add_node (close_node (add_nodes ch' ?g)) (f # fs))"
      by (rule read_end) (simp add: add_nodes_simps open_node_def)
    then have "template_loop all_ok i (print_nodes [TNode ty tx ln v ch el] @ ?r) 0 l (f # fs) =
        template_loop all_ok (i1 + 6) ?r 0 l1 (add_node (close_node (add_nodes ch' ?g)) (f # fs))"
      using read_for [OF loop(2,4), of i "print_nodes ch @ directive ''endfor'' @ ?r" l "f # fs"] c(2)
      by (simp add: loop t)
    moreover have "close_node (add_nodes ch' ?g) = TNode NODE_DIRECTIVE_FOR (Some t) l (Var x) ch' []"
      by (simp add: add_nodes_def active_else_def close_node_def open_node_def)
    ultimately show ?thesis
      by (intro rest) (use c(1) loop in \<open>simp_all add: t\<close>)
  next
    case cond
    let ?g = "open_node NODE_DIRECTIVE_IF t l No_var"
    let ?e = "directive ''endif'' @ ?r"
    let ?R = "(if el = [] then [] else directive ''else'' @ print_nodes el) @ ?e"
    have "at_directive ?R" using at_directive_directive by auto
    from "2.IH"(1) [OF refl _ cond(1,4) this, of "i + 6" l ?g "f # fs"]
    obtain i1 l1 ch' where c: "map erase_lnum ch' = map erase_lnum ch"
      "template_loop all_ok (i + 6) (print_nodes ch @ ?R) 0 l (?g # f # fs) =
       template_loop all_ok i1 ?R 0 l1 (add_nodes ch' ?g # f # fs)"
      by (auto simp: cond)
    have endif: "template_loop all_ok j ?e 0 k (h # f # fs) = template_loop all_ok (j + 6) ?r 0 k (add_node (close_node h) (f # fs))"
      if "fr_type h = NODE_DIRECTIVE_IF" for j k h
      by (rule read_end) (simp add: that)
    show ?thesis
    proof (cases "el = []")
      case True
      then have "template_loop all_ok i (print_nodes [TNode ty tx ln v ch el] @ ?r) 0 l (f # fs) =
          template_loop all_ok (i1 + 6) ?r 0 l1 (add_node (close_node (add_nodes ch' ?g)) (f # fs))"
        using c(2) endif [of "add_nodes ch' ?g" i1 l1] cond
          read_if [OF cond(2), of i "print_nodes ch @ ?R" l "f # fs"]
        by (simp add: t add_nodes_simps open_node_def)
      moreover have "close_node (add_nodes ch' ?g) = TNode NODE_DIRECTIVE_IF (Some t) l No_var ch' []"
        by (simp add: add_nodes_def active_else_def close_node_def open_node_def)
      ultimately show ?thesis
        by (intro rest) (use True c(1) cond in \<open>simp_all add: t\<close>)
    next
      case False
      let ?h = "(add_nodes ch' ?g)\<lparr>fr_in_else := True\<rparr>"
      from "2.IH"(2) [OF refl _ cond(1) False cond(5) at_directive_directive [of "''endif''" ?r], of "i1 + 6" l1 ?h "f # fs"]
      obtain i2 l2 el' where d: "map erase_lnum el' = map erase_lnum el"
        "template_loop all_ok (i1 + 6) (print_nodes el @ ?e) 0 l1 (?h # f # fs) =
         template_loop all_ok i2 ?e 0 l2 (add_nodes el' ?h # f # fs)"
        by (auto simp: cond)
      have "template_loop all_ok i1 ?R 0 l1 (add_nodes ch' ?g # f # fs) =
          template_loop all_ok (i1 + 6) (print_nodes el @ ?e) 0 l1 (?h # f # fs)"
        using False by (simp add: read_close add_nodes_simps open_node_def)
      then have "template_loop all_ok i (print_nodes [TNode ty tx ln v ch el] @ ?r) 0 l (f # fs) =
          template_loop all_ok (i2 + 6) ?r 0 l2 (add_node (close_node (add_nodes el' ?h)) (f # fs))"
        using False c(2) d(2) endif [of "add_nodes el' ?h" i2 l2] cond
          read_if [OF cond(2), of i "print_nodes ch @ ?R" l "f # fs"]
        by (simp add: t add_nodes_simps open_node_def)
      moreover have "close_node (add_nodes el' ?h) = TNode NODE_DIRECTIVE_IF (Some t) l No_var ch' el'"
        by (simp add: add_nodes_def active_else_def close_node_def open_node_def)
      ultimately show ?thesis
        by (intro rest) (use c(1) d(1) cond in \<open>simp_all add: t\<close>)
    qed
  qed
qed

lemma parse_print:
  assumes "template_ok ns"
  shows "\<exists>ns'. mtemplate_parse all_ok (print_nodes ns) = Inr (Inr ns') \<and> map erase_lnum ns' = map erase_lnum ns"
proof -
  from print_parse [OF assms, of "[]" 0 1 root_frame "[]"] obtain i l ns' where
    "map erase_lnum ns' = map erase_lnum ns"
    "template_loop all_ok 0 (print_nodes ns) 0 1 [root_frame] = Inr ([add_nodes ns' root_frame], l)"
    by (auto simp: at_directive_def template_loop_Nil)
  moreover have "fr_children (add_nodes ns' root_frame) = ns'"
    by (simp add: add_nodes_def active_else_def root_frame_def)
  ultimately show ?thesis by (simp add: mtemplate_parse_def)
qed

section \<open>Errors\<close>

text \<open>
  A loop with more than one word behind \<open>in\<close>: \<open>parse_for\<close> frees the loop variable, and the parser
  frees it once more with the node.
\<close>

lemma free_fault: "mtemplate_free_nodes ns = Inl e \<Longrightarrow> e = Use_after_free"
  by (induction ns rule: mtemplate_free_nodes.induct) (auto simp: bind_res_def split: if_splits sum.splits)

lemma free_freed:
  "mtemplate_free_nodes (ns @ [TNode ty t l Freed_var ch el]) = Inl Use_after_free"
proof (induction ns)
  case (Cons n ns)
  obtain ty' t' l' v' ch' el' where "n = TNode ty' t' l' v' ch' el'" by (cases n) auto
  then have "\<exists>e. mtemplate_free_nodes ((n # ns) @ [TNode ty t l Freed_var ch el]) = Inl e"
    using Cons by (auto simp: bind_res_def split: sum.splits)
  then show ?case using free_fault by blast
qed simp

lemma bad_for_double_free:
  assumes "template_ok ns" and "name x" and "CHR '' '' \<in> set e" and "CHR ''}'' \<notin> set e" and "LF \<notin> set e"
  shows "mtemplate_parse all_ok (print_nodes ns @ directive (''for '' @ x @ '' in '' @ e) @ r) =
    Inl Use_after_free"
proof -
  let ?d = "''for '' @ x @ '' in '' @ e"
  from print_parse [OF assms(1) at_directive_directive [of ?d r], of 0 1 root_frame "[]"] obtain i l ns' where
    p: "template_loop all_ok 0 (print_nodes ns @ directive ?d @ r) 0 1 [root_frame] =
      template_loop all_ok i (directive ?d @ r) 0 l [add_nodes ns' root_frame]" by blast
  have "strstr (x @ '' in '' @ e) '' in '' = Some (length x)"
    using strstr_fresh [of "CHR '' ''" x "''in ''" e] name_chars [OF assms(2)] by auto
  then have "parse_for all_ok (x @ '' in '' @ e) = (x, Freed_var, -1)"
    using assms(3) by (simp add: parse_for_def Let_def)
  moreover have "proper ?d"
    using name_proper [OF assms(2)] assms(4,5) by (simp add: proper_def)
  ultimately have "parse_directive all_ok (?d @ ''}}'' @ r) l [add_nodes ns' root_frame] =
      Inl (Invalid_for_syntax, open_node NODE_DIRECTIVE_FOR x l Freed_var # [add_nodes ns' root_frame])"
    using parse_directive_node [of ?d r NODE_DIRECTIVE_FOR 4 l "[add_nodes ns' root_frame]"]
      classify_for [of "x @ '' in '' @ e" "''}}'' @ r"] by simp
  then have "template_loop all_ok i (directive ?d @ r) 0 l [add_nodes ns' root_frame] =
      Inl ((l, Invalid_for_syntax), open_node NODE_DIRECTIVE_FOR x l Freed_var # [add_nodes ns' root_frame])"
    by (simp add: directive_def template_loop_directive)
  moreover have "close_all (open_node NODE_DIRECTIVE_FOR x l Freed_var # [add_nodes ns' root_frame]) =
      ns' @ [TNode NODE_DIRECTIVE_FOR (Some x) l Freed_var [] []]"
    by (simp add: add_nodes_def active_else_def root_frame_def close_node_def open_node_def)
  ultimately show ?thesis
    using p by (simp add: mtemplate_parse_def mtemplate_free_def free_freed)
qed

text \<open>\<open>{{text}}\<close>, or any directive that begins with this word, becomes a text without a text.\<close>

lemma text_directive_null:
  assumes "CHR ''}'' \<notin> set w" and "LF \<notin> set w"
  shows "mtemplate_parse all_ok (directive (''text'' @ w)) = Inr (Inr [TNode NODE_TEXT None 1 No_var [] []])"
proof -
  have "classify_node (''text'' @ w @ ''}}'') (length (''text'' @ w)) = Some (NODE_TEXT, None)"
    by (simp add: classify_node_def node_info_def)
  then have "parse_directive all_ok ((''text'' @ w) @ ''}}'') 1 [root_frame] =
      Inr (length (''text'' @ w) + 2, add_node (TNode NODE_TEXT None 1 No_var [] []) [root_frame])"
    using assms find_end [of "''text'' @ w" "[]"] no_newline [of "''text'' @ w" "''}''"]
    by (simp add: parse_directive_def alloc_node_def close_node_def)
  then have "template_loop all_ok 0 (directive (''text'' @ w)) 0 1 [root_frame] =
      Inr (add_node (TNode NODE_TEXT None 1 No_var [] []) [root_frame], 1)"
    by (simp add: directive_def template_loop_directive template_loop_Nil)
  then show ?thesis by (simp add: mtemplate_parse_def root_frame_def active_else_def)
qed

declare all_ok_shift [simp del]

end
