(* ===== verification/TemplateSpec.thy ===== *)
theory TemplateSpec
  imports TemplateRun TemplatePrint
begin

text \<open>
  What a template does from its text to its output: a template without loops writes the text it
  means, a directive that begins with the word \<open>text\<close> crashes the run, and two texts of which
  the second is long overflow the buffer of \<open>mtemplate_run_mbuf\<close>.
\<close>

declare all_ok_shift [simp]

section \<open>Lookup\<close>

lemma lookup_empty: "\<exists>e. mnamespace_lookup al (MDict [] 0) n = Inr (Inl e)"
proof -
  have "mdict_item_s al' (MDict [] 0) k = None" for al' k
    by (auto simp: mdict_item_s_def mstring_new_def mstring_new2_def)
  then show ?thesis
    by (auto simp: mnamespace_lookup_def lookup_name.simps split: prod.splits)
qed

lemma fetch_look:
  assumes "look ns n = Some x"
  shows "fetch_var all_ok (Some n) (Some ns) (MDict [] 0) = Inr (Some x)"
proof -
  from assms have "mnamespace_lookup all_ok ns n = Inr (Inr (Some x))"
    by (auto simp: look_def split: sum.splits)
  moreover obtain e where "mnamespace_lookup all_ok (MDict [] 0) n = Inr (Inl e)"
    using lookup_empty by blast
  ultimately show ?thesis by (simp add: fetch_var_def)
qed

section \<open>Templates without loops\<close>

lemma run_expand:
  assumes "expand pr ns nodes = Some out"
    and "\<And>s t. cb all_ok (Some s) (f t) = Inr (f (t @ s), 0)"
  shows "run_nodes all_ok cb pr (Some ns) (MDict [] 0) nodes (f t) = Inr (f (t @ out), None)"
  using assms(1)
proof (induction pr ns nodes arbitrary: t out rule: expand.induct)
  case (2 pr ns ty tx l v ch el nodes)
  from "2.prems" obtain n where n: "tx = Some n" by (cases tx) (auto split: node_type.splits)
  define a where "a =
     (case ty of
        NODE_TEXT \<Rightarrow> (case tx of None \<Rightarrow> None | Some x \<Rightarrow> Some x)
      | NODE_DIRECTIVE_IF \<Rightarrow>
          (case tx of
             None \<Rightarrow> None
           | Some n \<Rightarrow>
               (case look ns n of
                  None \<Rightarrow> None
                | Some x \<Rightarrow> if mobject_as_boolean (Some x) then expand pr ns ch else expand pr ns el))
      | NODE_DIRECTIVE_SUBST \<Rightarrow>
          (case tx of None \<Rightarrow> None | Some n \<Rightarrow> map_option (value_text pr) (look ns n))
      | _ \<Rightarrow> None)"
  have "expand pr ns (TNode ty tx l v ch el # nodes) =
      (case a of None \<Rightarrow> None | Some x \<Rightarrow> map_option (append x) (expand pr ns nodes))"
    unfolding a_def by (cases ty; cases tx) (simp_all del: mobject_as_boolean.simps)
  with "2.prems" obtain a0 where a0: "a = Some a0" by (cases a) auto
  have node: ?case
    if "run_node all_ok cb pr (Some ns) (MDict [] 0) (TNode ty tx l v ch el) (f t) = Inr (f (t @ a), None)"
      and "expand pr ns nodes = Some b" and "out = a @ b" for a b
    using "2.IH"(3) [OF a0 [unfolded a_def] that(2), of "t @ a"] that by simp
  from "2.prems" n consider
    (plain_text) b where "ty = NODE_TEXT" "expand pr ns nodes = Some b" "out = n @ b"
  | (subst) x b where "ty = NODE_DIRECTIVE_SUBST" "look ns n = Some x" "expand pr ns nodes = Some b"
      "out = value_text pr x @ b"
  | (yes) x a b where "ty = NODE_DIRECTIVE_IF" "look ns n = Some x" "mobject_as_boolean (Some x)"
      "expand pr ns ch = Some a" "expand pr ns nodes = Some b" "out = a @ b"
  | (no) x a b where "ty = NODE_DIRECTIVE_IF" "look ns n = Some x" "\<not> mobject_as_boolean (Some x)"
      "expand pr ns el = Some a" "expand pr ns nodes = Some b" "out = a @ b"
    by (auto split: node_type.splits option.splits if_splits simp del: mobject_as_boolean.simps)
  then show ?case
  proof cases
    case plain_text
    then show ?thesis by (intro node [of n b]) (simp_all add: run_node.simps n assms(2))
  next
    case subst
    have "render_mobject all_ok cb pr x l (f t) = Inr (f (t @ value_text pr x), None)"
      by (subst render_text [of cb "f t" "\<lambda>s. Inr (f (t @ s), 0)"]) (simp_all add: assms(2))
    with subst show ?thesis
      by (intro node [of "value_text pr x" b]) (simp_all add: run_node.simps n fetch_look)
  next
    case yes
    have "run_nodes all_ok cb pr (Some ns) (MDict [] 0) ch (f t) = Inr (f (t @ a), None)"
      by (rule "2.IH"(1)) (use yes n in auto)
    with yes show ?thesis
      by (intro node [of a b]) (simp_all add: run_node.simps n fetch_look del: mobject_as_boolean.simps)
  next
    case no
    have "run_nodes all_ok cb pr (Some ns) (MDict [] 0) el (f t) = Inr (f (t @ a), None)"
      by (rule "2.IH"(2)) (use no n in auto)
    with no show ?thesis
      by (intro node [of a b]) (simp_all add: run_node.simps n fetch_look del: mobject_as_boolean.simps)
  qed
qed simp

lemma expand_erase: "expand pr ns (map erase_lnum nodes) = expand pr ns nodes"
proof (induction pr ns nodes rule: expand.induct)
  case (2 pr ns ty tx l v ch el nodes)
  show ?case
  proof (cases tx)
    case (Some n)
    then show ?thesis using 2 by (cases ty) (auto split: option.splits simp del: mobject_as_boolean.simps)
  next
    case None
    then show ?thesis by (cases ty) simp_all
  qed
qed simp

lemma template_output:
  assumes "template_ok nodes" and "expand pr ns nodes = Some e"
  shows "\<exists>tmpl. mtemplate_parse all_ok (print_nodes nodes) = Inr (Inr tmpl) \<and>
    mtemplate_run_stdio all_ok pr tmpl (Some ns) (out, []) = Inr ((out @ e, []), None)"
proof -
  from parse_print [OF assms(1)] obtain tmpl where
    p: "mtemplate_parse all_ok (print_nodes nodes) = Inr (Inr tmpl)"
    and m: "map erase_lnum tmpl = map erase_lnum nodes" by blast
  have "expand pr ns tmpl = Some e"
    using expand_erase [of pr ns tmpl] expand_erase [of pr ns nodes] assms(2) m by simp
  from run_expand [OF this, of out_stdio_cb "\<lambda>t. (t, [])" out] p show ?thesis
    by (simp add: mtemplate_run_stdio_def mtemplate_run_cb_def mdict_new_def)
qed

section \<open>Faults\<close>

text \<open>The node of a \<open>{{text}}\<close> directive makes every callback look at a NULL text.\<close>

lemma text_directive_crashes:
  assumes "CHR ''}'' \<notin> set w" and "LF \<notin> set w"
  shows "\<exists>tmpl. mtemplate_parse all_ok (directive (''text'' @ w)) = Inr (Inr tmpl) \<and>
    mtemplate_run_mbuf all_ok pr tmpl ns = Inl Null_deref \<and>
    mtemplate_run_stdio all_ok pr tmpl ns out = Inl Null_deref"
  using text_directive_null [OF assms]
  by (simp add: mtemplate_run_mbuf_def mtemplate_run_stdio_def mtemplate_run_cb_def mdict_new_def
      run_node.simps out_alloc_cb_def)

lemma erase_leaf:
  "erase_lnum n = TNode ty tx l No_var [] [] \<Longrightarrow> \<exists>l'. n = TNode ty tx l' No_var [] []"
  by (cases n) auto

lemma look_entry: "look (MDict [(''a'', x)] 1) ''a'' = Some x"
proof -
  have "lookup_name all_ok (MDict [(''a'', x)] 1) ''a'' 0 = Inr (Inr (Some x))"
    by (subst lookup_name_step [of all_ok "''a''" "''a'' @ [NUL]" 1 _ x])
      (auto simp: strstcpy_correct upto_stop_def MNAMESPACE_MAX_ID_LENGTH_def)
  then show ?thesis by (simp add: look_def mnamespace_lookup_def)
qed

text \<open>
  A text and a value: the first allocation has 256 bytes, the second at most 512 when the value
  alone would fit into them.
\<close>

lemma second_text_overflows:
  assumes "plain t" and "length t < 256" and "NUL \<notin> set s"
    and "512 \<le> length t + length s" and "length t + length s < ALLOC_MAX"
  shows "\<exists>tmpl. mtemplate_parse all_ok (t @ directive ''a'') = Inr (Inr tmpl) \<and>
    mtemplate_run_mbuf all_ok pr tmpl (Some (MDict [(''a'', MString s)] 1)) = Inl Out_of_bounds"
proof -
  let ?ns = "MDict [(''a'', MString s)] 1"
  let ?nodes = "[TNode NODE_TEXT (Some t) 0 No_var [] [], TNode NODE_DIRECTIVE_SUBST (Some ''a'') 0 No_var [] []]"
  have "template_ok ?nodes"
    using assms(1) by (simp add: name_def no_keyword_def SUBST_OK_def node_info_def)
  from parse_print [OF this] obtain tmpl where
    p: "mtemplate_parse all_ok (t @ directive ''a'') = Inr (Inr tmpl)"
    and m: "map erase_lnum tmpl = ?nodes" by auto
  from m obtain l1 l2 where tmpl: "tmpl = [TNode NODE_TEXT (Some t) l1 No_var [] [],
      TNode NODE_DIRECTIVE_SUBST (Some ''a'') l2 No_var [] []]"
  proof -
    from m obtain n1 n2 where "tmpl = [n1, n2]" "erase_lnum n1 = TNode NODE_TEXT (Some t) 0 No_var [] []"
      "erase_lnum n2 = TNode NODE_DIRECTIVE_SUBST (Some ''a'') 0 No_var [] []"
      by (auto simp: map_eq_Cons_conv)
    with erase_leaf [of n1] erase_leaf [of n2] that show ?thesis by blast
  qed
  have t: "0 < length t" using assms(1) by (simp add: plain_def)
  define c1 where "c1 = \<lparr>cx_s = Some t, cx_len = length t, cx_alloc = 256\<rparr>"
  have 1: "out_alloc_cb all_ok (Some t) empty_ctx = Inr (c1, 0)"
    using t assms(2) by (subst out_alloc_cb_correct)
      (auto simp: ctx_ok_def empty_ctx_def ctx_text_def c1_def alloc_size_def ALLOC_MAX_def)
  have "ctx_ok c1" using t assms(2) by (auto simp: ctx_ok_def c1_def ALLOC_MAX_def)
  then have 2: "out_alloc_cb all_ok (Some s) c1 = Inl Out_of_bounds"
    using assms(2,4,5) by (subst out_alloc_cb_correct) (auto simp: c1_def)
  have "run_nodes all_ok out_alloc_cb pr (Some ?ns) (MDict [] 0) tmpl empty_ctx = Inl Out_of_bounds"
    unfolding tmpl using 1 2 assms(3)
    by (simp add: run_node.simps fetch_look [OF look_entry] render_mobject_def write_text_def cstr_id)
  with p show ?thesis by (simp add: mtemplate_run_mbuf_def mtemplate_run_cb_def mdict_new_def)
qed

declare all_ok_shift [simp del]

end
