(* ===== verification/LogProcess.thy ===== *)
theory LogProcess
  imports FdUtils "HOL-Library.Sublist"
begin

text \<open>
  The reading side of a logging process, \<open>log_lib/src/process.c\<close>: bytes from a pipe are cut into
  lines, and each line is handed to a \<open>process_t\<close> callback.

  The buffer is the C string it holds; the bytes a \<open>read\<close> puts behind it become part of that
  string up to their first NUL. What a callback is given is collected in a list, with the index
  of the input when several are polled. A descriptor in blocking mode that has no event blocks
  (\<open>None\<close>); in non-blocking mode the call fails with \<open>EAGAIN\<close>.

  Lemmas: complete lines are delivered in order and once, however the bytes arrive; what is
  lost at the end of the input, behind a NUL byte and in a line longer than the buffer.
\<close>

section \<open>Cutting a buffer into lines\<close>

text \<open>
  \<open>process_buffer\<close>: the lines delivered, the rest that moves to the front of the buffer, and the
  number of the next allocation. A line whose copy cannot be allocated is skipped.
\<close>

function process_buffer :: "alloc \<Rightarrow> nat \<Rightarrow> string \<Rightarrow> string list \<times> string \<times> nat" where
  "process_buffer al i cur =
     (case split_at LF cur of
        None \<Rightarrow> ([], cur, i)
      | Some (ln, cur') \<Rightarrow>
          (let (ms, rest, k) = process_buffer al (Suc i) cur'
           in (if al i then (ln @ [LF]) # ms else ms, rest, k)))"
  by pat_completeness auto
termination
  by (relation "measure (\<lambda>(al, i, cur). length cur)") (auto simp: split_at_Some)

declare process_buffer.simps [simp del]

section \<open>One input, in blocking mode\<close>

definition OVERRUN :: string where
  "OVERRUN = ''...''"

text \<open>The start of a turn: a full buffer is replaced by the mark, which must fit with its NUL.\<close>

definition make_room :: "nat \<Rightarrow> string \<Rightarrow> string res" where
  "make_room buf_size buf =
     (if buf_size - length buf - 1 = 0
      then (if buf_size \<le> length OVERRUN then Inl Out_of_bounds else Inr OVERRUN)
      else Inr buf)"

text \<open>How much the events still hold, the measure of the reading loops.\<close>

fun volume :: "bytes event list \<Rightarrow> nat" where
  "volume [] = 0"
| "volume (Ev d # evs) = Suc (length d) + volume evs"
| "volume (Err e # evs) = Suc (volume evs)"

lemma recv_sys_volume:
  "recv_sys len evs = Some (Err e, evs') \<Longrightarrow> volume evs' < volume evs"
  "recv_sys len evs = Some (Ev d, evs') \<Longrightarrow> d \<noteq> [] \<Longrightarrow> volume evs' < volume evs"
  by (auto simp: recv_sys_def split: list.splits event.splits if_splits)

text \<open>\<open>process_input\<close>: the lines delivered, what is left in the buffer, the remaining events.\<close>

function input_loop ::
  "alloc \<Rightarrow> nat \<Rightarrow> nat \<Rightarrow> string \<Rightarrow> bytes event list \<Rightarrow>
   (string list \<times> string \<times> bytes event list) res option" where
  "input_loop al i buf_size buf evs =
     (case make_room buf_size buf of
        Inl f \<Rightarrow> Some (Inl f)
      | Inr buf1 \<Rightarrow>
          (case recv_sys (buf_size - length buf1 - 1) evs of
             None \<Rightarrow> None
           | Some (Err e, evs') \<Rightarrow>
               check_eintr e (input_loop al i buf_size buf1 evs') (Some (Inr ([], buf1, evs')))
           | Some (Ev d, evs') \<Rightarrow>
               if d = [] then Some (Inr ([], buf1, evs'))
               else
                 (let (ms, rest, k) = process_buffer al i (cstr (buf1 @ d))
                  in map_option (map_sum id (\<lambda>(ms', r, e). (ms @ ms', r, e)))
                       (input_loop al k buf_size rest evs'))))"
  by pat_completeness auto
termination
  by (relation "measure (\<lambda>(al, i, buf_size, buf, evs). volume evs)") (auto dest: recv_sys_volume)

declare input_loop.simps [simp del]

definition process_input ::
  "alloc \<Rightarrow> nat \<Rightarrow> bytes event list \<Rightarrow> (string list \<times> string \<times> bytes event list) res option" where
  "process_input al buf_size evs = input_loop al 0 buf_size [] evs"

section \<open>Several inputs, in non-blocking mode\<close>

definition recv_nb :: "nat \<Rightarrow> bytes event list \<Rightarrow> bytes event \<times> bytes event list" where
  "recv_nb len evs = (case recv_sys len evs of None \<Rightarrow> (Err EAGAIN, []) | Some x \<Rightarrow> x)"

lemma recv_nb_volume:
  "recv_nb len evs = (Err EINTR, evs') \<Longrightarrow> volume evs' < volume evs"
  "recv_nb len evs = (Ev d, evs') \<Longrightarrow> d \<noteq> [] \<Longrightarrow> volume evs' < volume evs"
  by (auto simp: recv_nb_def dest: recv_sys_volume split: option.splits)

text \<open>\<open>process_nonblock\<close>: whether the input is to be closed, the lines, the buffer, the events.\<close>

function process_nonblock ::
  "alloc \<Rightarrow> nat \<Rightarrow> nat \<Rightarrow> string \<Rightarrow> bytes event list \<Rightarrow>
   (bool \<times> string list \<times> string \<times> bytes event list) res" where
  "process_nonblock al i buf_size buf evs =
     (case make_room buf_size buf of
        Inl f \<Rightarrow> Inl f
      | Inr buf1 \<Rightarrow>
          (case recv_nb (buf_size - length buf1 - 1) evs of
             (Err e, evs') \<Rightarrow>
               if e = EINTR then process_nonblock al i buf_size buf1 evs'
               else if e = EAGAIN then Inr (False, [], buf1, evs')
               else Inr (True, [], buf1, evs')
           | (Ev d, evs') \<Rightarrow>
               if d = [] then Inr (True, [], buf1, evs')
               else
                 (let (ms, rest, k) = process_buffer al i (cstr (buf1 @ d))
                  in map_sum id (\<lambda>(c, ms', r, e). (c, ms @ ms', r, e))
                       (process_nonblock al k buf_size rest evs'))))"
  by pat_completeness auto
termination
  by (relation "measure (\<lambda>(al, i, buf_size, buf, evs). volume evs)") (auto dest: recv_nb_volume [OF sym])

declare process_nonblock.simps [simp del]

text \<open>
  One entry of \<open>poll_fds\<close> with its buffer: \<open>in_open\<close> is whether its descriptor is not \<open>-1\<close>.
  Of \<open>revents\<close> the model has readable and hung up or failed. The numbering of allocations starts
  anew for each entry.
\<close>

record input =
  in_open :: bool
  in_buf :: string
  in_evs :: "bytes event list"

record revents =
  ev_in :: bool
  ev_hup :: bool

text \<open>The body of the loop over the entries that \<open>poll\<close> reported; \<open>nfds\<close> is still open.\<close>

definition inputs_entry ::
  "alloc \<Rightarrow> nat \<Rightarrow> revents \<Rightarrow> input \<Rightarrow> (bool \<times> string list \<times> input) res" where
  "inputs_entry al buf_size re inp =
     (if ev_in re
      then map_sum id (\<lambda>(closing, ms, buf, evs).
             (let closing' = (closing \<or> ev_hup re)
              in (closing', ms, inp\<lparr>in_open := \<not> closing', in_buf := buf, in_evs := evs\<rparr>)))
             (process_nonblock al 0 buf_size (in_buf inp) (in_evs inp))
      else Inr (ev_hup re, [], inp\<lparr>in_open := \<not> ev_hup re\<rparr>))"

fun inputs_round ::
  "alloc \<Rightarrow> nat \<Rightarrow> nat \<Rightarrow> nat \<Rightarrow> (revents \<times> input) list \<Rightarrow>
   (nat \<times> (nat \<times> string) list \<times> input list) res" where
  "inputs_round al buf_size i nevents [] = Inr (0, [], [])"
| "inputs_round al buf_size i nevents ((re, inp) # es) =
     (if nevents = 0 then Inr (0, [], inp # map snd es)
      else if \<not> in_open inp \<or> \<not> (ev_in re \<or> ev_hup re)
      then map_sum id (\<lambda>(closed, ms, inps). (closed, ms, inp # inps))
             (inputs_round al buf_size (Suc i) nevents es)
      else
        bind_res (inputs_entry al buf_size re inp) (\<lambda>(closing, ms, inp').
          map_sum id (\<lambda>(closed, ms', inps).
              ((if closing then Suc closed else closed), map (Pair i) ms @ ms', inp' # inps))
            (inputs_round al buf_size (Suc i) (nevents - 1) es)))"

text \<open>
  The result of \<open>poll\<close> is what it reports per entry; it counts the open entries with an event.
  The loop ends when no input is open; with no further result of \<open>poll\<close> it blocks.
\<close>

definition nevents_of :: "(revents \<times> input) list \<Rightarrow> nat" where
  "nevents_of es =
     length [e \<leftarrow> es. in_open (snd e) \<and> (ev_in (fst e) \<or> ev_hup (fst e))]"

fun inputs_loop ::
  "alloc \<Rightarrow> nat \<Rightarrow> nat \<Rightarrow> input list \<Rightarrow> (nat \<Rightarrow> revents) event list \<Rightarrow>
   (int \<times> (nat \<times> string) list \<times> input list) res option" where
  "inputs_loop al buf_size nfds inps polls =
     (if nfds = 0 then Some (Inr (0, [], inps))
      else
        (case polls of
           [] \<Rightarrow> None
         | Err e # polls' \<Rightarrow>
             check_eintr e (inputs_loop al buf_size nfds inps polls') (Some (Inr (-1, [], inps)))
         | Ev revs # polls' \<Rightarrow>
             (let es = zip (map revs [0..<length inps]) inps; nevents = nevents_of es
              in if nfds < nevents then Some (Inl Assert_failed)
                 else
                   (case inputs_round al buf_size 0 nevents es of
                      Inl f \<Rightarrow> Some (Inl f)
                    | Inr (closed, ms, inps') \<Rightarrow>
                        map_option (map_sum id (\<lambda>(r, ms', out). (r, ms @ ms', out)))
                          (inputs_loop al buf_size (nfds - closed) inps' polls')))))"

declare inputs_loop.simps [simp del]

text \<open>\<open>poll_inputs\<close>: an input is given by what its descriptor will deliver and by whether it can be
  put into non-blocking mode.\<close>

definition poll_inputs ::
  "alloc \<Rightarrow> nat \<Rightarrow> (bool \<times> bytes event list) list \<Rightarrow> (nat \<Rightarrow> revents) event list \<Rightarrow>
   (int \<times> (nat \<times> string) list \<times> input list) res option" where
  "poll_inputs al buf_size fds polls =
     (let inps = map (\<lambda>(_, evs). \<lparr>in_open = True, in_buf = [], in_evs = evs\<rparr>) fds
      in if \<exists>(ok, evs) \<in> set fds. \<not> ok then Some (Inr (-1, [], inps))
         else inputs_loop al buf_size (length fds) inps polls)"

section \<open>Lines\<close>

definition is_line :: "string \<Rightarrow> bool" where
  "is_line m \<longleftrightarrow> m \<noteq> [] \<and> last m = LF \<and> LF \<notin> set (butlast m)"

lemma is_line_snoc [simp]: "is_line (a @ [LF]) \<longleftrightarrow> LF \<notin> set a"
  by (simp add: is_line_def)

text \<open>\<open>fits k n s\<close>: no stretch of \<open>s\<close> without a line feed reaches \<open>k\<close> characters, when \<open>n\<close> have
  been counted before it.\<close>

fun fits :: "nat \<Rightarrow> nat \<Rightarrow> string \<Rightarrow> bool" where
  "fits k n [] \<longleftrightarrow> n < k"
| "fits k n (c # s) \<longleftrightarrow> n < k \<and> fits k (if c = LF then 0 else Suc n) s"

lemma fits_less: "fits k n s \<Longrightarrow> n < k"
  by (cases s) auto

lemma fits_append_no_LF: "LF \<notin> set u \<Longrightarrow> fits k n (u @ s) \<longleftrightarrow> fits k (n + length u) s"
proof (induction u arbitrary: n)
  case (Cons c u)
  have "fits k (n + length (c # u)) s \<Longrightarrow> n < k" using fits_less by fastforce
  with Cons show ?case by auto
qed simp

lemma fits_lines: "\<forall>m \<in> set ms. is_line m \<Longrightarrow> fits k 0 (concat ms @ s) \<Longrightarrow> fits k 0 s"
proof (induction ms)
  case (Cons m ms)
  from Cons.prems(1) obtain a where m: "m = a @ [LF]" and a: "LF \<notin> set a"
    by (metis append_butlast_last_id is_line_def list.set_intros(1))
  from Cons.prems(2) have "fits k 0 (a @ LF # concat ms @ s)" by (simp add: m)
  with a have "fits k 0 (concat ms @ s)" by (simp add: fits_append_no_LF)
  with Cons show ?case by simp
qed simp

lemma fits_shorter: "LF \<notin> set u \<Longrightarrow> fits k 0 (u @ s) \<Longrightarrow> length u < k"
  by (simp add: fits_append_no_LF fits_less)

lemma process_buffer_cuts:
  "process_buffer all_ok i s = (ms, rest, k) \<Longrightarrow>
   s = concat ms @ rest \<and> (\<forall>m \<in> set ms. is_line m) \<and> LF \<notin> set rest"
proof (induction "all_ok" i s arbitrary: ms rest k rule: process_buffer.induct)
  case (1 i s)
  show ?case
  proof (cases "split_at LF s")
    case None
    with "1.prems" show ?thesis by (simp add: process_buffer.simps split_at_None)
  next
    case (Some p)
    obtain ln s' where p: "p = (ln, s')" by (cases p)
    obtain ms' r' k' where rec: "process_buffer all_ok (Suc i) s' = (ms', r', k')" by (metis prod_cases3)
    with Some p "1.prems" have "ms = (ln @ [LF]) # ms'" and "rest = r'"
      by (simp_all add: process_buffer.simps [of _ i])
    with "1.hyps" [OF Some p [symmetric] rec] Some p show ?thesis by (auto simp: split_at_Some)
  qed
qed

text \<open>When copies fail, the lines that are delivered are still in order.\<close>

lemma process_buffer_subseq:
  "\<exists>ms rest k ms'. process_buffer al i s = (ms, rest, k) \<and> process_buffer all_ok i s = (ms', rest, k) \<and>
     subseq ms ms'"
proof (induction al i s rule: process_buffer.induct)
  case (1 al i s)
  show ?case
  proof (cases "split_at LF s")
    case None
    then show ?thesis by (simp add: process_buffer.simps)
  next
    case (Some p)
    with "1.IH" [OF Some, of "fst p" "snd p"]
    show ?thesis by (auto simp: process_buffer.simps [of _ i] split: prod.splits)
  qed
qed

section \<open>The reading loops deliver the lines\<close>

lemma make_room_id: "length buf < size_b - 1 \<Longrightarrow> make_room size_b buf = Inr buf"
  by (auto simp: make_room_def)

lemma recv_sys_pending:
  "recv_sys len evs = Some (Ev d, evs') \<Longrightarrow> pending evs = d @ pending evs' \<and> length d \<le> len"
  "recv_sys len evs = Some (Err e, evs') \<Longrightarrow> pending evs = pending evs'"
  by (auto simp: recv_sys_def split: list.splits event.splits if_splits)

lemma recv_nb_pending:
  "recv_nb len evs = (Ev d, evs') \<Longrightarrow> pending evs = d @ pending evs'"
  "recv_nb len evs = (Err e, evs') \<Longrightarrow> pending evs = pending evs'"
  by (auto simp: recv_nb_def recv_sys_def split: option.splits list.splits event.splits if_splits)

text \<open>What a buffer and the events behind it must satisfy for no byte to be lost.\<close>

definition clean_input :: "nat \<Rightarrow> string \<Rightarrow> bytes event list \<Rightarrow> bool" where
  "clean_input buf_size buf evs \<longleftrightarrow>
     LF \<notin> set buf \<and> NUL \<notin> set (buf @ pending evs) \<and> fits (buf_size - 1) 0 (buf @ pending evs)"

lemma clean_input_room: "clean_input n buf evs \<Longrightarrow> make_room n buf = Inr buf"
  by (metis clean_input_def fits_shorter make_room_id)

lemma clean_input_step:
  assumes "clean_input n buf evs" and "pending evs = d @ pending evs'"
    and "process_buffer all_ok i (cstr (buf @ d)) = (ms, rest, k)"
  shows "clean_input n rest evs'" and "buf @ d = concat ms @ rest" and "\<forall>m \<in> set ms. is_line m"
proof -
  from assms(1,2) have *: "cstr (buf @ d) = buf @ d" by (auto simp: clean_input_def intro: cstr_id)
  from process_buffer_cuts [OF assms(3)] * show eq: "buf @ d = concat ms @ rest"
    and lines: "\<forall>m \<in> set ms. is_line m" by simp_all
  from assms(1,2) eq have "fits (n - 1) 0 (concat ms @ rest @ pending evs')"
    by (simp add: clean_input_def flip: append_assoc)
  with lines have "fits (n - 1) 0 (rest @ pending evs')" by (rule fits_lines)
  moreover from eq have "set rest \<subseteq> set (buf @ d)" by simp
  ultimately show "clean_input n rest evs'"
    using assms(1,2) process_buffer_cuts [OF assms(3)] by (auto simp: clean_input_def)
qed

text \<open>Input that only pauses for signals.\<close>

definition flowing :: "bytes event list \<Rightarrow> bool" where
  "flowing evs \<longleftrightarrow> (\<forall>e \<in> set evs. e = Err EINTR \<or> (\<exists>d. d \<noteq> [] \<and> e = Ev d))"

lemma recv_sys_flowing:
  assumes "flowing (e # pre)" and "0 < len"
  shows "\<exists>r pre'. recv_sys len ((e # pre) @ evs) = Some (r, pre' @ evs) \<and> flowing pre' \<and>
    volume pre' < volume (e # pre) \<and>
    (r = Err EINTR \<and> pending (e # pre) = pending pre' \<or>
     (\<exists>d. r = Ev d \<and> d \<noteq> [] \<and> pending (e # pre) = d @ pending pre'))"
proof (cases e)
  case (Err x)
  with assms show ?thesis by (auto simp: recv_sys_def flowing_def)
next
  case (Ev d)
  with assms show ?thesis
    by (cases "length d \<le> len"; intro exI [of _ "Ev (take len d)"]
        exI [of _ "if length d \<le> len then pre else Ev (drop len d) # pre"])
      (auto simp: recv_sys_def flowing_def)
qed

lemma pending_append [simp]: "pending (xs @ ys) = pending xs @ pending ys"
  by (induction xs rule: pending.induct) simp_all

lemma input_loop_lines:
  "clean_input n buf pre \<Longrightarrow> flowing pre \<Longrightarrow>
   \<exists>ms rest. input_loop all_ok i n buf (pre @ [Ev []]) = Some (Inr (ms, rest, [])) \<and>
     concat ms @ rest = buf @ pending pre \<and> (\<forall>m \<in> set ms. is_line m) \<and> LF \<notin> set rest"
proof (induction "volume pre" arbitrary: i buf pre rule: less_induct)
  case less
  note room = clean_input_room [OF less.prems(1)]
  show ?case
  proof (cases pre)
    case Nil
    with room less.prems show ?thesis
      by (simp add: input_loop.simps [of _ _ _ _ "[Ev []]"] recv_sys_def clean_input_def)
  next
    case (Cons e pre0)
    from less.prems(1) have "0 < n - length buf - 1"
      using fits_shorter [of buf "n - 1" "pending pre"] by (auto simp: clean_input_def)
    with less.prems(2) Cons obtain r pre'
      where r: "recv_sys (n - length buf - 1) (pre @ [Ev []]) = Some (r, pre' @ [Ev []])"
        and pre': "flowing pre'" "volume pre' < volume pre"
        and cases: "r = Err EINTR \<and> pending pre = pending pre' \<or>
          (\<exists>d. r = Ev d \<and> d \<noteq> [] \<and> pending pre = d @ pending pre')"
      using recv_sys_flowing [of e pre0 "n - length buf - 1" "[Ev []]"] by blast
    from cases show ?thesis
    proof
      assume "r = Err EINTR \<and> pending pre = pending pre'"
      with r room less.hyps [of pre' buf i] pre' less.prems show ?thesis
        by (simp add: input_loop.simps [of _ i _ _ "pre @ _"] clean_input_def c_defs)
    next
      assume "\<exists>d. r = Ev d \<and> d \<noteq> [] \<and> pending pre = d @ pending pre'"
      then obtain d where d: "r = Ev d" "d \<noteq> []" "pending pre = d @ pending pre'" by blast
      obtain ms1 rest1 k where pb: "process_buffer all_ok i (cstr (buf @ d)) = (ms1, rest1, k)"
        by (metis prod_cases3)
      note step = clean_input_step [OF less.prems(1) d(3) pb]
      from less.hyps [OF pre'(2) step(1) pre'(1), of k] obtain ms rest
        where rec: "input_loop all_ok k n rest1 (pre' @ [Ev []]) = Some (Inr (ms, rest, []))"
          and rest: "concat ms @ rest = rest1 @ pending pre'" "\<forall>m \<in> set ms. is_line m" "LF \<notin> set rest"
        by blast
      have "input_loop all_ok i n buf (pre @ [Ev []]) = Some (Inr (ms1 @ ms, rest, []))"
        using r room d pb rec by (subst input_loop.simps) simp
      moreover have "concat (ms1 @ ms) @ rest = buf @ pending pre"
        using step(2) d(3) rest(1) by (metis append.assoc concat_append)
      ultimately show ?thesis using step(3) rest by (metis UnE set_append)
    qed
  qed
qed

lemma process_nonblock_lines:
  "clean_input n buf evs \<Longrightarrow>
   \<exists>c ms rest evs'. process_nonblock all_ok i n buf evs = Inr (c, ms, rest, evs') \<and>
     clean_input n rest evs' \<and> buf @ pending evs = concat ms @ rest @ pending evs' \<and>
     (\<forall>m \<in> set ms. is_line m)"
proof (induction "volume evs" arbitrary: i buf evs rule: less_induct)
  case less
  note room = clean_input_room [OF less.prems]
  obtain r evs' where r: "recv_nb (n - length buf - 1) evs = (r, evs')" by (metis prod.exhaust)
  show ?case
  proof (cases r)
    case (Err e)
    have p: "pending evs = pending evs'" using r Err recv_nb_pending by simp
    with less.prems have clean: "clean_input n buf evs'" by (simp add: clean_input_def)
    show ?thesis
    proof (cases "e = EINTR")
      case True
      with r Err have "volume evs' < volume evs" by (auto dest: recv_nb_volume)
      from less.hyps [OF this clean, of i] True r Err room p show ?thesis
        by (simp add: process_nonblock.simps [of _ i _ _ evs])
    next
      case False
      with r Err room p clean show ?thesis
        by (cases "e = EAGAIN") (auto simp: process_nonblock.simps [of _ i _ _ evs])
    qed
  next
    case (Ev d)
    show ?thesis
    proof (cases "d = []")
      case True
      with r Ev have "pending evs = pending evs'" using recv_nb_pending by fastforce
      with less.prems r Ev True room show ?thesis
        by (auto simp: process_nonblock.simps [of _ i _ _ evs] clean_input_def)
    next
      case False
      obtain ms1 rest1 k where pb: "process_buffer all_ok i (cstr (buf @ d)) = (ms1, rest1, k)"
        by (metis prod_cases3)
      have p: "pending evs = d @ pending evs'" using r Ev recv_nb_pending by simp
      note step = clean_input_step [OF less.prems p pb]
      have "volume evs' < volume evs" using r Ev False by (auto dest: recv_nb_volume)
      from less.hyps [OF this step(1), of k] obtain c ms rest evs2
        where rec: "process_nonblock all_ok k n rest1 evs' = Inr (c, ms, rest, evs2)"
          and rest: "clean_input n rest evs2" "rest1 @ pending evs' = concat ms @ rest @ pending evs2"
            "\<forall>m \<in> set ms. is_line m"
        by blast
      have "process_nonblock all_ok i n buf evs = Inr (c, ms1 @ ms, rest, evs2)"
        using r room Ev False pb rec by (subst process_nonblock.simps) simp
      moreover have "buf @ pending evs = concat (ms1 @ ms) @ rest @ pending evs2"
        using step(2) p rest(2) by (metis append.assoc concat_append)
      ultimately show ?thesis using step(3) rest by (metis UnE set_append)
    qed
  qed
qed

section \<open>Several inputs\<close>

declare all_ok_apply [simp del]

definition clean_slot :: "nat \<Rightarrow> input \<Rightarrow> bool" where
  "clean_slot n inp \<longleftrightarrow> clean_input n (in_buf inp) (in_evs inp)"

text \<open>All that an input still holds, and the lines of input \<open>j\<close> among those delivered.\<close>

definition held :: "input \<Rightarrow> bytes" where
  "held inp = in_buf inp @ pending (in_evs inp)"

definition lines_of :: "nat \<Rightarrow> (nat \<times> string) list \<Rightarrow> string list" where
  "lines_of j ms = map snd (filter (\<lambda>m. fst m = j) ms)"

lemma lines_of_simps [simp]:
  "lines_of j [] = []"
  "lines_of j (ms @ ms') = lines_of j ms @ lines_of j ms'"
  "lines_of j (map (Pair i) xs) = (if i = j then xs else [])"
  by (auto simp: lines_of_def filter_map o_def)

lemma inputs_entry_lines:
  assumes "clean_slot n inp"
  shows "\<exists>c ms inp'. inputs_entry all_ok n re inp = Inr (c, ms, inp') \<and> clean_slot n inp' \<and>
    held inp = concat ms @ held inp' \<and> (\<forall>m \<in> set ms. is_line m) \<and> in_open inp' = (\<not> c) \<and>
    (ev_hup re \<longrightarrow> c)"
proof (cases "ev_in re")
  case False
  with assms show ?thesis by (auto simp: inputs_entry_def clean_slot_def held_def)
next
  case True
  from process_nonblock_lines [of n "in_buf inp" "in_evs inp" 0] assms show ?thesis
    by (auto simp: inputs_entry_def True clean_slot_def held_def Let_def)
qed

text \<open>What a round, and the whole loop, does to inputs numbered from \<open>i\<close>.\<close>

definition delivers :: "nat \<Rightarrow> nat \<Rightarrow> input list \<Rightarrow> (nat \<times> string) list \<Rightarrow> input list \<Rightarrow> bool" where
  "delivers n i inps ms inps' \<longleftrightarrow>
     length inps' = length inps \<and> list_all (clean_slot n) inps' \<and> (\<forall>m \<in> set ms. i \<le> fst m) \<and>
     (\<forall>j < length inps. held (inps ! j) = concat (lines_of (i + j) ms) @ held (inps' ! j) \<and>
        (\<forall>m \<in> set (lines_of (i + j) ms). is_line m))"

definition open_count :: "input list \<Rightarrow> nat" where
  "open_count inps = length (filter in_open inps)"

lemma delivers_refl: "list_all (clean_slot n) inps \<Longrightarrow> delivers n i inps [] inps"
  by (simp add: delivers_def)

lemma delivers_trans:
  "delivers n i inps ms inps' \<Longrightarrow> delivers n i inps' ms' inps'' \<Longrightarrow> delivers n i inps (ms @ ms') inps''"
  unfolding delivers_def by auto

lemma lines_of_none: "\<forall>m \<in> set ms. i < fst m \<Longrightarrow> lines_of i ms = []"
  by (auto simp: lines_of_def filter_empty_conv)

lemma delivers_Cons:
  assumes "delivers n (Suc i) inps ms' inps'" and "clean_slot n inp'"
    and "held inp = concat ms @ held inp'" and "\<forall>m \<in> set ms. is_line m"
  shows "delivers n i (inp # inps) (map (Pair i) ms @ ms') (inp' # inps')"
proof -
  have none: "lines_of i ms' = []"
    using assms(1) by (intro lines_of_none) (auto simp: delivers_def Suc_le_eq)
  show ?thesis
    unfolding delivers_def
  proof (intro conjI allI impI ballI, goal_cases)
    case (4 j)
    then show ?case using assms none by (cases j) (auto simp: delivers_def)
  next
    case (5 j m)
    then show ?case using assms none by (cases j) (auto simp: delivers_def)
  qed (use assms in \<open>auto simp: delivers_def\<close>)
qed

lemma inputs_round_delivers:
  "list_all (clean_slot n) (map snd es) \<Longrightarrow>
   \<exists>closed ms inps'. inputs_round all_ok n i k es = Inr (closed, ms, inps') \<and>
     delivers n i (map snd es) ms inps' \<and>
     open_count (map snd es) = closed + open_count inps'"
proof (induction es arbitrary: i k)
  case Nil
  then show ?case by (simp add: delivers_def)
next
  case (Cons e es)
  obtain re inp where e: "e = (re, inp)" by (cases e)
  have tail: "list_all (clean_slot n) (map snd es)" using Cons.prems by simp
  consider "k = 0" | "k \<noteq> 0" "\<not> in_open inp \<or> \<not> (ev_in re \<or> ev_hup re)"
    | "k \<noteq> 0" "in_open inp" "ev_in re \<or> ev_hup re" by blast
  then show ?case
  proof cases
    case 1
    with Cons.prems e show ?thesis by (simp add: delivers_refl)
  next
    case 2
    from Cons.IH [OF tail, of "Suc i" k] obtain closed ms inps'
      where *: "inputs_round all_ok n (Suc i) k es = Inr (closed, ms, inps')"
        "delivers n (Suc i) (map snd es) ms inps'" "open_count (map snd es) = closed + open_count inps'"
      by blast
    with delivers_Cons [OF *(2), of inp inp "[]"] Cons.prems e 2 show ?thesis
      by (auto simp: open_count_def)
  next
    case 3
    from Cons.IH [OF tail, of "Suc i" "k - 1"] obtain closed ms inps'
      where *: "inputs_round all_ok n (Suc i) (k - 1) es = Inr (closed, ms, inps')"
        "delivers n (Suc i) (map snd es) ms inps'" "open_count (map snd es) = closed + open_count inps'"
      by blast
    from inputs_entry_lines [of n inp re] Cons.prems e obtain c ms0 inp'
      where entry: "inputs_entry all_ok n re inp = Inr (c, ms0, inp')" "clean_slot n inp'"
        "held inp = concat ms0 @ held inp'" "\<forall>m \<in> set ms0. is_line m" "in_open inp' = (\<not> c)"
      by auto
    from delivers_Cons [OF *(2) entry(2-4)] * entry e 3 show ?thesis
      by (auto simp: open_count_def)
  qed
qed

lemma nevents_le_open: "nevents_of es \<le> open_count (map snd es)"
  by (induction es) (auto simp: nevents_of_def open_count_def)

lemma map_snd_zip_upt: "map snd (zip (map f [0..<length xs]) xs) = xs"
  by simp

lemma inputs_loop_delivers:
  "inputs_loop all_ok n nfds inps polls = Some x \<Longrightarrow> list_all (clean_slot n) inps \<Longrightarrow>
   nfds = open_count inps \<Longrightarrow>
   \<exists>r ms out. x = Inr (r, ms, out) \<and> delivers n 0 inps ms out \<and> (r = 0 \<longrightarrow> open_count out = 0)"
proof (induction polls arbitrary: nfds inps x)
  case Nil
  then show ?case by (auto simp: inputs_loop.simps delivers_refl split: if_splits)
next
  case (Cons ev polls)
  show ?case
  proof (cases "nfds = 0")
    case True
    with Cons.prems show ?thesis by (auto simp: inputs_loop.simps delivers_refl)
  next
    case False
    show ?thesis
    proof (cases ev)
      case (Err e)
      with Cons False show ?thesis
        by (cases "e = EINTR") (auto simp: inputs_loop.simps [of _ _ _ _ "_ # _"] c_defs delivers_refl)
    next
      case (Ev revs)
      let ?es = "zip (map revs [0..<length inps]) inps"
      have ok: "\<not> nfds < nevents_of ?es"
        using nevents_le_open [of ?es] Cons.prems(3) by simp
      obtain closed ms inps' where round:
        "inputs_round all_ok n 0 (nevents_of ?es) ?es = Inr (closed, ms, inps')"
        "delivers n 0 inps ms inps'" "open_count inps = closed + open_count inps'"
        using inputs_round_delivers [of n ?es 0 "nevents_of ?es"] Cons.prems(2) by auto
      from Cons.prems(1) Ev False ok round(1) obtain y
        where y: "inputs_loop all_ok n (nfds - closed) inps' polls = Some y"
          and x: "x = map_sum id (\<lambda>(r, ms', out). (r, ms @ ms', out)) y"
        by (auto simp: inputs_loop.simps [of _ _ _ _ "_ # _"] Let_def)
      from Cons.IH [OF y] round Cons.prems(3) obtain r ms' out
        where "y = Inr (r, ms', out)" "delivers n 0 inps' ms' out" "r = 0 \<longrightarrow> open_count out = 0"
        by (auto simp: delivers_def)
      with x delivers_trans [OF round(2)] show ?thesis by auto
    qed
  qed
qed

text \<open>When every input has hung up, the loop ends.\<close>

lemma inputs_round_closes:
  "list_all (clean_slot n) (map snd es) \<Longrightarrow> \<forall>e \<in> set es. ev_hup (fst e) \<Longrightarrow> nevents_of es \<le> k \<Longrightarrow>
   inputs_round all_ok n i k es = Inr (closed, ms, inps') \<Longrightarrow> open_count inps' = 0"
proof (induction es arbitrary: i k closed ms inps')
  case Nil
  then show ?case by (simp add: open_count_def)
next
  case (Cons e es)
  obtain re inp where e: "e = (re, inp)" by (cases e)
  show ?case
  proof (cases "in_open inp")
    case True
    with Cons.prems e have k: "k \<noteq> 0" "nevents_of es \<le> k - 1" by (auto simp: nevents_of_def)
    from inputs_entry_lines [of n inp re] Cons.prems e obtain ms0 inp'
      where "inputs_entry all_ok n re inp = Inr (True, ms0, inp')" "\<not> in_open inp'" by auto
    with Cons.prems e k True Cons.IH [of "k - 1" "Suc i"] show ?thesis
      by (cases "inputs_round all_ok n (Suc i) (k - 1) es") (auto simp: open_count_def)
  next
    case False
    show ?thesis
    proof (cases "k = 0")
      case True
      with Cons.prems(2,3,4) e False show ?thesis
        by (auto simp: nevents_of_def open_count_def filter_empty_conv)
    next
      case k: False
      from False Cons.prems(3) e have "nevents_of es \<le> k" by (simp add: nevents_of_def)
      with Cons.prems e k False Cons.IH [of k "Suc i"] show ?thesis
        by (cases "inputs_round all_ok n (Suc i) k es") (auto simp: open_count_def)
    qed
  qed
qed

lemma inputs_loop_returns:
  "list_all (clean_slot n) inps \<Longrightarrow> nfds = open_count inps \<Longrightarrow>
   \<exists>x. inputs_loop all_ok n nfds inps (polls @ [Ev (\<lambda>_. \<lparr>ev_in = b, ev_hup = True\<rparr>)]) = Some x"
proof (induction polls arbitrary: nfds inps)
  case Nil
  let ?es = "zip (map (\<lambda>_. \<lparr>ev_in = b, ev_hup = True\<rparr>) [0..<length inps]) inps"
  have es: "list_all (clean_slot n) (map snd ?es)" and ok: "\<not> nfds < nevents_of ?es"
    using Nil nevents_le_open [of ?es] by simp_all
  obtain closed ms inps' where round:
    "inputs_round all_ok n 0 (nevents_of ?es) ?es = Inr (closed, ms, inps')"
    "open_count inps = closed + open_count inps'"
    using inputs_round_delivers [OF es, of 0 "nevents_of ?es"] by auto
  have "\<forall>e \<in> set ?es. ev_hup (fst e)" by (auto simp: set_zip)
  with round(1) have "open_count inps' = 0" using inputs_round_closes [OF es] by blast
  with ok round Nil show ?case by (auto simp: inputs_loop.simps Let_def)
next
  case (Cons ev polls)
  show ?case
  proof (cases ev)
    case (Err e)
    with Cons show ?thesis by (auto simp: inputs_loop.simps [of _ _ _ _ "_ # _"] c_defs)
  next
    case (Ev revs)
    let ?es = "zip (map revs [0..<length inps]) inps"
    have ok: "\<not> nfds < nevents_of ?es"
      using nevents_le_open [of ?es] Cons.prems(2) by simp
    obtain closed ms inps' where round:
      "inputs_round all_ok n 0 (nevents_of ?es) ?es = Inr (closed, ms, inps')"
      "delivers n 0 inps ms inps'" "open_count inps = closed + open_count inps'"
      using inputs_round_delivers [of n ?es 0 "nevents_of ?es"] Cons.prems(1) by auto
    with Cons.IH [of inps' "nfds - closed"] Cons.prems(2)
    have "\<exists>x. inputs_loop all_ok n (nfds - closed) inps' (polls @ [Ev (\<lambda>_. \<lparr>ev_in = b, ev_hup = True\<rparr>)]) = Some x"
      by (auto simp: delivers_def)
    with ok round(1) Ev show ?thesis by (auto simp: inputs_loop.simps [of _ _ _ _ "_ # _"] Let_def)
  qed
qed

lemma poll_inputs_delivers:
  assumes "\<forall>(ok, evs) \<in> set fds. ok \<and> clean_input n [] evs"
  shows "\<exists>r ms out.
    poll_inputs all_ok n fds (polls @ [Ev (\<lambda>_. \<lparr>ev_in = b, ev_hup = True\<rparr>)]) = Some (Inr (r, ms, out)) \<and>
    length out = length fds \<and>
    (\<forall>j < length fds. pending (snd (fds ! j)) = concat (lines_of j ms) @ held (out ! j) \<and>
       (\<forall>m \<in> set (lines_of j ms). is_line m))"
proof -
  let ?inps = "map (\<lambda>(_, evs). \<lparr>in_open = True, in_buf = [], in_evs = evs\<rparr>) fds"
  let ?polls = "polls @ [Ev (\<lambda>_. \<lparr>ev_in = b, ev_hup = True\<rparr>)]"
  have clean: "list_all (clean_slot n) ?inps" and count: "length fds = open_count ?inps"
    using assms by (auto simp: list_all_iff clean_slot_def open_count_def filter_map o_def split_def)
  from inputs_loop_returns [OF this] obtain x
    where x: "inputs_loop all_ok n (length fds) ?inps ?polls = Some x" by blast
  from inputs_loop_delivers [OF x clean count] obtain r ms out
    where "x = Inr (r, ms, out)" "delivers n 0 ?inps ms out" by blast
  moreover from x assms have "poll_inputs all_ok n fds ?polls = Some x"
    by (auto simp: poll_inputs_def Let_def)
  ultimately show ?thesis by (auto simp: delivers_def held_def split_def)
qed

section \<open>What is lost\<close>

text \<open>The last line of an input that does not end with a line feed is never delivered.\<close>

lemma last_line_lost: "process_input all_ok 4096 [Ev ''a'', Ev []] = Some (Inr ([], ''a'', []))"
  by (simp add: process_input_def input_loop.simps recv_sys_def make_room_def process_buffer.simps)

text \<open>What follows a NUL byte in what one call reads is dropped, with the lines in it.\<close>

lemma behind_NUL_lost:
  "process_input all_ok 4096 [Ev (''a'' @ [NUL, LF]), Ev []] = Some (Inr ([], ''a'', []))"
  by (simp add: process_input_def input_loop.simps recv_sys_def make_room_def process_buffer.simps)

text \<open>A line that fills the buffer is replaced by the mark, whatever it began with.\<close>

lemma long_line_replaced:
  assumes "LF \<notin> set u" and "NUL \<notin> set u" and "length u = n - 1" and "5 < n"
  shows "process_input all_ok n [Ev u, Ev [LF], Ev []] = Some (Inr ([OVERRUN @ [LF]], [], []))"
proof -
  from assms(1) have "split_at LF u = None" by (simp add: split_at_None)
  with assms show ?thesis
    by (auto simp: process_input_def input_loop.simps recv_sys_def make_room_def
        process_buffer.simps cstr_id OVERRUN_def all_ok_def)
qed

declare all_ok_apply [simp]

end
