(* ===== verification/Redir.thy ===== *)
theory Redir
  imports LogProcess
begin

text \<open>
  Redirecting the standard streams into a logging process: \<open>log_lib/src/redir.c\<close>,
  \<open>log_lib/src/logger.c\<close> and the handler of SIGPIPE, \<open>log_lib/src/sig_log.c\<close>.

  A process is its table of descriptors, what its streams have buffered, and what it has
  written. A descriptor number is the smallest free one. The outcomes of the coming system calls
  are a list, \<open>None\<close> for success; when it is used up, calls succeed. \<open>fork\<close> returns in the parent
  or in the child, which is an argument; the child works on its own copy of the process.

  Lemmas: starting and stopping a logger gives the streams back and leaves two descriptors
  behind; a dead logging process is noticed; what remains when a call in the middle fails.
\<close>

section \<open>Processes and their system calls\<close>

datatype ofile =
    File nat          \<comment> \<open>a file, terminal or socket\<close>
  | Pipe_read nat     \<comment> \<open>the read end of the \<open>n\<close>-th pipe\<close>
  | Pipe_write nat

record proc =
  p_fds :: "ofile option list"
  p_pipes :: nat                          \<comment> \<open>pipes created so far\<close>
  p_bufs :: "int \<Rightarrow> string"               \<comment> \<open>buffered output of the stream on a descriptor\<close>
  p_written :: "(ofile \<times> string) list"
  p_outs :: "errno option list"
  p_alive :: "int list"                   \<comment> \<open>processes that exist\<close>

definition fd_get :: "proc \<Rightarrow> int \<Rightarrow> ofile option" where
  "fd_get k fd = (if 0 \<le> fd \<and> nat fd < length (p_fds k) then p_fds k ! nat fd else None)"

definition outcome :: "proc \<Rightarrow> errno option \<times> proc" where
  "outcome k = (case p_outs k of [] \<Rightarrow> (None, k) | e # es \<Rightarrow> (e, k\<lparr>p_outs := es\<rparr>))"

fun lowest_free :: "ofile option list \<Rightarrow> nat" where
  "lowest_free [] = 0"
| "lowest_free (None # t) = 0"
| "lowest_free (Some f # t) = Suc (lowest_free t)"

definition fd_alloc :: "ofile \<Rightarrow> proc \<Rightarrow> int \<times> proc" where
  "fd_alloc f k =
     (let i = lowest_free (p_fds k)
      in (int i, k\<lparr>p_fds := (if i < length (p_fds k) then (p_fds k)[i := Some f] else p_fds k @ [Some f])\<rparr>))"

text \<open>Each call returns what the C call returns and, for \<open>-1\<close>, the \<open>errno\<close>.\<close>

definition sys_dup :: "int \<Rightarrow> proc \<Rightarrow> (errno + int) \<times> proc" where
  "sys_dup fd k =
     (case outcome k of
        (Some e, k') \<Rightarrow> (Inl e, k')
      | (None, k') \<Rightarrow>
          (case fd_get k' fd of
             None \<Rightarrow> (Inl EOTHER, k')
           | Some f \<Rightarrow> (let (n, k'') = fd_alloc f k' in (Inr n, k''))))"

definition fd_set :: "int \<Rightarrow> ofile option \<Rightarrow> proc \<Rightarrow> proc" where
  "fd_set fd f k =
     (let t = p_fds k @ replicate (Suc (nat fd) - length (p_fds k)) None
      in k\<lparr>p_fds := t[nat fd := f]\<rparr>)"

definition sys_dup2 :: "int \<Rightarrow> int \<Rightarrow> proc \<Rightarrow> (errno + int) \<times> proc" where
  "sys_dup2 old new k =
     (case outcome k of
        (Some e, k') \<Rightarrow> (Inl e, k')
      | (None, k') \<Rightarrow>
          (case fd_get k' old of
             None \<Rightarrow> (Inl EOTHER, k')
           | Some f \<Rightarrow> if new < 0 then (Inl EOTHER, k') else (Inr new, fd_set new (Some f) k')))"

definition sys_close :: "int \<Rightarrow> proc \<Rightarrow> (errno + int) \<times> proc" where
  "sys_close fd k =
     (case outcome k of
        (Some e, k') \<Rightarrow> (Inl e, k')
      | (None, k') \<Rightarrow> if fd_get k' fd = None then (Inl EOTHER, k') else (Inr 0, fd_set fd None k'))"

definition sys_pipe :: "proc \<Rightarrow> (errno + int \<times> int) \<times> proc" where
  "sys_pipe k =
     (case outcome k of
        (Some e, k') \<Rightarrow> (Inl e, k')
      | (None, k') \<Rightarrow>
          (let n = p_pipes k'; (rd, k1) = fd_alloc (Pipe_read n) (k'\<lparr>p_pipes := Suc n\<rparr>);
               (wr, k2) = fd_alloc (Pipe_write n) k1
           in (Inr (rd, wr), k2)))"

text \<open>\<open>kill (pid, 0)\<close>; the process \<open>-1\<close> stands for all processes, of which there is one.\<close>

definition sys_kill0 :: "int \<Rightarrow> proc \<Rightarrow> bool" where
  "sys_kill0 pid k \<longleftrightarrow> pid = -1 \<or> pid \<in> set (p_alive k)"

text \<open>The loops around \<open>dup2\<close> and \<open>close\<close> that repeat an interrupted call.\<close>

lemma outcome_shorter: "outcome k = (Some e, k') \<Longrightarrow> length (p_outs k') < length (p_outs k)"
  by (auto simp: outcome_def split: list.splits)

lemma sys_dup2_EINTR: "sys_dup2 old new k = (Inl EINTR, k') \<Longrightarrow> length (p_outs k') < length (p_outs k)"
  by (auto simp: sys_dup2_def dest: outcome_shorter split: prod.splits option.splits if_splits)

lemma sys_close_EINTR: "sys_close fd k = (Inl EINTR, k') \<Longrightarrow> length (p_outs k') < length (p_outs k)"
  by (auto simp: sys_close_def dest: outcome_shorter split: prod.splits option.splits if_splits)

lemma check_eintr_cong [fundef_cong]:
  "e = e' \<Longrightarrow> (e' = EINTR \<Longrightarrow> a = a') \<Longrightarrow> (e' \<noteq> EINTR \<Longrightarrow> b = b') \<Longrightarrow>
   check_eintr e a b = check_eintr e' a' b'"
  by (simp add: check_eintr_def)

function dup2_loop :: "int \<Rightarrow> int \<Rightarrow> proc \<Rightarrow> bool \<times> proc" where
  "dup2_loop old new k =
     (case sys_dup2 old new k of
        (Inl e, k') \<Rightarrow> check_eintr e (dup2_loop old new k') (False, k')
      | (Inr _, k') \<Rightarrow> (True, k'))"
  by pat_completeness auto
termination
  by (relation "measure (\<lambda>(old, new, k). length (p_outs k))")
    (auto dest: sys_dup2_EINTR [OF sym])

function close_loop :: "int \<Rightarrow> proc \<Rightarrow> int \<times> proc" where
  "close_loop fd k =
     (case sys_close fd k of
        (Inl e, k') \<Rightarrow> check_eintr e (close_loop fd k') (-1, k')
      | (Inr _, k') \<Rightarrow> (0, k'))"
  by pat_completeness auto
termination
  by (relation "measure (\<lambda>(fd, k). length (p_outs k))")
    (auto dest: sys_close_EINTR [OF sym])

declare dup2_loop.simps [simp del] close_loop.simps [simp del]

section \<open>Buffered output\<close>

text \<open>\<open>fflush\<close> of one stream; \<open>None\<close> is the NULL stream, which means the standard streams.\<close>

definition flush_fd :: "int \<Rightarrow> proc \<Rightarrow> proc" where
  "flush_fd fd k =
     (case fd_get k fd of
        None \<Rightarrow> k
      | Some f \<Rightarrow>
          k\<lparr>p_bufs := (p_bufs k)(fd := []),
            p_written := p_written k @ (if p_bufs k fd = [] then [] else [(f, p_bufs k fd)])\<rparr>)"

definition fflush :: "int option \<Rightarrow> proc \<Rightarrow> proc" where
  "fflush f k = (case f of Some fd \<Rightarrow> flush_fd fd k | None \<Rightarrow> flush_fd 2 (flush_fd 1 k))"

section \<open>One redirected stream\<close>

record 'p redir =
  saved_fd :: int
  r_fd :: int
  pipe_in :: int
  pipe_out :: int
  r_f :: "int option"         \<comment> \<open>the stream, named by its descriptor, or NULL\<close>
  r_pid :: int
  r_process :: "'p option"    \<comment> \<open>the callback, or NULL\<close>

text \<open>A structure of static storage before it is initialised.\<close>

definition zero_redir :: "'p redir" where
  "zero_redir =
     \<lparr>saved_fd = 0, r_fd = 0, pipe_in = 0, pipe_out = 0, r_f = None, r_pid = 0, r_process = None\<rparr>"

definition init_redir :: "'p redir \<Rightarrow> 'p \<Rightarrow> int \<Rightarrow> proc \<Rightarrow> int \<times> 'p redir \<times> proc" where
  "init_redir r process f k =
     (let r1 = r\<lparr>r_pid := -1, r_fd := f\<rparr>
      in if f = -1 then (-1, r1, k)
         else
           (case sys_dup f k of
              (Inl e, k') \<Rightarrow> (-1, r1\<lparr>saved_fd := -1\<rparr>, k')
            | (Inr n, k') \<Rightarrow> (0, r1\<lparr>saved_fd := n, r_f := Some f, r_process := Some process\<rparr>, k')))"

definition create_pipe :: "'p redir \<Rightarrow> proc \<Rightarrow> int \<times> 'p redir \<times> proc" where
  "create_pipe r k =
     (case sys_pipe k of
        (Inl e, k') \<Rightarrow> (-1, r, k')
      | (Inr (rd, wr), k') \<Rightarrow> (0, r\<lparr>pipe_out := rd, pipe_in := wr\<rparr>, k'))"

definition activate_pipe :: "'p redir \<Rightarrow> proc \<Rightarrow> int \<times> proc" where
  "activate_pipe r k =
     (case dup2_loop (pipe_in r) (r_fd r) (fflush (r_f r) k) of
        (False, k') \<Rightarrow> (-1, k')
      | (True, k') \<Rightarrow> close_loop (pipe_out r) k')"

definition restore_redir :: "'p redir \<Rightarrow> proc \<Rightarrow> int \<times> 'p redir \<times> proc" where
  "restore_redir r k =
     (let k1 = fflush (r_f r) k
      in if saved_fd r \<noteq> -1
         then
           (let k2 = snd (close_loop (pipe_in r) k1)
            in case dup2_loop (saved_fd r) (r_fd r) k2 of
                 (False, k3) \<Rightarrow> (-1, r, k3)
               | (True, k3) \<Rightarrow> (0, r\<lparr>saved_fd := -1\<rparr>, k3))
         else (-1, r, k1))"

definition restore_broken_redir :: "'p redir \<Rightarrow> proc \<Rightarrow> 'p redir \<times> proc" where
  "restore_broken_redir r k =
     (if saved_fd r \<noteq> -1 \<and> \<not> sys_kill0 (r_pid r) k
      then (let (_, r', k') = restore_redir r k in (r'\<lparr>r_pid := -1\<rparr>, k'))
      else (r, k))"

definition waitpid_redir :: "'p redir \<Rightarrow> proc \<Rightarrow> 'p redir \<times> proc" where
  "waitpid_redir r k =
     (if r_pid r \<noteq> -1 then (r\<lparr>r_pid := -1\<rparr>, snd (outcome k)) else (r, k))"

section \<open>Starting logging processes\<close>

definition BUFSIZE :: nat where
  "BUFSIZE = 4096"

text \<open>How \<open>fork\<close> returns; a child is given what it will read from its pipes.\<close>

datatype 'e forked = Fork_failed | In_parent int | In_child 'e

text \<open>A result carries what a child has handed to its callbacks; a NULL callback crashes.\<close>

definition call_process :: "'p option \<Rightarrow> string list \<Rightarrow> ('p \<times> string) list res" where
  "call_process p ms =
     (case p of
        Some f \<Rightarrow> Inr (map (Pair f) ms)
      | None \<Rightarrow> if ms = [] then Inr [] else Inl Null_deref)"

definition fork_redir ::
  "bytes event list forked \<Rightarrow> 'p redir \<Rightarrow> proc \<Rightarrow>
   (int \<times> 'p redir \<times> proc \<times> ('p \<times> string) list) res option" where
  "fork_redir fk r k =
     (case create_pipe r k of
        (rc, r1, k1) \<Rightarrow>
          if rc \<noteq> 0 then Some (Inr (-1, r1, k1, []))
          else
            (case fk of
               Fork_failed \<Rightarrow> Some (Inr (-1, r1\<lparr>r_pid := -1\<rparr>, k1, []))
             | In_parent pid \<Rightarrow>
                 (let r2 = r1\<lparr>r_pid := pid\<rparr>
                  in Some (Inr (pid, r2, snd (activate_pipe r2 k1), [])))
             | In_child evs \<Rightarrow>
                 (let r2 = r1\<lparr>r_pid := 0\<rparr>; k2 = snd (close_loop (pipe_in r2) k1)
                  in case process_input all_ok BUFSIZE evs of
                       None \<Rightarrow> None
                     | Some (Inl f) \<Rightarrow> Some (Inl f)
                     | Some (Inr (ms, rest, evs')) \<Rightarrow>
                         Some (map_sum id (\<lambda>calls. (0, r2, snd (close_loop (pipe_out r2) k2), calls))
                           (call_process (r_process r2) ms)))))"

fun create_pipes :: "'p redir list \<Rightarrow> proc \<Rightarrow> int \<times> 'p redir list \<times> proc" where
  "create_pipes [] k = (0, [], k)"
| "create_pipes (r # rs) k =
     (case create_pipe r k of
        (rc, r', k') \<Rightarrow>
          if rc \<noteq> 0 then (-1, r' # rs, k')
          else (case create_pipes rs k' of (rc', rs', k'') \<Rightarrow> (rc', r' # rs', k'')))"

fun activate_pipes :: "int \<Rightarrow> 'p redir list \<Rightarrow> proc \<Rightarrow> 'p redir list \<times> proc" where
  "activate_pipes pid [] k = ([], k)"
| "activate_pipes pid (r # rs) k =
     (let k' = snd (activate_pipe r k); (rs', k'') = activate_pipes pid rs k'
      in (r\<lparr>r_pid := pid\<rparr> # rs', k''))"

fun close_fds :: "int list \<Rightarrow> proc \<Rightarrow> proc" where
  "close_fds [] k = k"
| "close_fds (fd # fds) k = close_fds fds (snd (close_loop fd k))"

fun call_all :: "'p redir list \<Rightarrow> (nat \<times> string) list \<Rightarrow> ('p \<times> string) list res" where
  "call_all rs [] = Inr []"
| "call_all rs ((i, m) # ms) =
     bind_res (call_process (r_process (rs ! i)) [m]) (\<lambda>cs. map_sum id (\<lambda>cs'. cs @ cs') (call_all rs ms))"

text \<open>The child of \<open>fork_redirs\<close> is given its inputs, with the outcome of \<open>set_nonblock\<close>, and the
  results of \<open>poll\<close>.\<close>

definition fork_redirs ::
  "((bool \<times> bytes event list) list \<times> (nat \<Rightarrow> revents) event list) forked \<Rightarrow> 'p redir list \<Rightarrow> proc \<Rightarrow>
   (int \<times> 'p redir list \<times> proc \<times> ('p \<times> string) list) res option" where
  "fork_redirs fk rs k =
     (case create_pipes rs k of
        (rc, rs1, k1) \<Rightarrow>
          if rc \<noteq> 0 then Some (Inr (-1, rs1, k1, []))
          else
            (case fk of
               Fork_failed \<Rightarrow> Some (Inr (-1, rs1, k1, []))
             | In_parent pid \<Rightarrow>
                 (let (rs2, k2) = activate_pipes pid rs1 k1 in Some (Inr (pid, rs2, k2, [])))
             | In_child (fds, polls) \<Rightarrow>
                 (let k2 = close_fds (map pipe_in rs1) k1
                  in case poll_inputs all_ok BUFSIZE fds polls of
                       None \<Rightarrow> None
                     | Some (Inl f) \<Rightarrow> Some (Inl f)
                     | Some (Inr (_, ms, _)) \<Rightarrow>
                         Some (map_sum id (\<lambda>calls. (0, rs1, close_fds (map pipe_out rs1) k2, calls))
                           (call_all rs1 ms)))))"

section \<open>The logger\<close>

type_synonym 'p logger = "'p redir list"

definition R_OUT :: nat where "R_OUT = 0"
definition R_ERR :: nat where "R_ERR = 1"

definition logger_init :: "'p logger \<Rightarrow> 'p \<Rightarrow> 'p \<Rightarrow> proc \<Rightarrow> int \<times> 'p logger \<times> proc" where
  "logger_init lg out err k =
     (case init_redir (lg ! R_OUT) out 1 k of
        (rc, r, k1) \<Rightarrow>
          if rc \<noteq> 0 then (-1, lg[R_OUT := r], k1)
          else
            (case init_redir (lg ! R_ERR) err 2 k1 of
               (rc', r', k2) \<Rightarrow>
                 (if rc' \<noteq> 0 then -1 else 0, lg[R_OUT := r, R_ERR := r'], k2)))"

text \<open>The loop of \<open>logger_start\<close> over the streams that are left, one \<open>fork\<close> each.\<close>

fun start_loop ::
  "bytes event list forked list \<Rightarrow> 'p redir list \<Rightarrow> proc \<Rightarrow>
   (int \<times> 'p redir list \<times> proc \<times> ('p \<times> string) list) res option" where
  "start_loop fks [] k = Some (Inr (1, [], k, []))"
| "start_loop [] (r # rs) k = None"
| "start_loop (fk # fks) (r # rs) k =
     (case fork_redir fk r k of
        None \<Rightarrow> None
      | Some (Inl f) \<Rightarrow> Some (Inl f)
      | Some (Inr (pid, r', k', calls)) \<Rightarrow>
          if pid \<le> 0 then Some (Inr (pid, r' # rs, k', calls))
          else
            map_option (map_sum id (\<lambda>(ret, rs', k'', calls'). (ret, r' # rs', k'', calls @ calls')))
              (start_loop fks rs k'))"

definition logger_start ::
  "bytes event list forked list \<Rightarrow> 'p logger \<Rightarrow> proc \<Rightarrow>
   (int \<times> 'p logger \<times> proc \<times> ('p \<times> string) list) res option" where
  "logger_start fks lg k = start_loop fks lg k"

definition logger_polled_start ::
  "((bool \<times> bytes event list) list \<times> (nat \<Rightarrow> revents) event list) forked \<Rightarrow> 'p logger \<Rightarrow> proc \<Rightarrow>
   (int \<times> 'p logger \<times> proc \<times> ('p \<times> string) list) res option" where
  "logger_polled_start fk lg k =
     map_option (map_sum id (\<lambda>(pid, lg', k', calls). (if pid \<le> 0 then pid else 1, lg', k', calls)))
       (fork_redirs fk lg k)"

definition logger_stop :: "'p logger \<Rightarrow> proc \<Rightarrow> 'p logger \<times> proc" where
  "logger_stop lg k =
     (let (_, ro, k1) = restore_redir (lg ! R_OUT) k;
          (_, re, k2) = restore_redir (lg ! R_ERR) k1;
          (ro', k3) = waitpid_redir ro k2;
          (re', k4) = waitpid_redir re k3
      in (lg[R_OUT := ro', R_ERR := re'], k4))"

section \<open>The handler of SIGPIPE\<close>

text \<open>\<open>siglogger\<close> points to the one logger of the process or is NULL; the record holds what the
  process has installed for the two signals.\<close>

record sigstate =
  siglogger :: bool
  chld_ignored :: bool
  pipe_handled :: bool

fun restore_broken :: "'p redir list \<Rightarrow> proc \<Rightarrow> 'p redir list \<times> proc" where
  "restore_broken [] k = ([], k)"
| "restore_broken (r # rs) k =
     (let (r', k') = restore_broken_redir r k; (rs', k'') = restore_broken rs k' in (r' # rs', k''))"

definition sigpipe_handler :: "sigstate \<Rightarrow> 'p logger \<Rightarrow> proc \<Rightarrow> 'p logger \<times> proc" where
  "sigpipe_handler sg lg k = (if \<not> siglogger sg then (lg, k) else restore_broken lg k)"

definition set_sig_handlers :: "sigstate \<Rightarrow> proc \<Rightarrow> int \<times> sigstate \<times> proc" where
  "set_sig_handlers sg k =
     (let sg1 = sg\<lparr>siglogger := True\<rparr>
      in case outcome k of
           (Some e, k1) \<Rightarrow> (-1, sg1, k1)
         | (None, k1) \<Rightarrow>
             (let sg2 = sg1\<lparr>chld_ignored := True\<rparr>
              in case outcome k1 of
                   (Some e, k2) \<Rightarrow> (-1, sg2, k2)
                 | (None, k2) \<Rightarrow> (0, sg2\<lparr>pipe_handled := True\<rparr>, k2)))"

definition clear_sig_handlers :: "sigstate \<Rightarrow> sigstate" where
  "clear_sig_handlers sg = sg\<lparr>siglogger := False\<rparr>"

section \<open>Descriptor tables as maps\<close>

lemma lowest_free_le: "lowest_free t \<le> length t"
  by (induction t rule: lowest_free.induct) auto

lemma lowest_free_None: "lowest_free t < length t \<Longrightarrow> t ! lowest_free t = None"
  by (induction t rule: lowest_free.induct) auto

definition quiet :: "proc \<Rightarrow> bool" where
  "quiet k \<longleftrightarrow> p_outs k = []"

lemma quiet_outcome: "quiet k \<Longrightarrow> outcome k = (None, k)"
  by (simp add: quiet_def outcome_def)

lemma fd_get_nonneg: "fd_get k fd = Some f \<Longrightarrow> 0 \<le> fd"
  by (simp add: fd_get_def split: if_splits)

lemma fd_alloc_spec:
  assumes "fd_alloc f k = (n, k')"
  shows "0 \<le> n" and "fd_get k n = None" and "fd_get k' = (fd_get k)(n \<mapsto> f)"
    and "quiet k' = quiet k" and "p_bufs k' = p_bufs k"
    and "p_written k' = p_written k" and "p_pipes k' = p_pipes k" and "p_alive k' = p_alive k"
proof -
  from assms have n: "n = int (lowest_free (p_fds k))" and
    k': "k' = k\<lparr>p_fds := (if lowest_free (p_fds k) < length (p_fds k)
      then (p_fds k)[lowest_free (p_fds k) := Some f] else p_fds k @ [Some f])\<rparr>"
    by (simp_all add: fd_alloc_def Let_def)
  from n show "0 \<le> n" and "fd_get k n = None"
    by (auto simp: fd_get_def lowest_free_None)
  show "fd_get k' = (fd_get k)(n \<mapsto> f)"
  proof
    fix x
    show "fd_get k' x = ((fd_get k)(n \<mapsto> f)) x"
    proof (cases x)
      case (nonneg m)
      from lowest_free_le [of "p_fds k"] consider "lowest_free (p_fds k) < length (p_fds k)"
        | "lowest_free (p_fds k) = length (p_fds k)" by linarith
      then show ?thesis
        unfolding nonneg n k'
        by cases (simp_all add: fd_get_def nth_append nth_list_update less_Suc_eq)
    next
      case (neg m)
      then show ?thesis by (simp add: fd_get_def n)
    qed
  qed
qed (use assms in \<open>auto simp: fd_alloc_def Let_def quiet_def\<close>)

lemma fd_get_set: "0 \<le> fd \<Longrightarrow> fd_get (fd_set fd v k) = (fd_get k)(fd := v)"
proof
  fix x
  assume "0 \<le> fd"
  then obtain n where n: "fd = int n" by (metis nonneg_int_cases)
  show "fd_get (fd_set fd v k) x = ((fd_get k)(fd := v)) x"
  proof (cases x)
    case (nonneg m)
    let ?t = "p_fds k @ replicate (Suc n - length (p_fds k)) None"
    have "?t ! m = (if m < length (p_fds k) then p_fds k ! m else None)" if "m < length ?t"
      using that by (simp add: nth_append)
    then show ?thesis
      unfolding nonneg n by (simp add: fd_get_def fd_set_def nth_list_update)
  next
    case (neg m)
    then show ?thesis by (simp add: fd_get_def n)
  qed
qed

lemma fd_set_simps [simp]:
  "quiet (fd_set fd v k) = quiet k" "p_bufs (fd_set fd v k) = p_bufs k"
  "p_written (fd_set fd v k) = p_written k" "p_pipes (fd_set fd v k) = p_pipes k"
  "p_alive (fd_set fd v k) = p_alive k"
  by (simp_all add: fd_set_def quiet_def Let_def)

lemma flush_fd_simps [simp]:
  "fd_get (flush_fd fd k) = fd_get k" "quiet (flush_fd fd k) = quiet k"
  "p_pipes (flush_fd fd k) = p_pipes k" "p_alive (flush_fd fd k) = p_alive k"
  by (auto simp: flush_fd_def quiet_def fd_get_def fun_eq_iff split: option.splits)

lemma fflush_simps [simp]:
  "fd_get (fflush f k) = fd_get k" "quiet (fflush f k) = quiet k"
  "p_pipes (fflush f k) = p_pipes k" "p_alive (fflush f k) = p_alive k"
  by (simp_all add: fflush_def split: option.splits)

lemma close_loop_open:
  "quiet k \<Longrightarrow> fd_get k fd = Some f \<Longrightarrow> close_loop fd k = (0, fd_set fd None k)"
  by (subst close_loop.simps) (simp add: sys_close_def quiet_outcome)

lemma dup2_loop_open:
  "quiet k \<Longrightarrow> fd_get k old = Some f \<Longrightarrow> 0 \<le> new \<Longrightarrow> dup2_loop old new k = (True, fd_set new (Some f) k)"
  by (subst dup2_loop.simps) (simp add: sys_dup2_def quiet_outcome)

section \<open>The steps of a redirection when no call fails\<close>

lemma init_redir_ok:
  assumes "quiet k" and "fd_get k f = Some d"
  shows "\<exists>n k'. init_redir r process f k =
      (0, r\<lparr>r_pid := -1, r_fd := f, saved_fd := n, r_f := Some f, r_process := Some process\<rparr>, k') \<and>
    0 \<le> n \<and> fd_get k n = None \<and> fd_get k' = (fd_get k)(n \<mapsto> d) \<and> quiet k' \<and> p_bufs k' = p_bufs k \<and>
    p_written k' = p_written k"
proof -
  obtain n k' where a: "fd_alloc d k = (n, k')" by (metis prod.exhaust)
  with assms fd_alloc_spec [OF a] fd_get_nonneg [OF assms(2)] show ?thesis
    by (auto simp: init_redir_def sys_dup_def quiet_outcome)
qed

lemma create_pipe_ok:
  assumes "quiet k"
  shows "\<exists>rd wr k'. create_pipe r k = (0, r\<lparr>pipe_out := rd, pipe_in := wr\<rparr>, k') \<and>
    0 \<le> rd \<and> 0 \<le> wr \<and> rd \<noteq> wr \<and> fd_get k rd = None \<and> fd_get k wr = None \<and>
    fd_get k' = (fd_get k)(rd \<mapsto> Pipe_read (p_pipes k), wr \<mapsto> Pipe_write (p_pipes k)) \<and>
    p_pipes k' = Suc (p_pipes k) \<and> quiet k' \<and> p_bufs k' = p_bufs k \<and> p_written k' = p_written k"
proof -
  let ?k0 = "k\<lparr>p_pipes := Suc (p_pipes k)\<rparr>"
  obtain rd k1 where a: "fd_alloc (Pipe_read (p_pipes k)) ?k0 = (rd, k1)" by (metis prod.exhaust)
  obtain wr k2 where b: "fd_alloc (Pipe_write (p_pipes k)) k1 = (wr, k2)" by (metis prod.exhaust)
  have "fd_get ?k0 = fd_get k" by (simp add: fd_get_def fun_eq_iff)
  moreover have "quiet ?k0" using assms by (simp add: quiet_def)
  ultimately show ?thesis
    using assms fd_alloc_spec [OF a] fd_alloc_spec [OF b]
    by (auto simp: create_pipe_def sys_pipe_def quiet_outcome a b Let_def split: if_splits)
qed

lemma activate_pipe_ok:
  assumes "quiet k" and "fd_get k (pipe_in r) = Some w" and "fd_get k (pipe_out r) = Some d"
    and "0 \<le> r_fd r" and "pipe_out r \<noteq> r_fd r"
  shows "\<exists>k'. activate_pipe r k = (0, k') \<and> quiet k' \<and> p_pipes k' = p_pipes k \<and>
    fd_get k' = (fd_get k)(r_fd r \<mapsto> w, pipe_out r := None) \<and>
    p_bufs k' = p_bufs (fflush (r_f r) k) \<and> p_written k' = p_written (fflush (r_f r) k)"
  using assms fd_get_nonneg [OF assms(3)]
  by (auto simp: activate_pipe_def dup2_loop_open close_loop_open fd_get_set)

lemma fork_redir_parent_ok:
  assumes "quiet k" and "fd_get k (r_fd r) = Some d" and "r_f r = Some (r_fd r)"
  shows "\<exists>rd wr k'. fork_redir (In_parent pid) r k =
      Some (Inr (pid, r\<lparr>pipe_out := rd, pipe_in := wr, r_pid := pid\<rparr>, k', [])) \<and>
    0 \<le> wr \<and> fd_get k wr = None \<and> quiet k' \<and> p_pipes k' = Suc (p_pipes k) \<and>
    fd_get k' = (fd_get k)(wr \<mapsto> Pipe_write (p_pipes k), r_fd r \<mapsto> Pipe_write (p_pipes k)) \<and>
    p_bufs k' = p_bufs (fflush (r_f r) k) \<and> p_written k' = p_written (fflush (r_f r) k)"
proof -
  from create_pipe_ok [OF assms(1), of r] obtain rd wr k1
    where p: "create_pipe r k = (0, r\<lparr>pipe_out := rd, pipe_in := wr\<rparr>, k1)"
      "0 \<le> rd" "0 \<le> wr" "rd \<noteq> wr" "fd_get k rd = None" "fd_get k wr = None" "quiet k1"
      and k1: "fd_get k1 = (fd_get k)(rd \<mapsto> Pipe_read (p_pipes k), wr \<mapsto> Pipe_write (p_pipes k))"
      "p_pipes k1 = Suc (p_pipes k)" "p_bufs k1 = p_bufs k" "p_written k1 = p_written k"
    by blast
  let ?r = "r\<lparr>pipe_out := rd, pipe_in := wr, r_pid := pid\<rparr>"
  have fd: "rd \<noteq> r_fd r" "wr \<noteq> r_fd r" "0 \<le> r_fd r"
    using p assms(2) fd_get_nonneg [OF assms(2)] by auto
  obtain k2 where k2: "activate_pipe ?r k1 = (0, k2)" "quiet k2" "p_pipes k2 = p_pipes k1"
    "fd_get k2 = (fd_get k1)(r_fd r \<mapsto> Pipe_write (p_pipes k), rd := None)"
    "p_bufs k2 = p_bufs (fflush (r_f r) k1)" "p_written k2 = p_written (fflush (r_f r) k1)"
    using activate_pipe_ok [of k1 ?r "Pipe_write (p_pipes k)" "Pipe_read (p_pipes k)"] p fd k1 by auto
  have flush: "p_bufs (fflush (r_f r) k1) = p_bufs (fflush (r_f r) k) \<and>
      p_written (fflush (r_f r) k1) = p_written (fflush (r_f r) k)"
    using k1 p fd assms by (auto simp: fflush_def flush_fd_def)
  have "fd_get k2 = (fd_get k)(wr \<mapsto> Pipe_write (p_pipes k), r_fd r \<mapsto> Pipe_write (p_pipes k))"
    unfolding k2(4) k1(1) using p fd by (auto simp: fun_eq_iff)
  with p k1 k2 flush show ?thesis
    by (auto simp: fork_redir_def Let_def)
qed

lemma restore_redir_ok:
  assumes "quiet k" and "saved_fd r \<noteq> -1" and "fd_get k (pipe_in r) = Some w"
    and "fd_get k (saved_fd r) = Some f" and "pipe_in r \<noteq> saved_fd r" and "0 \<le> r_fd r"
  shows "\<exists>k'. restore_redir r k = (0, r\<lparr>saved_fd := -1\<rparr>, k') \<and> quiet k' \<and>
    fd_get k' = (fd_get k)(pipe_in r := None, r_fd r \<mapsto> f) \<and> p_alive k' = p_alive k"
  using assms fd_get_nonneg [OF assms(3)] fd_get_nonneg [OF assms(4)]
  by (auto simp: restore_redir_def Let_def close_loop_open [where f = w] dup2_loop_open [where f = f] fd_get_set)

section \<open>A whole session\<close>

lemma logger_init_ok:
  assumes "quiet k" and "fd_get k 1 = Some fo" and "fd_get k 2 = Some fe"
  shows "\<exists>s1 s2 k'. logger_init [ro, re] out err k =
      (0, [ro\<lparr>r_pid := -1, r_fd := 1, saved_fd := s1, r_f := Some 1, r_process := Some out\<rparr>,
           re\<lparr>r_pid := -1, r_fd := 2, saved_fd := s2, r_f := Some 2, r_process := Some err\<rparr>], k') \<and>
    quiet k' \<and> 0 \<le> s1 \<and> 0 \<le> s2 \<and> s1 \<noteq> s2 \<and> fd_get k s1 = None \<and> fd_get k s2 = None \<and>
    fd_get k' = (fd_get k)(s1 \<mapsto> fo, s2 \<mapsto> fe) \<and> p_bufs k' = p_bufs k \<and> p_written k' = p_written k"
proof -
  from init_redir_ok [OF assms(1,2), of ro out] obtain s1 k1 where 1:
    "init_redir ro out 1 k =
      (0, ro\<lparr>r_pid := -1, r_fd := 1, saved_fd := s1, r_f := Some 1, r_process := Some out\<rparr>, k1)"
    "0 \<le> s1" "fd_get k s1 = None" "fd_get k1 = (fd_get k)(s1 \<mapsto> fo)" "quiet k1"
    "p_bufs k1 = p_bufs k" "p_written k1 = p_written k" by blast
  with assms have "fd_get k1 2 = Some fe" by auto
  from init_redir_ok [OF 1(5) this, of re err] obtain s2 k2 where 2:
    "init_redir re err 2 k1 =
      (0, re\<lparr>r_pid := -1, r_fd := 2, saved_fd := s2, r_f := Some 2, r_process := Some err\<rparr>, k2)"
    "0 \<le> s2" "fd_get k1 s2 = None" "fd_get k2 = (fd_get k1)(s2 \<mapsto> fe)" "quiet k2"
    "p_bufs k2 = p_bufs k1" "p_written k2 = p_written k1" by blast
  from 1 2 have "s1 \<noteq> s2" "fd_get k s2 = None" by (auto split: if_splits)
  with 1 2 show ?thesis
    by (intro exI [of _ s1] exI [of _ s2] exI [of _ k2]) (simp add: logger_init_def R_OUT_def R_ERR_def)
qed

lemma logger_start_ok:
  assumes "quiet k" and "fd_get k (r_fd ro) = Some fo" and "fd_get k (r_fd re) = Some fe"
    and "r_f ro = Some (r_fd ro)" and "r_f re = Some (r_fd re)" and "r_fd ro \<noteq> r_fd re" and "0 < p1" and "0 < p2"
  shows "\<exists>a w1 c w2 k'. logger_start [In_parent p1, In_parent p2] [ro, re] k =
      Some (Inr (1, [ro\<lparr>pipe_out := a, pipe_in := w1, r_pid := p1\<rparr>,
                     re\<lparr>pipe_out := c, pipe_in := w2, r_pid := p2\<rparr>], k', [])) \<and>
    quiet k' \<and> w1 \<noteq> w2 \<and> 0 \<le> w1 \<and> 0 \<le> w2 \<and> fd_get k w1 = None \<and> fd_get k w2 = None \<and>
    fd_get k' = (fd_get k)(w1 \<mapsto> Pipe_write (p_pipes k), w2 \<mapsto> Pipe_write (Suc (p_pipes k)),
      r_fd ro \<mapsto> Pipe_write (p_pipes k), r_fd re \<mapsto> Pipe_write (Suc (p_pipes k)))"
proof -
  from fork_redir_parent_ok [OF assms(1,2,4), of p1] obtain a w1 k1 where 1:
    "fork_redir (In_parent p1) ro k = Some (Inr (p1, ro\<lparr>pipe_out := a, pipe_in := w1, r_pid := p1\<rparr>, k1, []))"
    "0 \<le> w1" "fd_get k w1 = None" "quiet k1" "p_pipes k1 = Suc (p_pipes k)"
    "fd_get k1 = (fd_get k)(w1 \<mapsto> Pipe_write (p_pipes k), r_fd ro \<mapsto> Pipe_write (p_pipes k))" by blast
  with assms have "fd_get k1 (r_fd re) = Some fe" by auto
  from fork_redir_parent_ok [OF 1(4) this assms(5), of p2] obtain c w2 k2 where 2:
    "fork_redir (In_parent p2) re k1 = Some (Inr (p2, re\<lparr>pipe_out := c, pipe_in := w2, r_pid := p2\<rparr>, k2, []))"
    "0 \<le> w2" "fd_get k1 w2 = None" "quiet k2"
    "fd_get k2 = (fd_get k1)(w2 \<mapsto> Pipe_write (p_pipes k1), r_fd re \<mapsto> Pipe_write (p_pipes k1))" by blast
  from 1 2 assms have w2: "w1 \<noteq> w2" "w2 \<noteq> r_fd ro" "fd_get k w2 = None" "w1 \<noteq> r_fd re"
    by (auto split: if_splits)
  moreover have "fd_get k2 = (fd_get k)(w1 \<mapsto> Pipe_write (p_pipes k), w2 \<mapsto> Pipe_write (Suc (p_pipes k)),
      r_fd ro \<mapsto> Pipe_write (p_pipes k), r_fd re \<mapsto> Pipe_write (Suc (p_pipes k)))"
    using w2 1 2 by (simp add: fun_eq_iff)
  ultimately show ?thesis
    using 1 2 assms
    by (intro exI [of _ a] exI [of _ w1] exI [of _ c] exI [of _ w2] exI [of _ k2])
      (simp add: logger_start_def)
qed

lemma logger_stop_ok:
  assumes "quiet k" and "0 \<le> r_fd ro" and "0 \<le> r_fd re"
    and "fd_get k (pipe_in ro) = Some w1" and "fd_get k (saved_fd ro) = Some fo"
    and "fd_get k (pipe_in re) = Some w2" and "fd_get k (saved_fd re) = Some fe"
    and "distinct [pipe_in ro, pipe_in re, saved_fd ro, saved_fd re, r_fd ro, r_fd re]"
  shows "\<exists>lg k'. logger_stop [ro, re] k = (lg, k') \<and>
    fd_get k' = (fd_get k)(pipe_in ro := None, pipe_in re := None, r_fd ro \<mapsto> fo, r_fd re \<mapsto> fe)"
proof -
  note nn = fd_get_nonneg [OF assms(5)] fd_get_nonneg [OF assms(7)]
  from restore_redir_ok [OF assms(1) _ assms(4,5) _ assms(2)] assms(8) nn obtain k1 where 1:
    "restore_redir ro k = (0, ro\<lparr>saved_fd := -1\<rparr>, k1)" "quiet k1"
    "fd_get k1 = (fd_get k)(pipe_in ro := None, r_fd ro \<mapsto> fo)" by fastforce
  with assms have "fd_get k1 (pipe_in re) = Some w2" "fd_get k1 (saved_fd re) = Some fe" by auto
  from restore_redir_ok [OF 1(2) _ this _ assms(3)] assms(8) nn obtain k2 where 2:
    "restore_redir re k1 = (0, re\<lparr>saved_fd := -1\<rparr>, k2)" "quiet k2"
    "fd_get k2 = (fd_get k1)(pipe_in re := None, r_fd re \<mapsto> fe)" by fastforce
  have "fd_get k2 = (fd_get k)(pipe_in ro := None, pipe_in re := None, r_fd ro \<mapsto> fo, r_fd re \<mapsto> fe)"
    using assms(8) by (auto simp: 1(3) 2(3) fun_eq_iff)
  with 1 2 show ?thesis
    by (auto simp: logger_stop_def R_OUT_def R_ERR_def waitpid_redir_def quiet_outcome Let_def)
qed

text \<open>
  Both streams come back; the only trace in the table are the two duplicates that
  \<open>restore_redir\<close> forgets without closing.
\<close>

lemma logger_session:
  assumes "quiet k" and "fd_get k 1 = Some fo" and "fd_get k 2 = Some fe" and "0 < p1" and "0 < p2"
  shows "\<exists>lg1 k1 lg2 k2 lg3 k3 s1 s2.
    logger_init [ro, re] out err k = (0, lg1, k1) \<and>
    logger_start [In_parent p1, In_parent p2] lg1 k1 = Some (Inr (1, lg2, k2, [])) \<and>
    fd_get k2 1 = Some (Pipe_write (p_pipes k1)) \<and> fd_get k2 2 = Some (Pipe_write (Suc (p_pipes k1))) \<and>
    logger_stop lg2 k2 = (lg3, k3) \<and> fd_get k s1 = None \<and> fd_get k s2 = None \<and> s1 \<noteq> s2 \<and>
    fd_get k3 = (fd_get k)(s1 \<mapsto> fo, s2 \<mapsto> fe)"
proof -
  from logger_init_ok [OF assms(1-3), of ro re out err] obtain s1 s2 k1 where 1:
    "logger_init [ro, re] out err k =
      (0, [ro\<lparr>r_pid := -1, r_fd := 1, saved_fd := s1, r_f := Some 1, r_process := Some out\<rparr>,
           re\<lparr>r_pid := -1, r_fd := 2, saved_fd := s2, r_f := Some 2, r_process := Some err\<rparr>], k1)"
    "quiet k1" "0 \<le> s1" "0 \<le> s2" "s1 \<noteq> s2" "fd_get k s1 = None" "fd_get k s2 = None"
    "fd_get k1 = (fd_get k)(s1 \<mapsto> fo, s2 \<mapsto> fe)" by blast
  let ?ro = "ro\<lparr>r_pid := -1, r_fd := 1, saved_fd := s1, r_f := Some 1, r_process := Some out\<rparr>"
  let ?re = "re\<lparr>r_pid := -1, r_fd := 2, saved_fd := s2, r_f := Some 2, r_process := Some err\<rparr>"
  have ne: "s1 \<noteq> 1" "s1 \<noteq> 2" "s2 \<noteq> 1" "s2 \<noteq> 2" using 1 assms by auto
  have "fd_get k1 (r_fd ?ro) = Some fo" "fd_get k1 (r_fd ?re) = Some fe" using 1(8) assms ne by auto
  from logger_start_ok [OF 1(2) this _ _ _ assms(4,5)] obtain a w1 c w2 k2 where 2:
    "logger_start [In_parent p1, In_parent p2] [?ro, ?re] k1 =
      Some (Inr (1, [?ro\<lparr>pipe_out := a, pipe_in := w1, r_pid := p1\<rparr>,
                     ?re\<lparr>pipe_out := c, pipe_in := w2, r_pid := p2\<rparr>], k2, []))"
    "quiet k2" "w1 \<noteq> w2" "fd_get k1 w1 = None" "fd_get k1 w2 = None"
    "fd_get k2 = (fd_get k1)(w1 \<mapsto> Pipe_write (p_pipes k1), w2 \<mapsto> Pipe_write (Suc (p_pipes k1)),
      1 \<mapsto> Pipe_write (p_pipes k1), 2 \<mapsto> Pipe_write (Suc (p_pipes k1)))" by auto
  have new: "w1 \<notin> {s1, s2, 1, 2}" "w2 \<notin> {s1, s2, 1, 2}" "fd_get k w1 = None" "fd_get k w2 = None"
    using 1(8) 2(4,5) assms ne by (auto split: if_splits)
  let ?so = "?ro\<lparr>pipe_out := a, pipe_in := w1, r_pid := p1\<rparr>"
  let ?se = "?re\<lparr>pipe_out := c, pipe_in := w2, r_pid := p2\<rparr>"
  have get: "fd_get k2 (pipe_in ?so) = Some (Pipe_write (p_pipes k1))" "fd_get k2 (saved_fd ?so) = Some fo"
    "fd_get k2 (pipe_in ?se) = Some (Pipe_write (Suc (p_pipes k1)))" "fd_get k2 (saved_fd ?se) = Some fe"
    and dist: "distinct [pipe_in ?so, pipe_in ?se, saved_fd ?so, saved_fd ?se, r_fd ?so, r_fd ?se]"
    and pos: "0 \<le> r_fd ?so" "0 \<le> r_fd ?se"
    unfolding 2(6) 1(8) using new ne 1(5) 2(3) by auto
  obtain lg3 k3 where 3: "logger_stop [?so, ?se] k2 = (lg3, k3)"
    "fd_get k3 = (fd_get k2)(w1 := None, w2 := None, 1 \<mapsto> fo, 2 \<mapsto> fe)"
    using logger_stop_ok [OF 2(2) pos get dist] by auto
  have "fd_get k3 = (fd_get k)(s1 \<mapsto> fo, s2 \<mapsto> fe)"
    unfolding 3(2) 2(6) 1(8) using new ne assms by (auto simp: fun_eq_iff)
  moreover have "fd_get k2 1 = Some (Pipe_write (p_pipes k1))"
    "fd_get k2 2 = Some (Pipe_write (Suc (p_pipes k1)))" unfolding 2(6) by auto
  ultimately show ?thesis using 1 2(1) 3(1) by blast
qed

section \<open>A logging process that dies\<close>

text \<open>The handler gives a stream back whose logging process is gone and leaves the other alone.\<close>

lemma sigpipe_restores:
  assumes "quiet k" and "siglogger sg" and "saved_fd ro \<noteq> -1" and "saved_fd re \<noteq> -1"
    and "fd_get k (pipe_in ro) = Some w1" and "fd_get k (saved_fd ro) = Some fo"
    and "pipe_in ro \<noteq> saved_fd ro" and "0 \<le> r_fd ro"
    and "r_pid ro \<noteq> -1" and "r_pid ro \<notin> set (p_alive k)" and "r_pid re \<in> set (p_alive k)"
  shows "\<exists>k'. sigpipe_handler sg [ro, re] k = ([ro\<lparr>saved_fd := -1, r_pid := -1\<rparr>, re], k') \<and>
    fd_get k' = (fd_get k)(pipe_in ro := None, r_fd ro \<mapsto> fo)"
proof -
  from restore_redir_ok [OF assms(1,3,5,6,7,8)] obtain k' where
    "restore_redir ro k = (0, ro\<lparr>saved_fd := -1\<rparr>, k')" "quiet k'"
    "fd_get k' = (fd_get k)(pipe_in ro := None, r_fd ro \<mapsto> fo)" "p_alive k' = p_alive k" by blast
  with assms show ?thesis
    by (simp add: sigpipe_handler_def restore_broken_redir_def sys_kill0_def)
qed

section \<open>What a failure in the middle leaves behind\<close>

definition sample_proc :: "errno option list \<Rightarrow> string \<Rightarrow> proc" where
  "sample_proc outs buf =
     \<lparr>p_fds = [Some (File 0), Some (File 1), Some (File 2)], p_pipes = 0, p_bufs = (\<lambda>_. [])(1 := buf),
      p_written = [], p_outs = outs, p_alive = []\<rparr>"

definition sample_start ::
  "errno option list \<Rightarrow> string \<Rightarrow> bytes event list forked list \<Rightarrow> (int \<times> proc) option" where
  "sample_start outs buf fks =
     (case logger_init [zero_redir, zero_redir] CHR ''o'' CHR ''e'' (sample_proc outs buf) of
        (rc, lg, k) \<Rightarrow>
          (case logger_start fks lg k of
             Some (Inr (ret, lg', k', calls)) \<Rightarrow> Some (ret, k')
           | _ \<Rightarrow> None))"

text \<open>
  The second \<open>fork\<close> fails: \<open>logger_start\<close> reports an error, but standard output stays on the pipe
  of the first logging process, and both ends of the second pipe stay open.
\<close>

lemma second_fork_fails:
  "map_option (\<lambda>(ret, k). (ret, p_fds k)) (sample_start [] [] [In_parent 7, Fork_failed]) =
   Some (-1, [Some (File 0), Some (Pipe_write 0), Some (File 2), Some (File 1), Some (File 2),
     Some (Pipe_read 1), Some (Pipe_write 0), Some (Pipe_write 1)])"
  by code_simp

text \<open>
  The plugins ignore the result of \<open>logger_init\<close>. When its first \<open>dup\<close> fails, the structure of
  standard error is still all zero, and \<open>logger_start\<close> puts the second pipe on standard input.
\<close>

lemma failed_init_hits_stdin:
  "map_option (\<lambda>(ret, k). (ret, fd_get k 0, fd_get k 1)) (sample_start [Some EOTHER] [] [In_parent 7, In_parent 8]) =
   Some (1, Some (Pipe_write 1), Some (Pipe_write 0))"
  by code_simp

text \<open>
  What standard output has buffered when \<open>fork\<close> is called is written by the parent, which
  flushes, and again by the child when it leaves through \<open>exit\<close>.
\<close>

definition exit_proc :: "proc \<Rightarrow> proc" where
  "exit_proc k = fflush None k"

lemma buffered_output_twice:
  "map_option (\<lambda>(ret, k). (ret, p_written k)) (sample_start [] ''x'' [In_parent 7, In_parent 8]) =
     Some (1, [(File 1, ''x'')]) \<and>
   map_option (\<lambda>(ret, k). (ret, p_written (exit_proc k))) (sample_start [] ''x'' [In_child [Ev []]]) =
     Some (0, [(File 1, ''x'')])"
  by code_simp

end
