(* ===== verification/LogPlugins.thy ===== *)
theory LogPlugins
  imports Redir
begin

text \<open>
  The logging plugins \<open>log_dlibs/src\<close> (\<open>logfile.c\<close>, \<open>logfile2.c\<close>, \<open>logsyslog.c\<close>, \<open>logdumb.c\<close>) and
  the loader that picks one at run time, \<open>log_setup/src/log_setup.c\<close>.

  A plugin's static variables are a record; the functions of the loaded plugin are a record of
  functions, as \<open>dlsym\<close> yields them. \<open>fopen\<close> takes the next descriptor; what a callback writes
  to the log and to the stream it came from is its result.

  Lemmas: what ends up in the log file, the levels of the syslog plugin, and what a failed or
  finished plugin leaves behind.
\<close>

section \<open>The file plugins\<close>

text \<open>The two callbacks are told apart by the tag they print.\<close>

datatype callback = Log_stdout | Log_stderr

record 'lv plugin =
  parent_pid :: int
  log_file :: "int option"
  pl_logger :: "callback logger"
  pl_sig :: sigstate
  pl_more :: 'lv

definition file_tag :: "callback \<Rightarrow> string" where
  "file_tag cb = (case cb of Log_stdout \<Rightarrow> ''[STDOUT]['' | Log_stderr \<Rightarrow> ''[STDERR]['')"

text \<open>\<open>process_stdout\<close> and \<open>process_stderr\<close>: the text for the log file and for the stream.\<close>

definition file_process :: "int \<Rightarrow> callback \<Rightarrow> string \<Rightarrow> string \<times> string" where
  "file_process pid cb m = (file_tag cb @ print_int pid @ ''] '' @ m, m)"

text \<open>\<open>fopen\<close> is repeated while it is interrupted; \<open>None\<close> is another failure.\<close>

function fopen_loop :: "nat \<Rightarrow> proc \<Rightarrow> int option \<times> proc" where
  "fopen_loop file k =
     (case outcome k of
        (Some e, k') \<Rightarrow> check_eintr e (fopen_loop file k') (None, k')
      | (None, k') \<Rightarrow> (let (fd, k'') = fd_alloc (File file) k' in (Some fd, k'')))"
  by pat_completeness auto
termination
  by (relation "measure (\<lambda>(file, k). length (p_outs k))") (auto dest: outcome_shorter [OF sym])

declare fopen_loop.simps [simp del]

text \<open>
  \<open>fclose\<close> frees the stream whatever it returns, and the loop around it calls it again after an
  interruption. Closing NULL crashes.
\<close>

definition fclose_loop :: "int option \<Rightarrow> proc \<Rightarrow> proc res" where
  "fclose_loop f k =
     (case f of
        None \<Rightarrow> Inl Null_deref
      | Some fd \<Rightarrow>
          (case outcome k of
             (Some e, k') \<Rightarrow> check_eintr e (Inl Use_after_free) (Inr (fd_set fd None k'))
           | (None, k') \<Rightarrow> Inr (fd_set fd None k')))"

type_synonym 'lv start_result = "(int \<times> 'lv plugin \<times> proc \<times> (callback \<times> string) list) res option"

definition file_start ::
  "int \<Rightarrow> nat \<Rightarrow> bytes event list forked list \<Rightarrow> 'lv plugin \<Rightarrow> proc \<Rightarrow> 'lv start_result" where
  "file_start pid file fks pl k =
     (if log_file pl \<noteq> None then Some (Inr (-1, pl, k, []))
      else
        (case fopen_loop file k of
           (None, k1) \<Rightarrow> Some (Inr (-1, pl\<lparr>parent_pid := pid\<rparr>, k1, []))
         | (Some fd, k1) \<Rightarrow>
             (let (_, lg, k2) = logger_init (pl_logger pl) Log_stdout Log_stderr k1;
                  pl1 = pl\<lparr>parent_pid := pid, log_file := Some fd\<rparr>
              in map_option (map_sum id (\<lambda>(ret, lg', k3, calls).
                     (let pl2 = pl1\<lparr>pl_logger := lg'\<rparr>
                      in if ret \<le> 0 then (ret, pl2\<lparr>log_file := None\<rparr>, fd_set fd None (snd (outcome k3)), calls)
                         else (let (_, sg, k4) = set_sig_handlers (pl_sig pl2) k3
                               in (ret, pl2\<lparr>pl_sig := sg\<rparr>, k4, calls)))))
                   (logger_start fks lg k2))))"

definition file_stop :: "'lv plugin \<Rightarrow> proc \<Rightarrow> ('lv plugin \<times> proc) res" where
  "file_stop pl k =
     (let sg = clear_sig_handlers (pl_sig pl); (lg, k1) = logger_stop (pl_logger pl) k
      in map_sum id (\<lambda>k2. (pl\<lparr>pl_sig := sg, pl_logger := lg, log_file := None\<rparr>, k2))
           (fclose_loop (log_file pl) k1))"

definition file_out_pid :: "'lv plugin \<Rightarrow> int" where
  "file_out_pid pl = r_pid (pl_logger pl ! R_OUT)"

definition file_err_pid :: "'lv plugin \<Rightarrow> int" where
  "file_err_pid pl = r_pid (pl_logger pl ! R_ERR)"

text \<open>\<open>logfile2.c\<close>: one process polls both pipes, and no signal handler is installed.\<close>

definition file2_start ::
  "int \<Rightarrow> nat \<Rightarrow> ((bool \<times> bytes event list) list \<times> (nat \<Rightarrow> revents) event list) forked \<Rightarrow>
   'lv plugin \<Rightarrow> proc \<Rightarrow> 'lv start_result" where
  "file2_start pid file fk pl k =
     (if log_file pl \<noteq> None then Some (Inr (-1, pl, k, []))
      else
        (case fopen_loop file k of
           (None, k1) \<Rightarrow> Some (Inr (-1, pl\<lparr>parent_pid := pid\<rparr>, k1, []))
         | (Some fd, k1) \<Rightarrow>
             (let (_, lg, k2) = logger_init (pl_logger pl) Log_stdout Log_stderr k1;
                  pl1 = pl\<lparr>parent_pid := pid, log_file := Some fd\<rparr>
              in map_option (map_sum id (\<lambda>(ret, lg', k3, calls).
                     (let pl2 = pl1\<lparr>pl_logger := lg'\<rparr>
                      in if ret \<le> 0 then (ret, pl2\<lparr>log_file := None\<rparr>, fd_set fd None (snd (outcome k3)), calls)
                         else (ret, pl2, k3, calls))))
                   (logger_polled_start fk lg k2))))"

definition file2_stop :: "'lv plugin \<Rightarrow> proc \<Rightarrow> ('lv plugin \<times> proc) res" where
  "file2_stop pl k =
     (let (lg, k1) = logger_stop (pl_logger pl) k
      in map_sum id (\<lambda>k2. (pl\<lparr>pl_logger := lg, log_file := None\<rparr>, k2))
           (fclose_loop (log_file pl) k1))"

section \<open>The syslog plugin\<close>

definition LOG_ERR :: int where "LOG_ERR = 3"
definition LOG_NOTICE :: int where "LOG_NOTICE = 5"

record syslog_state =
  log_stderr :: int
  log_stdout :: int
  log_mask :: "int option"     \<comment> \<open>the least urgent priority that passes, once \<open>setlogmask\<close> was called\<close>
  log_opened :: bool

definition syslog_initial :: syslog_state where
  "syslog_initial = \<lparr>log_stderr = LOG_ERR, log_stdout = LOG_NOTICE, log_mask = None, log_opened = False\<rparr>"

definition levels :: "(int \<times> string) list" where
  "levels = [(7, ''debug''), (6, ''info''), (LOG_NOTICE, ''notice''), (4, ''warning''),
     (LOG_ERR, ''error''), (2, ''critical''), (1, ''alert''), (0, ''emergency'')]"

fun find_level :: "(int \<times> string) list \<Rightarrow> string \<Rightarrow> int option" where
  "find_level [] nm = None"
| "find_level ((l, n) # ls) nm = (if strcmp nm n = 0 then Some l else find_level ls nm)"

text \<open>\<open>set_level\<close>: the result and the new value of the variable it is given.\<close>

definition set_level :: "string \<Rightarrow> int \<Rightarrow> int \<times> int" where
  "set_level nm level = (case find_level levels nm of Some l \<Rightarrow> (0, l) | None \<Rightarrow> (-1, level))"

text \<open>\<open>process_stdout\<close> and \<open>process_stderr\<close>: the priority, and the text for log and stream.\<close>

definition syslog_process :: "syslog_state \<Rightarrow> callback \<Rightarrow> string \<Rightarrow> int \<times> string" where
  "syslog_process sy cb m = (case cb of Log_stdout \<Rightarrow> log_stdout sy | Log_stderr \<Rightarrow> log_stderr sy, m)"

definition syslog_passes :: "syslog_state \<Rightarrow> int \<Rightarrow> bool" where
  "syslog_passes sy level = (case log_mask sy of None \<Rightarrow> True | Some least \<Rightarrow> level \<le> least)"

definition syslog_start ::
  "string option \<Rightarrow> bytes event list forked list \<Rightarrow> syslog_state plugin \<Rightarrow> proc \<Rightarrow> syslog_state start_result"
  where
  "syslog_start param fks pl k =
     (case param of
        None \<Rightarrow> Some (Inl Assert_failed)
      | Some p \<Rightarrow>
          (case split_at CHR '','' p of
             None \<Rightarrow> Some (Inr (-1, pl, k, []))
           | Some (before, after) \<Rightarrow>
               (let (rc1, l1) = set_level after (log_stderr (pl_more pl));
                    pl1 = pl\<lparr>pl_more := (pl_more pl)\<lparr>log_stderr := l1\<rparr>\<rparr>
                in if rc1 \<noteq> 0 then Some (Inr (-1, pl1, k, []))
                   else
                     (let (rc2, l2) = set_level before (log_stderr (pl_more pl1));
                          pl2 = pl1\<lparr>pl_more := (pl_more pl1)\<lparr>log_stderr := l2\<rparr>\<rparr>
                      in if rc2 \<noteq> 0 then Some (Inr (-1, pl2, k, []))
                         else
                           (let pl3 = pl2\<lparr>pl_more := (pl_more pl2)\<lparr>log_mask := Some LOG_NOTICE, log_opened := True\<rparr>\<rparr>;
                                (_, lg, k1) = logger_init (pl_logger pl3) Log_stdout Log_stderr k
                            in map_option (map_sum id (\<lambda>(ret, lg', k2, calls).
                                   (let pl4 = pl3\<lparr>pl_logger := lg'\<rparr>
                                    in if ret < 0
                                       then (ret, pl4\<lparr>pl_more := (pl_more pl4)\<lparr>log_opened := False\<rparr>\<rparr>, k2, calls)
                                       else (let (_, sg, k3) = set_sig_handlers (pl_sig pl4) k2
                                             in (ret, pl4\<lparr>pl_sig := sg\<rparr>, k3, calls)))))
                                 (logger_start fks lg k1))))))"

definition syslog_stop :: "syslog_state plugin \<Rightarrow> proc \<Rightarrow> syslog_state plugin \<times> proc" where
  "syslog_stop pl k =
     (let sg = clear_sig_handlers (pl_sig pl); (lg, k1) = logger_stop (pl_logger pl) k
      in (pl\<lparr>pl_sig := sg, pl_logger := lg\<rparr>, k1))"

section \<open>The plugin that does nothing\<close>

definition dumb_start :: "string option \<Rightarrow> int" where
  "dumb_start param = (case param of Some p \<Rightarrow> if 0 < length p then -1 else 1 | None \<Rightarrow> 1)"

definition dumb_pid :: int where
  "dumb_pid = -1"

section \<open>Loading a plugin\<close>

text \<open>
  The symbols \<open>dlsym\<close> finds in a library; a function that is missing is \<open>None\<close>. \<open>'s\<close> is the state
  of the process together with the plugin. \<open>lib_start\<close> is \<open>None\<close> when it never returns.
\<close>

record 's loglib =
  lib_name :: "string option"
  lib_out_pid :: "('s \<Rightarrow> int) option"
  lib_err_pid :: "('s \<Rightarrow> int) option"
  lib_start :: "(string \<Rightarrow> string option \<Rightarrow> 's \<Rightarrow> (int \<times> 's) res option) option"
  lib_stop :: "('s \<Rightarrow> 's res) option"

datatype ('s, 'lib) setup_result =
    Loaded 'lib 's
  | Setup_failed 's     \<comment> \<open>NULL is returned\<close>
  | Child_exits 's      \<comment> \<open>the logging process, after its work, calls \<open>exit (0)\<close>\<close>

text \<open>\<open>dlopen\<close> is a parameter; the library is closed again on every failure.\<close>

definition setup_log ::
  "(string \<Rightarrow> 's loglib option) \<Rightarrow> string \<Rightarrow> string \<Rightarrow> 's \<Rightarrow> ('s, 's loglib) setup_result res option" where
  "setup_log dlopen progname log s =
     (let (path, param) = (case split_at CHR '':'' log of
                             Some (a, b) \<Rightarrow> (a, Some b) | None \<Rightarrow> (log, None))
      in case dlopen path of
           None \<Rightarrow> Some (Inr (Setup_failed s))
         | Some lib \<Rightarrow>
             (case (lib_name lib, lib_out_pid lib, lib_err_pid lib, lib_start lib) of
                (Some nm, Some o_pid, Some e_pid, Some st) \<Rightarrow>
                  map_option (map_sum id (\<lambda>(ret, s').
                      if ret = 0 then Child_exits s'
                      else if ret < 0 then Setup_failed s'
                      else Loaded lib s'))
                    (st progname param s)
              | _ \<Rightarrow> Some (Inr (Setup_failed s))))"

text \<open>\<open>close_log\<close> reports a missing \<open>stop\<close> and calls it all the same.\<close>

definition close_log :: "'s loglib \<Rightarrow> 's \<Rightarrow> 's res" where
  "close_log lib s = (case lib_stop lib of None \<Rightarrow> Inl Null_deref | Some st \<Rightarrow> st s)"

section \<open>What the logging processes write\<close>

lemma fork_child_lines:
  assumes "quiet k" and "clean_input BUFSIZE [] evs" and "flowing evs" and "r_process r = Some p"
  shows "\<exists>ms rest r' k'. fork_redir (In_child (evs @ [Ev []])) r k = Some (Inr (0, r', k', map (Pair p) ms)) \<and>
    concat ms @ rest = pending evs \<and> (\<forall>m \<in> set ms. is_line m) \<and> LF \<notin> set rest"
proof -
  from create_pipe_ok [OF assms(1), of r] obtain rd wr k1
    where "create_pipe r k = (0, r\<lparr>pipe_out := rd, pipe_in := wr\<rparr>, k1)" by blast
  moreover from input_loop_lines [OF assms(2,3), of 0] obtain ms rest
    where "input_loop all_ok 0 BUFSIZE [] (evs @ [Ev []]) = Some (Inr (ms, rest, []))"
      "concat ms @ rest = pending evs" "\<forall>m \<in> set ms. is_line m" "LF \<notin> set rest" by auto
  ultimately show ?thesis
    using assms(4)
    by (intro exI [of _ ms] exI [of _ rest])
      (auto simp: fork_redir_def process_input_def call_process_def Let_def)
qed

lemma fopen_loop_ok:
  assumes "quiet k"
  shows "\<exists>fd k'. fopen_loop file k = (Some fd, k') \<and> quiet k' \<and> fd_get k fd = None \<and>
    fd_get k' = (fd_get k)(fd \<mapsto> File file)"
proof -
  obtain fd k' where a: "fd_alloc (File file) k = (fd, k')" by (metis prod.exhaust)
  with assms fd_alloc_spec [OF a] show ?thesis
    by (subst fopen_loop.simps) (auto simp: quiet_outcome)
qed

text \<open>The calls of a logging process as the text of the log file, and as what the stream shows.\<close>

definition log_text :: "int \<Rightarrow> (callback \<times> string) list \<Rightarrow> string" where
  "log_text pid calls = concat (map (\<lambda>(cb, m). fst (file_process pid cb m)) calls)"

definition shown_text :: "int \<Rightarrow> (callback \<times> string) list \<Rightarrow> string" where
  "shown_text pid calls = concat (map (\<lambda>(cb, m). snd (file_process pid cb m)) calls)"

lemma shown_text_lines: "shown_text pid (map (Pair cb) ms) = concat ms"
  by (induction ms) (simp_all add: shown_text_def file_process_def)

lemma log_text_lines:
  "log_text pid (map (Pair cb) ms) = concat (map (\<lambda>m. file_tag cb @ print_int pid @ ''] '' @ m) ms)"
  by (induction ms) (simp_all add: log_text_def file_process_def)

lemma file_child_logs_lines:
  assumes "quiet k" and "fd_get k 1 = Some fo" and "fd_get k 2 = Some fe"
    and "log_file pl = None" and "pl_logger pl = [ro, re]"
    and "clean_input BUFSIZE [] evs" and "flowing evs"
  shows "\<exists>pl' k' ms rest. file_start pid file [In_child (evs @ [Ev []])] pl k =
      Some (Inr (0, pl', k', map (Pair Log_stdout) ms)) \<and>
    concat ms @ rest = pending evs \<and> (\<forall>m \<in> set ms. is_line m) \<and> LF \<notin> set rest"
proof -
  from fopen_loop_ok [OF assms(1)] obtain fd k1 where 1: "fopen_loop file k = (Some fd, k1)" "quiet k1"
    "fd_get k fd = None" "fd_get k1 = (fd_get k)(fd \<mapsto> File file)" by blast
  with assms(2,3) have "fd_get k1 1 = Some fo" "fd_get k1 2 = Some fe" by auto
  from logger_init_ok [OF 1(2) this, of ro re Log_stdout Log_stderr] obtain s1 s2 k2 where 2:
    "logger_init [ro, re] Log_stdout Log_stderr k1 =
      (0, [ro\<lparr>r_pid := -1, r_fd := 1, saved_fd := s1, r_f := Some 1, r_process := Some Log_stdout\<rparr>,
           re\<lparr>r_pid := -1, r_fd := 2, saved_fd := s2, r_f := Some 2, r_process := Some Log_stderr\<rparr>], k2)"
    "quiet k2" by blast
  let ?ro = "ro\<lparr>r_pid := -1, r_fd := 1, saved_fd := s1, r_f := Some 1, r_process := Some Log_stdout\<rparr>"
  from fork_child_lines [OF 2(2) assms(6,7), of ?ro Log_stdout] obtain ms rest r' k3 where 3:
    "fork_redir (In_child (evs @ [Ev []])) ?ro k2 = Some (Inr (0, r', k3, map (Pair Log_stdout) ms))"
    "concat ms @ rest = pending evs" "\<forall>m \<in> set ms. is_line m" "LF \<notin> set rest" by auto
  show ?thesis
    using 1(1) 2(1) 3 assms(4,5)
    by (intro exI [of _ ms] exI [of _ rest] exI) (auto simp: file_start_def logger_start_def Let_def)
qed

section \<open>The levels of the syslog plugin\<close>

text \<open>
  The parameter is documented as the level of standard output, a comma, and the level of
  standard error. Both assignments go to the same variable, and the first level wins.
\<close>

lemma set_level_ok: "find_level levels nm = Some l \<Longrightarrow> set_level nm x = (0, l)"
  by (simp add: set_level_def)

lemma syslog_levels_confused:
  assumes "find_level levels o_nm = Some lo" and "find_level levels e_nm = Some le"
    and "CHR '','' \<notin> set o_nm"
    and "syslog_start (Some (o_nm @ CHR '','' # e_nm)) fks pl k = Some (Inr (ret, pl', k', calls))"
  shows "log_stderr (pl_more pl') = lo \<and> log_stdout (pl_more pl') = log_stdout (pl_more pl)"
  using assms(4)
  by (auto simp: syslog_start_def split_at_append [OF assms(3)] set_level_ok [OF assms(1)]
      set_level_ok [OF assms(2)] Let_def map_sum_eq_Inr split: prod.splits if_splits)

definition sample_syslog :: "syslog_state \<Rightarrow> syslog_state plugin" where
  "sample_syslog sy =
     \<lparr>parent_pid = 0, log_file = None, pl_logger = [zero_redir, zero_redir],
      pl_sig = \<lparr>siglogger = False, chld_ignored = False, pipe_handled = False\<rparr>, pl_more = sy\<rparr>"

lemma sample_syslog_starts:
  "\<exists>ret pl' k' calls. syslog_start (Some ''debug,alert'') [Fork_failed] (sample_syslog syslog_initial)
     (sample_proc [] []) = Some (Inr (ret, pl', k', calls))"
proof -
  have "map_option (map_sum id fst) (syslog_start (Some ''debug,alert'') [Fork_failed]
      (sample_syslog syslog_initial) (sample_proc [] [])) = Some (Inr (-1))"
    by code_simp
  then show ?thesis by (auto simp: map_sum_eq_Inr)
qed

section \<open>What a plugin leaves behind\<close>

definition sample_plugin :: "unit plugin" where
  "sample_plugin =
     \<lparr>parent_pid = 0, log_file = None, pl_logger = [zero_redir, zero_redir],
      pl_sig = \<lparr>siglogger = False, chld_ignored = False, pipe_handled = False\<rparr>, pl_more = ()\<rparr>"

text \<open>Stopping does not remove the SIGPIPE handler, whose code \<open>dlclose\<close> unmaps.\<close>

lemma stop_keeps_handler:
  "file_stop pl k = Inr (pl', k') \<Longrightarrow>
   pipe_handled (pl_sig pl') = pipe_handled (pl_sig pl) \<and> \<not> siglogger (pl_sig pl')"
  by (auto simp: file_stop_def clear_sig_handlers_def map_sum_eq_Inr Let_def split: prod.splits)

text \<open>An interrupted \<open>fclose\<close> is repeated on the stream it has freed.\<close>

lemma interrupted_fclose:
  assumes "logger_stop (pl_logger pl) k = (lg, k1)" and "outcome k1 = (Some EINTR, k2)" and "log_file pl = Some fd"
  shows "file_stop pl k = Inl Use_after_free"
  using assms by (simp add: file_stop_def fclose_loop_def c_defs Let_def)

text \<open>A failed start closes the log file and leaves standard output on the pipe.\<close>

lemma failed_start_keeps_pipe:
  "map_option (map_sum id (\<lambda>(ret, pl, k, calls). (ret, log_file pl, fd_get k 1)))
     (file_start 5 9 [In_parent 7, Fork_failed] sample_plugin (sample_proc [] [])) =
   Some (Inr (-1, None, Some (Pipe_write 0)))"
  by code_simp

section \<open>Loading\<close>

text \<open>A library is returned only when all its functions were found and its start succeeded.\<close>

lemma setup_log_loaded:
  assumes "setup_log dlopen progname log s = Some (Inr (Loaded lib s'))"
  shows "\<exists>path param st ret. dlopen path = Some lib \<and> lib_start lib = Some st \<and>
    st progname param s = Some (Inr (ret, s')) \<and> 0 < ret \<and>
    log = path @ (case param of None \<Rightarrow> [] | Some q \<Rightarrow> CHR '':'' # q)"
proof -
  obtain path param where log: "(case split_at CHR '':'' log of
      Some (a, b) \<Rightarrow> (a, Some b) | None \<Rightarrow> (log, None)) = (path, param)"
    by (metis prod.exhaust)
  then have "log = path @ (case param of None \<Rightarrow> [] | Some q \<Rightarrow> CHR '':'' # q)"
    by (auto simp: split_at_Some split: option.splits)
  with assms log show ?thesis
    by (intro exI [of _ path] exI [of _ param])
      (auto simp: setup_log_def map_sum_eq_Inr split: option.splits if_splits)
qed

end
