(* ===== verification/Service.thy ===== *)
theory Service
  imports LogPlugins
begin

text \<open>
  Running a program as a service with a pid file: \<open>srvc_lib/src/pidfile.c\<close>, \<open>service.c\<close> and
  \<open>main.c\<close>, and the runner with a log, \<open>srvc_runner/src/main.c\<close>.

  The file system maps absolute paths to contents; paths are not normalised further, and there
  are no links. The outcomes of system calls are fields of an environment. A process ends by
  returning from \<open>main\<close>, by \<open>exit\<close>, by becoming another program, or goes on waiting.

  Lemmas: a start that returns leaves the file system as it was, except on the paths where it
  does not; the pid that is written is the pid that is signalled.
\<close>

section \<open>Files and processes\<close>

record world =
  files :: "string \<Rightarrow> string option"
  cwd :: string
  fpidfile :: "string option"         \<comment> \<open>the file the stream writes to, or NULL\<close>
  sighandler_pid :: int
  sent :: "(int \<times> int) list"          \<comment> \<open>signals sent: process and number\<close>

definition SIGTERM :: int where
  "SIGTERM = 15"

definition abs_path :: "string \<Rightarrow> string \<Rightarrow> string" where
  "abs_path dir p =
     (if p \<noteq> [] \<and> hd p = CHR ''/'' then p
      else if dir = ''/'' then CHR ''/'' # p else dir @ CHR ''/'' # p)"

definition file_at :: "world \<Rightarrow> string \<Rightarrow> string option" where
  "file_at w p = files w (abs_path (cwd w) p)"

text \<open>The status \<open>waitpid\<close> reports.\<close>

datatype wait_status = Exited int | Signaled int

record env =
  e_open :: "errno option"            \<comment> \<open>a failure of \<open>open\<close> other than \<open>EEXIST\<close>\<close>
  e_fdopen :: bool
  e_ppid :: int
  e_daemon :: "unit forked"           \<comment> \<open>the \<open>fork\<close> of \<open>daemonize\<close>\<close>
  e_setsid :: bool
  e_chdir :: bool
  e_sigaction :: bool
  e_pid :: int                        \<comment> \<open>\<open>getpid\<close> of the daemon\<close>
  e_fprintf :: bool
  e_fclose :: bool
  e_service :: "unit forked"          \<comment> \<open>the \<open>fork\<close> of \<open>fork_service\<close>\<close>
  e_exec :: bool
  e_wait :: "wait_status event list"
  e_unlink :: bool
  e_alive :: "int list"               \<comment> \<open>processes that exist and may be signalled\<close>
  e_kill :: bool                      \<comment> \<open>the outcome of sending SIGTERM\<close>

datatype ended =
    Returns int
  | Exits int
  | Becomes "string list"    \<comment> \<open>\<open>execvp\<close> succeeded with these arguments\<close>
  | Waits                    \<comment> \<open>\<open>waitpid\<close> has not returned yet\<close>

section \<open>The pid file\<close>

definition open_pidfile :: "env \<Rightarrow> string \<Rightarrow> world \<Rightarrow> int \<times> world" where
  "open_pidfile ev pidfile w =
     (let p = abs_path (cwd w) pidfile
      in if e_open ev \<noteq> None then (-1, w)
         else if files w p \<noteq> None then (1, w)
         else
           (let w1 = w\<lparr>files := (files w)(p \<mapsto> [])\<rparr>
            in if \<not> e_fdopen ev then (-1, w1\<lparr>fpidfile := None\<rparr>)
               else (0, w1\<lparr>fpidfile := Some p\<rparr>)))"

text \<open>The stream is open whenever \<open>close_pidfile\<close> is called.\<close>

definition close_pidfile :: "env \<Rightarrow> world \<Rightarrow> int \<times> world" where
  "close_pidfile ev w =
     (case fpidfile w of
        None \<Rightarrow> (-1, w)
      | Some p \<Rightarrow>
          if \<not> e_fprintf ev then (-1, w\<lparr>fpidfile := None\<rparr>)
          else if \<not> e_fclose ev then (-1, w\<lparr>fpidfile := None\<rparr>)
          else (0, w\<lparr>files := (files w)(p \<mapsto> print_int (e_pid ev) @ [LF]), fpidfile := None\<rparr>))"

definition delete_pidfile :: "env \<Rightarrow> string \<Rightarrow> world \<Rightarrow> int \<times> world" where
  "delete_pidfile ev pidfile w =
     (let w1 = w\<lparr>fpidfile := None\<rparr>; p = abs_path (cwd w) pidfile
      in if e_unlink ev \<and> files w1 p \<noteq> None then (0, w1\<lparr>files := (files w1)(p := None)\<rparr>) else (-1, w1))"

text \<open>\<open>fscanf\<close> with \<open>%d\<close>: blanks, a sign, and digits.\<close>

definition is_space :: "char \<Rightarrow> bool" where
  "is_space c \<longleftrightarrow> c = CHR '' '' \<or> 9 \<le> byte_of c \<and> byte_of c \<le> 13"

definition is_dec :: "char \<Rightarrow> bool" where
  "is_dec c \<longleftrightarrow> 48 \<le> byte_of c \<and> byte_of c \<le> 57"

definition digits_value :: "string \<Rightarrow> nat" where
  "digits_value ds = foldl (\<lambda>n c. 10 * n + (byte_of c - 48)) 0 ds"

definition scan_int :: "string \<Rightarrow> int option" where
  "scan_int s =
     (let s1 = dropWhile is_space s;
          neg = (s1 \<noteq> [] \<and> hd s1 = CHR ''-'');
          s2 = (if s1 \<noteq> [] \<and> (hd s1 = CHR ''-'' \<or> hd s1 = CHR ''+'') then tl s1 else s1);
          ds = takeWhile is_dec s2
      in if ds = [] then None
         else Some (if neg then - int (digits_value ds) else int (digits_value ds)))"

text \<open>\<open>kill (pid, 0)\<close>; process groups, which a pid file should not name, are not told apart.\<close>

definition kill0 :: "env \<Rightarrow> int \<Rightarrow> bool" where
  "kill0 ev pid \<longleftrightarrow> pid \<in> set (e_alive ev)"

definition check_status :: "env \<Rightarrow> string \<Rightarrow> world \<Rightarrow> int" where
  "check_status ev pidfile w =
     (case file_at w pidfile of
        None \<Rightarrow> -1
      | Some content \<Rightarrow>
          (case scan_int content of
             None \<Rightarrow> -1
           | Some pid \<Rightarrow> if kill0 ev pid then 0 else -1))"

definition stop_service :: "env \<Rightarrow> string \<Rightarrow> world \<Rightarrow> int \<times> world" where
  "stop_service ev pidfile w =
     (case file_at w pidfile of
        None \<Rightarrow> (-1, w)
      | Some content \<Rightarrow>
          (case scan_int content of
             None \<Rightarrow> (-1, w)
           | Some pid \<Rightarrow>
               if \<not> kill0 ev pid then (0, w)
               else if \<not> e_kill ev then (-1, w)
               else (pid, w\<lparr>sent := sent w @ [(pid, SIGTERM)]\<rparr>)))"

section \<open>Becoming a daemon and running the service\<close>

text \<open>\<open>Inl\<close> is the exit of the parent, \<open>Inr\<close> the result of the call.\<close>

definition daemonize :: "env \<Rightarrow> world \<Rightarrow> ended + int \<times> world" where
  "daemonize ev w =
     (if e_ppid ev = 1 then Inr (-1, w)
      else
        (case e_daemon ev of
           Fork_failed \<Rightarrow> Inr (-1, w)
         | In_parent pid \<Rightarrow> Inl (Exits 0)
         | In_child _ \<Rightarrow>
             if \<not> e_setsid ev then Inr (-1, w)
             else Inr (0, if e_chdir ev then w\<lparr>cwd := ''/''\<rparr> else w)))"

definition set_sighandler_pid :: "int \<Rightarrow> world \<Rightarrow> world" where
  "set_sighandler_pid pid w = w\<lparr>sighandler_pid := pid\<rparr>"

definition sig_handler :: "int \<Rightarrow> world \<Rightarrow> world" where
  "sig_handler signal w =
     (if 0 < sighandler_pid w then w\<lparr>sent := sent w @ [(sighandler_pid w, signal)]\<rparr> else w)"

definition set_sighandler :: "env \<Rightarrow> int" where
  "set_sighandler ev = (if e_sigaction ev then 0 else -1)"

definition fork_service :: "env \<Rightarrow> string list \<Rightarrow> ended + int" where
  "fork_service ev argv =
     (case e_service ev of
        Fork_failed \<Rightarrow> Inr (-1)
      | In_child _ \<Rightarrow> Inl (if e_exec ev then Becomes argv else Exits 101)
      | In_parent pid \<Rightarrow> Inr pid)"

fun wait_service :: "wait_status event list \<Rightarrow> int option" where
  "wait_service [] = None"
| "wait_service (Err e # evs) = check_eintr e (wait_service evs) (Some (-1))"
| "wait_service (Ev status # evs) = Some (if status = Exited 101 then -1 else 0)"

text \<open>\<open>start\<close> of \<open>srvc_lib/src/main.c\<close>; \<open>fail_start\<close> is its label \<open>delete_pidfile\<close>.\<close>

definition fail_start :: "env \<Rightarrow> string \<Rightarrow> int \<Rightarrow> world \<Rightarrow> ended \<times> world" where
  "fail_start ev pidfile r w = (Returns r, snd (delete_pidfile ev pidfile w))"

definition start :: "env \<Rightarrow> string \<Rightarrow> string list \<Rightarrow> world \<Rightarrow> ended \<times> world" where
  "start ev pidfile servicev w =
     (case open_pidfile ev pidfile w of
        (rc, w1) \<Rightarrow>
          if rc = -1 \<or> rc = 1 then (Returns 1, w1)
          else
            (case daemonize ev w1 of
               Inl e \<Rightarrow> (e, w1)
             | Inr (d, w2) \<Rightarrow>
                 if d \<noteq> 0 then fail_start ev pidfile 1 w2
                 else if set_sighandler ev \<noteq> 0 then fail_start ev pidfile 1 w2
                 else
                   (case close_pidfile ev w2 of
                      (c, w3) \<Rightarrow>
                        if c \<noteq> 0 then fail_start ev pidfile 1 w3
                        else
                          (case fork_service ev servicev of
                             Inl e \<Rightarrow> (e, w3)
                           | Inr pid \<Rightarrow>
                               if pid = -1 then fail_start ev pidfile 1 w3
                               else
                                 (let w4 = set_sighandler_pid pid w3
                                  in case wait_service (e_wait ev) of
                                       None \<Rightarrow> (Waits, w4)
                                     | Some r \<Rightarrow> fail_start ev pidfile (if r \<noteq> 0 then 1 else 0) w4)))))"

text \<open>\<open>main\<close> of the library's sample program; \<open>argv\<close> without the program's name.\<close>

definition srvc_main :: "env \<Rightarrow> string list \<Rightarrow> world \<Rightarrow> ended \<times> world" where
  "srvc_main ev argv w =
     (case argv of
        cmd # pidfile # args \<Rightarrow>
          if strcmp cmd ''start'' = 0
          then (if length args < 2 then (Exits 1, w) else start ev pidfile args w)
          else if strcmp cmd ''stop'' = 0
          then (if args \<noteq> [] then (Exits 1, w) else (Returns 0, snd (stop_service ev pidfile w)))
          else if strcmp cmd ''status'' = 0
          then (if args \<noteq> [] then (Exits 1, w) else (Returns 0, w))
          else (Returns 1, w)
      | _ \<Rightarrow> (Exits 1, w))"

section \<open>The runner\<close>

text \<open>
  \<open>start\<close> of \<open>srvc_runner/src/main.c\<close>; \<open>ls\<close> is the state of the logging plugin. On success the
  process becomes the service; the pid file stays until \<open>stop\<close>.
\<close>

definition EXIT_FAILURE :: int where
  "EXIT_FAILURE = 1"

definition close_and_fail ::
  "env \<Rightarrow> string \<Rightarrow> 's loglib \<Rightarrow> world \<Rightarrow> 's \<Rightarrow> (ended \<times> world \<times> 's) res" where
  "close_and_fail ev pidfile lib w ls =
     map_sum id (\<lambda>ls'. case fail_start ev pidfile (-1) w of (e, w') \<Rightarrow> (e, w', ls')) (close_log lib ls)"

definition runner_start ::
  "env \<Rightarrow> (string \<Rightarrow> 's loglib option) \<Rightarrow> string \<Rightarrow> string \<Rightarrow> string list \<Rightarrow> world \<Rightarrow> 's \<Rightarrow>
   (ended \<times> world \<times> 's) res option" where
  "runner_start ev dlopen pidfile log servicev w ls =
     (case open_pidfile ev pidfile w of
        (rc, w1) \<Rightarrow>
          if rc = -1 \<or> rc = 1 then Some (Inr (Returns (-1), w1, ls))
          else
            (case daemonize ev w1 of
               Inl e \<Rightarrow> Some (Inr (e, w1, ls))
             | Inr (d, w2) \<Rightarrow>
                 if d \<noteq> 0 then Some (Inr (case fail_start ev pidfile (-1) w2 of (e, w') \<Rightarrow> (e, w', ls)))
                 else
                   (case setup_log dlopen (hd servicev) log ls of
                      None \<Rightarrow> None
                    | Some (Inl f) \<Rightarrow> Some (Inl f)
                    | Some (Inr (Child_exits ls')) \<Rightarrow> Some (Inr (Exits 0, w2, ls'))
                    | Some (Inr (Setup_failed ls')) \<Rightarrow>
                        Some (Inr (case fail_start ev pidfile (-1) w2 of (e, w') \<Rightarrow> (e, w', ls')))
                    | Some (Inr (Loaded lib ls')) \<Rightarrow>
                        if set_sighandler ev \<noteq> 0 then Some (close_and_fail ev pidfile lib w2 ls')
                        else
                          (case close_pidfile ev w2 of
                             (c, w3) \<Rightarrow>
                               if c \<noteq> 0 then Some (close_and_fail ev pidfile lib w3 ls')
                               else if e_exec ev then Some (Inr (Becomes servicev, w3, ls'))
                               else Some (close_and_fail ev pidfile lib w3 ls')))))"

definition runner_main ::
  "env \<Rightarrow> (string \<Rightarrow> 's loglib option) \<Rightarrow> string list \<Rightarrow> world \<Rightarrow> 's \<Rightarrow>
   (ended \<times> world \<times> 's) res option" where
  "runner_main ev dlopen argv w ls =
     (case argv of
        cmd # pidfile # args \<Rightarrow>
          if strcmp cmd ''start'' = 0
          then
            (case args of
               log # service # params \<Rightarrow>
                 map_option (map_sum id (\<lambda>(e, w', ls').
                     (case e of Returns r \<Rightarrow> Exits (if r = -1 then EXIT_FAILURE else 0) | _ \<Rightarrow> e, w', ls')))
                   (runner_start ev dlopen pidfile log (service # params) w ls)
             | _ \<Rightarrow> Some (Inr (Exits EXIT_FAILURE, w, ls)))
          else if strcmp cmd ''stop'' = 0
          then
            (if args \<noteq> [] then Some (Inr (Exits EXIT_FAILURE, w, ls))
             else
               (case stop_service ev pidfile w of
                  (r, w') \<Rightarrow>
                    if r = -1 then Some (Inr (Exits EXIT_FAILURE, w', ls))
                    else Some (Inr (Exits 0, snd (delete_pidfile ev pidfile w'), ls))))
          else if strcmp cmd ''status'' = 0
          then
            (if args \<noteq> [] then Some (Inr (Exits EXIT_FAILURE, w, ls))
             else Some (Inr (Exits (if check_status ev pidfile w = -1 then EXIT_FAILURE else 0), w, ls)))
          else Some (Inr (Exits EXIT_FAILURE, w, ls))
      | _ \<Rightarrow> Some (Inr (Exits EXIT_FAILURE, w, ls)))"

section \<open>Reading back the pid\<close>

lemma digit_char: "n < 10 \<Longrightarrow> byte_of (char_of (48 + n) :: char) = 48 + n"
  by (simp add: byte_of_def)

lemma digits_step:
  "n < 10 \<Longrightarrow> digits n = [char_of (48 + n)]"
  "\<not> n < 10 \<Longrightarrow> digits n = digits (n div 10) @ [char_of (48 + n mod 10)]"
  by (subst digits.simps; simp)+

lemma digits_are_digits: "c \<in> set (digits n) \<Longrightarrow> is_dec c"
proof (induction n rule: digits.induct)
  case (1 n)
  show ?case
  proof (cases "n < 10")
    case True
    with 1 show ?thesis by (auto simp: digits_step is_dec_def digit_char)
  next
    case False
    with 1 digit_char [of "n mod 10"] show ?thesis by (auto simp: digits_step is_dec_def)
  qed
qed

lemma digits_not_Nil: "digits n \<noteq> []"
  by (cases "n < 10") (simp_all add: digits_step)

lemma digits_value_digits: "digits_value (digits n) = n"
proof (induction n rule: digits.induct)
  case (1 n)
  show ?case
  proof (cases "n < 10")
    case True
    then show ?thesis by (simp add: digits_step digits_value_def digit_char)
  next
    case False
    with 1 digit_char [of "n mod 10"] show ?thesis by (simp add: digits_step digits_value_def)
  qed
qed

lemma scan_digits:
  "takeWhile is_dec (digits n @ [LF]) = digits n"
  using digits_are_digits [of _ n] by (subst takeWhile_append2) (auto simp: is_dec_def byte_of_def)

lemma hd_digits: "is_dec (hd (digits n))"
  using digits_are_digits [of "hd (digits n)" n] by (simp add: digits_not_Nil)

text \<open>\<open>%d\<close> reads back what \<open>%d\<close> has printed.\<close>

lemma scan_print: "scan_int (print_int i @ [LF]) = Some i"
proof -
  obtain c ds where d: "digits (nat \<bar>i\<bar>) = c # ds" by (metis digits_not_Nil list.exhaust)
  have c: "is_dec c" using hd_digits [of "nat \<bar>i\<bar>"] d by simp
  then have "\<not> is_space c" "c \<noteq> CHR ''-''" "c \<noteq> CHR ''+''"
    by (auto simp: is_dec_def is_space_def byte_of_def)
  moreover have "\<not> is_space CHR ''-''" by (simp add: is_space_def byte_of_def)
  ultimately show ?thesis
    using scan_digits [of "nat \<bar>i\<bar>"] digits_value_digits [of "nat \<bar>i\<bar>"] d
    by (cases "i < 0") (simp_all add: scan_int_def print_int_def Let_def)
qed

section \<open>Starting leaves no trace when it returns\<close>

lemma abs_path_absolute: "p \<noteq> [] \<Longrightarrow> hd p = CHR ''/'' \<Longrightarrow> abs_path dir p = p"
  by (simp add: abs_path_def)

text \<open>Another start's pid file is left alone.\<close>

lemma start_foreign:
  assumes "file_at w pidfile \<noteq> None" and "e_open ev = None"
  shows "start ev pidfile servicev w = (Returns 1, w)"
    and "runner_start ev dlopen pidfile log servicev w ls = Some (Inr (Returns (-1), w, ls))"
  using assms by (auto simp: start_def runner_start_def open_pidfile_def file_at_def Let_def)

text \<open>Once the file is created, every step but the deletion keeps it the only change.\<close>

definition only_pidfile :: "world \<Rightarrow> string \<Rightarrow> world \<Rightarrow> bool" where
  "only_pidfile w p w' \<longleftrightarrow> (\<exists>c. files w' = (files w)(p \<mapsto> c)) \<and> (\<forall>q. fpidfile w' = Some q \<longrightarrow> q = p)"

lemma open_pidfile_creates:
  "open_pidfile ev pidfile w = (0, w1) \<Longrightarrow>
   only_pidfile w (abs_path (cwd w) pidfile) w1 \<and> file_at w pidfile = None \<and> cwd w1 = cwd w"
  by (auto simp: open_pidfile_def only_pidfile_def file_at_def Let_def split: if_splits)

lemma open_pidfile_result: "open_pidfile ev pidfile w = (rc, w1) \<Longrightarrow> rc \<in> {-1, 0, 1}"
  by (auto simp: open_pidfile_def Let_def split: if_splits)

lemma daemonize_keeps:
  "daemonize ev w1 = Inr (d, w2) \<Longrightarrow>
   files w2 = files w1 \<and> fpidfile w2 = fpidfile w1 \<and> (d = 0 \<or> w2 = w1)"
  by (auto simp: daemonize_def split: if_splits forked.splits)

lemma close_pidfile_keeps:
  "only_pidfile w p w2 \<Longrightarrow> close_pidfile ev w2 = (c, w3) \<Longrightarrow> only_pidfile w p w3 \<and> cwd w3 = cwd w2"
  by (auto simp: close_pidfile_def only_pidfile_def split: option.splits if_splits)

lemma fail_start_restores:
  "only_pidfile w p w3 \<Longrightarrow> files w p = None \<Longrightarrow> abs_path (cwd w3) pidfile = p \<Longrightarrow> e_unlink ev \<Longrightarrow>
   fail_start ev pidfile r w3 = (e, w') \<Longrightarrow> files w' = files w"
  by (auto simp: fail_start_def delete_pidfile_def only_pidfile_def Let_def fun_upd_idem)

lemma start_leaves_no_trace:
  assumes "pidfile \<noteq> []" and "hd pidfile = CHR ''/''" and "e_fdopen ev" and "e_unlink ev"
    and "start ev pidfile servicev w = (Returns r, w')"
  shows "files w' = files w"
proof -
  obtain rc w1 where 1: "open_pidfile ev pidfile w = (rc, w1)" by (metis prod.exhaust)
  show ?thesis
  proof (cases "rc = -1 \<or> rc = 1")
    case True
    with 1 assms show ?thesis
      by (auto simp: start_def open_pidfile_def Let_def split: if_splits)
  next
    case False
    with open_pidfile_result [OF 1] 1 have "open_pidfile ev pidfile w = (0, w1)" by auto
    from open_pidfile_creates [OF this] have only: "only_pidfile w pidfile w1" "files w pidfile = None"
      using assms(1,2) by (simp_all add: file_at_def abs_path_absolute)
    have fin: "files w' = files w"
      if "only_pidfile w pidfile w3" "fail_start ev pidfile r' w3 = (Returns r, w')" for w3 r'
      using fail_start_restores [OF that(1) only(2) _ assms(4) that(2)] assms(1,2)
      by (simp add: abs_path_absolute)
    from assms(5) 1 False obtain d w2 where 2: "daemonize ev w1 = Inr (d, w2)"
      by (auto simp: start_def daemonize_def split: sum.splits prod.splits if_splits forked.splits)
    have only2: "only_pidfile w pidfile w2"
      using only(1) daemonize_keeps [OF 2] by (simp add: only_pidfile_def)
    obtain c w3 where 3: "close_pidfile ev w2 = (c, w3)" by (metis prod.exhaust)
    note only3 = conjunct1 [OF close_pidfile_keeps [OF only2 3]]
    have only4: "only_pidfile w pidfile (set_sighandler_pid pid w3)" for pid
      using only3 by (simp add: only_pidfile_def set_sighandler_pid_def)
    from assms(5) 1 False 2 3 show ?thesis
      by (auto simp: start_def fork_service_def Let_def split: if_splits forked.splits option.splits
          intro: fin [OF only2] fin [OF only3] fin [OF only4])
  qed
qed

text \<open>The runner as well, when its plugin can be stopped.\<close>

lemma close_and_fail_Inr:
  "close_and_fail ev pidfile lib w ls = Inr (e, w', ls') \<Longrightarrow> fail_start ev pidfile (-1) w = (e, w')"
  by (cases "fail_start ev pidfile (-1) w") (auto simp: close_and_fail_def map_sum_eq_Inr)

lemma runner_start_leaves_no_trace:
  assumes "pidfile \<noteq> []" and "hd pidfile = CHR ''/''" and "e_fdopen ev" and "e_unlink ev"
    and "runner_start ev dlopen pidfile log servicev w ls = Some (Inr (Returns r, w', ls'))"
  shows "files w' = files w"
proof -
  obtain rc w1 where 1: "open_pidfile ev pidfile w = (rc, w1)" by (metis prod.exhaust)
  show ?thesis
  proof (cases "rc = -1 \<or> rc = 1")
    case True
    with 1 assms show ?thesis
      by (auto simp: runner_start_def open_pidfile_def Let_def split: if_splits)
  next
    case False
    with open_pidfile_result [OF 1] 1 have "open_pidfile ev pidfile w = (0, w1)" by auto
    from open_pidfile_creates [OF this] have only: "only_pidfile w pidfile w1" "files w pidfile = None"
      using assms(1,2) by (simp_all add: file_at_def abs_path_absolute)
    have fin: "files w' = files w"
      if "only_pidfile w pidfile w3" "fail_start ev pidfile r' w3 = (Returns r, w')" for w3 r'
      using fail_start_restores [OF that(1) only(2) _ assms(4) that(2)] assms(1,2)
      by (simp add: abs_path_absolute)
    from assms(5) 1 False obtain d w2 where 2: "daemonize ev w1 = Inr (d, w2)"
      by (auto simp: runner_start_def daemonize_def split: sum.splits prod.splits if_splits forked.splits)
    have only2: "only_pidfile w pidfile w2"
      using only(1) daemonize_keeps [OF 2] by (simp add: only_pidfile_def)
    obtain c w3 where 3: "close_pidfile ev w2 = (c, w3)" by (metis prod.exhaust)
    note only3 = conjunct1 [OF close_pidfile_keeps [OF only2 3]]
    from assms(5) 1 False 2 3 show ?thesis
      by (auto simp: runner_start_def dest!: close_and_fail_Inr
          split: if_splits option.splits sum.splits setup_result.splits prod.splits
          intro: fin [OF only2] fin [OF only3])
  qed
qed

text \<open>A relative path is deleted in the root directory, where the daemon has moved.\<close>

lemma relative_pidfile_stays:
  assumes env: "e_ppid ev \<noteq> 1" "e_daemon ev = In_child ()" "e_setsid ev" "e_chdir ev" "e_open ev = None" "e_fdopen ev"
    and rel: "abs_path (cwd w) pidfile \<noteq> abs_path ''/'' pidfile" and free: "file_at w pidfile = None"
    and start: "start ev pidfile servicev w = (Returns r, w')"
  shows "files w' (abs_path (cwd w) pidfile) \<noteq> None \<and>
    (e_unlink ev \<longrightarrow> files w' (abs_path ''/'' pidfile) = None)"
proof -
  let ?p = "abs_path (cwd w) pidfile"
  have fin: "files w' ?p \<noteq> None \<and> (e_unlink ev \<longrightarrow> files w' (abs_path ''/'' pidfile) = None)"
    if "only_pidfile w ?p w3" "cwd w3 = ''/''" "fail_start ev pidfile r' w3 = (Returns r, w')" for w3 r'
    using that rel by (auto simp: fail_start_def delete_pidfile_def only_pidfile_def Let_def)
  let ?w1 = "w\<lparr>files := (files w)(?p \<mapsto> []), fpidfile := Some ?p\<rparr>"
  have 1: "open_pidfile ev pidfile w = (0, ?w1)"
    using env free by (simp add: open_pidfile_def file_at_def Let_def)
  have 2: "daemonize ev ?w1 = Inr (0, ?w1\<lparr>cwd := ''/''\<rparr>)"
    using env by (simp add: daemonize_def)
  have only2: "only_pidfile w ?p (?w1\<lparr>cwd := ''/''\<rparr>)" by (auto simp: only_pidfile_def)
  obtain c w3 where 3: "close_pidfile ev (?w1\<lparr>cwd := ''/''\<rparr>) = (c, w3)" by (metis prod.exhaust)
  from close_pidfile_keeps [OF only2 3] have only3: "only_pidfile w ?p w3" "cwd w3 = ''/''" by simp_all
  then have only4: "only_pidfile w ?p (set_sighandler_pid pid w3)" "cwd (set_sighandler_pid pid w3) = ''/''" for pid
    by (simp_all add: only_pidfile_def set_sighandler_pid_def)
  from start 1 2 3 show ?thesis
    using fin [OF only2] fin [OF only3] fin [OF only4]
    by (auto simp: start_def fork_service_def Let_def split: if_splits forked.splits option.splits)
qed

text \<open>When \<open>fdopen\<close> fails, the file has been created and nobody deletes it.\<close>

lemma fdopen_failure_keeps_file:
  assumes "e_open ev = None" and "\<not> e_fdopen ev" and "file_at w pidfile = None"
  shows "\<exists>w'. start ev pidfile servicev w = (Returns 1, w') \<and> file_at w' pidfile = Some []"
  using assms by (simp add: start_def open_pidfile_def file_at_def Let_def)

section \<open>A running service can be stopped\<close>

lemma close_pidfile_writes:
  "close_pidfile ev w = (0, w') \<Longrightarrow> fpidfile w = Some p \<Longrightarrow>
   files w' p = Some (print_int (e_pid ev) @ [LF])"
  by (auto simp: close_pidfile_def split: if_splits)

lemma start_running_pidfile:
  assumes "pidfile \<noteq> []" and "hd pidfile = CHR ''/''"
    and "start ev pidfile servicev w = (Waits, w')"
  shows "file_at w' pidfile = Some (print_int (e_pid ev) @ [LF])"
proof -
  note absp = abs_path_absolute [OF assms(1,2)]
  obtain rc w1 where 1: "open_pidfile ev pidfile w = (rc, w1)" by (metis prod.exhaust)
  from assms(3) 1 open_pidfile_result [OF 1] have rc: "rc = 0"
    by (auto simp: start_def)
  with 1 have p1: "fpidfile w1 = Some pidfile"
    by (auto simp: open_pidfile_def absp Let_def split: if_splits)
  from assms(3) 1 rc obtain d w2 where 2: "daemonize ev w1 = Inr (d, w2)"
    by (auto simp: start_def daemonize_def split: sum.splits prod.splits if_splits forked.splits)
  from daemonize_keeps [OF 2] p1 have p2: "fpidfile w2 = Some pidfile" by simp
  obtain c w3 where 3: "close_pidfile ev w2 = (c, w3)" by (metis prod.exhaust)
  from assms(3) 1 rc 2 3 have "c = 0" and "files w' = files w3"
    by (auto simp: start_def fail_start_def fork_service_def set_sighandler_pid_def Let_def
        split: if_splits forked.splits option.splits)
  with close_pidfile_writes [OF _ p2] 3 show ?thesis by (simp add: file_at_def absp)
qed

lemma runner_running_pidfile:
  assumes "pidfile \<noteq> []" and "hd pidfile = CHR ''/''"
    and "runner_start ev dlopen pidfile log servicev w ls = Some (Inr (Becomes prog, w', ls'))"
  shows "prog = servicev \<and> file_at w' pidfile = Some (print_int (e_pid ev) @ [LF])"
proof -
  note absp = abs_path_absolute [OF assms(1,2)]
  obtain rc w1 where 1: "open_pidfile ev pidfile w = (rc, w1)" by (metis prod.exhaust)
  from assms(3) 1 open_pidfile_result [OF 1] have rc: "rc = 0"
    by (auto simp: runner_start_def)
  with 1 have p1: "fpidfile w1 = Some pidfile"
    by (auto simp: open_pidfile_def absp Let_def split: if_splits)
  from assms(3) 1 rc obtain d w2 where 2: "daemonize ev w1 = Inr (d, w2)"
    by (auto simp: runner_start_def daemonize_def split: sum.splits prod.splits if_splits forked.splits)
  from daemonize_keeps [OF 2] p1 have p2: "fpidfile w2 = Some pidfile" by simp
  obtain c w3 where 3: "close_pidfile ev w2 = (c, w3)" by (metis prod.exhaust)
  from assms(3) 1 rc 2 3 have "c = 0" and "w' = w3" and "prog = servicev"
    by (auto simp: runner_start_def fail_start_def close_and_fail_def map_sum_eq_Inr
        split: if_splits option.splits sum.splits setup_result.splits)
  with close_pidfile_writes [OF _ p2] 3 show ?thesis by (simp add: file_at_def absp)
qed

lemma stop_signals_pid:
  assumes "file_at w pidfile = Some (print_int pid @ [LF])" and "pid \<in> set (e_alive ev)" and "e_kill ev"
  shows "stop_service ev pidfile w = (pid, w\<lparr>sent := sent w @ [(pid, SIGTERM)]\<rparr>) \<and> check_status ev pidfile w = 0"
  using assms by (simp add: stop_service_def check_status_def scan_print kill0_def)

text \<open>
  The runner's \<open>stop\<close> deletes the pid file although the service may go on for a while: another
  start is then possible beside it.
\<close>

lemma stop_forgets_service:
  assumes "file_at w pidfile = Some (print_int pid @ [LF])" and "pid \<in> set (e_alive ev)" and "e_kill ev"
    and "e_unlink ev" and "pid \<noteq> -1"
  shows "\<exists>w'. runner_main ev dlopen [''stop'', pidfile] w ls = Some (Inr (Exits 0, w', ls)) \<and>
    file_at w' pidfile = None \<and> check_status ev pidfile w' = -1"
  using stop_signals_pid [OF assms(1-3)] assms(1,4,5)
  by (auto simp: runner_main_def delete_pidfile_def file_at_def check_status_def Let_def)

text \<open>An environment in which every call succeeds and the service runs.\<close>

definition sample_env :: env where
  "sample_env =
     \<lparr>e_open = None, e_fdopen = True, e_ppid = 7, e_daemon = In_child (), e_setsid = True, e_chdir = True,
      e_sigaction = True, e_pid = 42, e_fprintf = True, e_fclose = True, e_service = In_parent 43,
      e_exec = True, e_wait = [], e_unlink = True, e_alive = [42], e_kill = True\<rparr>"

definition sample_world :: world where
  "sample_world = \<lparr>files = (\<lambda>_. None), cwd = ''/home'', fpidfile = None, sighandler_pid = -1, sent = []\<rparr>"

end
