(* ===== verification/CfsmBuild.thy ===== *)
theory CfsmBuild
  imports TemplateSpec
begin

unbundle bit_operations_syntax

text \<open>
  The state machine compiler: what the actions of \<open>libs/cfsm_lib/cfsm/cfsm_parse.y\<close> do to the
  namespace that describes the machine, and \<open>finalise_namespace\<close>.

  The parser itself is generated by yacc from the grammar; its input is here the list of
  directives the grammar derives. \<open>fsm_namespace\<close> is a dictionary of dictionaries, into which the
  code keeps static pointers: the objects those point to are fields of the state, the scalar
  entries are \<open>cf_vars\<close>, and \<open>fsm_namespace\<close> puts them together. \<open>current_state\<close> and
  \<open>current_event\<close> point to an entry of \<open>fsm_states\<close> and \<open>fsm_events\<close> and are kept as its key. An
  error of the input and a failed call both end the program with status 1 (\<open>Exit_failure\<close>); the
  allocations of the calls of an action are told apart by \<open>site k\<close>.

  Lemmas: see \<open>CfsmSpec\<close>.
\<close>

section \<open>The state of the parser\<close>

datatype cb_arg = Arg_event | Arg_new_state | Arg_old_state | Arg_ctx

datatype fsm_directive =
    State_enum string | Event_enum string | Fsm_struct string
  | Current_state_func string | Init_func string | Free_func string | Advance_func string
  | State_ntop_func string | Event_ntop_func string
  | Event_precond_args "cb_arg list" | Trans_precond_args "cb_arg list"    \<comment> \<open>\<open>none\<close> is the empty list\<close>
  | Event_callback_args "cb_arg list" | Trans_callback_args "cb_arg list"
  | State_decl string | Initial_state | On_event string string | Ignore_event string
  | Entry_callback string | Exit_callback string | Entry_precond string | Exit_precond string
  | Event_decl string | Event_callback string | Event_precond string
  | Banner "string list"

record cfsm =
  cf_vars :: mobject
  cf_initial_states :: mobject
  cf_states_array :: mobject
  cf_events_array :: mobject
  cf_states :: mobject
  cf_events :: mobject
  cf_event_callbacks :: mobject
  cf_event_preconds :: mobject
  cf_entry_callbacks :: mobject
  cf_entry_preconds :: mobject
  cf_exit_callbacks :: mobject
  cf_exit_preconds :: mobject
  current_state :: "string option"
  current_event :: "string option"
  trans_callback_args :: "32 word"
  event_callback_args :: "32 word"
  trans_precond_args :: "32 word"
  event_precond_args :: "32 word"
  event_specified :: bool

definition CB_ARG_CTX :: "32 word" where "CB_ARG_CTX = 1"
definition CB_ARG_EVENT :: "32 word" where "CB_ARG_EVENT = 2"
definition CB_ARG_NEW_STATE :: "32 word" where "CB_ARG_NEW_STATE = 4"
definition CB_ARG_OLD_STATE :: "32 word" where "CB_ARG_OLD_STATE = 8"

section \<open>Calls that must succeed, and objects inside dictionaries\<close>

definition must :: "mobject \<times> mobject option \<Rightarrow> mobject res" where
  "must x = (case x of (d, Some _) \<Rightarrow> Inr d | (d, None) \<Rightarrow> Inl Exit_failure)"

text \<open>The object an entry holds is changed in place.\<close>

fun put_item :: "bytes \<Rightarrow> mobject \<Rightarrow> mobject \<Rightarrow> mobject" where
  "put_item key v (MDict es n) = MDict (map (\<lambda>(k, w). (k, if k = key then v else w)) es) n"
| "put_item key v d = d"

definition inside :: "bytes \<Rightarrow> (mobject \<Rightarrow> mobject res) \<Rightarrow> mobject \<Rightarrow> mobject res" where
  "inside key f d =
     (case mdict_item d (MString key) of
        None \<Rightarrow> Inl Exit_failure
      | Some v \<Rightarrow> bind_res (f v) (\<lambda>v'. Inr (put_item key v' d)))"

text \<open>The same after a lookup by C string, which allocates a key.\<close>

definition inside_s :: "alloc \<Rightarrow> string \<Rightarrow> (mobject \<Rightarrow> mobject res) \<Rightarrow> mobject \<Rightarrow> mobject res" where
  "inside_s al key f d =
     (if mdict_item_s al d key = None then Inl Exit_failure else inside (cstr key) f d)"

section \<open>Events, states and actions\<close>

definition get_or_create_event :: "alloc \<Rightarrow> string \<Rightarrow> cfsm \<Rightarrow> cfsm res" where
  "get_or_create_event al nm c =
     (let c1 = c\<lparr>event_specified := True\<rparr>
      in if mdict_item_s (site 0 al) (cf_events c) nm \<noteq> None then Inr c1
         else
           bind_res (must (mdict_insert_sd (site 1 al) (cf_events c) nm)) (\<lambda>ev.
           bind_res (inside_s (site 2 al) nm (\<lambda>e.
               bind_res (must (mdict_insert_sd (site 3 al) e ''preconds'')) (\<lambda>e1.
                 must (mdict_insert_sd (site 4 al) e1 ''callbacks''))) ev) (\<lambda>ev'.
           bind_res (must (marray_append_s (site 5 al) (cf_events_array c) nm)) (\<lambda>arr.
             Inr (c1\<lparr>cf_events := ev', cf_events_array := arr\<rparr>)))))"

text \<open>
  \<open>create_action\<close>: \<open>parent\<close> is an entry of the dictionary \<open>owner\<close>, or NULL outside a block. The
  result: that dictionary and the list of all actions of this kind.
\<close>

definition create_action ::
  "alloc \<Rightarrow> string \<Rightarrow> string option \<Rightarrow> string \<Rightarrow> mobject \<Rightarrow> mobject \<Rightarrow> (mobject \<times> mobject) res" where
  "create_action al nm parent member owner main_list =
     (case parent of
        None \<Rightarrow> Inl Exit_failure
      | Some p \<Rightarrow>
          bind_res (inside p (inside_s (site 0 al) member (\<lambda>l.
              must (mdict_replace_si (site 1 al) l nm 1))) owner) (\<lambda>owner'.
          bind_res (must (mdict_replace_si (site 2 al) main_list nm 1)) (\<lambda>main'.
            Inr (owner', main'))))"

text \<open>The members a state gets when it is declared.\<close>

definition new_state_members :: "alloc \<Rightarrow> string \<Rightarrow> mobject \<Rightarrow> mobject res" where
  "new_state_members al nm d =
     bind_res (must (mdict_insert_ss (site 0 al) d ''name'' nm)) (\<lambda>d.
     bind_res (must (mdict_insert_sd (site 1 al) d ''events'')) (\<lambda>d.
     bind_res (must (mdict_insert_sd (site 2 al) d ''next_states'')) (\<lambda>d.
     bind_res (must (mdict_insert_sd (site 3 al) d ''exit_preconds'')) (\<lambda>d.
     bind_res (must (mdict_insert_sd (site 4 al) d ''entry_preconds'')) (\<lambda>d.
     bind_res (must (mdict_insert_sd (site 5 al) d ''exit_callbacks'')) (\<lambda>d.
     bind_res (must (mdict_insert_sd (site 6 al) d ''entry_callbacks'')) (\<lambda>d.
     bind_res (must (mdict_insert_si (site 7 al) d ''is_initial'' 0)) (\<lambda>d.
       must (mdict_insert_si (site 7 (site 1 al)) d ''indegree'' 0)))))))))"

definition state_decl :: "alloc \<Rightarrow> string \<Rightarrow> cfsm \<Rightarrow> cfsm res" where
  "state_decl al nm c =
     bind_res (must (mdict_insert_sd (site 0 al) (cf_states c) nm)) (\<lambda>st.
     bind_res (inside (cstr nm) (new_state_members (site 1 al) nm) st) (\<lambda>st'.
     bind_res (must (marray_append_s (site 2 al) (cf_states_array c) nm)) (\<lambda>arr.
       Inr (c\<lparr>current_event := None, current_state := Some (cstr nm), cf_states := st',
              cf_states_array := arr\<rparr>))))"

text \<open>An action inside a state block: \<open>f\<close> works on the object of the current state.\<close>

definition on_state :: "(mobject \<Rightarrow> mobject res) \<Rightarrow> cfsm \<Rightarrow> cfsm res" where
  "on_state f c =
     (case current_state c of
        None \<Rightarrow> Inl Exit_failure
      | Some s \<Rightarrow> bind_res (inside s f (cf_states c)) (\<lambda>st. Inr (c\<lparr>cf_states := st\<rparr>)))"

definition mark_initial :: "alloc \<Rightarrow> mobject \<Rightarrow> mobject res" where
  "mark_initial al d =
     (case mdict_item_s (site 0 al) d ''is_initial'' of
        None \<Rightarrow> Inl Exit_failure
      | Some i \<Rightarrow>
          if mint_value i \<noteq> 0 then Inl Exit_failure
          else must (mdict_replace_si (site 1 al) d ''is_initial'' 1))"

text \<open>A copy that must succeed.\<close>

definition copy_of :: "alloc \<Rightarrow> mobject \<Rightarrow> mobject res" where
  "copy_of al x =
     bind_res (deepcopy al x 0) (\<lambda>(v, n). case v of None \<Rightarrow> Inl Exit_failure | Some y \<Rightarrow> Inr y)"

definition initial_state_def :: "alloc \<Rightarrow> cfsm \<Rightarrow> cfsm res" where
  "initial_state_def al c =
     bind_res (on_state (mark_initial al) c) (\<lambda>c1.
       case Option.bind (current_state c1) (\<lambda>s. mdict_item (cf_states c1) (MString s)) of
         None \<Rightarrow> Inl Exit_failure
       | Some d \<Rightarrow>
           (case mdict_item_s (site 2 al) d ''name'' of
              None \<Rightarrow> Inl Exit_failure
            | Some nm \<Rightarrow>
                bind_res (copy_of (site 3 al) nm) (\<lambda>nm'.
                  case marray_append (site 4 al) (cf_initial_states c1) nm' of
                    (arr, r) \<Rightarrow> if r = -1 then Inl Exit_failure else Inr (c1\<lparr>cf_initial_states := arr\<rparr>))))"

definition on_event_def :: "alloc \<Rightarrow> string \<Rightarrow> string \<Rightarrow> cfsm \<Rightarrow> cfsm res" where
  "on_event_def al ev nxt c =
     (if current_state c = None then Inl Exit_failure
      else
        bind_res (get_or_create_event (site 0 al) ev c) (\<lambda>c1.
          on_state (\<lambda>d.
            bind_res (inside_s (site 1 al) ''events'' (\<lambda>e. must (mdict_replace_ss (site 2 al) e ev nxt)) d)
              (inside_s (site 3 al) ''next_states'' (\<lambda>e. must (mdict_replace_si (site 4 al) e nxt 1)))) c1))"

definition ignore_event_def :: "alloc \<Rightarrow> string \<Rightarrow> cfsm \<Rightarrow> cfsm res" where
  "ignore_event_def al ev c =
     (if current_state c = None then Inl Exit_failure
      else
        bind_res (get_or_create_event (site 0 al) ev c) (\<lambda>c1.
          on_state (inside_s (site 1 al) ''events'' (\<lambda>e. must (mdict_replace_sn (site 2 al) e ev))) c1))"

definition event_decl :: "alloc \<Rightarrow> string \<Rightarrow> cfsm \<Rightarrow> cfsm res" where
  "event_decl al nm c =
     bind_res (get_or_create_event al nm (c\<lparr>current_state := None\<rparr>)) (\<lambda>c1.
       Inr (c1\<lparr>current_event := Some (cstr nm)\<rparr>))"

section \<open>Names and arguments\<close>

definition set_fsm_name :: "alloc \<Rightarrow> string \<Rightarrow> string \<Rightarrow> cfsm \<Rightarrow> cfsm res" where
  "set_fsm_name al key v c =
     bind_res (must (mdict_replace_ss al (cf_vars c) key v)) (\<lambda>d. Inr (c\<lparr>cf_vars := d\<rparr>))"

text \<open>
  \<open>callback_args\<close>: the bits of the list; \<open>ctx\<close> is noted in the namespace as it is read.\<close>

fun callback_args :: "alloc \<Rightarrow> cb_arg list \<Rightarrow> cfsm \<Rightarrow> (32 word \<times> cfsm) res" where
  "callback_args al [] c = Inr (0, c)"
| "callback_args al (a # as) c =
     bind_res
       (case a of
          Arg_event \<Rightarrow> Inr (CB_ARG_EVENT, c)
        | Arg_new_state \<Rightarrow> Inr (CB_ARG_NEW_STATE, c)
        | Arg_old_state \<Rightarrow> Inr (CB_ARG_OLD_STATE, c)
        | Arg_ctx \<Rightarrow>
            bind_res (must (mdict_replace_si (site 0 al) (cf_vars c) ''need_ctx'' 1)) (\<lambda>d.
              Inr (CB_ARG_CTX, c\<lparr>cf_vars := d\<rparr>)))
       (\<lambda>(w, c1). map_sum id (\<lambda>(w', c2). (w OR w', c2)) (callback_args (site 1 al) as c1))"

section \<open>One directive\<close>

text \<open>
  The buffer of a banner is NULL until its first line; without lines it stays NULL, and
  \<open>mdict_replace_ss\<close> takes its length.
\<close>

fun banner_lines :: "alloc \<Rightarrow> string list \<Rightarrow> string option \<Rightarrow> string option res" where
  "banner_lines al [] b = Inr b"
| "banner_lines al (l # ls) b =
     (if \<not> al 0 then Inl Exit_failure
      else banner_lines (site 1 al) ls (Some ((case b of None \<Rightarrow> [] | Some t \<Rightarrow> t) @ l)))"

definition banner_end :: "alloc \<Rightarrow> string option \<Rightarrow> cfsm \<Rightarrow> cfsm res" where
  "banner_end al b c =
     (case b of None \<Rightarrow> Inl Null_deref | Some t \<Rightarrow> set_fsm_name al ''source_banner'' t c)"

definition directive_step :: "alloc \<Rightarrow> fsm_directive \<Rightarrow> cfsm \<Rightarrow> cfsm res" where
  "directive_step al d c =
     (case d of
        State_enum v \<Rightarrow> set_fsm_name al ''state_enum'' v c
      | Event_enum v \<Rightarrow> set_fsm_name al ''event_enum'' v c
      | Fsm_struct v \<Rightarrow> set_fsm_name al ''fsm_struct'' v c
      | Current_state_func v \<Rightarrow> set_fsm_name al ''current_state_func'' v c
      | Init_func v \<Rightarrow> set_fsm_name al ''init_func'' v c
      | Free_func v \<Rightarrow> set_fsm_name al ''free_func'' v c
      | Advance_func v \<Rightarrow> set_fsm_name al ''advance_func'' v c
      | State_ntop_func v \<Rightarrow> set_fsm_name al ''state_ntop_func'' v c
      | Event_ntop_func v \<Rightarrow> set_fsm_name al ''event_ntop_func'' v c
      | Event_precond_args as \<Rightarrow>
          map_sum id (\<lambda>(w, c'). c'\<lparr>event_precond_args := w\<rparr>) (callback_args al as c)
      | Trans_precond_args as \<Rightarrow>
          map_sum id (\<lambda>(w, c'). c'\<lparr>trans_precond_args := w\<rparr>) (callback_args al as c)
      | Event_callback_args as \<Rightarrow>
          map_sum id (\<lambda>(w, c'). c'\<lparr>event_callback_args := w\<rparr>) (callback_args al as c)
      | Trans_callback_args as \<Rightarrow>
          map_sum id (\<lambda>(w, c'). c'\<lparr>trans_callback_args := w\<rparr>) (callback_args al as c)
      | State_decl s \<Rightarrow> state_decl al s c
      | Initial_state \<Rightarrow> initial_state_def al c
      | On_event ev nxt \<Rightarrow> on_event_def al ev nxt c
      | Ignore_event ev \<Rightarrow> ignore_event_def al ev c
      | Entry_callback f \<Rightarrow>
          map_sum id (\<lambda>(st, l). c\<lparr>cf_states := st, cf_entry_callbacks := l\<rparr>)
            (create_action al f (current_state c) ''entry_callbacks'' (cf_states c) (cf_entry_callbacks c))
      | Exit_callback f \<Rightarrow>
          map_sum id (\<lambda>(st, l). c\<lparr>cf_states := st, cf_exit_callbacks := l\<rparr>)
            (create_action al f (current_state c) ''exit_callbacks'' (cf_states c) (cf_exit_callbacks c))
      | Entry_precond f \<Rightarrow>
          map_sum id (\<lambda>(st, l). c\<lparr>cf_states := st, cf_entry_preconds := l\<rparr>)
            (create_action al f (current_state c) ''entry_preconds'' (cf_states c) (cf_entry_preconds c))
      | Exit_precond f \<Rightarrow>
          map_sum id (\<lambda>(st, l). c\<lparr>cf_states := st, cf_exit_preconds := l\<rparr>)
            (create_action al f (current_state c) ''exit_preconds'' (cf_states c) (cf_exit_preconds c))
      | Event_decl ev \<Rightarrow> event_decl al ev c
      | Event_callback f \<Rightarrow>
          map_sum id (\<lambda>(ev, l). c\<lparr>cf_events := ev, cf_event_callbacks := l\<rparr>)
            (create_action al f (current_event c) ''callbacks'' (cf_events c) (cf_event_callbacks c))
      | Event_precond f \<Rightarrow>
          map_sum id (\<lambda>(ev, l). c\<lparr>cf_events := ev, cf_event_preconds := l\<rparr>)
            (create_action al f (current_event c) ''preconds'' (cf_events c) (cf_event_preconds c))
      | Banner ls \<Rightarrow>
          bind_res (banner_lines (site 0 al) ls None) (\<lambda>b. banner_end (site 1 al) b c))"

fun directives :: "alloc \<Rightarrow> fsm_directive list \<Rightarrow> cfsm \<Rightarrow> cfsm res" where
  "directives al [] c = Inr c"
| "directives al (d # ds) c = bind_res (directive_step (site 0 al) d c) (directives (site 1 al) ds)"

section \<open>The initial namespace\<close>

text \<open>The strings set by default, in order; the header's name comes last.\<close>

definition default_strings :: "(string \<times> string) list" where
  "default_strings =
     [(''source_banner'', ''''), (''event_enum'', ''fsm_event''), (''state_enum'', ''fsm_state''),
      (''fsm_struct'', ''fsm''), (''init_func'', ''fsm_init''), (''free_func'', ''fsm_free''),
      (''advance_func'', ''fsm_advance''), (''state_ntop_func'', ''fsm_state_ntop''),
      (''event_ntop_func'', ''fsm_event_ntop''), (''current_state_func'', ''fsm_current_state''),
      (''event_precond_args'', ''''), (''event_precond_args_proto'', ''void''),
      (''trans_precond_args'', ''''), (''trans_precond_args_proto'', ''void''),
      (''event_cb_args'', ''''), (''event_cb_args_proto'', ''void''),
      (''trans_cb_args'', ''''), (''trans_cb_args_proto'', ''void'')]"

fun insert_strings :: "alloc \<Rightarrow> (string \<times> string) list \<Rightarrow> mobject \<Rightarrow> mobject res" where
  "insert_strings al [] d = Inr d"
| "insert_strings al ((k, v) # kvs) d =
     bind_res (must (mdict_insert_ss (site 0 al) d k v)) (insert_strings (site 1 al) kvs)"

definition upper :: "char \<Rightarrow> char" where
  "upper c = (if 97 \<le> byte_of c \<and> byte_of c \<le> 122 then char_of (byte_of c - 32) else c)"

definition alnum :: "char \<Rightarrow> bool" where
  "alnum c \<longleftrightarrow> 48 \<le> byte_of c \<and> byte_of c \<le> 57 \<or> 65 \<le> byte_of c \<and> byte_of c \<le> 90 \<or>
     97 \<le> byte_of c \<and> byte_of c \<le> 122"

definition header_guard :: "string \<Rightarrow> string" where
  "header_guard nm = CHR ''_'' # map (\<lambda>c. if alnum c then upper c else CHR ''_'') nm"

definition new_dict :: "alloc \<Rightarrow> mobject res" where
  "new_dict al = (case mdict_new al of None \<Rightarrow> Inl Exit_failure | Some d \<Rightarrow> Inr d)"

definition new_array :: "alloc \<Rightarrow> mobject res" where
  "new_array al = (case marray_new al of None \<Rightarrow> Inl Exit_failure | Some d \<Rightarrow> Inr d)"

text \<open>
  \<open>header_name\<close> is the name synthesised from the output path, if any. The containers of a kind, and
  the guard with its entry, share an allocation: the failure of any of them ends the program.
\<close>

definition setup_initial_namespace :: "alloc \<Rightarrow> string option \<Rightarrow> cfsm res" where
  "setup_initial_namespace al header_name =
     bind_res (new_dict (site 0 al)) (\<lambda>d0.
     bind_res (insert_strings (site 1 al) default_strings d0) (\<lambda>d1.
     bind_res (must (mdict_insert_si (site 2 al) d1 ''need_ctx'' 0)) (\<lambda>d2.
     bind_res (insert_strings (site 3 al)
         (case header_name of
            None \<Rightarrow> [(''header_guard'', ''_FSM_H''), (''header_name'', ''fsm.h'')]
          | Some nm \<Rightarrow> [(''header_name'', nm), (''header_guard'', header_guard nm)]) d2) (\<lambda>d3.
     bind_res (new_array (site 4 al)) (\<lambda>a.
     bind_res (new_dict (site 5 al)) (\<lambda>e.
       Inr \<lparr>cf_vars = d3, cf_initial_states = a, cf_states_array = a, cf_events_array = a,
            cf_states = e, cf_events = e, cf_event_callbacks = e, cf_event_preconds = e,
            cf_entry_callbacks = e, cf_entry_preconds = e, cf_exit_callbacks = e, cf_exit_preconds = e,
            current_state = None, current_event = None, trans_callback_args = 0, event_callback_args = 0,
            trans_precond_args = 0, event_precond_args = 0, event_specified = False\<rparr>))))))"

section \<open>Argument lists of callbacks\<close>

definition cat :: "string \<Rightarrow> string \<Rightarrow> nat \<Rightarrow> string" where
  "cat dst src len = cstr (fst (strlcat (dst @ replicate (len - length dst) NUL) src len))"

definition commacat :: "string \<Rightarrow> string \<Rightarrow> nat \<Rightarrow> string" where
  "commacat dst src len = cat (if dst \<noteq> [] then cat dst '', '' len else dst) src len"

definition has_bit :: "32 word \<Rightarrow> 32 word \<Rightarrow> bool" where
  "has_bit argdef b \<longleftrightarrow> argdef AND b \<noteq> 0"

definition gen_cb_args :: "32 word \<Rightarrow> string" where
  "gen_cb_args argdef =
     (if argdef = 0 then ''''
      else
        (let b = '''';
             b = (if has_bit argdef CB_ARG_EVENT then commacat b ''ev'' 256 else b);
             b = (if has_bit argdef CB_ARG_OLD_STATE then commacat b ''old_state'' 256 else b);
             b = (if has_bit argdef CB_ARG_NEW_STATE then commacat b ''new_state'' 256 else b)
         in if has_bit argdef CB_ARG_CTX then commacat b ''ctx'' 256 else b))"

definition gen_cb_args_proto :: "alloc \<Rightarrow> cfsm \<Rightarrow> 32 word \<Rightarrow> string res" where
  "gen_cb_args_proto al c argdef =
     (case (Option.bind (mdict_item_s (site 0 al) (cf_vars c) ''state_enum'') mstring_ptr,
            Option.bind (mdict_item_s (site 1 al) (cf_vars c) ''event_enum'') mstring_ptr) of
        (Some state_enum, Some event_enum) \<Rightarrow>
          Inr (if argdef = 0 then ''''
               else
                 (let se = cstr state_enum; ee = cstr event_enum;
                      b = '''';
                      b = (if has_bit argdef CB_ARG_EVENT
                           then cat (cat (commacat b ''enum '' 512) ee 512) '' ev'' 512 else b);
                      b = (if has_bit argdef CB_ARG_OLD_STATE
                           then cat (cat (commacat b ''enum '' 512) se 512) '' old_state'' 512 else b);
                      b = (if has_bit argdef CB_ARG_NEW_STATE
                           then cat (cat (commacat b ''enum '' 512) se 512) '' new_state'' 512 else b)
                  in if has_bit argdef CB_ARG_CTX then commacat b ''void *ctx'' 512 else b))
      | _ \<Rightarrow> Inl Exit_failure)"

section \<open>Finishing the namespace\<close>

definition insert_copy :: "alloc \<Rightarrow> mobject \<Rightarrow> nat \<Rightarrow> string \<Rightarrow> mobject \<Rightarrow> mobject res" where
  "insert_copy al arr i key d =
     (case marray_item arr i of
        None \<Rightarrow> Inl Exit_failure
      | Some x \<Rightarrow> bind_res (copy_of (site 0 al) x) (\<lambda>y. must (mdict_insert_s (site 1 al) d key y)))"

definition replace_args :: "alloc \<Rightarrow> cfsm \<Rightarrow> string \<Rightarrow> string \<Rightarrow> 32 word \<Rightarrow> mobject \<Rightarrow> mobject res" where
  "replace_args al c key proto argdef d =
     bind_res (must (mdict_replace_ss (site 0 al) d key (gen_cb_args argdef))) (\<lambda>d1.
     bind_res (gen_cb_args_proto (site 1 al) c argdef) (\<lambda>p.
       must (mdict_replace_ss (site 2 al) d1 proto p)))"

fun dict_entries :: "mobject \<Rightarrow> (bytes \<times> mobject) list" where
  "dict_entries (MDict es n) = es"
| "dict_entries _ = []"

text \<open>The loops over an iterator, whose creation is \<open>al\<close> at the site used.\<close>

fun count_next :: "alloc \<Rightarrow> (bytes \<times> mobject) list \<Rightarrow> mobject \<Rightarrow> mobject res" where
  "count_next al [] states = Inr states"
| "count_next al ((next_state, _) # ns) states =
     bind_res (inside next_state (inside_s (site 0 al) ''indegree'' (\<lambda>i.
         case mint_add i 1 of (i', r) \<Rightarrow> if r \<noteq> 0 then Inl Exit_failure else Inr i')) states)
       (count_next (site 1 al) ns)"

fun count_states :: "alloc \<Rightarrow> (bytes \<times> mobject) list \<Rightarrow> mobject \<Rightarrow> mobject res" where
  "count_states al [] states = Inr states"
| "count_states al ((state, d) # es) states =
     (case mdict_item_s (site 0 al) d ''next_states'' of
        None \<Rightarrow> Inl Exit_failure
      | Some nxt \<Rightarrow>
          (if mobject_getiter (site 1 al) nxt = None then Inl Exit_failure
           else bind_res (count_next (site 2 al) (dict_entries nxt) states) (count_states (site 3 al) es)))"

fun check_reached :: "alloc \<Rightarrow> (bytes \<times> mobject) list \<Rightarrow> unit res" where
  "check_reached al [] = Inr ()"
| "check_reached al ((state, d) # es) =
     (case mdict_item_s (site 0 al) d ''indegree'' of
        None \<Rightarrow> Inl Exit_failure
      | Some i \<Rightarrow>
          if 0 < sint (mint_value i) then check_reached (site 2 al) es
          else
            (case mdict_item_s (site 1 al) d ''is_initial'' of
               None \<Rightarrow> Inl Exit_failure
             | Some x \<Rightarrow> if mint_value x \<noteq> 1 then Inl Exit_failure else check_reached (site 2 al) es))"

definition count_indegrees :: "alloc \<Rightarrow> mobject \<Rightarrow> mobject res" where
  "count_indegrees al states =
     (if mobject_getiter (site 0 al) states = None then Inl Exit_failure
      else
        bind_res (count_states (site 1 al) (dict_entries states) states) (\<lambda>st.
          if mobject_getiter (site 2 al) st = None then Inl Exit_failure
          else bind_res (check_reached (site 3 al) (dict_entries st)) (\<lambda>_. Inr st)))"

text \<open>The scalar entries that are added or replaced at the end.\<close>

definition finalise_vars :: "alloc \<Rightarrow> cfsm \<Rightarrow> mobject res" where
  "finalise_vars al c =
     (let n = marray_len (cf_states_array c); m = marray_len (cf_initial_states c);
          ne = marray_len (cf_events_array c)
      in if n = 0 \<or> n = 1 \<or> \<not> event_specified c then Inl Exit_failure
         else
           bind_res (insert_copy (site 0 al) (cf_states_array c) 0 ''min_state_valid'' (cf_vars c)) (\<lambda>d.
           bind_res (insert_copy (site 1 al) (cf_states_array c) (n - 1) ''max_state_valid'' d) (\<lambda>d.
             if m = 0 then Inl Exit_failure
             else
               bind_res (must (mdict_insert_si (site 2 al) d ''multiple_start_states'' (if m > 1 then 1 else 0))) (\<lambda>d.
               bind_res
                 (if ne > 0
                  then bind_res (insert_copy (site 3 al) (cf_events_array c) 0 ''min_event_valid'' d) (\<lambda>d.
                         insert_copy (site 4 al) (cf_events_array c) (ne - 1) ''max_event_valid'' d)
                  else Inr d) (\<lambda>d.
               bind_res (replace_args (site 5 al) c ''event_precond_args'' ''event_precond_args_proto''
                 (event_precond_args c) d) (\<lambda>d.
               bind_res (replace_args (site 6 al) c ''trans_precond_args'' ''trans_precond_args_proto''
                 (trans_precond_args c) d) (\<lambda>d.
               bind_res (replace_args (site 7 al) c ''event_cb_args'' ''event_cb_args_proto''
                 (event_callback_args c) d)
                 (replace_args (site 7 (site 0 al)) c ''trans_cb_args'' ''trans_cb_args_proto''
                   (trans_callback_args c)))))))))"

definition finalise_namespace :: "alloc \<Rightarrow> cfsm \<Rightarrow> cfsm res" where
  "finalise_namespace al c =
     bind_res (finalise_vars (site 0 al) c) (\<lambda>d.
     bind_res (count_indegrees (site 1 al) (cf_states c)) (\<lambda>st.
       Inr (c\<lparr>cf_vars := d, cf_states := st\<rparr>)))"

text \<open>The namespace the templates see.\<close>

definition fsm_namespace :: "cfsm \<Rightarrow> mobject" where
  "fsm_namespace c =
     (let es = dict_entries (cf_vars c) @
            [(''events_array'', cf_events_array c), (''states_array'', cf_states_array c),
             (''initial_states'', cf_initial_states c), (''states'', cf_states c), (''events'', cf_events c),
             (''event_callbacks'', cf_event_callbacks c), (''event_preconds'', cf_event_preconds c),
             (''transition_entry_callbacks'', cf_entry_callbacks c),
             (''transition_exit_callbacks'', cf_exit_callbacks c),
             (''transition_entry_preconds'', cf_entry_preconds c),
             (''transition_exit_preconds'', cf_exit_preconds c)]
      in MDict es (of_nat (length es)))"

end
