(* ===== verification/CfsmSpec.thy ===== *)
theory CfsmSpec
  imports CfsmBuild MObjectSpec
begin

text \<open>
  What the state machine compiler builds: an abstract machine with its states and events in the
  order of their declaration, and a step on it for each directive. The namespace refines it and
  stays well formed; the final check accepts exactly the machines that it should, up to what it
  remembers of replaced transitions.
\<close>

section \<open>Well-formed namespaces\<close>

definition strs :: "mobject \<Rightarrow> bytes list" where
  "strs a = map (\<lambda>x. case x of Some (MString s) \<Rightarrow> s | _ \<Rightarrow> []) (elems a)"

definition str_array :: "mobject \<Rightarrow> bool" where
  "str_array a \<longleftrightarrow> array_ok a \<and> (\<forall>x \<in> set (elems a). \<exists>s. x = Some (MString s))"

definition keys_of :: "mobject \<Rightarrow> bytes list" where
  "keys_of d = map fst (dict_entries d)"

definition has_dict :: "mobject \<Rightarrow> bytes \<Rightarrow> bool" where
  "has_dict d k \<longleftrightarrow> (\<exists>e. dict_map d k = Some e \<and> dict_ok e)"

definition state_members :: "bytes list" where
  "state_members = [''events'', ''next_states'', ''exit_preconds'', ''entry_preconds'', ''exit_callbacks'',
     ''entry_callbacks'']"

definition state_ok :: "bytes \<Rightarrow> mobject \<Rightarrow> bool" where
  "state_ok s d \<longleftrightarrow>
     dict_ok d \<and> dict_map d ''name'' = Some (MString s) \<and> (\<forall>m \<in> set state_members. has_dict d m) \<and>
     (\<exists>i. (i = 0 \<or> i = 1) \<and> dict_map d ''is_initial'' = Some (MInt i)) \<and>
     dict_map d ''indegree'' = Some (MInt 0)"

definition event_members :: "bytes list" where
  "event_members = [''preconds'', ''callbacks'']"

definition event_ok :: "mobject \<Rightarrow> bool" where
  "event_ok d \<longleftrightarrow> dict_ok d \<and> (\<forall>m \<in> set event_members. has_dict d m)"

definition states_ok :: "mobject \<Rightarrow> bool" where
  "states_ok dd \<longleftrightarrow> dict_ok dd \<and> (\<forall>s d. dict_map dd s = Some d \<longrightarrow> state_ok s d)"

definition events_ok :: "mobject \<Rightarrow> bool" where
  "events_ok dd \<longleftrightarrow> dict_ok dd \<and> (\<forall>s d. dict_map dd s = Some d \<longrightarrow> event_ok d)"

definition initial_in :: "mobject \<Rightarrow> bytes \<Rightarrow> bool" where
  "initial_in dd s \<longleftrightarrow> (\<exists>d. dict_map dd s = Some d \<and> dict_map d ''is_initial'' = Some (MInt 1))"

definition cfsm_ok :: "cfsm \<Rightarrow> bool" where
  "cfsm_ok c \<longleftrightarrow>
     dict_ok (cf_vars c) \<and> states_ok (cf_states c) \<and> events_ok (cf_events c) \<and>
     str_array (cf_states_array c) \<and> str_array (cf_events_array c) \<and> str_array (cf_initial_states c) \<and>
     keys_of (cf_states c) = strs (cf_states_array c) \<and> keys_of (cf_events c) = strs (cf_events_array c) \<and>
     (\<forall>l \<in> {cf_entry_callbacks c, cf_exit_callbacks c, cf_entry_preconds c, cf_exit_preconds c,
             cf_event_callbacks c, cf_event_preconds c}. dict_ok l) \<and>
     (\<forall>s. current_state c = Some s \<longrightarrow> dict_map (cf_states c) s \<noteq> None) \<and>
     (\<forall>e. current_event c = Some e \<longrightarrow> dict_map (cf_events c) e \<noteq> None) \<and>
     distinct (strs (cf_initial_states c)) \<and>
     (\<forall>s. s \<in> set (strs (cf_initial_states c)) \<longleftrightarrow> initial_in (cf_states c) s)"

section \<open>Dictionaries of dictionaries\<close>

lemma dict_map_keys: "dict_ok d \<Longrightarrow> dict_map d k = None \<longleftrightarrow> k \<notin> set (keys_of d)"
  by (cases d) (auto simp: keys_of_def map_of_eq_None_iff)

lemma put_item_simps:
  assumes "dict_ok d" and "dict_map d k \<noteq> None"
  shows "dict_ok (put_item k v d)" and "keys_of (put_item k v d) = keys_of d"
    and "dict_map (put_item k v d) = (dict_map d)(k \<mapsto> v)"
proof -
  from assms(1) obtain es n where d: "d = MDict es n" "distinct (map fst es)" "n = of_nat (length es)"
    by (rule dict_cases)
  have fst: "map fst (map (\<lambda>(k', w). (k', if k' = k then v else w)) es) = map fst es"
    by (induction es) auto
  have "map_of (map (\<lambda>(k', w). (k', if k' = k then v else w)) es) =
      (if k \<in> fst ` set es then (map_of es)(k \<mapsto> v) else map_of es)"
    by (induction es) (auto simp: fun_eq_iff)
  with d fst assms(2) show "dict_ok (put_item k v d)" "keys_of (put_item k v d) = keys_of d"
    "dict_map (put_item k v d) = (dict_map d)(k \<mapsto> v)"
    by (auto simp: keys_of_def map_of_eq_None_iff simp del: map_map)
qed

lemma inside_Inr:
  "dict_ok d \<Longrightarrow> inside k f d = Inr d' \<Longrightarrow>
   \<exists>v v'. dict_map d k = Some v \<and> f v = Inr v' \<and> d' = put_item k v' d"
  by (auto simp: inside_def mdict_item_correct bind_res_eq_Inr split: option.splits)

lemma mdict_item_s_Some: "dict_ok d \<Longrightarrow> mdict_item_s al d k = Some v \<Longrightarrow> dict_map d (cstr k) = Some v"
  by (auto simp: mdict_item_s_def mstring_new_def mstring_new2_def mdict_item_correct split: if_splits)

lemma inside_s_Inr:
  "dict_ok d \<Longrightarrow> inside_s al k f d = Inr d' \<Longrightarrow>
   \<exists>v v'. dict_map d (cstr k) = Some v \<and> f v = Inr v' \<and> d' = put_item (cstr k) v' d"
  by (auto simp: inside_s_def dest: inside_Inr split: if_splits)

section \<open>The calls that must succeed\<close>

lemma must_Inr: "must x = Inr d \<longleftrightarrow> (\<exists>v. x = (d, Some v))"
  by (auto simp: must_def split: prod.splits option.splits)

lemma mstring_new_Some: "mstring_new al s = Some t \<Longrightarrow> t = MString (cstr s)"
  by (auto simp: mstring_new_def mstring_new2_def split: if_splits)

lemma replace_entry:
  assumes "dict_ok d" and "store_value_s new (mdict_replace_s al d k) d = (d', Some v)"
  shows "new = Some v \<and> dict_ok d' \<and> dict_map d' = (dict_map d)(cstr k \<mapsto> v)"
proof -
  from assms(2) obtain r where n: "new = Some v" and r: "mdict_replace_s al d k v = (d', r)" "r \<noteq> None"
    by (auto simp: store_value_s_def split: option.splits prod.splits if_splits)
  from r obtain t rc where t: "mstring_new al k = Some t" and
    rc: "mdict_replace (\<lambda>j. al (j + 2)) d t v = (d', rc)" "rc \<noteq> -1"
    by (auto simp: mdict_replace_s_def store_new_def split: option.splits prod.splits if_splits)
  from mdict_replace_correct [OF assms(1), of "\<lambda>j. al (j + 2)" "cstr k" v d' rc] rc mstring_new_Some [OF t]
  show ?thesis using n by auto
qed

lemma insert_entry:
  assumes "dict_ok d" and "store_value_s new (mdict_insert_s al d k) d = (d', Some v)"
  shows "new = Some v \<and> dict_ok d' \<and> dict_map d (cstr k) = None \<and> dict_map d' = (dict_map d)(cstr k \<mapsto> v) \<and>
    keys_of d' = keys_of d @ [cstr k]"
proof -
  from assms(2) obtain r where n: "new = Some v" and r: "mdict_insert_s al d k v = (d', r)" "r \<noteq> None"
    by (auto simp: store_value_s_def split: option.splits prod.splits if_splits)
  from r obtain t rc where t: "mstring_new al k = Some t" and
    rc: "mdict_insert (\<lambda>j. al (j + 2)) d t v = (d', rc)" "rc \<noteq> -1"
    by (auto simp: mdict_insert_s_def store_new_def split: option.splits prod.splits if_splits)
  from mdict_insert_correct [OF assms(1), of "\<lambda>j. al (j + 2)" "cstr k" v d' rc] rc mstring_new_Some [OF t]
  have "dict_ok d' \<and> dict_map d (cstr k) = None \<and> dict_map d' = (dict_map d)(cstr k \<mapsto> v)" by auto
  moreover have "keys_of d' = keys_of d @ [cstr k]"
    using rc mstring_new_Some [OF t] by (cases d) (auto simp: keys_of_def split: if_splits)
  ultimately show ?thesis using n by blast
qed

lemma must_replace:
  "dict_ok d \<Longrightarrow> must (store_value_s new (mdict_replace_s al d k) d) = Inr d' \<Longrightarrow>
   \<exists>v. new = Some v \<and> dict_ok d' \<and> dict_map d' = (dict_map d)(cstr k \<mapsto> v)"
  using replace_entry [of d new al k d'] by (auto simp: must_Inr)

lemma must_insert:
  "dict_ok d \<Longrightarrow> must (store_value_s new (mdict_insert_s al d k) d) = Inr d' \<Longrightarrow>
   \<exists>v. new = Some v \<and> dict_ok d' \<and> dict_map d (cstr k) = None \<and> dict_map d' = (dict_map d)(cstr k \<mapsto> v) \<and>
     keys_of d' = keys_of d @ [cstr k]"
  using insert_entry [of d new al k d'] by (auto simp: must_Inr)

lemma must_replace_ss:
  "dict_ok d \<Longrightarrow> must (mdict_replace_ss al d k v) = Inr d' \<Longrightarrow>
   dict_ok d' \<and> dict_map d' = (dict_map d)(cstr k \<mapsto> MString (cstr v))"
  unfolding mdict_replace_ss_def using must_replace mstring_new_Some by blast

lemma must_replace_si:
  "dict_ok d \<Longrightarrow> must (mdict_replace_si al d k i) = Inr d' \<Longrightarrow>
   dict_ok d' \<and> dict_map d' = (dict_map d)(cstr k \<mapsto> MInt i)"
  unfolding mdict_replace_si_def mint_new_def using must_replace [of d _ _ k d'] by (fastforce split: if_splits)

lemma must_replace_sn:
  "dict_ok d \<Longrightarrow> must (mdict_replace_sn al d k) = Inr d' \<Longrightarrow>
   dict_ok d' \<and> dict_map d' = (dict_map d)(cstr k \<mapsto> MNone)"
  unfolding mdict_replace_sn_def mnone_new_def using must_replace [of d _ _ k d'] by (fastforce split: if_splits)

definition empty_dict :: mobject where
  "empty_dict = MDict [] 0"

lemma empty_dict_simps [simp]: "dict_ok empty_dict" "dict_map empty_dict = Map.empty" "keys_of empty_dict = []"
  by (simp_all add: empty_dict_def keys_of_def)

lemma must_insert_sd:
  "dict_ok d \<Longrightarrow> must (mdict_insert_sd al d k) = Inr d' \<Longrightarrow>
   dict_ok d' \<and> dict_map d (cstr k) = None \<and> dict_map d' = (dict_map d)(cstr k \<mapsto> empty_dict) \<and>
   keys_of d' = keys_of d @ [cstr k]"
  unfolding mdict_insert_sd_def mdict_new_def empty_dict_def
  using must_insert [of d _ _ k d'] by (fastforce split: if_splits)

lemma must_insert_si:
  "dict_ok d \<Longrightarrow> must (mdict_insert_si al d k i) = Inr d' \<Longrightarrow>
   dict_ok d' \<and> dict_map d (cstr k) = None \<and> dict_map d' = (dict_map d)(cstr k \<mapsto> MInt i) \<and>
   keys_of d' = keys_of d @ [cstr k]"
  unfolding mdict_insert_si_def mint_new_def
  using must_insert [of d _ _ k d'] by (fastforce split: if_splits)

lemma must_insert_ss:
  "dict_ok d \<Longrightarrow> must (mdict_insert_ss al d k v) = Inr d' \<Longrightarrow>
   dict_ok d' \<and> dict_map d (cstr k) = None \<and> dict_map d' = (dict_map d)(cstr k \<mapsto> MString (cstr v)) \<and>
   keys_of d' = keys_of d @ [cstr k]"
  unfolding mdict_insert_ss_def using must_insert mstring_new_Some by blast

lemma marray_append_elems:
  assumes "array_ok a" and "marray_append al a x = (a', r)" and "r \<noteq> -1"
  shows "array_ok a' \<and> elems a' = elems a @ [Some x]"
  using marray_append_correct [OF assms(1,2)] assms(3) by auto

lemma must_append_s:
  assumes "str_array a" and "must (marray_append_s al a s) = Inr a'"
  shows "str_array a' \<and> strs a' = strs a @ [cstr s]"
proof -
  from assms(2) obtain t r where "mstring_new al s = Some t" "marray_append (\<lambda>j. al (j + 2)) a t = (a', r)" "r \<noteq> -1"
    by (auto simp: must_Inr marray_append_s_def store_new_def split: option.splits prod.splits if_splits)
  with marray_append_elems [of a _ t a' r] assms(1) mstring_new_Some [of al s t] show ?thesis
    by (auto simp: str_array_def strs_def)
qed

section \<open>The abstract machine\<close>

text \<open>What an entry says: the next state of an event, that the event is ignored, or a name in a list.\<close>

datatype entry = To bytes | Ignored | Listed

fun entry_of :: "mobject \<Rightarrow> entry" where
  "entry_of (MString t) = To t"
| "entry_of MNone = Ignored"
| "entry_of _ = Listed"

record machine =
  m_states :: "bytes list"
  m_events :: "bytes list"
  m_initial :: "bytes list"
  m_state :: "bytes option"
  m_event :: "bytes option"
  m_part :: "bytes \<Rightarrow> bytes \<Rightarrow> bytes \<rightharpoonup> entry"     \<comment> \<open>state, member, name\<close>
  m_evpart :: "bytes \<Rightarrow> bytes \<Rightarrow> bytes \<rightharpoonup> entry"   \<comment> \<open>event, member, name\<close>

definition sub :: "mobject \<Rightarrow> bytes \<Rightarrow> bytes \<Rightarrow> bytes \<rightharpoonup> entry" where
  "sub dd s m =
     (case dict_map dd s of
        None \<Rightarrow> Map.empty
      | Some d \<Rightarrow> (case dict_map d m of None \<Rightarrow> Map.empty | Some l \<Rightarrow> map_option entry_of \<circ> dict_map l))"

definition machine_of :: "cfsm \<Rightarrow> machine" where
  "machine_of c =
     \<lparr>m_states = strs (cf_states_array c), m_events = strs (cf_events_array c),
      m_initial = strs (cf_initial_states c), m_state = current_state c, m_event = current_event c,
      m_part = sub (cf_states c), m_evpart = sub (cf_events c)\<rparr>"

definition add_event :: "bytes \<Rightarrow> bytes list \<Rightarrow> bytes list" where
  "add_event e es = (if e \<in> set es then es else es @ [e])"

definition put :: "bytes \<Rightarrow> bytes \<Rightarrow> bytes \<Rightarrow> entry \<Rightarrow> (bytes \<Rightarrow> bytes \<Rightarrow> bytes \<rightharpoonup> entry) \<Rightarrow>
    (bytes \<Rightarrow> bytes \<Rightarrow> bytes \<rightharpoonup> entry)" where
  "put s m k v p = p(s := (p s)(m := (p s m)(k \<mapsto> v)))"

definition state_action :: "bytes \<Rightarrow> bytes \<Rightarrow> machine \<Rightarrow> machine option" where
  "state_action m f M =
     map_option (\<lambda>s. M\<lparr>m_part := put s m f Listed (m_part M)\<rparr>) (m_state M)"

definition event_action :: "bytes \<Rightarrow> bytes \<Rightarrow> machine \<Rightarrow> machine option" where
  "event_action m f M =
     map_option (\<lambda>s. M\<lparr>m_evpart := put s m f Listed (m_evpart M)\<rparr>) (m_event M)"

definition mstep :: "fsm_directive \<Rightarrow> machine \<Rightarrow> machine option" where
  "mstep d M =
     (case d of
        State_decl s \<Rightarrow>
          if s \<in> set (m_states M) then None
          else Some (M\<lparr>m_states := m_states M @ [s], m_state := Some s, m_event := None\<rparr>)
      | Initial_state \<Rightarrow>
          Option.bind (m_state M) (\<lambda>s.
            if s \<in> set (m_initial M) then None else Some (M\<lparr>m_initial := m_initial M @ [s]\<rparr>))
      | On_event e t \<Rightarrow>
          map_option (\<lambda>s. M\<lparr>m_events := add_event e (m_events M),
              m_part := put s ''next_states'' t Listed (put s ''events'' e (To t) (m_part M))\<rparr>) (m_state M)
      | Ignore_event e \<Rightarrow>
          map_option (\<lambda>s. M\<lparr>m_events := add_event e (m_events M),
              m_part := put s ''events'' e Ignored (m_part M)\<rparr>) (m_state M)
      | Entry_callback f \<Rightarrow> state_action ''entry_callbacks'' f M
      | Exit_callback f \<Rightarrow> state_action ''exit_callbacks'' f M
      | Entry_precond f \<Rightarrow> state_action ''entry_preconds'' f M
      | Exit_precond f \<Rightarrow> state_action ''exit_preconds'' f M
      | Event_decl e \<Rightarrow>
          Some (M\<lparr>m_events := add_event e (m_events M), m_state := None, m_event := Some e\<rparr>)
      | Event_callback f \<Rightarrow> event_action ''callbacks'' f M
      | Event_precond f \<Rightarrow> event_action ''preconds'' f M
      | _ \<Rightarrow> Some M)"

text \<open>The names of a directive that end up in the machine; a token holds no NUL.\<close>

fun names :: "fsm_directive \<Rightarrow> string list" where
  "names (State_decl s) = [s]"
| "names (On_event e t) = [e, t]"
| "names (Ignore_event e) = [e]"
| "names (Entry_callback f) = [f]"
| "names (Exit_callback f) = [f]"
| "names (Entry_precond f) = [f]"
| "names (Exit_precond f) = [f]"
| "names (Event_decl e) = [e]"
| "names (Event_callback f) = [f]"
| "names (Event_precond f) = [f]"
| "names _ = []"

definition nul_free :: "fsm_directive \<Rightarrow> bool" where
  "nul_free d \<longleftrightarrow> (\<forall>s \<in> set (names d). NUL \<notin> set s)"

section \<open>Changes inside a state or an event\<close>

lemma sub_put:
  assumes "dict_ok dd" and "dict_map dd s = Some d" and "dict_ok d" and "dict_map d m = Some l"
    and "dict_map l' = (dict_map l)(k \<mapsto> v)"
  shows "sub (put_item s (put_item m l' d) dd) = put s m k (entry_of v) (sub dd)"
proof -
  have 1: "dict_map (put_item m l' d) = (dict_map d)(m \<mapsto> l')"
    using put_item_simps(3) [of d m] assms(3,4) by simp
  have 2: "dict_map (put_item s (put_item m l' d) dd) = (dict_map dd)(s \<mapsto> put_item m l' d)"
    using put_item_simps(3) [of dd s] assms(1,2) by simp
  show ?thesis
  proof (intro ext)
    fix x y z
    show "sub (put_item s (put_item m l' d) dd) x y z = put s m k (entry_of v) (sub dd) x y z"
      by (cases "x = s"; cases "y = m") (simp_all add: sub_def put_def 1 2 assms(2,4,5))
  qed
qed

definition dict_op :: "(mobject \<Rightarrow> mobject res) \<Rightarrow> bytes \<Rightarrow> mobject \<Rightarrow> bool" where
  "dict_op g k v \<longleftrightarrow>
     (\<forall>l l'. dict_ok l \<longrightarrow> g l = Inr l' \<longrightarrow> dict_ok l' \<and> dict_map l' = (dict_map l)(k \<mapsto> v))"

lemma dict_ops:
  "NUL \<notin> set k \<Longrightarrow> dict_op (\<lambda>l. must (mdict_replace_si al l k i)) k (MInt i)"
  "NUL \<notin> set k \<Longrightarrow> dict_op (\<lambda>l. must (mdict_replace_sn al l k)) k MNone"
  "NUL \<notin> set k \<Longrightarrow> NUL \<notin> set v \<Longrightarrow> dict_op (\<lambda>l. must (mdict_replace_ss al l k v)) k (MString v)"
  unfolding dict_op_def by (metis must_replace_si must_replace_sn must_replace_ss cstr_id)+

lemma members_plain: "m \<in> set state_members \<union> set event_members \<Longrightarrow> cstr m = m"
  by (auto simp: state_members_def event_members_def)

text \<open>An operation on a member of a state.\<close>

lemma state_member:
  assumes "state_ok s d" and "m \<in> set state_members" and "inside_s al m g d = Inr d'" and "dict_op g k v"
  shows "\<exists>l l'. dict_map d m = Some l \<and> dict_ok l \<and> dict_map l' = (dict_map l)(k \<mapsto> v) \<and>
    d' = put_item m l' d \<and> state_ok s d' \<and> dict_map d' ''is_initial'' = dict_map d ''is_initial''"
proof -
  have d: "dict_ok d" and m: "cstr m = m"
    using assms(1) members_plain [of m] assms(2) by (simp_all add: state_ok_def)
  from inside_s_Inr [OF d assms(3)] m obtain l l' where
    l: "dict_map d m = Some l" "g l = Inr l'" "d' = put_item m l' d" by auto
  have "dict_ok l" using assms(1,2) l(1) by (auto simp: state_ok_def has_dict_def)
  with assms(4) l(2) have l': "dict_ok l'" "dict_map l' = (dict_map l)(k \<mapsto> v)" by (auto simp: dict_op_def)
  note p = put_item_simps [OF d, of m l', unfolded l(1), simplified]
  have "m \<notin> {''name'', ''is_initial'', ''indegree''}" using assms(2) by (auto simp: state_members_def)
  then have "state_ok s d' \<and> dict_map d' ''is_initial'' = dict_map d ''is_initial''"
    using assms(1) p l(3) l'(1) by (auto simp: state_ok_def has_dict_def)
  with l l' \<open>dict_ok l\<close> show ?thesis by blast
qed

lemma event_member:
  assumes "event_ok d" and "m \<in> set event_members" and "inside_s al m g d = Inr d'" and "dict_op g k v"
  shows "\<exists>l l'. dict_map d m = Some l \<and> dict_ok l \<and> dict_map l' = (dict_map l)(k \<mapsto> v) \<and>
    d' = put_item m l' d \<and> event_ok d'"
proof -
  have d: "dict_ok d" and m: "cstr m = m"
    using assms(1) members_plain [of m] assms(2) by (simp_all add: event_ok_def)
  from inside_s_Inr [OF d assms(3)] m obtain l l' where
    l: "dict_map d m = Some l" "g l = Inr l'" "d' = put_item m l' d" by auto
  have "dict_ok l" using assms(1,2) l(1) by (auto simp: event_ok_def has_dict_def)
  with assms(4) l(2) have l': "dict_ok l'" "dict_map l' = (dict_map l)(k \<mapsto> v)" by (auto simp: dict_op_def)
  note p = put_item_simps [OF d, of m l', unfolded l(1), simplified]
  have "event_ok d'"
    using assms(1) p l(3) l'(1) by (auto simp: event_ok_def has_dict_def)
  with l l' \<open>dict_ok l\<close> show ?thesis by blast
qed

text \<open>A state that is replaced by another with the same mark keeps the namespace well formed.\<close>

lemma put_state_ok:
  assumes "cfsm_ok c" and "dict_map (cf_states c) s = Some d" and "state_ok s d'"
    and "dict_map d' ''is_initial'' = dict_map d ''is_initial''"
  shows "cfsm_ok (c\<lparr>cf_states := put_item s d' (cf_states c)\<rparr>)"
proof -
  have "dict_ok (cf_states c)" using assms(1) by (simp add: cfsm_ok_def states_ok_def)
  note p = put_item_simps [OF this, of s d', unfolded assms(2), simplified]
  have "initial_in (put_item s d' (cf_states c)) = initial_in (cf_states c)"
    using assms(2,4) p by (auto simp: initial_in_def fun_eq_iff)
  with assms p show ?thesis by (auto simp: cfsm_ok_def states_ok_def)
qed

section \<open>The directives refine the abstract machine\<close>

lemma cfsm_okD:
  assumes "cfsm_ok c"
  shows "dict_ok (cf_vars c)" "states_ok (cf_states c)" "events_ok (cf_events c)" "dict_ok (cf_states c)"
    "dict_ok (cf_events c)" "str_array (cf_states_array c)" "str_array (cf_events_array c)"
    "str_array (cf_initial_states c)" "keys_of (cf_states c) = strs (cf_states_array c)"
    "keys_of (cf_events c) = strs (cf_events_array c)"
  using assms by (auto simp: cfsm_ok_def states_ok_def events_ok_def)

lemma states_okD: "states_ok dd \<Longrightarrow> dict_map dd s = Some d \<Longrightarrow> state_ok s d"
  by (simp add: states_ok_def)

lemma events_okD: "events_ok dd \<Longrightarrow> dict_map dd s = Some d \<Longrightarrow> event_ok d"
  by (simp add: events_ok_def)

lemma state_op_put:
  assumes "cfsm_ok c" and "m \<in> set state_members" and "dict_op g k v"
    and "inside s (inside_s al m g) (cf_states c) = Inr st"
  shows "cfsm_ok (c\<lparr>cf_states := st\<rparr>) \<and> sub st = put s m k (entry_of v) (sub (cf_states c))"
proof -
  note ok = cfsm_okD [OF assms(1)]
  from inside_Inr [OF ok(4) assms(4)] obtain d d' where
    d: "dict_map (cf_states c) s = Some d" "inside_s al m g d = Inr d'" "st = put_item s d' (cf_states c)"
    by blast
  note sok = states_okD [OF ok(2) d(1)]
  from state_member [OF sok assms(2) d(2) assms(3)] obtain l l' where
    l: "dict_map d m = Some l" "dict_ok l" "dict_map l' = (dict_map l)(k \<mapsto> v)" "d' = put_item m l' d"
      "state_ok s d'" "dict_map d' ''is_initial'' = dict_map d ''is_initial''" by blast
  have "dict_ok d" using sok by (simp add: state_ok_def)
  from put_state_ok [OF assms(1) d(1) l(5,6)] sub_put [OF ok(4) d(1) this l(1,3)] d(3) l(4)
  show ?thesis by simp
qed

lemma event_op_put:
  assumes "cfsm_ok c" and "m \<in> set event_members" and "dict_op g k v"
    and "inside s (inside_s al m g) (cf_events c) = Inr ev"
  shows "cfsm_ok (c\<lparr>cf_events := ev\<rparr>) \<and> sub ev = put s m k (entry_of v) (sub (cf_events c))"
proof -
  note ok = cfsm_okD [OF assms(1)]
  from inside_Inr [OF ok(5) assms(4)] obtain d d' where
    d: "dict_map (cf_events c) s = Some d" "inside_s al m g d = Inr d'" "ev = put_item s d' (cf_events c)"
    by blast
  note eok = events_okD [OF ok(3) d(1)]
  from event_member [OF eok assms(2) d(2) assms(3)] obtain l l' where
    l: "dict_map d m = Some l" "dict_ok l" "dict_map l' = (dict_map l)(k \<mapsto> v)" "d' = put_item m l' d"
      "event_ok d'" by blast
  have "dict_ok d" using eok by (simp add: event_ok_def)
  note p = put_item_simps [OF ok(5), of s d', unfolded d(1), simplified]
  from p assms(1) d(3) l(5) have "cfsm_ok (c\<lparr>cf_events := ev\<rparr>)"
    by (auto simp: cfsm_ok_def events_ok_def)
  with sub_put [OF ok(5) d(1) \<open>dict_ok d\<close> l(1,3)] d(3) l(4) show ?thesis by simp
qed

lemma create_action_Inr:
  assumes "create_action al f parent m owner main = Inr (owner', main')"
  shows "\<exists>s. parent = Some s \<and>
    inside s (inside_s (site 0 al) m (\<lambda>l. must (mdict_replace_si (site 1 al) l f 1))) owner = Inr owner' \<and>
    must (mdict_replace_si (site 2 al) main f 1) = Inr main'"
  using assms by (auto simp: create_action_def bind_res_eq_Inr split: option.splits)

lemma state_action_refines:
  assumes "cfsm_ok c" and "m \<in> set state_members" and "NUL \<notin> set f" and "dict_ok main"
    and "create_action al f (current_state c) m (cf_states c) main = Inr (st, l)"
  shows "dict_ok l \<and> cfsm_ok (c\<lparr>cf_states := st\<rparr>) \<and>
    state_action m f (machine_of c) = Some (machine_of (c\<lparr>cf_states := st\<rparr>))"
proof -
  from create_action_Inr [OF assms(5)] obtain s where s: "current_state c = Some s"
    "inside s (inside_s (site 0 al) m (\<lambda>l. must (mdict_replace_si (site 1 al) l f 1))) (cf_states c) = Inr st"
    "must (mdict_replace_si (site 2 al) main f 1) = Inr l" by blast
  from state_op_put [OF assms(1,2) dict_ops(1) [OF assms(3)] s(2)] must_replace_si [OF assms(4) s(3)] s(1)
  show ?thesis by (simp add: state_action_def machine_of_def)
qed

lemma event_action_refines:
  assumes "cfsm_ok c" and "m \<in> set event_members" and "NUL \<notin> set f" and "dict_ok main"
    and "create_action al f (current_event c) m (cf_events c) main = Inr (ev, l)"
  shows "dict_ok l \<and> cfsm_ok (c\<lparr>cf_events := ev\<rparr>) \<and>
    event_action m f (machine_of c) = Some (machine_of (c\<lparr>cf_events := ev\<rparr>))"
proof -
  from create_action_Inr [OF assms(5)] obtain s where s: "current_event c = Some s"
    "inside s (inside_s (site 0 al) m (\<lambda>l. must (mdict_replace_si (site 1 al) l f 1))) (cf_events c) = Inr ev"
    "must (mdict_replace_si (site 2 al) main f 1) = Inr l" by blast
  from event_op_put [OF assms(1,2) dict_ops(1) [OF assms(3)] s(2)] must_replace_si [OF assms(4) s(3)] s(1)
  show ?thesis by (simp add: event_action_def machine_of_def)
qed

lemma get_or_create_event_refines:
  assumes "cfsm_ok c" and "NUL \<notin> set e" and "get_or_create_event al e c = Inr c'"
  shows "\<exists>ev arr. c' = c\<lparr>event_specified := True, cf_events := ev, cf_events_array := arr\<rparr> \<and> cfsm_ok c' \<and>
    dict_map ev e \<noteq> None \<and> strs arr = add_event e (strs (cf_events_array c)) \<and> sub ev = sub (cf_events c)"
proof (cases "mdict_item_s (site 0 al) (cf_events c) e = None")
  case False
  note ok = cfsm_okD [OF assms(1)]
  from False obtain v where "mdict_item_s (site 0 al) (cf_events c) e = Some v" by blast
  with mdict_item_s_Some [OF ok(5) this] assms(2) have m: "dict_map (cf_events c) e = Some v" by (simp add: cstr_id)
  then have "e \<in> set (strs (cf_events_array c))" using dict_map_keys [OF ok(5), of e] ok(10) by simp
  with assms(1,3) False m show ?thesis
    by (intro exI [of _ "cf_events c"] exI [of _ "cf_events_array c"])
      (auto simp: get_or_create_event_def add_event_def cfsm_ok_def)
next
  case True
  note ok = cfsm_okD [OF assms(1)]
  from assms(3) True obtain ev0 ev arr where
    a: "must (mdict_insert_sd (site 1 al) (cf_events c) e) = Inr ev0"
    "inside_s (site 2 al) e (\<lambda>e. bind_res (must (mdict_insert_sd (site 3 al) e ''preconds''))
       (\<lambda>e1. must (mdict_insert_sd (site 4 al) e1 ''callbacks''))) ev0 = Inr ev"
    "must (marray_append_s (site 5 al) (cf_events_array c) e) = Inr arr"
    and c': "c' = c\<lparr>event_specified := True, cf_events := ev, cf_events_array := arr\<rparr>"
    by (auto simp: get_or_create_event_def bind_res_eq_Inr)
  from must_insert_sd [OF ok(5) a(1)] assms(2) have
    e0: "dict_ok ev0" "dict_map (cf_events c) e = None" "dict_map ev0 = (dict_map (cf_events c))(e \<mapsto> empty_dict)"
      "keys_of ev0 = keys_of (cf_events c) @ [e]" by (simp_all add: cstr_id)
  from inside_s_Inr [OF e0(1) a(2)] assms(2) e0(3) obtain d1 d where
    d: "must (mdict_insert_sd (site 3 al) empty_dict ''preconds'') = Inr d1"
    "must (mdict_insert_sd (site 4 al) d1 ''callbacks'') = Inr d" "ev = put_item e d ev0"
    by (auto simp: cstr_id bind_res_eq_Inr)
  from must_insert_sd [OF _ d(1)] have d1: "dict_ok d1" "dict_map d1 = [''preconds'' \<mapsto> empty_dict]" by auto
  from must_insert_sd [OF d1(1) d(2)] d1(2) have dd: "dict_ok d"
    "dict_map d = [''preconds'' \<mapsto> empty_dict, ''callbacks'' \<mapsto> empty_dict]" by auto
  then have eok: "event_ok d" by (auto simp: event_ok_def event_members_def has_dict_def)
  note p = put_item_simps [OF e0(1), of e d, unfolded e0(3), simplified, folded e0(3)]
  from must_append_s [OF ok(7) a(3)] assms(2) have arr: "str_array arr" "strs arr = strs (cf_events_array c) @ [e]"
    by (simp_all add: cstr_id)
  have new: "e \<notin> set (strs (cf_events_array c))"
    using e0(2) dict_map_keys [OF ok(5), of e] ok(10) by simp
  have map: "dict_map ev = (dict_map (cf_events c))(e \<mapsto> d)" using p d(3) e0(3) by auto
  have "sub ev = sub (cf_events c)"
    by (intro ext) (simp add: sub_def map e0(2) dd)
  moreover have "cfsm_ok c'"
    using assms(1) p d(3) arr eok e0(4) map by (auto simp: cfsm_ok_def events_ok_def c')
  ultimately show ?thesis using c' map arr(2) new
    by (intro exI [of _ ev] exI [of _ arr]) (simp add: add_event_def)
qed

text \<open>Declaring a state: it starts with empty lists.\<close>

lemma sub_new:
  assumes "dict_map dd s = None" and "dict_map dd' = (dict_map dd)(s \<mapsto> d)"
    and "\<forall>m l. dict_map d m = Some l \<longrightarrow> dict_map l = Map.empty"
  shows "sub dd' = sub dd"
proof (intro ext)
  fix x m k
  show "sub dd' x m k = sub dd x m k"
    by (cases "x = s"; cases "dict_map d m") (simp_all add: sub_def assms)
qed

lemma new_state_members_ok:
  assumes "NUL \<notin> set s" and "new_state_members al s empty_dict = Inr d"
  shows "state_ok s d \<and> dict_map d ''is_initial'' = Some (MInt 0) \<and>
    (\<forall>m l. dict_map d m = Some l \<longrightarrow> dict_map l = Map.empty)"
proof -
  from assms(2) obtain d0 d1 d2 d3 d4 d5 d6 d7 where
    c: "must (mdict_insert_ss (site 0 al) empty_dict ''name'' s) = Inr d0"
    "must (mdict_insert_sd (site 1 al) d0 ''events'') = Inr d1"
    "must (mdict_insert_sd (site 2 al) d1 ''next_states'') = Inr d2"
    "must (mdict_insert_sd (site 3 al) d2 ''exit_preconds'') = Inr d3"
    "must (mdict_insert_sd (site 4 al) d3 ''entry_preconds'') = Inr d4"
    "must (mdict_insert_sd (site 5 al) d4 ''exit_callbacks'') = Inr d5"
    "must (mdict_insert_sd (site 6 al) d5 ''entry_callbacks'') = Inr d6"
    "must (mdict_insert_si (site 7 al) d6 ''is_initial'' 0) = Inr d7"
    "must (mdict_insert_si (site 7 (site 1 al)) d7 ''indegree'' 0) = Inr d"
    by (auto simp: new_state_members_def bind_res_eq_Inr)
  have e: "dict_ok empty_dict" by simp
  note k0 = must_insert_ss [OF e c(1)]
  note k1 = must_insert_sd [OF conjunct1 [OF k0] c(2)]
  note k2 = must_insert_sd [OF conjunct1 [OF k1] c(3)]
  note k3 = must_insert_sd [OF conjunct1 [OF k2] c(4)]
  note k4 = must_insert_sd [OF conjunct1 [OF k3] c(5)]
  note k5 = must_insert_sd [OF conjunct1 [OF k4] c(6)]
  note k6 = must_insert_sd [OF conjunct1 [OF k5] c(7)]
  note k7 = must_insert_si [OF conjunct1 [OF k6] c(8)]
  note k8 = must_insert_si [OF conjunct1 [OF k7] c(9)]
  have ok: "dict_ok d" using k8 by simp
  have map: "dict_map d = [''name'' \<mapsto> MString (cstr s), ''events'' \<mapsto> empty_dict, ''next_states'' \<mapsto> empty_dict,
    ''exit_preconds'' \<mapsto> empty_dict, ''entry_preconds'' \<mapsto> empty_dict, ''exit_callbacks'' \<mapsto> empty_dict,
    ''entry_callbacks'' \<mapsto> empty_dict, ''is_initial'' \<mapsto> MInt 0, ''indegree'' \<mapsto> MInt 0]"
    using k0 k1 k2 k3 k4 k5 k6 k7 k8 by simp
  from ok map assms(1) show ?thesis
    by (simp add: state_ok_def state_members_def has_dict_def cstr_id split: if_splits)
qed

lemma state_decl_refines:
  assumes "cfsm_ok c" and "NUL \<notin> set s" and "state_decl al s c = Inr c'"
  shows "cfsm_ok c' \<and> mstep (State_decl s) (machine_of c) = Some (machine_of c')"
proof -
  note ok = cfsm_okD [OF assms(1)]
  from assms(3) obtain st0 st arr where
    a: "must (mdict_insert_sd (site 0 al) (cf_states c) s) = Inr st0"
    "inside (cstr s) (new_state_members (site 1 al) s) st0 = Inr st"
    "must (marray_append_s (site 2 al) (cf_states_array c) s) = Inr arr"
    and c': "c' = c\<lparr>current_event := None, current_state := Some (cstr s), cf_states := st, cf_states_array := arr\<rparr>"
    by (auto simp: state_decl_def bind_res_eq_Inr)
  from must_insert_sd [OF ok(4) a(1)] assms(2) have
    s0: "dict_ok st0" "dict_map (cf_states c) s = None" "dict_map st0 = (dict_map (cf_states c))(s \<mapsto> empty_dict)"
      "keys_of st0 = keys_of (cf_states c) @ [s]" by (simp_all add: cstr_id)
  from inside_Inr [OF s0(1) a(2)] assms(2) s0(3) obtain d where
    d: "new_state_members (site 1 al) s empty_dict = Inr d" "st = put_item s d st0"
    by (auto simp: cstr_id)
  note sok = new_state_members_ok [OF assms(2) d(1)]
  note p = put_item_simps [OF s0(1), of s d, unfolded s0(3), simplified, folded s0(3)]
  have map: "dict_map st = (dict_map (cf_states c))(s \<mapsto> d)" using p d(2) s0(3) by auto
  from must_append_s [OF ok(6) a(3)] assms(2) have arr: "str_array arr" "strs arr = strs (cf_states_array c) @ [s]"
    by (simp_all add: cstr_id)
  have init: "initial_in st = initial_in (cf_states c)"
    using s0(2) sok map by (auto simp: initial_in_def fun_eq_iff)
  have new: "s \<notin> set (strs (cf_states_array c))"
    using s0(2) dict_map_keys [OF ok(4), of s] ok(9) by simp
  have "cfsm_ok c'"
    using assms(1,2) p d(2) arr sok s0(4) map init
    by (auto simp: cfsm_ok_def states_ok_def c' cstr_id)
  moreover have "machine_of c' =
      (machine_of c)\<lparr>m_states := m_states (machine_of c) @ [s], m_state := Some s, m_event := None\<rparr>"
    using assms(2) arr sub_new [OF s0(2) map conjunct2 [OF conjunct2 [OF sok]]] by (simp add: machine_of_def c' cstr_id)
  ultimately show ?thesis using new by (simp add: mstep_def machine_of_def)
qed

text \<open>Two changes inside the same object are made one after the other.\<close>

lemma put_item_twice: "put_item k v (put_item k w d) = put_item k v d"
  by (cases d) auto

lemma inside_seq:
  assumes "dict_ok d" and "inside k (\<lambda>x. bind_res (f x) g) d = Inr d'"
  shows "\<exists>d1. inside k f d = Inr d1 \<and> inside k g d1 = Inr d'"
proof -
  from inside_Inr [OF assms] obtain v v1 v' where
    v: "dict_map d k = Some v" "f v = Inr v1" "g v1 = Inr v'" "d' = put_item k v' d"
    by (auto simp: bind_res_eq_Inr)
  note p = put_item_simps [OF assms(1), of k v1, unfolded v(1), simplified]
  from v p assms(1) show ?thesis
    by (auto simp: inside_def mdict_item_correct put_item_twice intro!: exI [of _ "put_item k v1 d"])
qed

lemma on_state_Inr:
  "on_state f c = Inr c' \<Longrightarrow>
   \<exists>s st. current_state c = Some s \<and> inside s f (cf_states c) = Inr st \<and> c' = c\<lparr>cf_states := st\<rparr>"
  by (auto simp: on_state_def bind_res_eq_Inr split: option.splits)

lemma on_event_refines:
  assumes "cfsm_ok c" and "NUL \<notin> set e" and "NUL \<notin> set t" and "on_event_def al e t c = Inr c'"
  shows "cfsm_ok c' \<and> mstep (On_event e t) (machine_of c) = Some (machine_of c')"
proof -
  from assms(4) obtain c1 where c1: "get_or_create_event (site 0 al) e c = Inr c1" and
    on: "on_state (\<lambda>d. bind_res (inside_s (site 1 al) ''events'' (\<lambda>x. must (mdict_replace_ss (site 2 al) x e t)) d)
      (inside_s (site 3 al) ''next_states'' (\<lambda>x. must (mdict_replace_si (site 4 al) x t 1)))) c1 = Inr c'"
    by (auto simp: on_event_def_def bind_res_eq_Inr split: if_splits)
  from get_or_create_event_refines [OF assms(1,2) c1] obtain ev arr where
    g: "c1 = c\<lparr>event_specified := True, cf_events := ev, cf_events_array := arr\<rparr>" "cfsm_ok c1"
    "strs arr = add_event e (strs (cf_events_array c))" "sub ev = sub (cf_events c)" by blast
  from on_state_Inr [OF on] obtain s st where
    s: "current_state c1 = Some s" "c' = c1\<lparr>cf_states := st\<rparr>" and
    i: "inside s (\<lambda>d. bind_res (inside_s (site 1 al) ''events'' (\<lambda>x. must (mdict_replace_ss (site 2 al) x e t)) d)
      (inside_s (site 3 al) ''next_states'' (\<lambda>x. must (mdict_replace_si (site 4 al) x t 1)))) (cf_states c1) = Inr st"
    by blast
  from inside_seq [OF cfsm_okD(4) [OF g(2)] i] obtain st1 where
    i1: "inside s (inside_s (site 1 al) ''events'' (\<lambda>x. must (mdict_replace_ss (site 2 al) x e t))) (cf_states c1) = Inr st1"
    and i2: "inside s (inside_s (site 3 al) ''next_states'' (\<lambda>x. must (mdict_replace_si (site 4 al) x t 1))) st1 = Inr st"
    by blast
  have m: "''events'' \<in> set state_members" "''next_states'' \<in> set state_members" by (simp_all add: state_members_def)
  from state_op_put [OF g(2) m(1) dict_ops(3) [OF assms(2,3)] i1] have
    1: "cfsm_ok (c1\<lparr>cf_states := st1\<rparr>)" "sub st1 = put s ''events'' e (To t) (sub (cf_states c1))" by simp_all
  have "inside s (inside_s (site 3 al) ''next_states'' (\<lambda>x. must (mdict_replace_si (site 4 al) x t 1)))
      (cf_states (c1\<lparr>cf_states := st1\<rparr>)) = Inr st" using i2 by simp
  from state_op_put [OF 1(1) m(2) dict_ops(1) [OF assms(3)] this] 1(2) g s
  show ?thesis by (simp add: mstep_def machine_of_def)
qed

lemma ignore_event_refines:
  assumes "cfsm_ok c" and "NUL \<notin> set e" and "ignore_event_def al e c = Inr c'"
  shows "cfsm_ok c' \<and> mstep (Ignore_event e) (machine_of c) = Some (machine_of c')"
proof -
  from assms(3) obtain c1 where c1: "get_or_create_event (site 0 al) e c = Inr c1" and
    on: "on_state (inside_s (site 1 al) ''events'' (\<lambda>x. must (mdict_replace_sn (site 2 al) x e))) c1 = Inr c'"
    by (auto simp: ignore_event_def_def bind_res_eq_Inr split: if_splits)
  from get_or_create_event_refines [OF assms(1,2) c1] obtain ev arr where
    g: "c1 = c\<lparr>event_specified := True, cf_events := ev, cf_events_array := arr\<rparr>" "cfsm_ok c1"
    "strs arr = add_event e (strs (cf_events_array c))" "sub ev = sub (cf_events c)" by blast
  from on_state_Inr [OF on] obtain s st where
    s: "current_state c1 = Some s" "c' = c1\<lparr>cf_states := st\<rparr>" and
    i: "inside s (inside_s (site 1 al) ''events'' (\<lambda>x. must (mdict_replace_sn (site 2 al) x e))) (cf_states c1) = Inr st"
    by blast
  have "''events'' \<in> set state_members" by (simp add: state_members_def)
  from state_op_put [OF g(2) this dict_ops(2) [OF assms(2)] i] g s
  show ?thesis by (simp add: mstep_def machine_of_def)
qed

lemma event_decl_refines:
  assumes "cfsm_ok c" and "NUL \<notin> set e" and "event_decl al e c = Inr c'"
  shows "cfsm_ok c' \<and> mstep (Event_decl e) (machine_of c) = Some (machine_of c')"
proof -
  have ok: "cfsm_ok (c\<lparr>current_state := None\<rparr>)" using assms(1) by (auto simp: cfsm_ok_def)
  from assms(3) obtain c1 where c1: "get_or_create_event al e (c\<lparr>current_state := None\<rparr>) = Inr c1"
    and c': "c' = c1\<lparr>current_event := Some e\<rparr>"
    using assms(2) by (auto simp: event_decl_def bind_res_eq_Inr cstr_id)
  from get_or_create_event_refines [OF ok assms(2) c1] obtain ev arr where
    g: "c1 = c\<lparr>current_state := None, event_specified := True, cf_events := ev, cf_events_array := arr\<rparr>" "cfsm_ok c1"
    "dict_map ev e \<noteq> None" "strs arr = add_event e (strs (cf_events_array c))" "sub ev = sub (cf_events c)" by auto
  have "cfsm_ok c'" using g by (auto simp: cfsm_ok_def c')
  with g c' show ?thesis by (simp add: mstep_def machine_of_def)
qed

text \<open>Directives that only change scalar entries.\<close>

lemma set_name_Inr:
  assumes "cfsm_ok c" and "set_fsm_name al k v c = Inr c'"
  shows "cfsm_ok c' \<and> machine_of c' = machine_of c"
proof -
  from assms(2) obtain d where d: "must (mdict_replace_ss al (cf_vars c) k v) = Inr d" "c' = c\<lparr>cf_vars := d\<rparr>"
    by (auto simp: set_fsm_name_def bind_res_eq_Inr)
  with must_replace_ss [OF cfsm_okD(1) [OF assms(1)] d(1)] assms(1) show ?thesis
    by (simp add: cfsm_ok_def machine_of_def)
qed

lemma callback_args_Inr:
  "callback_args al as c = Inr (w, c') \<Longrightarrow> cfsm_ok c \<Longrightarrow> cfsm_ok c' \<and> machine_of c' = machine_of c"
proof (induction al as c arbitrary: w c' rule: callback_args.induct)
  case (2 al a as c)
  from "2.prems"(1) obtain w1 w2 c1 where
    c1: "(case a of
          Arg_event \<Rightarrow> Inr (CB_ARG_EVENT, c)
        | Arg_new_state \<Rightarrow> Inr (CB_ARG_NEW_STATE, c)
        | Arg_old_state \<Rightarrow> Inr (CB_ARG_OLD_STATE, c)
        | Arg_ctx \<Rightarrow>
            bind_res (must (mdict_replace_si (site 0 al) (cf_vars c) ''need_ctx'' 1)) (\<lambda>d.
              Inr (CB_ARG_CTX, c\<lparr>cf_vars := d\<rparr>))) = Inr (w1, c1)"
    and r: "callback_args (site 1 al) as c1 = Inr (w2, c')"
    by (auto simp: bind_res_eq_Inr map_sum_eq_Inr)
  from c1 have "c1 = c \<or>
      (\<exists>d. must (mdict_replace_si (site 0 al) (cf_vars c) ''need_ctx'' 1) = Inr d \<and> c1 = c\<lparr>cf_vars := d\<rparr>)"
    by (auto simp: bind_res_eq_Inr split: cb_arg.splits)
  then have "cfsm_ok c1 \<and> machine_of c1 = machine_of c"
    using must_replace_si [OF cfsm_okD(1) [OF "2.prems"(2)]] "2.prems"(2)
    by (auto simp: cfsm_ok_def machine_of_def)
  with "2.IH" [OF r] show ?case by simp
qed simp

text \<open>The first mark of a state as initial; a second one is refused.\<close>

lemma mark_initial_Inr:
  assumes "state_ok s d" and "mark_initial al d = Inr d'"
  shows "dict_map d ''is_initial'' = Some (MInt 0) \<and> state_ok s d' \<and>
    dict_map d' = (dict_map d)(''is_initial'' \<mapsto> MInt 1)"
proof -
  have d: "dict_ok d" using assms(1) by (simp add: state_ok_def)
  from assms(2) obtain i where i: "mdict_item_s (site 0 al) d ''is_initial'' = Some i" "mint_value i = 0"
    and r: "must (mdict_replace_si (site 1 al) d ''is_initial'' 1) = Inr d'"
    by (auto simp: mark_initial_def split: option.splits if_splits)
  from mdict_item_s_Some [OF d i(1)] i(2) assms(1) have "dict_map d ''is_initial'' = Some (MInt 0)"
    by (auto simp: state_ok_def)
  with must_replace_si [OF d r] assms(1) show ?thesis
    by (auto simp: state_ok_def has_dict_def state_members_def)
qed

lemma copy_of_string: "copy_of al (MString s) = Inr x \<Longrightarrow> x = MString s"
  by (auto simp: copy_of_def bind_res_eq_Inr mstring_new2_def split: option.splits if_splits)

lemma initial_state_refines:
  assumes "cfsm_ok c" and "initial_state_def al c = Inr c'"
  shows "cfsm_ok c' \<and> mstep Initial_state (machine_of c) = Some (machine_of c')"
proof -
  note ok = cfsm_okD [OF assms(1)]
  from assms(2) obtain c1 where on: "on_state (mark_initial al) c = Inr c1"
    by (auto simp: initial_state_def_def bind_res_eq_Inr)
  from on_state_Inr [OF on] obtain s st where
    s: "current_state c = Some s" "inside s (mark_initial al) (cf_states c) = Inr st" "c1 = c\<lparr>cf_states := st\<rparr>" by blast
  from inside_Inr [OF ok(4) s(2)] obtain d d' where
    d: "dict_map (cf_states c) s = Some d" "mark_initial al d = Inr d'" "st = put_item s d' (cf_states c)" by blast
  note sok = states_okD [OF ok(2) d(1)]
  note mk = mark_initial_Inr [OF sok d(2)]
  note p = put_item_simps [OF ok(4), of s d', unfolded d(1), simplified, folded d(3)]
  have item: "mdict_item st (MString s) = Some d'" using mdict_item_correct [OF p(1)] p(3) by simp
  have "dict_ok d'" using mk by (simp add: state_ok_def)
  then have nm: "mdict_item_s (site 2 al) d' ''name'' = Some v \<Longrightarrow> v = MString s" for v
    using mdict_item_s_Some [of d' "site 2 al" "''name''" v] mk by (auto simp: state_ok_def)
  from assms(2) on s(1,3) item obtain x nm' where
    x: "mdict_item_s (site 2 al) d' ''name'' = Some x" "copy_of (site 3 al) x = Inr nm'" and
    rest: "(case marray_append (site 4 al) (cf_initial_states c) nm' of
      (arr, r) \<Rightarrow> if r = -1 then Inl Exit_failure else Inr (c1\<lparr>cf_initial_states := arr\<rparr>)) = Inr c'"
    by (auto simp: initial_state_def_def bind_res_eq_Inr split: option.splits)
  obtain arr r where ar: "marray_append (site 4 al) (cf_initial_states c) nm' = (arr, r)" by fastforce
  have r: "marray_append (site 4 al) (cf_initial_states c) nm' = (arr, r)"
    "r \<noteq> -1" "c' = c1\<lparr>cf_initial_states := arr\<rparr>" using ar rest by (simp_all split: if_splits)
  from r x(2) nm [OF x(1)] have
    a: "copy_of (site 3 al) (MString s) = Inr nm'" "marray_append (site 4 al) (cf_initial_states c) nm' = (arr, r)"
    "r \<noteq> -1" "c' = c1\<lparr>cf_initial_states := arr\<rparr>" by simp_all
  have "array_ok (cf_initial_states c)" using ok(8) by (simp add: str_array_def)
  from marray_append_elems [OF this a(2,3)] copy_of_string [OF a(1)] ok(8) have
    arr: "str_array arr" "strs arr = strs (cf_initial_states c) @ [s]" by (auto simp: str_array_def strs_def)
  have init: "initial_in st x \<longleftrightarrow> initial_in (cf_states c) x \<or> x = s" for x
    using p(3) mk by (auto simp: initial_in_def)
  have new: "s \<notin> set (strs (cf_initial_states c))"
    using assms(1) d(1) mk by (auto simp: cfsm_ok_def initial_in_def)
  have "sub st = sub (cf_states c)"
  proof (intro ext)
    fix x m k
    show "sub st x m k = sub (cf_states c) x m k"
      by (cases "x = s"; cases "m = ''is_initial''") (simp_all add: sub_def p(3) d(1) mk)
  qed
  moreover have "cfsm_ok c'"
    using assms(1) p arr init new mk a(4) s(3)
    by (auto simp: cfsm_ok_def states_ok_def)
  ultimately show ?thesis using a(4) s(1,3) arr(2) new by (simp add: mstep_def machine_of_def)
qed

lemma keep_list:
  "cfsm_ok c \<Longrightarrow> dict_ok l \<Longrightarrow>
     cfsm_ok (c\<lparr>cf_entry_callbacks := l\<rparr>) \<and> cfsm_ok (c\<lparr>cf_exit_callbacks := l\<rparr>) \<and>
     cfsm_ok (c\<lparr>cf_entry_preconds := l\<rparr>) \<and> cfsm_ok (c\<lparr>cf_exit_preconds := l\<rparr>) \<and>
     cfsm_ok (c\<lparr>cf_event_callbacks := l\<rparr>) \<and> cfsm_ok (c\<lparr>cf_event_preconds := l\<rparr>)"
  by (simp add: cfsm_ok_def)

lemma cfsm_ok_args [simp]:
  "cfsm_ok (c\<lparr>event_precond_args := w\<rparr>) = cfsm_ok c" "cfsm_ok (c\<lparr>trans_precond_args := w\<rparr>) = cfsm_ok c"
  "cfsm_ok (c\<lparr>event_callback_args := w\<rparr>) = cfsm_ok c" "cfsm_ok (c\<lparr>trans_callback_args := w\<rparr>) = cfsm_ok c"
  by (simp_all add: cfsm_ok_def)

lemma machine_of_simps [simp]:
  "machine_of (c\<lparr>event_precond_args := w\<rparr>) = machine_of c" "machine_of (c\<lparr>trans_precond_args := w\<rparr>) = machine_of c"
  "machine_of (c\<lparr>event_callback_args := w\<rparr>) = machine_of c" "machine_of (c\<lparr>trans_callback_args := w\<rparr>) = machine_of c"
  "machine_of (c\<lparr>cf_entry_callbacks := l\<rparr>) = machine_of c" "machine_of (c\<lparr>cf_exit_callbacks := l\<rparr>) = machine_of c"
  "machine_of (c\<lparr>cf_entry_preconds := l\<rparr>) = machine_of c" "machine_of (c\<lparr>cf_exit_preconds := l\<rparr>) = machine_of c"
  "machine_of (c\<lparr>cf_event_callbacks := l\<rparr>) = machine_of c" "machine_of (c\<lparr>cf_event_preconds := l\<rparr>) = machine_of c"
  by (simp_all add: machine_of_def)

text \<open>The list of all actions of a kind is kept beside the machine.\<close>

lemma state_action_step:
  assumes "cfsm_ok c" and "m \<in> set state_members" and "NUL \<notin> set f" and "dict_ok main"
    and "map_sum id (\<lambda>(st, l). upd l (c\<lparr>cf_states := st\<rparr>)) (create_action al f (current_state c) m (cf_states c) main)
      = Inr c'"
    and "\<And>l x. dict_ok l \<Longrightarrow> cfsm_ok x \<Longrightarrow> cfsm_ok (upd l x)" and "\<And>l x. machine_of (upd l x) = machine_of x"
  shows "cfsm_ok c' \<and> state_action m f (machine_of c) = Some (machine_of c')"
proof -
  from assms(5) obtain st l where "create_action al f (current_state c) m (cf_states c) main = Inr (st, l)"
    "c' = upd l (c\<lparr>cf_states := st\<rparr>)" by (auto simp: map_sum_eq_Inr)
  with state_action_refines [OF assms(1-4) this(1)] assms(6,7) show ?thesis by simp
qed

lemma event_action_step:
  assumes "cfsm_ok c" and "m \<in> set event_members" and "NUL \<notin> set f" and "dict_ok main"
    and "map_sum id (\<lambda>(ev, l). upd l (c\<lparr>cf_events := ev\<rparr>)) (create_action al f (current_event c) m (cf_events c) main)
      = Inr c'"
    and "\<And>l x. dict_ok l \<Longrightarrow> cfsm_ok x \<Longrightarrow> cfsm_ok (upd l x)" and "\<And>l x. machine_of (upd l x) = machine_of x"
  shows "cfsm_ok c' \<and> event_action m f (machine_of c) = Some (machine_of c')"
proof -
  from assms(5) obtain ev l where "create_action al f (current_event c) m (cf_events c) main = Inr (ev, l)"
    "c' = upd l (c\<lparr>cf_events := ev\<rparr>)" by (auto simp: map_sum_eq_Inr)
  with event_action_refines [OF assms(1-4) this(1)] assms(6,7) show ?thesis by simp
qed

lemma action_lists_ok:
  "cfsm_ok c \<Longrightarrow> dict_ok (cf_entry_callbacks c) \<and> dict_ok (cf_exit_callbacks c) \<and> dict_ok (cf_entry_preconds c) \<and>
     dict_ok (cf_exit_preconds c) \<and> dict_ok (cf_event_callbacks c) \<and> dict_ok (cf_event_preconds c)"
  by (simp add: cfsm_ok_def)

text \<open>The action directives.\<close>

fun is_action :: "fsm_directive \<Rightarrow> bool" where
  "is_action (Entry_callback f) = True"
| "is_action (Exit_callback f) = True"
| "is_action (Entry_precond f) = True"
| "is_action (Exit_precond f) = True"
| "is_action (Event_callback f) = True"
| "is_action (Event_precond f) = True"
| "is_action _ = False"

lemma action_refines:
  assumes "cfsm_ok c" and "nul_free d" and "directive_step al d c = Inr c'" and "is_action d"
  shows "cfsm_ok c' \<and> mstep d (machine_of c) = Some (machine_of c')"
proof -
  note st = state_action_step [OF assms(1), of _ _ _ _ al c'] and ev = event_action_step [OF assms(1), of _ _ _ _ al c']
  note defs = directive_step_def mstep_def nul_free_def state_members_def event_members_def keep_list
    action_lists_ok [OF assms(1)]
  show ?thesis
  proof (cases d)
    case (Entry_callback f)
    with assms st [of "''entry_callbacks''" f "cf_entry_callbacks c" "\<lambda>l. cf_entry_callbacks_update (\<lambda>_. l)"]
    show ?thesis by (simp add: defs)
  next
    case (Exit_callback f)
    with assms st [of "''exit_callbacks''" f "cf_exit_callbacks c" "\<lambda>l. cf_exit_callbacks_update (\<lambda>_. l)"]
    show ?thesis by (simp add: defs)
  next
    case (Entry_precond f)
    with assms st [of "''entry_preconds''" f "cf_entry_preconds c" "\<lambda>l. cf_entry_preconds_update (\<lambda>_. l)"]
    show ?thesis by (simp add: defs)
  next
    case (Exit_precond f)
    with assms st [of "''exit_preconds''" f "cf_exit_preconds c" "\<lambda>l. cf_exit_preconds_update (\<lambda>_. l)"]
    show ?thesis by (simp add: defs)
  next
    case (Event_callback f)
    with assms ev [of "''callbacks''" f "cf_event_callbacks c" "\<lambda>l. cf_event_callbacks_update (\<lambda>_. l)"]
    show ?thesis by (simp add: defs)
  next
    case (Event_precond f)
    with assms ev [of "''preconds''" f "cf_event_preconds c" "\<lambda>l. cf_event_preconds_update (\<lambda>_. l)"]
    show ?thesis by (simp add: defs)
  qed (use assms(4) in simp_all)
qed

text \<open>The directives that only set scalar entries.\<close>

fun is_setting :: "fsm_directive \<Rightarrow> bool" where
  "is_setting (State_decl s) = False"
| "is_setting Initial_state = False"
| "is_setting (On_event e t) = False"
| "is_setting (Ignore_event e) = False"
| "is_setting (Event_decl e) = False"
| "is_setting d = (\<not> is_action d)"

lemma callback_args_step:
  assumes "cfsm_ok c" and "map_sum id (\<lambda>(w, x). upd w x) (callback_args al as c) = Inr c'"
    and "\<And>w x. cfsm_ok (upd w x) = cfsm_ok x" and "\<And>w x. machine_of (upd w x) = machine_of x"
  shows "cfsm_ok c' \<and> machine_of c' = machine_of c"
proof -
  from assms(2) obtain w x where "callback_args al as c = Inr (w, x)" "c' = upd w x"
    by (auto simp: map_sum_eq_Inr)
  with callback_args_Inr [OF this(1) assms(1)] assms(3,4) show ?thesis by simp
qed

lemma banner_end_Inr: "banner_end al b c = Inr c' \<Longrightarrow> \<exists>t. set_fsm_name al ''source_banner'' t c = Inr c'"
  by (auto simp: banner_end_def split: option.splits)

lemma setting_refines:
  assumes "cfsm_ok c" and "directive_step al d c = Inr c'" and "is_setting d"
  shows "cfsm_ok c' \<and> machine_of c' = machine_of c"
proof -
  note args = callback_args_step [OF assms(1), of _ al _ c']
  show ?thesis
  proof (cases d)
    case (Event_precond_args as)
    with assms args [of "\<lambda>w. event_precond_args_update (\<lambda>_. w)" as] show ?thesis by (simp add: directive_step_def)
  next
    case (Trans_precond_args as)
    with assms args [of "\<lambda>w. trans_precond_args_update (\<lambda>_. w)" as] show ?thesis by (simp add: directive_step_def)
  next
    case (Event_callback_args as)
    with assms args [of "\<lambda>w. event_callback_args_update (\<lambda>_. w)" as] show ?thesis by (simp add: directive_step_def)
  next
    case (Trans_callback_args as)
    with assms args [of "\<lambda>w. trans_callback_args_update (\<lambda>_. w)" as] show ?thesis by (simp add: directive_step_def)
  next
    case (Banner ls)
    with assms obtain b where "banner_end (site 1 al) b c = Inr c'" by (auto simp: directive_step_def bind_res_eq_Inr)
    with banner_end_Inr set_name_Inr [OF assms(1)] show ?thesis by blast
  qed (use assms set_name_Inr [OF assms(1)] in \<open>simp_all add: directive_step_def\<close>)
qed

text \<open>A directive that the code accepts is a step of the machine.\<close>

lemma directive_refines:
  assumes "cfsm_ok c" and "nul_free d" and "directive_step al d c = Inr c'"
  shows "cfsm_ok c' \<and> mstep d (machine_of c) = Some (machine_of c')"
proof (cases "is_action d \<or> is_setting d")
  case True
  then show ?thesis
  proof
    assume "is_setting d"
    with setting_refines [OF assms(1,3)] show ?thesis by (cases d) (simp_all add: mstep_def)
  qed (rule action_refines [OF assms])
next
  case False
  show ?thesis
  proof (cases d)
    case (State_decl s)
    with state_decl_refines [OF assms(1)] assms(2,3) show ?thesis by (simp add: directive_step_def nul_free_def)
  next
    case Initial_state
    with initial_state_refines [OF assms(1)] assms(3) show ?thesis by (simp add: directive_step_def)
  next
    case (On_event e t)
    with on_event_refines [OF assms(1), of e t al c'] assms(2,3) show ?thesis by (simp add: directive_step_def nul_free_def)
  next
    case (Ignore_event e)
    with ignore_event_refines [OF assms(1)] assms(2,3) show ?thesis by (simp add: directive_step_def nul_free_def)
  next
    case (Event_decl e)
    with event_decl_refines [OF assms(1)] assms(2,3) show ?thesis by (simp add: directive_step_def nul_free_def)
  qed (use False in simp_all)
qed

end
