(* ===== verification/CfsmCheck.thy ===== *)
theory CfsmCheck
  imports CfsmSpec
begin

text \<open>
  The last check of the state machine compiler, the two loops at the end of
  \<open>finalise_namespace\<close> (\<open>count_indegrees\<close>): what it counts and which machines it accepts, and the
  construction of a namespace from the start.
\<close>

declare all_ok_apply [simp del]

section \<open>The counters of the states\<close>

definition counting_ok :: "mobject \<Rightarrow> bool" where
  "counting_ok st \<longleftrightarrow> dict_ok st \<and>
     (\<forall>s d. dict_map st s = Some d \<longrightarrow> dict_ok d \<and> (\<exists>i. dict_map d ''indegree'' = Some (MInt i)))"

definition degree :: "mobject \<Rightarrow> bytes \<Rightarrow> 64 word" where
  "degree st s =
     (case dict_map st s of
        None \<Rightarrow> 0
      | Some d \<Rightarrow> (case dict_map d ''indegree'' of Some i \<Rightarrow> mint_value i | None \<Rightarrow> 0))"

text \<open>The same states with the same members, but for the counters.\<close>

definition same_but_degree :: "mobject \<Rightarrow> mobject \<Rightarrow> bool" where
  "same_but_degree st st' \<longleftrightarrow> keys_of st' = keys_of st \<and>
     (\<forall>s d. dict_map st s = Some d \<longrightarrow>
        (\<exists>d'. dict_map st' s = Some d' \<and> (\<forall>m. m \<noteq> ''indegree'' \<longrightarrow> dict_map d' m = dict_map d m)))"

lemma same_refl [simp]: "same_but_degree st st"
  by (simp add: same_but_degree_def)

lemma same_trans: "same_but_degree a b \<Longrightarrow> same_but_degree b c \<Longrightarrow> same_but_degree a c"
  unfolding same_but_degree_def by metis

lemma getiter_dict: "dict_ok d \<Longrightarrow> mobject_getiter all_ok d \<noteq> None"
  by (erule dict_cases) (simp add: mobject_getiter_def all_ok_def)

text \<open>One step of the inner loop.\<close>

definition bump :: "bytes \<Rightarrow> mobject \<Rightarrow> mobject res" where
  "bump t st = inside t (inside_s all_ok ''indegree'' (\<lambda>i.
     case mint_add i 1 of (i', r) \<Rightarrow> if r \<noteq> 0 then Inl Exit_failure else Inr i')) st"

lemma bump_None: "dict_ok st \<Longrightarrow> dict_map st t = None \<Longrightarrow> bump t st = Inl Exit_failure"
  by (simp add: bump_def inside_def mdict_item_correct)

lemma item_s_found: "dict_ok d \<Longrightarrow> length (cstr k) < MSTRING_MAX \<Longrightarrow> mdict_item_s all_ok d k = dict_map d (cstr k)"
  by (auto simp: mdict_item_s_def mstring_new_def mstring_new2_def mdict_item_correct all_ok_def)

lemma bump_Some:
  assumes "counting_ok st" and "dict_map st t = Some d"
  shows "\<exists>st'. bump t st = Inr st' \<and> counting_ok st' \<and> same_but_degree st st' \<and>
    degree st' = (degree st)(t := degree st t + 1)"
proof -
  from assms obtain i where d: "dict_ok st" "dict_ok d" "dict_map d ''indegree'' = Some (MInt i)"
    by (auto simp: counting_ok_def)
  let ?d = "put_item ''indegree'' (MInt (i + 1)) d" and ?st = "put_item t (put_item ''indegree'' (MInt (i + 1)) d) st"
  note p = put_item_simps [OF d(2), of "''indegree''" "MInt (i + 1)", unfolded d(3), simplified]
  note q = put_item_simps [OF d(1), of t ?d, unfolded assms(2), simplified]
  have "bump t st = Inr ?st"
    using d assms(2) by (simp add: bump_def inside_def inside_s_def mdict_item_correct item_s_found MSTRING_MAX_def)
  moreover have "counting_ok ?st" using assms p q by (auto simp: counting_ok_def)
  moreover have "same_but_degree st ?st" using assms(2) p q by (simp add: same_but_degree_def)
  moreover have "degree ?st = (degree st)(t := degree st t + 1)"
    using assms(2) d(3) p q by (simp add: degree_def fun_eq_iff)
  ultimately show ?thesis by blast
qed

section \<open>The counts\<close>

text \<open>The keys of \<open>next_states\<close>.\<close>

definition next_keys :: "mobject \<Rightarrow> bytes list" where
  "next_keys d = (case dict_map d ''next_states'' of Some l \<Rightarrow> keys_of l | None \<Rightarrow> [])"

lemma count_next_bump:
  "count_next all_ok (n # ns) st = bind_res (bump (fst n) st) (count_next all_ok ns)"
  by (cases n) (simp add: bump_def)

lemma same_keys: "same_but_degree st st' \<Longrightarrow> counting_ok st \<Longrightarrow> counting_ok st' \<Longrightarrow>
  dict_map st' s = None \<longleftrightarrow> dict_map st s = None"
  by (simp add: dict_map_keys counting_ok_def same_but_degree_def)

lemma count_next_Inl:
  "counting_ok st \<Longrightarrow> \<exists>t \<in> set (map fst ns). dict_map st t = None \<Longrightarrow>
   count_next all_ok ns st = Inl Exit_failure"
proof (induction ns arbitrary: st)
  case (Cons n ns)
  show ?case
  proof (cases "dict_map st (fst n)")
    case None
    with Cons.prems(1) show ?thesis by (simp add: count_next_bump bump_None counting_ok_def del: count_next.simps)
  next
    case (Some d)
    from bump_Some [OF Cons.prems(1) this] obtain st' where
      st': "bump (fst n) st = Inr st'" "counting_ok st'" "same_but_degree st st'" by blast
    with Cons.prems Some same_keys [OF st'(3) Cons.prems(1) st'(2)]
    have "\<exists>t \<in> set (map fst ns). dict_map st' t = None" by auto
    from Cons.IH [OF st'(2) this] st'(1) show ?thesis by (simp add: count_next_bump del: count_next.simps)
  qed
qed simp

lemma count_next_Inr:
  "counting_ok st \<Longrightarrow> \<forall>t \<in> set (map fst ns). dict_map st t \<noteq> None \<Longrightarrow>
   \<exists>st'. count_next all_ok ns st = Inr st' \<and> counting_ok st' \<and> same_but_degree st st' \<and>
     (\<forall>x. degree st' x = degree st x + of_nat (count_list (map fst ns) x))"
proof (induction ns arbitrary: st)
  case (Cons n ns)
  then obtain d where "dict_map st (fst n) = Some d" by auto
  from bump_Some [OF Cons.prems(1) this] obtain st1 where
    st1: "bump (fst n) st = Inr st1" "counting_ok st1" "same_but_degree st st1"
      "degree st1 = (degree st)(fst n := degree st (fst n) + 1)" by blast
  have "\<forall>t \<in> set (map fst ns). dict_map st1 t \<noteq> None"
    using Cons.prems(2) same_keys [OF st1(3) Cons.prems(1) st1(2)] by auto
  from Cons.IH [OF st1(2) this] obtain st' where
    "count_next all_ok ns st1 = Inr st'" "counting_ok st'" "same_but_degree st1 st'"
    "\<forall>x. degree st' x = degree st1 x + of_nat (count_list (map fst ns) x)" by blast
  with st1 same_trans [of st st1 st'] show ?case
    by (auto simp: count_next_bump simp del: count_next.simps)
qed simp

text \<open>The outer loop: \<open>es\<close> are the entries still to come.\<close>

definition shaped :: "(bytes \<times> mobject) list \<Rightarrow> bool" where
  "shaped es \<longleftrightarrow> (\<forall>(s, d) \<in> set es. dict_ok d \<and> has_dict d ''next_states'')"

lemma count_states_step:
  assumes "dict_ok d" and "has_dict d ''next_states''"
  shows "count_states all_ok ((s, d) # es) st =
      bind_res (count_next all_ok (map (\<lambda>k. (k, MNone)) (next_keys d)) st) (count_states all_ok es)"
proof -
  obtain l where l: "dict_map d ''next_states'' = Some l" "dict_ok l" using assms(2) by (auto simp: has_dict_def)
  then obtain ns n where ns: "l = MDict ns n" by (auto elim: dict_cases)
  have "count_next all_ok xs st = count_next all_ok (map (\<lambda>k. (k, MNone)) (map fst xs)) st" for xs st
    by (induction xs arbitrary: st) (auto simp: count_next_bump bind_res_def simp del: count_next.simps split: sum.split)
  from this [of ns st] l(1) ns getiter_dict [OF l(2)] assms(1) show ?thesis
    by (auto simp: item_s_found MSTRING_MAX_def next_keys_def keys_of_def)
qed

lemma count_states_Inl:
  "counting_ok st \<Longrightarrow> shaped es \<Longrightarrow> \<exists>(s, d) \<in> set es. \<exists>t \<in> set (next_keys d). dict_map st t = None \<Longrightarrow>
   count_states all_ok es st = Inl Exit_failure"
proof (induction es arbitrary: st)
  case (Cons e es)
  obtain s d where e: "e = (s, d)" by fastforce
  have d: "dict_ok d" "has_dict d ''next_states''" using Cons.prems(2) e by (auto simp: shaped_def)
  let ?ns = "map (\<lambda>k. (k, MNone)) (next_keys d)"
  have fst: "map fst ?ns = next_keys d" by (simp add: comp_def)
  show ?case
  proof (cases "\<exists>t \<in> set (map fst ?ns). dict_map st t = None")
    case True
    with count_next_Inl [OF Cons.prems(1) True] show ?thesis by (simp add: e count_states_step [OF d] del: count_states.simps)
  next
    case False
    then have "\<forall>t \<in> set (map fst ?ns). dict_map st t \<noteq> None" by metis
    from count_next_Inr [OF Cons.prems(1) this] obtain st1 where
      st1: "count_next all_ok ?ns st = Inr st1" "counting_ok st1" "same_but_degree st st1" by blast
    have "\<exists>(s, d) \<in> set es. \<exists>t \<in> set (next_keys d). dict_map st1 t = None"
      using Cons.prems(3) False same_keys [OF st1(3) Cons.prems(1) st1(2)] e unfolding fst by fastforce
    with Cons.IH [OF st1(2)] Cons.prems(2) st1(1) show ?thesis
      by (simp add: e count_states_step [OF d] shaped_def del: count_states.simps)
  qed
qed simp

definition pointers :: "(bytes \<times> mobject) list \<Rightarrow> bytes \<Rightarrow> nat" where
  "pointers es x = sum_list (map (\<lambda>(s, d). count_list (next_keys d) x) es)"

lemma count_states_Inr:
  "counting_ok st \<Longrightarrow> shaped es \<Longrightarrow> \<forall>(s, d) \<in> set es. \<forall>t \<in> set (next_keys d). dict_map st t \<noteq> None \<Longrightarrow>
   \<exists>st'. count_states all_ok es st = Inr st' \<and> counting_ok st' \<and> same_but_degree st st' \<and>
     (\<forall>x. degree st' x = degree st x + of_nat (pointers es x))"
proof (induction es arbitrary: st)
  case (Cons e es)
  obtain s d where e: "e = (s, d)" by fastforce
  have d: "dict_ok d" "has_dict d ''next_states''" using Cons.prems(2) e by (auto simp: shaped_def)
  let ?ns = "map (\<lambda>k. (k, MNone)) (next_keys d)"
  have fst: "map fst ?ns = next_keys d" by (simp add: comp_def)
  have "\<forall>t \<in> set (map fst ?ns). dict_map st t \<noteq> None" using Cons.prems(3) e unfolding fst by auto
  from count_next_Inr [OF Cons.prems(1) this] obtain st1 where
    st1: "count_next all_ok ?ns st = Inr st1" "counting_ok st1" "same_but_degree st st1"
      "\<forall>x. degree st1 x = degree st x + of_nat (count_list (next_keys d) x)" unfolding fst by blast
  have "\<forall>(s, d) \<in> set es. \<forall>t \<in> set (next_keys d). dict_map st1 t \<noteq> None" "shaped es"
    using Cons.prems(2,3) same_keys [OF st1(3) Cons.prems(1) st1(2)] by (auto simp: shaped_def)
  from Cons.IH [OF st1(2) this(2,1)] obtain st' where
    "count_states all_ok es st1 = Inr st'" "counting_ok st'" "same_but_degree st1 st'"
    "\<forall>x. degree st' x = degree st1 x + of_nat (pointers es x)" by blast
  with st1 same_trans [of st st1 st'] show ?case
    by (auto simp: e count_states_step [OF d] pointers_def simp del: count_states.simps)
qed (simp add: pointers_def)


lemma pointers_bounds:
  assumes "\<forall>(s, d) \<in> set es. distinct (next_keys d)"
  shows "pointers es x \<le> length es" and "0 < pointers es x \<longleftrightarrow> (\<exists>(s, d) \<in> set es. x \<in> set (next_keys d))"
proof -
  have 1: "distinct xs \<Longrightarrow> count_list xs x \<le> 1" for xs :: "bytes list"
    by (induction xs) (auto simp: count_list_0_iff)
  show "pointers es x \<le> length es" using assms
    by (induction es) (auto simp: pointers_def dest!: 1)
  show "0 < pointers es x \<longleftrightarrow> (\<exists>(s, d) \<in> set es. x \<in> set (next_keys d))"
    by (induction es) (auto simp: pointers_def count_list_0_iff)
qed

section \<open>States that nothing leads to\<close>

lemma check_reached_iff:
  "\<forall>(s, d) \<in> set es. dict_ok d \<and> dict_map d ''indegree'' = Some (MInt (f s)) \<and>
     (\<exists>i. dict_map d ''is_initial'' = Some (MInt i)) \<Longrightarrow>
   check_reached all_ok es =
     (if \<forall>(s, d) \<in> set es. 0 < sint (f s) \<or> dict_map d ''is_initial'' = Some (MInt 1) then Inr ()
      else Inl Exit_failure)"
proof (induction es)
  case (Cons e es)
  then show ?case by (cases e) (auto simp: item_s_found MSTRING_MAX_def)
qed simp

lemma sint_small: "n < 2 ^ 63 \<Longrightarrow> sint (of_nat n :: 64 word) = int n"
  using take_bit_int_eq_self [of "int n" 64]
  by (simp add: sint_uint unsigned_of_nat signed_take_bit_int_eq_self of_nat_take_bit)

lemma next_keys_sub:
  assumes "states_ok st" and "dict_map st s = Some d"
  shows "t \<in> set (next_keys d) \<longleftrightarrow> sub st s ''next_states'' t \<noteq> None" and "distinct (next_keys d)"
proof -
  have "has_dict d ''next_states''"
    using states_okD [OF assms] by (simp add: state_ok_def state_members_def)
  then obtain l where l: "dict_map d ''next_states'' = Some l" "dict_ok l" by (auto simp: has_dict_def)
  with assms(2) dict_map_keys [OF l(2), of t] show "t \<in> set (next_keys d) \<longleftrightarrow> sub st s ''next_states'' t \<noteq> None"
    by (simp add: next_keys_def sub_def)
  from l show "distinct (next_keys d)" by (cases l) (simp_all add: next_keys_def keys_of_def)
qed

lemma dict_entries_map: "dict_ok d \<Longrightarrow> (k, v) \<in> set (dict_entries d) \<longleftrightarrow> dict_map d k = Some v"
  by (cases d) auto

lemma pointed_iff:
  assumes "states_ok st"
  shows "(\<exists>(s, d) \<in> set (dict_entries st). t \<in> set (next_keys d)) \<longleftrightarrow> (\<exists>s. sub st s ''next_states'' t \<noteq> None)"
    (is "?entry \<longleftrightarrow> ?sub")
proof
  have d: "dict_ok st" using assms by (simp add: states_ok_def)
  show "?entry \<Longrightarrow> ?sub" using next_keys_sub(1) [OF assms] dict_entries_map [OF d] by blast
  assume ?sub
  then obtain s where s: "sub st s ''next_states'' t \<noteq> None" by blast
  then obtain x where "dict_map st s = Some x" by (auto simp: sub_def split: option.splits)
  with next_keys_sub(1) [OF assms this] s dict_entries_map [OF d] show ?entry by blast
qed

lemma known_iff:
  assumes "states_ok st"
  shows "(\<forall>(s, d) \<in> set (dict_entries st). \<forall>t \<in> set (next_keys d). P t) \<longleftrightarrow>
    (\<forall>s t. sub st s ''next_states'' t \<noteq> None \<longrightarrow> P t)"
  using pointed_iff [OF assms] by blast

text \<open>What the check demands of the states.\<close>

definition connected :: "mobject \<Rightarrow> bool" where
  "connected st \<longleftrightarrow>
     (\<forall>s t. sub st s ''next_states'' t \<noteq> None \<longrightarrow> dict_map st t \<noteq> None) \<and>
     (\<forall>s. dict_map st s \<noteq> None \<longrightarrow> initial_in st s \<or> (\<exists>s'. sub st s' ''next_states'' s \<noteq> None))"

text \<open>The second loop, over the counted states.\<close>

lemma reached_correct:
  assumes "states_ok st" and "counting_ok st" and "counting_ok st'" and "same_but_degree st st'"
    and "\<And>x. 0 < sint (degree st' x) \<longleftrightarrow> (\<exists>s'. sub st s' ''next_states'' x \<noteq> None)"
  shows "check_reached all_ok (dict_entries st') =
    (if \<forall>s. dict_map st s \<noteq> None \<longrightarrow> initial_in st s \<or> (\<exists>s'. sub st s' ''next_states'' s \<noteq> None)
     then Inr () else Inl Exit_failure)"
proof -
  have d': "dict_ok st'" using assms(3) by (simp add: counting_ok_def)
  have es': "(s, d) \<in> set (dict_entries st') \<longleftrightarrow> dict_map st' s = Some d" for s d
    by (rule dict_entries_map [OF d'])
  have members: "dict_map st' s = Some x \<Longrightarrow>
      \<exists>y. dict_map st s = Some y \<and> (\<forall>m. m \<noteq> ''indegree'' \<longrightarrow> dict_map x m = dict_map y m)" for s x
    using assms(4) same_keys [OF assms(4,2,3), of s] by (fastforce simp: same_but_degree_def)
  have "\<forall>(s, x) \<in> set (dict_entries st'). dict_ok x \<and> dict_map x ''indegree'' = Some (MInt (degree st' s)) \<and>
      (\<exists>i. dict_map x ''is_initial'' = Some (MInt i))"
  proof (clarify)
    fix s x
    assume "(s, x) \<in> set (dict_entries st')"
    then have x: "dict_map st' s = Some x" using es' by simp
    from members [OF x] obtain y where y: "dict_map st s = Some y"
      "dict_map x ''is_initial'' = dict_map y ''is_initial''" by auto
    from states_okD [OF assms(1) y(1)] y(2) assms(3) x
    show "dict_ok x \<and> dict_map x ''indegree'' = Some (MInt (degree st' s)) \<and>
        (\<exists>i. dict_map x ''is_initial'' = Some (MInt i))"
      by (fastforce simp: counting_ok_def degree_def state_ok_def)
  qed
  note chk = check_reached_iff [OF this]
  have init: "initial_in st s \<longleftrightarrow> dict_map x ''is_initial'' = Some (MInt 1)" if "dict_map st' s = Some x" for s x
    using members [OF that] by (auto simp: initial_in_def)
  have "(\<forall>(s, x) \<in> set (dict_entries st'). 0 < sint (degree st' s) \<or> dict_map x ''is_initial'' = Some (MInt 1)) \<longleftrightarrow>
      (\<forall>s x. dict_map st' s = Some x \<longrightarrow> 0 < sint (degree st' s) \<or> initial_in st s)"
    unfolding Ball_def split_paired_All by (simp add: es' init cong: imp_cong)
  also have "\<dots> \<longleftrightarrow> (\<forall>s. dict_map st s \<noteq> None \<longrightarrow> initial_in st s \<or> (\<exists>s'. sub st s' ''next_states'' s \<noteq> None))"
    using assms(5) same_keys [OF assms(4,2,3)] by (metis option.exhaust option.simps(3))
  finally have "(\<forall>(s, x) \<in> set (dict_entries st'). 0 < sint (degree st' s) \<or> dict_map x ''is_initial'' = Some (MInt 1)) \<longleftrightarrow>
      (\<forall>s. dict_map st s \<noteq> None \<longrightarrow> initial_in st s \<or> (\<exists>s'. sub st s' ''next_states'' s \<noteq> None))" .
  with chk show ?thesis by simp
qed

lemma count_indegrees_correct:
  assumes "states_ok st" and "length (keys_of st) < 2 ^ 63"
  shows "if connected st then \<exists>st'. count_indegrees all_ok st = Inr st' \<and> same_but_degree st st'
    else count_indegrees all_ok st = Inl Exit_failure"
proof -
  have d: "dict_ok st" using assms(1) by (simp add: states_ok_def)
  let ?es = "dict_entries st"
  have es: "(s, d) \<in> set ?es \<longleftrightarrow> dict_map st s = Some d" for s d by (rule dict_entries_map [OF d])
  have shape: "shaped ?es" and cnt: "counting_ok st"
    using states_okD [OF assms(1)] d es by (auto simp: shaped_def counting_ok_def state_ok_def state_members_def)
  have known: "(\<forall>(s, d) \<in> set ?es. \<forall>t \<in> set (next_keys d). dict_map st t \<noteq> None) \<longleftrightarrow>
      (\<forall>s t. sub st s ''next_states'' t \<noteq> None \<longrightarrow> dict_map st t \<noteq> None)" (is "?known \<longleftrightarrow> _")
    by (rule known_iff [OF assms(1)])
  show ?thesis
  proof (cases ?known)
    case False
    then have "\<exists>(s, d) \<in> set ?es. \<exists>t \<in> set (next_keys d). dict_map st t = None" by fastforce
    from count_states_Inl [OF cnt shape this] getiter_dict [OF d]
    have "count_indegrees all_ok st = Inl Exit_failure" by (auto simp: count_indegrees_def)
    moreover have "\<not> connected st" using False known unfolding connected_def by blast
    ultimately show ?thesis by simp
  next
    case True
    from count_states_Inr [OF cnt shape True] obtain st' where
      st': "count_states all_ok ?es st = Inr st'" "counting_ok st'" "same_but_degree st st'"
        "\<forall>x. degree st' x = degree st x + of_nat (pointers ?es x)" by blast
    have d': "dict_ok st'" using st'(2) by (simp add: counting_ok_def)
    have zero: "degree st x = 0" for x
      using states_okD [OF assms(1), of x] by (auto simp: degree_def state_ok_def split: option.splits)
    have dist: "\<forall>(s, d) \<in> set ?es. distinct (next_keys d)" using next_keys_sub(2) [OF assms(1)] es by auto
    have small: "pointers ?es x < 2 ^ 63" for x
      using pointers_bounds(1) [OF dist, of x] assms(2) by (simp add: keys_of_def)
    have reach: "0 < sint (degree st' x) \<longleftrightarrow> (\<exists>s'. sub st s' ''next_states'' x \<noteq> None)" for x
      using st'(4) zero sint_small [OF small, of x] pointers_bounds(2) [OF dist, of x] pointed_iff [OF assms(1), of x]
      by simp
    note chk = reached_correct [OF assms(1) cnt st'(2,3) reach]
    with chk True known st'(1,3) getiter_dict [OF d] getiter_dict [OF d'] show ?thesis
      by (auto simp: count_indegrees_def connected_def)
  qed
qed

section \<open>From the start\<close>

lemma insert_strings_ok: "insert_strings al kvs d = Inr d' \<Longrightarrow> dict_ok d \<Longrightarrow> dict_ok d'"
proof (induction al kvs d rule: insert_strings.induct)
  case (2 al k v kvs d)
  then show ?case using must_insert_ss [of d "site 0 al" k v] by (fastforce simp: bind_res_eq_Inr)
qed simp

lemma new_dict_Inr: "new_dict al = Inr d \<Longrightarrow> d = empty_dict"
  by (auto simp: new_dict_def mdict_new_def empty_dict_def split: option.splits if_splits)

lemma new_array_Inr: "new_array al = Inr a \<Longrightarrow> str_array a \<and> strs a = []"
  by (auto simp: new_array_def marray_new_def str_array_def strs_def clean_def MARRAY_MAX_def split: option.splits if_splits)

definition no_machine :: machine where
  "no_machine = \<lparr>m_states = [], m_events = [], m_initial = [], m_state = None, m_event = None,
     m_part = (\<lambda>_ _. Map.empty), m_evpart = (\<lambda>_ _. Map.empty)\<rparr>"

lemma setup_ok:
  assumes "setup_initial_namespace al h = Inr c"
  shows "cfsm_ok c \<and> machine_of c = no_machine"
proof -
  from assms obtain d0 d1 d2 d3 a e where
    d: "new_dict (site 0 al) = Inr d0" "insert_strings (site 1 al) default_strings d0 = Inr d1"
      "must (mdict_insert_si (site 2 al) d1 ''need_ctx'' 0) = Inr d2"
      "insert_strings (site 3 al)
         (case h of
            None \<Rightarrow> [(''header_guard'', ''_FSM_H''), (''header_name'', ''fsm.h'')]
          | Some nm \<Rightarrow> [(''header_name'', nm), (''header_guard'', header_guard nm)]) d2 = Inr d3"
    and a: "new_array (site 4 al) = Inr a" and e: "new_dict (site 5 al) = Inr e"
    and c: "c = \<lparr>cf_vars = d3, cf_initial_states = a, cf_states_array = a, cf_events_array = a,
            cf_states = e, cf_events = e, cf_event_callbacks = e, cf_event_preconds = e,
            cf_entry_callbacks = e, cf_entry_preconds = e, cf_exit_callbacks = e, cf_exit_preconds = e,
            current_state = None, current_event = None, trans_callback_args = 0, event_callback_args = 0,
            trans_precond_args = 0, event_precond_args = 0, event_specified = False\<rparr>"
    by (auto simp: setup_initial_namespace_def bind_res_eq_Inr)
  have "dict_ok d1" using insert_strings_ok [OF d(2)] new_dict_Inr [OF d(1)] by simp
  then have "dict_ok d3" using must_insert_si [OF _ d(3)] insert_strings_ok [OF d(4)] by blast
  with new_array_Inr [OF a] new_dict_Inr [OF e] c show ?thesis
    by (simp add: cfsm_ok_def states_ok_def events_ok_def initial_in_def machine_of_def no_machine_def sub_def fun_eq_iff)
qed

fun mrun :: "fsm_directive list \<Rightarrow> machine \<Rightarrow> machine option" where
  "mrun [] M = Some M"
| "mrun (d # ds) M = Option.bind (mstep d M) (mrun ds)"

lemma directives_refine:
  "directives al ds c = Inr c' \<Longrightarrow> cfsm_ok c \<Longrightarrow> \<forall>d \<in> set ds. nul_free d \<Longrightarrow>
   cfsm_ok c' \<and> mrun ds (machine_of c) = Some (machine_of c')"
proof (induction al ds c rule: directives.induct)
  case (2 al d ds c)
  then obtain c1 where c1: "directive_step (site 0 al) d c = Inr c1" "directives (site 1 al) ds c1 = Inr c'"
    by (auto simp: bind_res_eq_Inr)
  with directive_refines [OF "2.prems"(2) _ c1(1)] "2.IH" [OF c1(2)] "2.prems"(3) show ?case by simp
qed simp

declare all_ok_apply [simp]

end
