(* ===== verification/CfsmAccept.thy ===== *)
theory CfsmAccept
  imports CfsmCheck
begin

text \<open>
  The other direction of the refinement: when no allocation fails and the names and lists stay below
  the library's limits, the state machine compiler accepts every directive that the abstract machine
  can follow. A program is accepted exactly when the machine runs through it.
\<close>

declare all_ok_apply [simp del]

definition short :: "string \<Rightarrow> bool" where
  "short s \<longleftrightarrow> length s < MSTRING_MAX"

section \<open>Calls that do not fail\<close>

lemma shift_all_ok: "(\<lambda>j. all_ok (j + k)) = all_ok" "(\<lambda>j. all_ok (Suc j)) = all_ok"
  "(\<lambda>j. all_ok (Suc (Suc j))) = all_ok"
  by (simp_all add: all_ok_def)

lemma mstring_new_short: "short s \<Longrightarrow> mstring_new all_ok s = Some (MString (cstr s))"
  using length_cstr_le [of s] by (simp add: short_def mstring_new_def mstring_new2_def all_ok_def)

lemma new_all_ok: "mnone_new all_ok = Some MNone" "mint_new all_ok i = Some (MInt i)"
  "mdict_new all_ok = Some empty_dict"
  by (simp_all add: mnone_new_def mint_new_def mdict_new_def empty_dict_def all_ok_def)

lemma replace_succeeds:
  assumes "dict_ok d" and "short k"
  shows "\<exists>d'. must (store_value_s (Some v) (mdict_replace_s all_ok d k) d) = Inr d'"
proof -
  obtain d' r where r: "mdict_replace all_ok d (MString (cstr k)) v = (d', r)" by fastforce
  from mdict_replace_correct [OF assms(1) this] have "r = 0" by (simp add: all_ok_def)
  with r mstring_new_short [OF assms(2)] show ?thesis
    by (simp add: must_def store_value_s_def mdict_replace_s_def store_new_def shift_all_ok)
qed

lemma insert_succeeds:
  assumes "dict_ok d" and "short k" and "dict_map d (cstr k) = None"
  shows "\<exists>d'. must (store_value_s (Some v) (mdict_insert_s all_ok d k) d) = Inr d'"
proof -
  obtain d' r where r: "mdict_insert all_ok d (MString (cstr k)) v = (d', r)" by fastforce
  from mdict_insert_correct [OF assms(1) this] assms(3) have "r = 0" by (simp add: all_ok_def)
  with r mstring_new_short [OF assms(2)] show ?thesis
    by (simp add: must_def store_value_s_def mdict_insert_s_def store_new_def shift_all_ok)
qed

lemma replace_calls:
  "dict_ok d \<Longrightarrow> short k \<Longrightarrow> \<exists>d'. must (mdict_replace_si all_ok d k i) = Inr d'"
  "dict_ok d \<Longrightarrow> short k \<Longrightarrow> \<exists>d'. must (mdict_replace_sn all_ok d k) = Inr d'"
  "dict_ok d \<Longrightarrow> short k \<Longrightarrow> short v \<Longrightarrow> \<exists>d'. must (mdict_replace_ss all_ok d k v) = Inr d'"
  by (simp_all add: mdict_replace_si_def mdict_replace_sn_def mdict_replace_ss_def shift_all_ok new_all_ok
      mstring_new_short replace_succeeds)

lemma insert_calls:
  "dict_ok d \<Longrightarrow> short k \<Longrightarrow> dict_map d (cstr k) = None \<Longrightarrow> \<exists>d'. must (mdict_insert_sd all_ok d k) = Inr d'"
  "dict_ok d \<Longrightarrow> short k \<Longrightarrow> dict_map d (cstr k) = None \<Longrightarrow> \<exists>d'. must (mdict_insert_si all_ok d k i) = Inr d'"
  "dict_ok d \<Longrightarrow> short k \<Longrightarrow> short v \<Longrightarrow> dict_map d (cstr k) = None \<Longrightarrow>
     \<exists>d'. must (mdict_insert_ss all_ok d k v) = Inr d'"
  by (simp_all add: mdict_insert_sd_def mdict_insert_si_def mdict_insert_ss_def shift_all_ok new_all_ok
      mstring_new_short insert_succeeds)

lemma append_succeeds:
  assumes "array_ok a" and "2 * (length (elems a) + 1) < MARRAY_MAX"
  shows "\<exists>a'. marray_append all_ok a x = (a', 0)"
proof -
  from assms(1) obtain sl n where a: "a = MArray sl n" "clean sl n" "length sl < MARRAY_MAX"
    by (rule array_cases)
  have n: "length (elems a) = n" using a by (auto simp: clean_def)
  have "all_ok 0" by (simp add: all_ok_def)
  with marray_resize_ok [OF a(2,3), of "n + 1" all_ok] assms(2) n a(1) show ?thesis by auto
qed

lemma append_s_succeeds:
  assumes "str_array a" and "short s" and "2 * (length (strs a) + 1) < MARRAY_MAX"
  shows "\<exists>a'. must (marray_append_s all_ok a s) = Inr a'"
proof -
  have "array_ok a" "length (elems a) = length (strs a)" using assms(1) by (simp_all add: str_array_def strs_def)
  with append_succeeds [of a "MString (cstr s)"] assms(3) mstring_new_short [OF assms(2)] show ?thesis
    by (auto simp: marray_append_s_def store_new_def shift_all_ok must_def)
qed

lemma item_s_short: "dict_ok d \<Longrightarrow> short k \<Longrightarrow> mdict_item_s all_ok d k = dict_map d (cstr k)"
  using length_cstr_le [of k] by (auto simp: short_def intro: item_s_found)

lemma inside_succeeds:
  "dict_ok d \<Longrightarrow> dict_map d k = Some v \<Longrightarrow> f v = Inr v' \<Longrightarrow> inside k f d = Inr (put_item k v' d)"
  by (simp add: inside_def mdict_item_correct)

lemma inside_s_succeeds:
  "dict_ok d \<Longrightarrow> short k \<Longrightarrow> dict_map d (cstr k) = Some v \<Longrightarrow> f v = Inr v' \<Longrightarrow>
   inside_s all_ok k f d = Inr (put_item (cstr k) v' d)"
  by (simp add: inside_s_def item_s_short inside_succeeds)

lemma short_members: "m \<in> set state_members \<union> set event_members \<Longrightarrow> short m"
  by (auto simp: short_def MSTRING_MAX_def state_members_def event_members_def)

text \<open>A change of a member of a state or an event.\<close>

lemma member_succeeds:
  assumes "dict_ok d" and "has_dict d m" and "m \<in> set state_members \<union> set event_members"
    and "\<forall>l. dict_ok l \<longrightarrow> (\<exists>l'. g l = Inr l')"
  shows "\<exists>d'. inside_s all_ok m g d = Inr d'"
proof -
  from assms(2) obtain l where l: "dict_map d m = Some l" "dict_ok l" by (auto simp: has_dict_def)
  from assms(4) l(2) obtain l' where "g l = Inr l'" by blast
  with inside_s_succeeds [OF assms(1) short_members [OF assms(3)], of l g l'] l(1) members_plain [OF assms(3)]
  show ?thesis by simp
qed

section \<open>Directives that do not fail\<close>

text \<open>Room in the arrays: the states, the events and the initial states.\<close>

definition room :: "nat \<Rightarrow> machine \<Rightarrow> bool" where
  "room n M \<longleftrightarrow> 2 * (length (m_states M) + n) < MARRAY_MAX \<and> 2 * (length (m_events M) + n) < MARRAY_MAX \<and>
     2 * (length (m_initial M) + n) < MARRAY_MAX"

lemma empty_members_ok:
  assumes "short s" and "NUL \<notin> set s"
  shows "\<exists>d. new_state_members all_ok s empty_dict = Inr d"
proof -
  have sh: "short ''name''" "short ''events''" "short ''next_states''" "short ''exit_preconds''"
    "short ''entry_preconds''" "short ''exit_callbacks''" "short ''entry_callbacks''" "short ''is_initial''"
    "short ''indegree''" by (simp_all add: short_def MSTRING_MAX_def)
  have "dict_ok empty_dict" by simp
  from insert_calls(3) [OF this sh(1) assms(1)] obtain d0 where c0: "must (mdict_insert_ss all_ok empty_dict ''name'' s) = Inr d0"
    by auto
  note k0 = must_insert_ss [OF \<open>dict_ok empty_dict\<close> c0]
  with insert_calls(1) [of d0, OF _ sh(2)] obtain d1 where c1: "must (mdict_insert_sd all_ok d0 ''events'') = Inr d1" by auto
  note k1 = must_insert_sd [OF conjunct1 [OF k0] c1]
  with k0 insert_calls(1) [of d1, OF _ sh(3)] obtain d2 where c2: "must (mdict_insert_sd all_ok d1 ''next_states'') = Inr d2" by auto
  note k2 = must_insert_sd [OF conjunct1 [OF k1] c2]
  with k0 k1 insert_calls(1) [of d2, OF _ sh(4)] obtain d3 where c3: "must (mdict_insert_sd all_ok d2 ''exit_preconds'') = Inr d3" by auto
  note k3 = must_insert_sd [OF conjunct1 [OF k2] c3]
  with k0 k1 k2 insert_calls(1) [of d3, OF _ sh(5)] obtain d4 where c4: "must (mdict_insert_sd all_ok d3 ''entry_preconds'') = Inr d4" by auto
  note k4 = must_insert_sd [OF conjunct1 [OF k3] c4]
  with k0 k1 k2 k3 insert_calls(1) [of d4, OF _ sh(6)] obtain d5 where c5: "must (mdict_insert_sd all_ok d4 ''exit_callbacks'') = Inr d5" by auto
  note k5 = must_insert_sd [OF conjunct1 [OF k4] c5]
  with k0 k1 k2 k3 k4 insert_calls(1) [of d5, OF _ sh(7)] obtain d6 where c6: "must (mdict_insert_sd all_ok d5 ''entry_callbacks'') = Inr d6" by auto
  note k6 = must_insert_sd [OF conjunct1 [OF k5] c6]
  with k0 k1 k2 k3 k4 k5 insert_calls(2) [of d6, OF _ sh(8)] obtain d7 where c7: "must (mdict_insert_si all_ok d6 ''is_initial'' 0) = Inr d7" by auto
  note k7 = must_insert_si [OF conjunct1 [OF k6] c7]
  with k0 k1 k2 k3 k4 k5 k6 insert_calls(2) [of d7, OF _ sh(9)] obtain d8 where c8: "must (mdict_insert_si all_ok d7 ''indegree'' 0) = Inr d8" by auto
  show ?thesis by (simp add: new_state_members_def c0 c1 c2 c3 c4 c5 c6 c7 c8)
qed

lemma state_decl_succeeds:
  assumes "cfsm_ok c" and "short s" and "NUL \<notin> set s" and "s \<notin> set (strs (cf_states_array c))"
    and "room 1 (machine_of c)"
  shows "\<exists>c'. state_decl all_ok s c = Inr c'"
proof -
  note ok = cfsm_okD [OF assms(1)]
  have "dict_map (cf_states c) (cstr s) = None"
    using assms(3,4) dict_map_keys [OF ok(4), of s] ok(9) by (simp add: cstr_id)
  from insert_calls(1) [OF ok(4) assms(2) this] obtain st where
    st: "must (mdict_insert_sd all_ok (cf_states c) s) = Inr st" by blast
  note k = must_insert_sd [OF ok(4) st]
  from empty_members_ok [OF assms(2,3)] obtain d where d: "new_state_members all_ok s empty_dict = Inr d" by blast
  have "inside (cstr s) (new_state_members all_ok s) st = Inr (put_item (cstr s) d st)"
    by (rule inside_succeeds [where v = empty_dict]) (simp_all add: k d)
  with append_s_succeeds [OF ok(6) assms(2)] assms(5) st show ?thesis
    by (auto simp: state_decl_def room_def machine_of_def)
qed

lemma get_or_create_event_succeeds:
  assumes "cfsm_ok c" and "short e" and "NUL \<notin> set e" and "room 1 (machine_of c)"
  shows "\<exists>c'. get_or_create_event all_ok e c = Inr c'"
proof (cases "mdict_item_s all_ok (cf_events c) e")
  case None
  note ok = cfsm_okD [OF assms(1)]
  have new: "dict_map (cf_events c) (cstr e) = None" using None item_s_short [OF ok(5) assms(2)] by simp
  from insert_calls(1) [OF ok(5) assms(2) new] obtain ev where
    ev: "must (mdict_insert_sd all_ok (cf_events c) e) = Inr ev" by blast
  note k = must_insert_sd [OF ok(5) ev]
  have sh: "short ''preconds''" "short ''callbacks''" by (simp_all add: short_def MSTRING_MAX_def)
  have "dict_ok empty_dict" by simp
  from insert_calls(1) [OF this sh(1)] obtain d1 where d1: "must (mdict_insert_sd all_ok empty_dict ''preconds'') = Inr d1" by auto
  note k1 = must_insert_sd [OF \<open>dict_ok empty_dict\<close> d1]
  with insert_calls(1) [of d1, OF _ sh(2)] obtain d2 where d2: "must (mdict_insert_sd all_ok d1 ''callbacks'') = Inr d2" by auto
  have "inside_s all_ok e (\<lambda>e. bind_res (must (mdict_insert_sd all_ok e ''preconds'')) (\<lambda>e1.
      must (mdict_insert_sd all_ok e1 ''callbacks''))) ev = Inr (put_item (cstr e) d2 ev)"
    by (rule inside_s_succeeds [where v = empty_dict]) (simp_all add: k assms(2) d1 d2)
  with append_s_succeeds [OF ok(7) assms(2)] assms(4) ev None show ?thesis
    by (auto simp: get_or_create_event_def room_def machine_of_def)
qed (simp add: get_or_create_event_def)

lemma state_member_succeeds:
  assumes "cfsm_ok c" and "dict_map (cf_states c) s = Some d" and "m \<in> set state_members"
    and "\<forall>l. dict_ok l \<longrightarrow> (\<exists>l'. g l = Inr l')"
  shows "\<exists>st. inside s (inside_s all_ok m g) (cf_states c) = Inr st"
proof -
  note sok = states_okD [OF cfsm_okD(2) [OF assms(1)] assms(2)]
  have "dict_ok d" "has_dict d m" using sok assms(3) by (auto simp: state_ok_def)
  with member_succeeds [OF this _ assms(4)] assms(3) obtain d' where "inside_s all_ok m g d = Inr d'" by auto
  with inside_succeeds [OF cfsm_okD(4) [OF assms(1)] assms(2)] show ?thesis by auto
qed

lemma event_member_succeeds:
  assumes "cfsm_ok c" and "dict_map (cf_events c) s = Some d" and "m \<in> set event_members"
    and "\<forall>l. dict_ok l \<longrightarrow> (\<exists>l'. g l = Inr l')"
  shows "\<exists>st. inside s (inside_s all_ok m g) (cf_events c) = Inr st"
proof -
  note eok = events_okD [OF cfsm_okD(3) [OF assms(1)] assms(2)]
  have "dict_ok d" "has_dict d m" using eok assms(3) by (auto simp: event_ok_def)
  with member_succeeds [OF this _ assms(4)] assms(3) obtain d' where "inside_s all_ok m g d = Inr d'" by auto
  with inside_succeeds [OF cfsm_okD(5) [OF assms(1)] assms(2)] show ?thesis by auto
qed

lemma current_known:
  "cfsm_ok c \<Longrightarrow> current_state c = Some s \<Longrightarrow> \<exists>d. dict_map (cf_states c) s = Some d"
  "cfsm_ok c \<Longrightarrow> current_event c = Some s \<Longrightarrow> \<exists>d. dict_map (cf_events c) s = Some d"
  by (simp_all add: cfsm_ok_def)

lemma create_action_succeeds:
  assumes "cfsm_ok c" and "short f" and "dict_ok main"
  shows "m \<in> set state_members \<Longrightarrow> current_state c = Some s \<Longrightarrow>
      \<exists>x. create_action all_ok f (current_state c) m (cf_states c) main = Inr x"
    and "m \<in> set event_members \<Longrightarrow> current_event c = Some s \<Longrightarrow>
      \<exists>x. create_action all_ok f (current_event c) m (cf_events c) main = Inr x"
proof -
  have g: "\<forall>l. dict_ok l \<longrightarrow> (\<exists>l'. must (mdict_replace_si all_ok l f 1) = Inr l')"
    using replace_calls(1) [OF _ assms(2)] by blast
  with assms(3) obtain main' where main: "must (mdict_replace_si all_ok main f 1) = Inr main'" by blast
  show "\<exists>x. create_action all_ok f (current_state c) m (cf_states c) main = Inr x"
    if m: "m \<in> set state_members" and s: "current_state c = Some s"
  proof -
    from current_known(1) [OF assms(1) s] obtain d where "dict_map (cf_states c) s = Some d" by blast
    from state_member_succeeds [OF assms(1) this m g] main s show ?thesis by (auto simp: create_action_def)
  qed
  show "\<exists>x. create_action all_ok f (current_event c) m (cf_events c) main = Inr x"
    if m: "m \<in> set event_members" and s: "current_event c = Some s"
  proof -
    from current_known(2) [OF assms(1) s] obtain d where "dict_map (cf_events c) s = Some d" by blast
    from event_member_succeeds [OF assms(1) this m g] main s show ?thesis by (auto simp: create_action_def)
  qed
qed

lemma initial_state_succeeds:
  assumes "cfsm_ok c" and "current_state c = Some s" and "s \<notin> set (strs (cf_initial_states c))" and "short s"
    and "room 1 (machine_of c)"
  shows "\<exists>c'. initial_state_def all_ok c = Inr c'"
proof -
  note ok = cfsm_okD [OF assms(1)]
  from current_known(1) [OF assms(1,2)] obtain d where d: "dict_map (cf_states c) s = Some d" by blast
  note sok = states_okD [OF ok(2) d]
  have dd: "dict_ok d" using sok by (simp add: state_ok_def)
  have init: "dict_map d ''is_initial'' = Some (MInt 0)"
    using assms(1,3) d sok by (auto simp: cfsm_ok_def initial_in_def state_ok_def)
  have sh: "short ''is_initial''" "short ''name''" by (simp_all add: short_def MSTRING_MAX_def)
  from replace_calls(1) [OF dd sh(1), of 1] obtain d' where
    d': "must (mdict_replace_si all_ok d ''is_initial'' 1) = Inr d'" by blast
  have mark: "mark_initial all_ok d = Inr d'"
    by (simp add: mark_initial_def item_s_short [OF dd sh(1)] init d')
  note mk = mark_initial_Inr [OF sok mark]
  have dd': "dict_ok d'" using mk by (simp add: state_ok_def)
  note p = put_item_simps [OF ok(4), of s d', unfolded d, simplified]
  have item: "mdict_item (put_item s d' (cf_states c)) (MString s) = Some d'"
    using mdict_item_correct [OF p(1)] p(3) by simp
  have nm: "mdict_item_s all_ok d' ''name'' = Some (MString s)"
    using item_s_short [OF dd' sh(2)] conjunct1 [OF conjunct2 [OF mk]] by (simp add: state_ok_def)
  have copy: "copy_of all_ok (MString s) = Inr (MString s)"
    using assms(4) by (simp add: copy_of_def mstring_new2_def short_def all_ok_def)
  have "array_ok (cf_initial_states c)" "length (elems (cf_initial_states c)) = length (strs (cf_initial_states c))"
    using ok(8) by (simp_all add: str_array_def strs_def)
  with append_succeeds [of "cf_initial_states c" "MString s"] assms(5) obtain arr where
    "marray_append all_ok (cf_initial_states c) (MString s) = (arr, 0)" by (auto simp: room_def machine_of_def)
  with item nm copy inside_succeeds [OF ok(4) d, of "mark_initial all_ok" d', OF mark] assms(2) show ?thesis
    by (simp add: initial_state_def_def on_state_def)
qed

lemma on_event_succeeds:
  assumes "cfsm_ok c" and "current_state c = Some s" and "short e" "NUL \<notin> set e" and "short t" "NUL \<notin> set t"
    and "room 1 (machine_of c)"
  shows "\<exists>c'. on_event_def all_ok e t c = Inr c'"
proof -
  from get_or_create_event_succeeds [OF assms(1,3,4,7)] obtain c1 where c1: "get_or_create_event all_ok e c = Inr c1" by blast
  from get_or_create_event_refines [OF assms(1,4) c1] assms(2) have
    g: "cfsm_ok c1" "current_state c1 = Some s" by auto
  from current_known(1) [OF g] obtain d where d: "dict_map (cf_states c1) s = Some d" by blast
  note sok = states_okD [OF cfsm_okD(2) [OF g(1)] d]
  have m: "''events'' \<in> set state_members" "''next_states'' \<in> set state_members" by (simp_all add: state_members_def)
  let ?g = "\<lambda>x. must (mdict_replace_ss all_ok x e t)" and ?h = "\<lambda>x. must (mdict_replace_si all_ok x t 1)"
  have "\<forall>l. dict_ok l \<longrightarrow> (\<exists>l'. ?g l = Inr l')" "\<forall>l. dict_ok l \<longrightarrow> (\<exists>l'. ?h l = Inr l')"
    using replace_calls(1,3) assms(3,5) by blast+
  note gh = this
  from sok m(1) gh(1) obtain d1 where d1: "inside_s all_ok ''events'' ?g d = Inr d1"
    using member_succeeds [of d "''events''" ?g] by (auto simp: state_ok_def)
  from state_member [OF sok m(1) d1 dict_ops(3) [OF assms(4,6)]] have "state_ok s d1" by blast
  with m(2) gh(2) obtain d2 where d2: "inside_s all_ok ''next_states'' ?h d1 = Inr d2"
    using member_succeeds [of d1 "''next_states''" ?h] by (auto simp: state_ok_def)
  have "bind_res (inside_s all_ok ''events'' ?g d) (inside_s all_ok ''next_states'' ?h) = Inr d2" by (simp add: d1 d2)
  from inside_succeeds [OF cfsm_okD(4) [OF g(1)] d, of "\<lambda>x. bind_res (inside_s all_ok ''events'' ?g x)
    (inside_s all_ok ''next_states'' ?h)", OF this] c1 g(2) assms(2)
  show ?thesis by (simp add: on_event_def_def on_state_def)
qed

lemma ignore_event_succeeds:
  assumes "cfsm_ok c" and "current_state c = Some s" and "short e" "NUL \<notin> set e" and "room 1 (machine_of c)"
  shows "\<exists>c'. ignore_event_def all_ok e c = Inr c'"
proof -
  from get_or_create_event_succeeds [OF assms(1,3,4,5)] obtain c1 where c1: "get_or_create_event all_ok e c = Inr c1" by blast
  from get_or_create_event_refines [OF assms(1,4) c1] assms(2) have
    g: "cfsm_ok c1" "current_state c1 = Some s" by auto
  from current_known(1) [OF g] obtain d where d: "dict_map (cf_states c1) s = Some d" by blast
  let ?g = "\<lambda>x. must (mdict_replace_sn all_ok x e)"
  have "\<forall>l. dict_ok l \<longrightarrow> (\<exists>l'. ?g l = Inr l')" using replace_calls(2) assms(3) by blast
  with state_member_succeeds [OF g(1) d, of "''events''" ?g] c1 g(2) assms(2) show ?thesis
    by (auto simp: ignore_event_def_def on_state_def state_members_def)
qed

lemma event_decl_succeeds:
  assumes "cfsm_ok c" and "short e" "NUL \<notin> set e" and "room 1 (machine_of c)"
  shows "\<exists>c'. event_decl all_ok e c = Inr c'"
proof -
  have "cfsm_ok (c\<lparr>current_state := None\<rparr>)" "room 1 (machine_of (c\<lparr>current_state := None\<rparr>))"
    using assms(1,4) by (auto simp: cfsm_ok_def room_def machine_of_def)
  from get_or_create_event_succeeds [OF this(1) assms(2,3) this(2)] show ?thesis by (auto simp: event_decl_def)
qed

lemma set_name_succeeds: "cfsm_ok c \<Longrightarrow> short k \<Longrightarrow> short v \<Longrightarrow> \<exists>c'. set_fsm_name all_ok k v c = Inr c'"
  using replace_calls(3) [OF cfsm_okD(1)] by (fastforce simp: set_fsm_name_def)

lemma callback_args_succeed: "cfsm_ok c \<Longrightarrow> \<exists>w c'. callback_args all_ok as c = Inr (w, c')"
proof (induction as arbitrary: c)
  case (Cons a as)
  have sh: "short ''need_ctx''" by (simp add: short_def MSTRING_MAX_def)
  from replace_calls(1) [OF cfsm_okD(1) [OF Cons.prems] sh] obtain d where
    d: "must (mdict_replace_si all_ok (cf_vars c) ''need_ctx'' 1) = Inr d" by blast
  have "cfsm_ok (c\<lparr>cf_vars := d\<rparr>)"
    using Cons.prems must_replace_si [OF cfsm_okD(1) [OF Cons.prems] d] by (simp add: cfsm_ok_def)
  from Cons.IH [OF this] Cons.IH [OF Cons.prems] d show ?case by (cases a) auto
qed simp

section \<open>A directive is accepted exactly when the machine can follow it\<close>

text \<open>The strings a directive stores.\<close>

fun stored :: "fsm_directive \<Rightarrow> string list" where
  "stored (State_enum v) = [v]"
| "stored (Event_enum v) = [v]"
| "stored (Fsm_struct v) = [v]"
| "stored (Current_state_func v) = [v]"
| "stored (Init_func v) = [v]"
| "stored (Free_func v) = [v]"
| "stored (Advance_func v) = [v]"
| "stored (State_ntop_func v) = [v]"
| "stored (Event_ntop_func v) = [v]"
| "stored (Banner ls) = [concat ls]"
| "stored d = names d"

definition storable :: "fsm_directive \<Rightarrow> bool" where
  "storable d \<longleftrightarrow> nul_free d \<and> d \<noteq> Banner [] \<and> (\<forall>s \<in> set (stored d). short s)"

definition short_states :: "machine \<Rightarrow> bool" where
  "short_states M \<longleftrightarrow> (\<forall>s. m_state M = Some s \<longrightarrow> short s)"

lemma short_keys [simp]:
  "short ''state_enum''" "short ''event_enum''" "short ''fsm_struct''" "short ''current_state_func''"
  "short ''init_func''" "short ''free_func''" "short ''advance_func''" "short ''state_ntop_func''"
  "short ''event_ntop_func''" "short ''source_banner''"
  by (simp_all add: short_def MSTRING_MAX_def)

lemma map_sum_succeeds: "\<exists>y. x = Inr y \<Longrightarrow> \<exists>z. map_sum id f x = Inr z"
  by auto

lemma action_succeeds:
  assumes "cfsm_ok c" and "storable d" and "is_action d" and "mstep d (machine_of c) = Some M"
  shows "\<exists>c'. directive_step all_ok d c = Inr c'"
proof -
  note ca = create_action_succeeds [OF assms(1)] and ok = action_lists_ok [OF assms(1)]
  note defs = mstep_def state_action_def event_action_def storable_def machine_of_def directive_step_def
    state_members_def event_members_def
  show ?thesis
  proof (cases d)
    case (Entry_callback f)
    with assms(2,4) ca(1) [of f "cf_entry_callbacks c" "''entry_callbacks''"] ok show ?thesis
      by (auto simp: defs intro!: map_sum_succeeds)
  next
    case (Exit_callback f)
    with assms(2,4) ca(1) [of f "cf_exit_callbacks c" "''exit_callbacks''"] ok show ?thesis
      by (auto simp: defs intro!: map_sum_succeeds)
  next
    case (Entry_precond f)
    with assms(2,4) ca(1) [of f "cf_entry_preconds c" "''entry_preconds''"] ok show ?thesis
      by (auto simp: defs intro!: map_sum_succeeds)
  next
    case (Exit_precond f)
    with assms(2,4) ca(1) [of f "cf_exit_preconds c" "''exit_preconds''"] ok show ?thesis
      by (auto simp: defs intro!: map_sum_succeeds)
  next
    case (Event_callback f)
    with assms(2,4) ca(2) [of f "cf_event_callbacks c" "''callbacks''"] ok show ?thesis
      by (auto simp: defs intro!: map_sum_succeeds)
  next
    case (Event_precond f)
    with assms(2,4) ca(2) [of f "cf_event_preconds c" "''preconds''"] ok show ?thesis
      by (auto simp: defs intro!: map_sum_succeeds)
  qed (use assms(3) in simp_all)
qed

lemma banner_lines_ok:
  "banner_lines all_ok ls b = Inr (if ls = [] then b else Some ((case b of None \<Rightarrow> [] | Some t \<Rightarrow> t) @ concat ls))"
  by (induction ls arbitrary: b) (auto simp: all_ok_def [THEN fun_cong])

lemma setting_succeeds:
  assumes "cfsm_ok c" and "storable d" and "is_setting d"
  shows "\<exists>c'. directive_step all_ok d c = Inr c'"
proof (cases d)
  case (Event_precond_args as)
  with callback_args_succeed [OF assms(1), of as] show ?thesis by (auto simp: directive_step_def)
next
  case (Trans_precond_args as)
  with callback_args_succeed [OF assms(1), of as] show ?thesis by (auto simp: directive_step_def)
next
  case (Event_callback_args as)
  with callback_args_succeed [OF assms(1), of as] show ?thesis by (auto simp: directive_step_def)
next
  case (Trans_callback_args as)
  with callback_args_succeed [OF assms(1), of as] show ?thesis by (auto simp: directive_step_def)
next
  case (Banner ls)
  with assms set_name_succeeds [OF assms(1)] show ?thesis
    by (simp add: directive_step_def storable_def banner_lines_ok banner_end_def)
qed (use assms set_name_succeeds [OF assms(1)] in \<open>auto simp: directive_step_def storable_def\<close>)

lemma directive_succeeds:
  assumes "cfsm_ok c" and "storable d" and "room 1 (machine_of c)" and "short_states (machine_of c)"
    and "mstep d (machine_of c) = Some M"
  shows "\<exists>c'. directive_step all_ok d c = Inr c'"
proof (cases "is_action d \<or> is_setting d")
  case True
  with action_succeeds [OF assms(1,2) _ assms(5)] setting_succeeds [OF assms(1,2)] show ?thesis by blast
next
  case False
  note defs = mstep_def storable_def nul_free_def machine_of_def directive_step_def short_states_def
  show ?thesis
  proof (cases d)
    case (State_decl s)
    with state_decl_succeeds [OF assms(1) _ _ _ assms(3), of s] assms(2,5) show ?thesis
      by (simp add: defs split: if_splits)
  next
    case Initial_state
    with assms(5) obtain s where "current_state c = Some s" "s \<notin> set (strs (cf_initial_states c))"
      by (auto simp: mstep_def machine_of_def bind_eq_Some_conv split: if_splits)
    with initial_state_succeeds [OF assms(1) this _ assms(3)] Initial_state assms(4) show ?thesis
      by (simp add: defs)
  next
    case (On_event e t)
    with on_event_succeeds [OF assms(1) _ _ _ _ _ assms(3), of _ e t] assms(2,5) show ?thesis by (auto simp: defs)
  next
    case (Ignore_event e)
    with ignore_event_succeeds [OF assms(1) _ _ _ assms(3), of _ e] assms(2,5) show ?thesis by (auto simp: defs)
  next
    case (Event_decl e)
    with event_decl_succeeds [OF assms(1) _ _ assms(3), of e] assms(2) show ?thesis by (simp add: defs)
  qed (use False in simp_all)
qed

text \<open>What a step needs of the limits is kept by it.\<close>

lemma length_add_event: "length (add_event e es) \<le> length es + 1"
  by (simp add: add_event_def)

lemma mstep_limits:
  assumes "mstep d M = Some M'" and "room (Suc n) M" and "short_states M" and "storable d"
  shows "room n M' \<and> short_states M'"
  using assms length_add_event [of _ "m_events M"]
  by (cases d) (auto simp: mstep_def room_def short_states_def storable_def state_action_def event_action_def
      bind_eq_Some_conv add_event_def split: if_splits)

theorem directives_complete:
  "cfsm_ok c \<Longrightarrow> \<forall>d \<in> set ds. storable d \<Longrightarrow> room (Suc (length ds)) (machine_of c) \<Longrightarrow>
   short_states (machine_of c) \<Longrightarrow> mrun ds (machine_of c) = Some M \<Longrightarrow>
   \<exists>c'. directives all_ok ds c = Inr c' \<and> cfsm_ok c' \<and> machine_of c' = M"
proof (induction ds arbitrary: c)
  case (Cons d ds)
  from Cons.prems(5) obtain M1 where M1: "mstep d (machine_of c) = Some M1" "mrun ds M1 = Some M"
    by (auto simp: bind_eq_Some_conv)
  have d: "storable d" "nul_free d" "room 1 (machine_of c)" using Cons.prems(2,3) by (auto simp: storable_def room_def)
  from directive_succeeds [OF Cons.prems(1) d(1,3) Cons.prems(4) M1(1)] obtain c1 where
    c1: "directive_step all_ok d c = Inr c1" by blast
  from directive_refines [OF Cons.prems(1) d(2) c1] M1(1) have r: "cfsm_ok c1" "machine_of c1 = M1" by simp_all
  from mstep_limits [OF M1(1) _ Cons.prems(4) d(1)] Cons.prems(3)
  have "room (Suc (length ds)) M1" "short_states M1" by simp_all
  with Cons.IH [OF r(1)] Cons.prems(2) r(2) M1(2) obtain c' where
    "directives all_ok ds c1 = Inr c'" "cfsm_ok c'" "machine_of c' = M" by auto
  with c1 show ?case by simp
qed simp

section \<open>The initial namespace can be built\<close>

lemma insert_strings_succeeds:
  "dict_ok d \<Longrightarrow> distinct (keys_of d @ map (cstr \<circ> fst) kvs) \<Longrightarrow> \<forall>(k, v) \<in> set kvs. short k \<and> short v \<Longrightarrow>
   \<exists>d'. insert_strings all_ok kvs d = Inr d' \<and> dict_ok d' \<and> keys_of d' = keys_of d @ map (cstr \<circ> fst) kvs"
proof (induction kvs arbitrary: d)
  case (Cons kv kvs)
  obtain k v where kv: "kv = (k, v)" by fastforce
  have "dict_map d (cstr k) = None" using Cons.prems kv by (simp add: dict_map_keys)
  with insert_calls(3) [OF Cons.prems(1), of k v] Cons.prems(3) kv obtain d1 where
    d1: "must (mdict_insert_ss all_ok d k v) = Inr d1" by auto
  note k = must_insert_ss [OF Cons.prems(1) d1]
  with Cons.IH [of d1] Cons.prems(2,3) d1 kv show ?case by simp
qed simp

lemma setup_succeeds:
  assumes "\<And>nm. h = Some nm \<Longrightarrow> length nm + 1 < MSTRING_MAX"
  shows "\<exists>c. setup_initial_namespace all_ok h = Inr c"
proof -
  let ?last = "case h of None \<Rightarrow> [(''header_guard'', ''_FSM_H''), (''header_name'', ''fsm.h'')]
    | Some nm \<Rightarrow> [(''header_name'', nm), (''header_guard'', header_guard nm)]"
  have new: "new_dict all_ok = Inr empty_dict" by (simp add: new_dict_def new_all_ok)
  have arr: "new_array all_ok = Inr (MArray [] 0)" by (simp add: new_array_def marray_new_def all_ok_def)
  have "\<forall>(k, v) \<in> set default_strings. short k \<and> short v"
    "distinct (keys_of empty_dict @ map (cstr \<circ> fst) default_strings)"
    by (simp_all add: default_strings_def short_def MSTRING_MAX_def)
  with insert_strings_succeeds [of empty_dict default_strings] obtain d1 where
    d1: "insert_strings all_ok default_strings empty_dict = Inr d1" "dict_ok d1"
      "keys_of d1 = map (cstr \<circ> fst) default_strings" by auto
  have "dict_map d1 (cstr ''need_ctx'') = None"
    using dict_map_keys [OF d1(2)] d1(3) by (simp add: default_strings_def)
  with insert_calls(2) [OF d1(2), of "''need_ctx''" 0] obtain d2 where
    d2: "must (mdict_insert_si all_ok d1 ''need_ctx'' 0) = Inr d2" by (auto simp: short_def MSTRING_MAX_def)
  from must_insert_si [OF d1(2) d2] have k2: "dict_ok d2" "keys_of d2 = keys_of d1 @ [''need_ctx'']" by simp_all
  have "\<forall>(k, v) \<in> set ?last. short k \<and> short v" "distinct (keys_of d2 @ map (cstr \<circ> fst) ?last)"
    using assms k2(2) d1(3)
    by (auto simp: default_strings_def short_def header_guard_def MSTRING_MAX_def split: option.splits)
  with insert_strings_succeeds [OF k2(1), of ?last] obtain d3 where "insert_strings all_ok ?last d2 = Inr d3" by blast
  with new arr d1(1) d2 show ?thesis by (simp add: setup_initial_namespace_def)
qed

text \<open>From the start: the whole input is accepted exactly when the machine can follow it.\<close>

lemma input_accepted_iff:
  assumes "\<forall>d \<in> set ds. storable d" and "2 * (length ds + 1) < MARRAY_MAX"
    and "setup_initial_namespace all_ok h = Inr c0"
  shows "(\<exists>c. directives all_ok ds c0 = Inr c) \<longleftrightarrow> mrun ds no_machine \<noteq> None"
proof
  note c0 = setup_ok [OF assms(3)]
  have "\<forall>d \<in> set ds. nul_free d" using assms(1) by (simp add: storable_def)
  then show "\<exists>c. directives all_ok ds c0 = Inr c \<Longrightarrow> mrun ds no_machine \<noteq> None"
    using directives_refine [of all_ok ds c0] c0 by auto
  assume "mrun ds no_machine \<noteq> None"
  then obtain M where "mrun ds (machine_of c0) = Some M" using c0 by auto
  with directives_complete [of c0 ds M] c0 assms(1,2) show "\<exists>c. directives all_ok ds c0 = Inr c"
    by (auto simp: room_def short_states_def no_machine_def)
qed

text \<open>The last check, said of the machine.\<close>

definition machine_connected :: "machine \<Rightarrow> bool" where
  "machine_connected M \<longleftrightarrow>
     (\<forall>s t. m_part M s ''next_states'' t \<noteq> None \<longrightarrow> t \<in> set (m_states M)) \<and>
     (\<forall>s \<in> set (m_states M). s \<in> set (m_initial M) \<or> (\<exists>s'. m_part M s' ''next_states'' s \<noteq> None))"

lemma connected_machine: "cfsm_ok c \<Longrightarrow> connected (cf_states c) \<longleftrightarrow> machine_connected (machine_of c)"
proof -
  assume c: "cfsm_ok c"
  note ok = cfsm_okD [OF c]
  have "dict_map (cf_states c) s \<noteq> None \<longleftrightarrow> s \<in> set (strs (cf_states_array c))" for s
    using dict_map_keys [OF ok(4), of s] ok(9) by auto
  moreover have "initial_in (cf_states c) s \<longleftrightarrow> s \<in> set (strs (cf_initial_states c))" for s
    using c by (simp add: cfsm_ok_def)
  ultimately show ?thesis by (auto simp: connected_def machine_connected_def machine_of_def)
qed

lemma states_below: "cfsm_ok c \<Longrightarrow> length (keys_of (cf_states c)) < 2 ^ 63"
proof -
  assume c: "cfsm_ok c"
  note ok = cfsm_okD [OF c]
  have "array_ok (cf_states_array c)" using ok(6) by (simp add: str_array_def)
  then have "length (strs (cf_states_array c)) < MARRAY_MAX" by (rule array_cases) (auto simp: strs_def)
  then show ?thesis using ok(9) by (simp add: MARRAY_MAX_def)
qed

declare all_ok_apply [simp]

end
