(* ===== verification/CfsmFinal.thy ===== *)
theory CfsmFinal
  imports CfsmAccept
begin

text \<open>
  \<open>finalise_namespace\<close> as a verdict: when no allocation fails and the names stay below the library's
  limits, it accepts exactly the machines with two states, an initial state and an event whose
  states pass the last check. The scalar entries it needs are there from the start.
\<close>

declare all_ok_apply [simp del]

section \<open>The scalar entries\<close>

definition final_keys :: "bytes list" where
  "final_keys = [''min_state_valid'', ''max_state_valid'', ''multiple_start_states'', ''min_event_valid'',
     ''max_event_valid'']"

definition vars_ok :: "mobject \<Rightarrow> bool" where
  "vars_ok d \<longleftrightarrow> dict_ok d \<and> (\<forall>k \<in> set final_keys. dict_map d k = None) \<and>
     (\<exists>s. dict_map d ''state_enum'' = Some (MString s)) \<and> (\<exists>s. dict_map d ''event_enum'' = Some (MString s))"

lemma vars_ok_put:
  assumes "vars_ok d" and "dict_ok d'" and "dict_map d' = (dict_map d)(k \<mapsto> v)" and "k \<notin> set final_keys"
    and "(\<exists>s. v = MString s) \<or> k \<noteq> ''state_enum'' \<and> k \<noteq> ''event_enum''"
  shows "vars_ok d'"
  using assms by (auto simp: vars_ok_def)

lemma set_name_vars:
  assumes "set_fsm_name al k v c = Inr c'" and "vars_ok (cf_vars c)" and "cstr k \<notin> set final_keys"
  shows "vars_ok (cf_vars c')"
proof -
  from assms(1) obtain d where d: "must (mdict_replace_ss al (cf_vars c) k v) = Inr d" "c' = c\<lparr>cf_vars := d\<rparr>"
    by (auto simp: set_fsm_name_def bind_res_eq_Inr)
  have "dict_ok (cf_vars c)" using assms(2) by (simp add: vars_ok_def)
  from must_replace_ss [OF this d(1)] d(2) vars_ok_put [OF assms(2) _ _ assms(3)] show ?thesis by auto
qed

lemma callback_args_vars: "callback_args al as c = Inr (w, c') \<Longrightarrow> vars_ok (cf_vars c) \<Longrightarrow>
   vars_ok (cf_vars c') \<and> event_specified c' = event_specified c"
proof (induction al as c arbitrary: w c' rule: callback_args.induct)
  case (2 al a as c)
  from "2.prems"(1) obtain w1 w2 c1 where
    c1: "(case a of
          Arg_event \<Rightarrow> Inr (CB_ARG_EVENT, c)
        | Arg_new_state \<Rightarrow> Inr (CB_ARG_NEW_STATE, c)
        | Arg_old_state \<Rightarrow> Inr (CB_ARG_OLD_STATE, c)
        | Arg_ctx \<Rightarrow>
            bind_res (must (mdict_replace_si (site 0 al) (cf_vars c) ''need_ctx'' 1)) (\<lambda>d.
              Inr (CB_ARG_CTX, c\<lparr>cf_vars := d\<rparr>))) = Inr (w1, c1)"
    and r: "callback_args (site 1 al) as c1 = Inr (w2, c')"
    by (auto simp: bind_res_eq_Inr map_sum_eq_Inr)
  from c1 have "c1 = c \<or>
      (\<exists>d. must (mdict_replace_si (site 0 al) (cf_vars c) ''need_ctx'' 1) = Inr d \<and> c1 = c\<lparr>cf_vars := d\<rparr>)"
    by (auto simp: bind_res_eq_Inr split: cb_arg.splits)
  then have "vars_ok (cf_vars c1) \<and> event_specified c1 = event_specified c"
  proof
    assume "\<exists>d. must (mdict_replace_si (site 0 al) (cf_vars c) ''need_ctx'' 1) = Inr d \<and> c1 = c\<lparr>cf_vars := d\<rparr>"
    then obtain d where d: "must (mdict_replace_si (site 0 al) (cf_vars c) ''need_ctx'' 1) = Inr d" "c1 = c\<lparr>cf_vars := d\<rparr>"
      by blast
    have "dict_ok (cf_vars c)" using "2.prems"(2) by (simp add: vars_ok_def)
    from must_replace_si [OF this d(1)] vars_ok_put [OF "2.prems"(2), of d "''need_ctx''" "MInt 1"] d(2)
    show ?thesis by (simp add: final_keys_def)
  qed (use "2.prems" in simp)
  with "2.IH" [OF r] show ?case by simp
qed simp

text \<open>What the directives keep: the scalar entries, and whether an event has been named.\<close>

definition ready :: "cfsm \<Rightarrow> bool" where
  "ready c \<longleftrightarrow> vars_ok (cf_vars c) \<and> (event_specified c \<longleftrightarrow> strs (cf_events_array c) \<noteq> [])"

lemma get_or_create_event_ready:
  assumes "cfsm_ok c" and "NUL \<notin> set e" and "get_or_create_event al e c = Inr c'" and "vars_ok (cf_vars c)"
  shows "ready c'"
proof -
  have "add_event e es \<noteq> []" for es by (auto simp: add_event_def)
  with get_or_create_event_refines [OF assms(1-3)] assms(4) show ?thesis by (auto simp: ready_def)
qed

lemma on_state_ready: "on_state f c = Inr c' \<Longrightarrow> ready c' = ready c"
  by (auto dest!: on_state_Inr simp: ready_def)

lemma state_decl_ready: "state_decl al s c = Inr c' \<Longrightarrow> ready c' = ready c"
  by (auto simp: state_decl_def bind_res_eq_Inr ready_def)

lemma initial_state_ready:
  assumes "initial_state_def al c = Inr c'"
  shows "ready c' = ready c"
proof -
  from assms obtain c1 where on: "on_state (mark_initial al) c = Inr c1"
    by (auto simp: initial_state_def_def bind_res_eq_Inr)
  with assms obtain nm' where
    rest: "(case marray_append (site 4 al) (cf_initial_states c1) nm' of
      (arr, r) \<Rightarrow> if r = -1 then Inl Exit_failure else Inr (c1\<lparr>cf_initial_states := arr\<rparr>)) = Inr c'"
    by (auto simp: initial_state_def_def bind_res_eq_Inr split: option.splits)
  obtain arr r where "marray_append (site 4 al) (cf_initial_states c1) nm' = (arr, r)" by fastforce
  with rest have "c' = c1\<lparr>cf_initial_states := arr\<rparr>" by (simp split: if_splits)
  with on_state_ready [OF on] show ?thesis by (simp add: ready_def)
qed

lemma ready_updates [simp]:
  "ready (c\<lparr>cf_states := x, cf_entry_callbacks := l\<rparr>) = ready c" "ready (c\<lparr>cf_states := x, cf_exit_callbacks := l\<rparr>) = ready c"
  "ready (c\<lparr>cf_states := x, cf_entry_preconds := l\<rparr>) = ready c" "ready (c\<lparr>cf_states := x, cf_exit_preconds := l\<rparr>) = ready c"
  "ready (c\<lparr>cf_events := x, cf_event_callbacks := l\<rparr>) = ready c" "ready (c\<lparr>cf_events := x, cf_event_preconds := l\<rparr>) = ready c"
  "ready (c\<lparr>event_precond_args := w\<rparr>) = ready c" "ready (c\<lparr>trans_precond_args := w\<rparr>) = ready c"
  "ready (c\<lparr>event_callback_args := w\<rparr>) = ready c" "ready (c\<lparr>trans_callback_args := w\<rparr>) = ready c"
  "ready (c\<lparr>current_event := e\<rparr>) = ready c" "ready (c\<lparr>current_state := e\<rparr>) = ready c"
  by (simp_all add: ready_def)

lemma action_ready:
  assumes "directive_step al d c = Inr c'" and "is_action d" and "ready c"
  shows "ready c'"
  using assms by (cases d) (auto simp: directive_step_def map_sum_eq_Inr)

lemma callback_args_same: "callback_args al as c = Inr (w, c') \<Longrightarrow> cf_events_array c' = cf_events_array c"
proof (induction al as c arbitrary: w c' rule: callback_args.induct)
  case (2 al a as c)
  then show ?case by (cases a) (auto simp: bind_res_eq_Inr map_sum_eq_Inr)
qed simp

lemma callback_args_ready: "callback_args al as c = Inr (w, c') \<Longrightarrow> ready c \<Longrightarrow> ready c'"
  using callback_args_same [of al as c w c'] callback_args_vars [of al as c w c'] by (simp add: ready_def)

lemma set_name_ready: "set_fsm_name al k v c = Inr c' \<Longrightarrow> ready c \<Longrightarrow> cstr k \<notin> set final_keys \<Longrightarrow> ready c'"
  using set_name_vars [of al k v c c'] by (auto simp: ready_def set_fsm_name_def bind_res_eq_Inr)

lemma name_keys:
  "cstr ''state_enum'' \<notin> set final_keys" "cstr ''event_enum'' \<notin> set final_keys" "cstr ''fsm_struct'' \<notin> set final_keys"
  "cstr ''current_state_func'' \<notin> set final_keys" "cstr ''init_func'' \<notin> set final_keys"
  "cstr ''free_func'' \<notin> set final_keys" "cstr ''advance_func'' \<notin> set final_keys"
  "cstr ''state_ntop_func'' \<notin> set final_keys" "cstr ''event_ntop_func'' \<notin> set final_keys"
  "cstr ''source_banner'' \<notin> set final_keys"
  by (simp_all add: final_keys_def)

lemma setting_ready:
  assumes "directive_step al d c = Inr c'" and "is_setting d" and "ready c"
  shows "ready c'"
  using assms(1,2) set_name_ready [OF _ assms(3)] callback_args_ready [OF _ assms(3)] name_keys
  by (cases d) (auto simp: directive_step_def map_sum_eq_Inr bind_res_eq_Inr dest!: banner_end_Inr)

lemma directive_ready:
  assumes "cfsm_ok c" and "nul_free d" and "directive_step al d c = Inr c'" and "ready c"
  shows "ready c'"
proof (cases "is_action d \<or> is_setting d")
  case True
  with action_ready [OF assms(3)] setting_ready [OF assms(3)] assms(4) show ?thesis by blast
next
  case False
  have v: "vars_ok (cf_vars c)" using assms(4) by (simp add: ready_def)
  show ?thesis
  proof (cases d)
    case (State_decl s)
    with state_decl_ready assms(3,4) show ?thesis by (simp add: directive_step_def)
  next
    case Initial_state
    with initial_state_ready assms(3,4) show ?thesis by (simp add: directive_step_def)
  next
    case (On_event e t)
    with get_or_create_event_ready [OF assms(1) _ _ v, of e] assms(2,3) on_state_ready show ?thesis
      by (fastforce simp: directive_step_def on_event_def_def bind_res_eq_Inr nul_free_def split: if_splits)
  next
    case (Ignore_event e)
    with get_or_create_event_ready [OF assms(1) _ _ v, of e] assms(2,3) on_state_ready show ?thesis
      by (fastforce simp: directive_step_def ignore_event_def_def bind_res_eq_Inr nul_free_def split: if_splits)
  next
    case (Event_decl e)
    have "cfsm_ok (c\<lparr>current_state := None\<rparr>)" using assms(1) by (auto simp: cfsm_ok_def)
    with Event_decl get_or_create_event_ready [of "c\<lparr>current_state := None\<rparr>" e] v assms(2,3) show ?thesis
      by (auto simp: directive_step_def event_decl_def bind_res_eq_Inr nul_free_def)
  qed (use False in simp_all)
qed

lemma directives_ready:
  "directives al ds c = Inr c' \<Longrightarrow> cfsm_ok c \<Longrightarrow> \<forall>d \<in> set ds. nul_free d \<Longrightarrow> ready c \<Longrightarrow> ready c'"
proof (induction al ds c rule: directives.induct)
  case (2 al d ds c)
  then obtain c1 where c1: "directive_step (site 0 al) d c = Inr c1" "directives (site 1 al) ds c1 = Inr c'"
    by (auto simp: bind_res_eq_Inr)
  have d: "nul_free d" using "2.prems"(3) by simp
  from directive_refines [OF "2.prems"(2) d c1(1)] directive_ready [OF "2.prems"(2) d c1(1) "2.prems"(4)]
    "2.IH" [OF c1(2)] "2.prems"(3) show ?case by simp
qed simp

section \<open>Calls on the scalar entries\<close>

lemma insert_s_succeeds:
  assumes "dict_ok d" and "short k" and "dict_map d (cstr k) = None"
  shows "\<exists>d'. must (mdict_insert_s all_ok d k v) = Inr d' \<and> dict_ok d' \<and> dict_map d' = (dict_map d)(cstr k \<mapsto> v)"
proof -
  obtain d' r where r: "mdict_insert all_ok d (MString (cstr k)) v = (d', r)" by fastforce
  from mdict_insert_correct [OF assms(1) this] assms(3) have
    "r = 0" "dict_ok d'" "dict_map d' = (dict_map d)(cstr k \<mapsto> v)" by (auto simp: all_ok_def)
  with r mstring_new_short [OF assms(2)] show ?thesis
    by (simp add: must_def mdict_insert_s_def store_new_def shift_all_ok)
qed

lemma copy_short: "short s \<Longrightarrow> copy_of all_ok (MString s) = Inr (MString s)"
  by (simp add: copy_of_def mstring_new2_def short_def all_ok_def)

lemma str_array_item:
  assumes "str_array a" and "i < length (strs a)"
  shows "marray_item a i = Some (MString (strs a ! i))"
proof -
  have "array_ok a" and s: "\<forall>x \<in> set (elems a). \<exists>s. x = Some (MString s)"
    using assms(1) by (simp_all add: str_array_def)
  then obtain sl n where a: "a = MArray sl n" "clean sl n" by (auto elim: array_cases)
  with assms(2) have i: "i < n" "i < length (elems a)" "elems a ! i = sl ! i" by (auto simp: strs_def clean_def)
  with s obtain t where "sl ! i = Some (MString t)" by (metis nth_mem)
  with a(1) i show ?thesis by (simp add: strs_def)
qed

lemma insert_copy_succeeds:
  assumes "str_array a" and "i < length (strs a)" and "\<forall>s \<in> set (strs a). short s"
    and "dict_ok d" and "short k" and "dict_map d (cstr k) = None"
  shows "\<exists>d'. insert_copy all_ok a i k d = Inr d' \<and> dict_ok d' \<and>
    dict_map d' = (dict_map d)(cstr k \<mapsto> MString (strs a ! i))"
  using insert_s_succeeds [OF assms(4-6), of "MString (strs a ! i)"] copy_short [of "strs a ! i"] assms(2,3)
  by (auto simp: insert_copy_def str_array_item [OF assms(1,2)])

text \<open>The argument lists fit their buffers.\<close>

lemma length_cat: "length dst \<le> len \<Longrightarrow> NUL \<notin> set src \<Longrightarrow> length (cat dst src len) \<le> len"
proof -
  assume d: "length dst \<le> len" and src: "NUL \<notin> set src"
  let ?d = "dst @ replicate (len - length dst) NUL"
  have l: "length ?d = len" using d by simp
  have "length (fst (strlcat ?d src len)) \<le> len"
    using strlcat_correct(4) [OF l src] by simp
  with length_cstr_le [of "fst (strlcat ?d src len)"] show ?thesis unfolding cat_def by linarith
qed

lemma length_commacat: "length dst \<le> len \<Longrightarrow> NUL \<notin> set src \<Longrightarrow> length (commacat dst src len) \<le> len"
  unfolding commacat_def by (intro length_cat) (simp add: length_cat)

lemma short_cb_args: "short (gen_cb_args w)"
proof -
  have "length (gen_cb_args w) \<le> 256" unfolding gen_cb_args_def Let_def by (simp add: length_commacat)
  then show ?thesis by (simp add: short_def MSTRING_MAX_def)
qed

lemma cb_args_proto_succeeds:
  assumes "vars_ok (cf_vars c)"
  shows "\<exists>p. gen_cb_args_proto all_ok c w = Inr p \<and> short p"
proof -
  have sh: "short ''state_enum''" "short ''event_enum''" by simp_all
  have "dict_ok (cf_vars c)" using assms by (simp add: vars_ok_def)
  note it = item_s_short [OF this sh(1)] item_s_short [OF this sh(2)]
  from assms obtain se ee where "dict_map (cf_vars c) ''state_enum'' = Some (MString se)"
    "dict_map (cf_vars c) ''event_enum'' = Some (MString ee)" by (auto simp: vars_ok_def)
  with it have "\<exists>p. gen_cb_args_proto all_ok c w = Inr p \<and> length p \<le> 512"
    by (simp add: gen_cb_args_proto_def Let_def length_commacat length_cat)
  then show ?thesis by (auto simp: short_def MSTRING_MAX_def)
qed

lemma replace_args_succeeds:
  assumes "vars_ok (cf_vars c)" and "dict_ok d" and "short k" and "short k'"
  shows "\<exists>d'. replace_args all_ok c k k' w d = Inr d' \<and> dict_ok d'"
proof -
  from replace_calls(3) [OF assms(2,3) short_cb_args] obtain d1 where
    d1: "must (mdict_replace_ss all_ok d k (gen_cb_args w)) = Inr d1" by blast
  from must_replace_ss [OF assms(2) d1] have "dict_ok d1" by blast
  from cb_args_proto_succeeds [OF assms(1), of w] obtain p where
    p: "gen_cb_args_proto all_ok c w = Inr p" "short p" by blast
  from replace_calls(3) [OF \<open>dict_ok d1\<close> assms(4) p(2)] obtain d2 where
    d2: "must (mdict_replace_ss all_ok d1 k' p) = Inr d2" by blast
  from must_replace_ss [OF \<open>dict_ok d1\<close> d2] d1 p(1) d2 show ?thesis by (simp add: replace_args_def)
qed

section \<open>The verdict\<close>

definition machine_valid :: "machine \<Rightarrow> bool" where
  "machine_valid M \<longleftrightarrow> 2 \<le> length (m_states M) \<and> m_initial M \<noteq> [] \<and> m_events M \<noteq> [] \<and> machine_connected M"

definition names_short :: "machine \<Rightarrow> bool" where
  "names_short M \<longleftrightarrow> (\<forall>s \<in> set (m_states M) \<union> set (m_events M). short s)"

lemma marray_len_strs: "str_array a \<Longrightarrow> marray_len a = length (strs a)"
  unfolding str_array_def by (elim conjE array_cases) (auto simp: strs_def clean_def)

lemma arg_keys_short:
  "short ''event_precond_args''" "short ''event_precond_args_proto''" "short ''trans_precond_args''"
  "short ''trans_precond_args_proto''" "short ''event_cb_args''" "short ''event_cb_args_proto''"
  "short ''trans_cb_args''" "short ''trans_cb_args_proto''"
  by (simp_all add: short_def MSTRING_MAX_def)

lemma final_keys_short:
  "short ''min_state_valid''" "short ''max_state_valid''" "short ''multiple_start_states''" "short ''min_event_valid''"
  "short ''max_event_valid''"
  by (simp_all add: short_def MSTRING_MAX_def)

lemma all_args_succeed:
  assumes "vars_ok (cf_vars c)" and "dict_ok d"
  shows "\<exists>d'. bind_res (replace_args all_ok c ''event_precond_args'' ''event_precond_args_proto'' (event_precond_args c) d) (\<lambda>d.
    bind_res (replace_args all_ok c ''trans_precond_args'' ''trans_precond_args_proto'' (trans_precond_args c) d) (\<lambda>d.
    bind_res (replace_args all_ok c ''event_cb_args'' ''event_cb_args_proto'' (event_callback_args c) d)
      (replace_args all_ok c ''trans_cb_args'' ''trans_cb_args_proto'' (trans_callback_args c)))) = Inr d'"
proof -
  note r = replace_args_succeeds [OF assms(1)]
  from r [OF assms(2) arg_keys_short(1,2)] obtain d1 where
    1: "replace_args all_ok c ''event_precond_args'' ''event_precond_args_proto'' (event_precond_args c) d = Inr d1"
      "dict_ok d1" by blast
  from r [OF 1(2) arg_keys_short(3,4)] obtain d2 where
    2: "replace_args all_ok c ''trans_precond_args'' ''trans_precond_args_proto'' (trans_precond_args c) d1 = Inr d2"
      "dict_ok d2" by blast
  from r [OF 2(2) arg_keys_short(5,6)] obtain d3 where
    3: "replace_args all_ok c ''event_cb_args'' ''event_cb_args_proto'' (event_callback_args c) d2 = Inr d3"
      "dict_ok d3" by blast
  from r [OF 3(2) arg_keys_short(7,8)] obtain d4 where
    4: "replace_args all_ok c ''trans_cb_args'' ''trans_cb_args_proto'' (trans_callback_args c) d3 = Inr d4" by blast
  from 1(1) 2(1) 3(1) 4 show ?thesis by simp
qed

lemma finalise_vars_succeeds:
  assumes "cfsm_ok c" and "ready c" and "names_short (machine_of c)"
    and "2 \<le> length (strs (cf_states_array c))" and "strs (cf_initial_states c) \<noteq> []" and "strs (cf_events_array c) \<noteq> []"
  shows "\<exists>d. finalise_vars all_ok c = Inr d"
proof -
  note ok = cfsm_okD [OF assms(1)]
  have v: "vars_ok (cf_vars c)" using assms(2) by (simp add: ready_def)
  then have vd: "dict_ok (cf_vars c)" and fresh: "\<forall>k \<in> set final_keys. dict_map (cf_vars c) k = None"
    by (simp_all add: vars_ok_def)
  let ?sa = "cf_states_array c" and ?ea = "cf_events_array c"
  have sh: "\<forall>s \<in> set (strs ?sa). short s" "\<forall>s \<in> set (strs ?ea). short s"
    using assms(3) by (simp_all add: names_short_def machine_of_def)
  note k = fresh [unfolded final_keys_def, simplified]
  have i: "0 < length (strs ?sa)" "length (strs ?sa) - 1 < length (strs ?sa)" using assms(4) by auto
  have j: "0 < length (strs ?ea)" "length (strs ?ea) - 1 < length (strs ?ea)" using assms(6) by auto
  from insert_copy_succeeds [OF ok(6) i(1) sh(1) vd final_keys_short(1)] k obtain d1 where
    1: "insert_copy all_ok ?sa 0 ''min_state_valid'' (cf_vars c) = Inr d1" "dict_ok d1"
      "dict_map d1 = (dict_map (cf_vars c))(''min_state_valid'' \<mapsto> MString (strs ?sa ! 0))" by auto
  from insert_copy_succeeds [OF ok(6) i(2) sh(1) 1(2) final_keys_short(2)] k 1(3) obtain d2 where
    2: "insert_copy all_ok ?sa (length (strs ?sa) - 1) ''max_state_valid'' d1 = Inr d2" "dict_ok d2"
      "\<forall>k \<in> {''multiple_start_states'', ''min_event_valid'', ''max_event_valid''}. dict_map d2 k = None" by auto
  from insert_calls(2) [OF 2(2) final_keys_short(3)] 2(3) obtain d3 where
    3: "must (mdict_insert_si all_ok d2 ''multiple_start_states''
      (if 1 < marray_len (cf_initial_states c) then 1 else 0)) = Inr d3" by force
  from must_insert_si [OF 2(2) 3] 2(3) have k3: "dict_ok d3"
    "\<forall>k \<in> {''min_event_valid'', ''max_event_valid''}. dict_map d3 k = None" by auto
  from insert_copy_succeeds [OF ok(7) j(1) sh(2) k3(1) final_keys_short(4)] k3(2) obtain d4 where
    4: "insert_copy all_ok ?ea 0 ''min_event_valid'' d3 = Inr d4" "dict_ok d4" "dict_map d4 ''max_event_valid'' = None"
    by auto
  from insert_copy_succeeds [OF ok(7) j(2) sh(2) 4(2) final_keys_short(5)] 4(3) obtain d5 where
    5: "insert_copy all_ok ?ea (length (strs ?ea) - 1) ''max_event_valid'' d4 = Inr d5" "dict_ok d5" by auto
  from all_args_succeed [OF v 5(2)] obtain d6 where
    6: "bind_res (replace_args all_ok c ''event_precond_args'' ''event_precond_args_proto'' (event_precond_args c) d5) (\<lambda>d.
    bind_res (replace_args all_ok c ''trans_precond_args'' ''trans_precond_args_proto'' (trans_precond_args c) d) (\<lambda>d.
    bind_res (replace_args all_ok c ''event_cb_args'' ''event_cb_args_proto'' (event_callback_args c) d)
      (replace_args all_ok c ''trans_cb_args'' ''trans_cb_args_proto'' (trans_callback_args c)))) = Inr d6" by blast
  have "event_specified c" using assms(2,6) by (simp add: ready_def)
  with 1(1) 2(1) 3 4(1) 5(1) 6 assms(4-6) marray_len_strs [OF ok(6)] marray_len_strs [OF ok(7)] marray_len_strs [OF ok(8)] i(1)
  show ?thesis by (simp add: finalise_vars_def Let_def)
qed

lemma finalise_Inr:
  assumes "finalise_namespace al c = Inr c'"
  shows "2 \<le> marray_len (cf_states_array c) \<and> marray_len (cf_initial_states c) \<noteq> 0 \<and> event_specified c \<and>
    (\<exists>st. count_indegrees (site 1 al) (cf_states c) = Inr st)"
  using assms
  by (auto simp: finalise_namespace_def finalise_vars_def bind_res_eq_Inr Let_def split: if_splits)

lemma finalise_valid:
  assumes "cfsm_ok c" and "ready c" and "finalise_namespace all_ok c = Inr c'"
  shows "machine_valid (machine_of c)"
proof -
  note ok = cfsm_okD [OF assms(1)] and fin = finalise_Inr [OF assms(3)]
  have "connected (cf_states c)"
    using count_indegrees_correct [OF ok(2) states_below [OF assms(1)]] fin by (auto split: if_splits)
  with connected_machine [OF assms(1)] fin assms(2) marray_len_strs [OF ok(6)] marray_len_strs [OF ok(8)]
  show ?thesis by (auto simp: machine_valid_def machine_of_def ready_def)
qed

lemma valid_finalised:
  assumes "cfsm_ok c" and "ready c" and "names_short (machine_of c)" and "machine_valid (machine_of c)"
  shows "\<exists>c'. finalise_namespace all_ok c = Inr c'"
proof -
  note ok = cfsm_okD [OF assms(1)]
  from assms(4) have "2 \<le> length (strs (cf_states_array c))" "strs (cf_initial_states c) \<noteq> []"
    "strs (cf_events_array c) \<noteq> []" by (simp_all add: machine_valid_def machine_of_def)
  from finalise_vars_succeeds [OF assms(1-3) this] obtain d where "finalise_vars all_ok c = Inr d" by blast
  moreover have "connected (cf_states c)" using assms(4) connected_machine [OF assms(1)] by (simp add: machine_valid_def)
  ultimately show ?thesis
    using count_indegrees_correct [OF ok(2) states_below [OF assms(1)]] by (auto simp: finalise_namespace_def)
qed

section \<open>The start is ready\<close>

lemma insert_strings_map:
  "insert_strings al kvs d = Inr d' \<Longrightarrow> dict_ok d \<Longrightarrow> dict_ok d' \<and>
   (\<forall>k. k \<notin> cstr ` fst ` set kvs \<longrightarrow> dict_map d' k = dict_map d k) \<and>
   (\<forall>(k, v) \<in> set kvs. \<exists>s. dict_map d' (cstr k) = Some (MString s)) \<and>
   (\<forall>k s. dict_map d k = Some s \<longrightarrow> dict_map d' k = Some s)"
proof (induction al kvs d rule: insert_strings.induct)
  case (2 al k v kvs d)
  then obtain d1 where d1: "must (mdict_insert_ss (site 0 al) d k v) = Inr d1" "insert_strings (site 1 al) kvs d1 = Inr d'"
    by (auto simp: bind_res_eq_Inr)
  note m = must_insert_ss [OF "2.prems"(2) d1(1)]
  note ih = "2.IH" [OF d1(2) conjunct1 [OF m]]
  from m have k: "dict_map d1 (cstr k) = Some (MString (cstr v))" "\<And>x s. dict_map d x = Some s \<Longrightarrow> dict_map d1 x = Some s"
    "\<And>x. x \<noteq> cstr k \<Longrightarrow> dict_map d1 x = dict_map d x" by auto
  show ?case using ih k by auto
qed simp

lemma setup_ready:
  assumes "setup_initial_namespace al h = Inr c"
  shows "ready c"
proof -
  from assms obtain d0 d1 d2 d3 a where
    d: "new_dict (site 0 al) = Inr d0" "insert_strings (site 1 al) default_strings d0 = Inr d1"
      "must (mdict_insert_si (site 2 al) d1 ''need_ctx'' 0) = Inr d2"
      "insert_strings (site 3 al)
         (case h of
            None \<Rightarrow> [(''header_guard'', ''_FSM_H''), (''header_name'', ''fsm.h'')]
          | Some nm \<Rightarrow> [(''header_name'', nm), (''header_guard'', header_guard nm)]) d2 = Inr d3"
    and a: "new_array (site 4 al) = Inr a" and c: "cf_vars c = d3" "cf_events_array c = a" "\<not> event_specified c"
    by (auto simp: setup_initial_namespace_def bind_res_eq_Inr)
  from new_dict_Inr [OF d(1)] have "dict_ok d0" "dict_map d0 = Map.empty" by simp_all
  note m1 = insert_strings_map [OF d(2) this(1)]
  note m2 = must_insert_si [OF conjunct1 [OF m1] d(3)]
  note m3 = insert_strings_map [OF d(4) conjunct1 [OF m2]]
  have se: "\<exists>s. dict_map d1 k = Some (MString s)" if "k \<in> {''state_enum'', ''event_enum''}" for k
    using that m1 by (auto simp: default_strings_def)
  have "\<exists>s. dict_map d3 k = Some (MString s)" if "k \<in> {''state_enum'', ''event_enum''}" for k
  proof -
    from se [OF that] obtain s where "dict_map d1 k = Some (MString s)" by blast
    then have "dict_map d2 k = Some (MString s)" using m2 that by auto
    with m3 show ?thesis by blast
  qed
  moreover have "dict_map d3 k = None" if "k \<in> set final_keys" for k
  proof -
    have "k \<notin> cstr ` fst ` set default_strings"
      using that by (auto simp: final_keys_def default_strings_def)
    then have "dict_map d1 k = None" using m1 \<open>dict_map d0 = Map.empty\<close> by simp
    then have n2: "dict_map d2 k = None" using m2 that by (auto simp: final_keys_def)
    have "k \<notin> cstr ` fst ` set (case h of
        None \<Rightarrow> [(''header_guard'', ''_FSM_H''), (''header_name'', ''fsm.h'')]
      | Some nm \<Rightarrow> [(''header_name'', nm), (''header_guard'', header_guard nm)])"
      using that by (cases h) (auto simp: final_keys_def)
    from conjunct1 [OF conjunct2 [OF m3], rule_format, OF this] n2 show ?thesis by simp
  qed
  ultimately show ?thesis using c m3 new_array_Inr [OF a] by (simp add: ready_def vars_ok_def)
qed

lemma mrun_names_short:
  "mrun ds M = Some M' \<Longrightarrow> \<forall>d \<in> set ds. storable d \<Longrightarrow> names_short M \<Longrightarrow> names_short M'"
proof (induction ds arbitrary: M)
  case (Cons d ds)
  then obtain M1 where M1: "mstep d M = Some M1" "mrun ds M1 = Some M'" by (auto simp: bind_eq_Some_conv)
  have "names_short M1"
    using M1(1) Cons.prems(2,3)
    by (cases d) (auto simp: mstep_def names_short_def storable_def state_action_def event_action_def
      bind_eq_Some_conv add_event_def split: if_splits)
  with Cons.IH [OF M1(2)] Cons.prems(2) show ?case by simp
qed simp

declare all_ok_apply [simp]

end
