(* ===== verification/Cfsm.thy ===== *)
theory Cfsm
  imports CfsmFinal FdUtils
begin

text \<open>
  The state machine compiler as a program, \<open>libs/cfsm_lib/cfsm/cfsm.c\<close>: its options, the files it
  writes, and the run from the input to the rendered templates.

  The options are what \<open>getopt\<close> returns, each with its argument. The parser yacc generates is the
  parameter \<open>parse\<close>, from the bytes of the input to the directives it derives, or None when
  \<open>yyparse\<close> fails; the files that can be read are the parameter \<open>opened\<close>, from a path to the
  results of the \<open>read\<close> calls on it, the end of the file being a read of no bytes. What is written
  is a map from paths to texts, with standard output under \<open>-\<close>. Every error ends the program with
  status 1 (\<open>Exit_failure\<close>); a file that was opened for the output then stays behind, truncated.

  Lemmas: which files are written, that only machines that pass all checks are rendered, and the
  two inputs that go wrong.
\<close>

section \<open>Options\<close>

record cfsm_opts =
  output_src :: bool
  output_header :: bool
  output_dot :: bool
  manual_arg :: "string option"
  out_arg :: "string option"
  template_dir :: string

definition default_opts :: "string \<Rightarrow> cfsm_opts" where
  "default_opts dir =
     \<lparr>output_src = True, output_header = False, output_dot = False, manual_arg = None, out_arg = None,
      template_dir = dir\<rparr>"

text \<open>The loop over \<open>getopt\<close>; a Left is the status the program exits with.\<close>

fun parse_opts :: "(char \<times> string) list \<Rightarrow> cfsm_opts \<Rightarrow> int + cfsm_opts" where
  "parse_opts [] opts = Inr opts"
| "parse_opts ((ch, arg) # rest) opts =
     (if ch = CHR ''h'' then Inl 0
      else if ch = CHR ''D'' then parse_opts rest (opts\<lparr>output_src := False, output_header := True\<rparr>)
      else if ch = CHR ''d'' then parse_opts rest (opts\<lparr>output_header := True\<rparr>)
      else if ch = CHR ''g'' then parse_opts rest (opts\<lparr>output_src := False, output_dot := True\<rparr>)
      else if ch = CHR ''m'' then parse_opts rest (opts\<lparr>output_src := False, manual_arg := Some arg\<rparr>)
      else if ch = CHR ''o'' then parse_opts rest (opts\<lparr>out_arg := Some arg\<rparr>)
      else if ch = CHR ''t'' then parse_opts rest (opts\<lparr>template_dir := arg\<rparr>)
      else Inl 1)"

definition check_opts :: "cfsm_opts \<Rightarrow> nat \<Rightarrow> bool" where
  "check_opts opts nargs \<longleftrightarrow>
     nargs = 1 \<and>
     of_bool (output_dot opts) + of_bool (output_header opts) + of_bool (manual_arg opts \<noteq> None) \<le> (1 :: nat) \<and>
     \<not> (manual_arg opts \<noteq> None \<and> out_arg opts = None) \<and>
     \<not> (output_src opts \<and> output_header opts \<and> out_arg opts = Some ''-'')"

definition ends_in_c :: "string \<Rightarrow> bool" where
  "ends_in_c p \<longleftrightarrow> 2 \<le> length p \<and> drop (length p - 2) p = ''.c''"

definition synth_header_name :: "cfsm_opts \<Rightarrow> string option" where
  "synth_header_name opts =
     (case out_arg opts of
        Some p \<Rightarrow> if output_src opts \<and> ends_in_c p then Some (p[length p - 1 := CHR ''h'']) else None
      | None \<Rightarrow> None)"

section \<open>Rendering a template\<close>

definition template_path :: "string \<Rightarrow> string \<Rightarrow> string res" where
  "template_path dir nm =
     (let slash = dir \<noteq> '''' \<and> last dir \<noteq> CHR ''/'';
          d = (if slash then dir @ ''/'' else dir)
      in if 8192 \<le> length dir \<or> slash \<and> 8192 \<le> length dir + 2 \<or> 8192 \<le> length d + length nm
         then Inl Exit_failure
         else Inr (d @ nm))"

text \<open>The reading loop: the buffer is NULL until something has been read.\<close>

fun read_loop :: "alloc \<Rightarrow> bytes event list \<Rightarrow> bytes option \<Rightarrow> bytes option res" where
  "read_loop al [] tmpl = Inr tmpl"
| "read_loop al (Err e # evs) tmpl =
     (if e = EINTR \<or> e = EAGAIN then read_loop al evs tmpl else Inl Exit_failure)"
| "read_loop al (Ev d # evs) tmpl =
     (if d = [] then Inr tmpl
      else if \<not> al 0 then Inl Exit_failure
      else read_loop (site 1 al) evs (Some ((case tmpl of None \<Rightarrow> [] | Some t \<Rightarrow> t) @ d)))"

definition read_template ::
  "alloc \<Rightarrow> (string \<Rightarrow> bytes event list option) \<Rightarrow> string \<Rightarrow> string \<Rightarrow> tnode list res" where
  "read_template al opened dir nm =
     bind_res (template_path dir nm) (\<lambda>path.
       case opened path of
         None \<Rightarrow> Inl Exit_failure
       | Some evs \<Rightarrow>
           bind_res (read_loop (site 0 al) evs None) (\<lambda>txt.
             case txt of
               None \<Rightarrow> Inl Null_deref
             | Some t \<Rightarrow>
                 bind_res (mtemplate_parse (site 1 al) (cstr t)) (\<lambda>r.
                   case r of Inl e \<Rightarrow> Inl Exit_failure | Inr tmpl \<Rightarrow> Inr tmpl)))"

text \<open>
  The environment of a run: the template files, the outputs that can be opened and how the object
  library prints an address.
\<close>

record cfsm_env =
  opened :: "string \<Rightarrow> bytes event list option"
  writable :: "string \<Rightarrow> bool"
  print_obj :: "mobject \<Rightarrow> string"

definition render_template ::
  "alloc \<Rightarrow> cfsm_env \<Rightarrow> mobject \<Rightarrow> string \<Rightarrow> string \<Rightarrow> string \<Rightarrow> (string \<rightharpoonup> string) \<Rightarrow> (string \<rightharpoonup> string) res" where
  "render_template al env ns dir nm out w =
     bind_res (read_template (site 0 al) (opened env) dir nm) (\<lambda>tmpl.
       if out \<noteq> ''-'' \<and> \<not> writable env out then Inl Exit_failure
       else
         bind_res (mtemplate_run_stdio (site 1 al) (print_obj env) tmpl (Some ns)
             (if out = ''-'' then (case w out of None \<Rightarrow> '''' | Some t \<Rightarrow> t) else '''', [])) (\<lambda>((txt', _), r).
           if r \<noteq> None then Inl Exit_failure else Inr (w(out \<mapsto> txt'))))"

section \<open>The program\<close>

definition out_path :: "cfsm_opts \<Rightarrow> string \<Rightarrow> string" where
  "out_path opts dflt = (case out_arg opts of None \<Rightarrow> dflt | Some p \<Rightarrow> p)"

text \<open>The templates that are rendered, in order: directory, template and output.\<close>

definition renderings :: "cfsm_opts \<Rightarrow> (string \<times> string \<times> string) list" where
  "renderings opts =
     (if output_dot opts then [(template_dir opts, ''graphviz.m'', out_path opts ''fsm.dot'')] else []) @
     (if output_src opts then [(template_dir opts, ''source.m'', out_path opts ''fsm.c'')] else []) @
     (if output_header opts
      then [(template_dir opts, ''header.m'',
             case synth_header_name opts of Some h \<Rightarrow> h | None \<Rightarrow> out_path opts ''fsm.h'')] else []) @
     (case manual_arg opts of None \<Rightarrow> [] | Some m \<Rightarrow> [('''', m, out_path opts '''')])"

fun render_all ::
  "alloc \<Rightarrow> cfsm_env \<Rightarrow> mobject \<Rightarrow> (string \<times> string \<times> string) list \<Rightarrow> (string \<rightharpoonup> string) \<Rightarrow>
     (string \<rightharpoonup> string) res" where
  "render_all al env ns [] w = Inr w"
| "render_all al env ns ((dir, nm, out) # rs) w =
     bind_res (render_template (site 0 al) env ns dir nm out w) (render_all (site 1 al) env ns rs)"

definition compile_input :: "alloc \<Rightarrow> (bytes \<Rightarrow> fsm_directive list option) \<Rightarrow> bytes option \<Rightarrow> string option \<Rightarrow> cfsm res" where
  "compile_input al parse input header_name =
     bind_res (setup_initial_namespace (site 0 al) header_name) (\<lambda>c0.
       case Option.bind input parse of
         None \<Rightarrow> Inl Exit_failure
       | Some ds \<Rightarrow> bind_res (directives (site 1 al) ds c0) (finalise_namespace (site 2 al)))"

text \<open>\<open>main\<close>: the status of a run that renders nothing, or what it writes.\<close>

definition cfsm_main ::
  "alloc \<Rightarrow> cfsm_env \<Rightarrow> (bytes \<Rightarrow> fsm_directive list option) \<Rightarrow> string \<Rightarrow> (char \<times> string) list \<Rightarrow> nat \<Rightarrow>
     bytes option \<Rightarrow> (int + (string \<rightharpoonup> string)) res" where
  "cfsm_main al env parse dir args nargs input =
     (case parse_opts args (default_opts dir) of
        Inl status \<Rightarrow> Inr (Inl status)
      | Inr opts \<Rightarrow>
          if \<not> check_opts opts nargs then Inr (Inl 1)
          else if synth_header_name opts \<noteq> None \<and> \<not> al 0 then Inl Exit_failure
          else
            bind_res (compile_input (site 1 al) parse input (synth_header_name opts)) (\<lambda>c.
            bind_res (render_all (site 2 al) env (fsm_namespace c) (renderings opts) Map.empty) (\<lambda>w.
              Inr (Inr w))))"

section \<open>What is written\<close>

lemma render_template_Inr:
  assumes "render_template al env ns dir nm out w = Inr w'"
  shows "\<exists>t. w' = w(out \<mapsto> t) \<and> (out \<noteq> ''-'' \<longrightarrow> (\<forall>v. render_template al env ns dir nm out v = Inr (v(out \<mapsto> t))))"
  using assms
  by (auto simp: render_template_def bind_res_eq_Inr split: if_splits)

lemma render_all_dom:
  "render_all al env ns rs w = Inr w' \<Longrightarrow> dom w' = dom w \<union> set (map (snd \<circ> snd) rs)"
proof (induction al env ns rs w rule: render_all.induct)
  case (2 al env ns dir nm out rs w)
  then obtain w1 where w1: "render_template (site 0 al) env ns dir nm out w = Inr w1"
    "render_all (site 1 al) env ns rs w1 = Inr w'" by (auto simp: bind_res_eq_Inr)
  from render_template_Inr [OF w1(1)] obtain t where t: "w1 = w(out \<mapsto> t)" by blast
  have "dom w1 = insert out (dom w)" unfolding t by (simp only: dom_fun_upd) simp
  with "2.IH" [OF w1(2)] show ?case by simp
qed simp

text \<open>No option turns the source on again.\<close>

definition src_alone :: "cfsm_opts \<Rightarrow> bool" where
  "src_alone opts \<longleftrightarrow> (output_src opts \<longrightarrow> \<not> output_dot opts \<and> manual_arg opts = None)"

lemma src_alone_simps:
  "src_alone (opts\<lparr>output_src := False\<rparr>)" "src_alone (opts\<lparr>output_src := False, output_dot := True\<rparr>)"
  "src_alone (opts\<lparr>output_src := False, manual_arg := Some m\<rparr>)"
  "src_alone (opts\<lparr>output_header := True\<rparr>) = src_alone opts" "src_alone (opts\<lparr>out_arg := Some m\<rparr>) = src_alone opts"
  "src_alone (opts\<lparr>template_dir := m\<rparr>) = src_alone opts"
  by (simp_all add: src_alone_def)

lemma option_chain:
  "(if h then Inl 0 else if D then x1 else if d then x2 else if g then x3 else if m then x4
    else if w then x5 else if t then x6 else Inl 1) = Inr y \<Longrightarrow> D \<or> d \<or> g \<or> m \<or> w \<or> t"
  by (auto split: if_split_asm)

lemma parse_opts_modes: "parse_opts args opts = Inr opts' \<Longrightarrow> src_alone opts \<Longrightarrow> src_alone opts'"
proof (induction args opts rule: parse_opts.induct)
  case (2 ch arg rest opts)
  consider "ch = CHR ''D''" | "ch = CHR ''d''" | "ch = CHR ''g''" | "ch = CHR ''m''" | "ch = CHR ''o''" | "ch = CHR ''t''"
    using option_chain [OF "2.prems"(1) [unfolded parse_opts.simps]] by blast
  then show ?case
  proof cases
    case 1 then show ?thesis using "2.prems" "2.IH"(1) by (simp add: src_alone_simps)
  next
    case 2 then show ?thesis using "2.prems" "2.IH"(2) by (simp add: src_alone_simps)
  next
    case 3 then show ?thesis using "2.prems" "2.IH"(3) by (simp add: src_alone_simps)
  next
    case 4 then show ?thesis using "2.prems" "2.IH"(4) by (simp add: src_alone_simps)
  next
    case 5 then show ?thesis using "2.prems" "2.IH"(5) by (simp add: src_alone_simps)
  next
    case 6 then show ?thesis using "2.prems" "2.IH"(6) by (simp add: src_alone_simps)
  qed
qed simp

lemma cfsm_main_Inr:
  assumes "cfsm_main al env parse dir args nargs input = Inr (Inr w)"
  shows "\<exists>opts c. parse_opts args (default_opts dir) = Inr opts \<and> check_opts opts nargs \<and>
    compile_input (site 1 al) parse input (synth_header_name opts) = Inr c \<and>
    render_all (site 2 al) env (fsm_namespace c) (renderings opts) Map.empty = Inr w"
  using assms by (auto simp: cfsm_main_def bind_res_eq_Inr split: sum.splits if_splits)

lemma main_modes:
  assumes "parse_opts args (default_opts dir) = Inr opts" and "output_src opts"
  shows "\<not> output_dot opts" and "manual_arg opts = None"
  using parse_opts_modes [OF assms(1)] assms(2) by (simp_all add: default_opts_def src_alone_def)

text \<open>With an output path, source and header go to two files if the path ends in \<open>.c\<close>.\<close>

lemma synth_differs: "synth_header_name opts = Some h \<Longrightarrow> out_arg opts = Some p \<Longrightarrow> h \<noteq> p"
proof -
  assume a: "synth_header_name opts = Some h" "out_arg opts = Some p"
  then have h: "h = p[length p - 1 := CHR ''h'']" and c: "ends_in_c p"
    by (auto simp: synth_header_name_def split: if_splits)
  then obtain q where p: "p = q @ ''.c''" by (metis append_take_drop_id ends_in_c_def)
  then show "h \<noteq> p" unfolding h by (simp add: list_update_append)
qed

lemma header_beside_source:
  assumes "parse_opts args (default_opts dir) = Inr opts" and "output_src opts" and "output_header opts"
    and "out_arg opts = Some p"
  shows "renderings opts =
    [(template_dir opts, ''source.m'', p),
     (template_dir opts, ''header.m'', if ends_in_c p then p[length p - 1 := CHR ''h''] else p)]"
  using main_modes [OF assms(1,2)] assms(2-4)
  by (simp add: renderings_def out_path_def synth_header_name_def)

lemma main_two_files:
  assumes "cfsm_main al env parse dir args nargs input = Inr (Inr w)"
    and "parse_opts args (default_opts dir) = Inr opts" and "output_src opts" and "output_header opts"
    and "out_arg opts = Some p"
  shows "dom w = (if ends_in_c p then {p, p[length p - 1 := CHR ''h'']} else {p})"
proof -
  from cfsm_main_Inr [OF assms(1)] assms(2) obtain c where
    "render_all (site 2 al) env (fsm_namespace c) (renderings opts) Map.empty = Inr w" by auto
  from render_all_dom [OF this] header_beside_source [OF assms(2-5)] show ?thesis by simp
qed

text \<open>Otherwise the header replaces the source: what is left is the header's rendering.\<close>

lemma main_header_wins:
  assumes "cfsm_main al env parse dir args nargs input = Inr (Inr w)"
    and "parse_opts args (default_opts dir) = Inr opts" and "output_src opts" and "output_header opts"
    and "out_arg opts = Some p" and "\<not> ends_in_c p"
  shows "\<exists>c t al'. w = [p \<mapsto> t] \<and>
    render_template al' env (fsm_namespace c) (template_dir opts) ''header.m'' p Map.empty = Inr [p \<mapsto> t]"
proof -
  from cfsm_main_Inr [OF assms(1)] assms(2) obtain c where k: "check_opts opts nargs" and
    r: "render_all (site 2 al) env (fsm_namespace c) (renderings opts) Map.empty = Inr w" by auto
  from k assms(3-5) have p: "p \<noteq> ''-''" by (auto simp: check_opts_def)
  from r header_beside_source [OF assms(2-5)] assms(6) obtain w1 where
    w1: "render_template (site 0 (site 2 al)) env (fsm_namespace c) (template_dir opts) ''source.m'' p Map.empty = Inr w1"
    "render_template (site 0 (site 1 (site 2 al))) env (fsm_namespace c) (template_dir opts) ''header.m'' p w1 = Inr w"
    by (auto simp: bind_res_eq_Inr)
  from render_template_Inr [OF w1(1)] render_template_Inr [OF w1(2)] p obtain s t where
    "w1 = [p \<mapsto> s]" "w = w1(p \<mapsto> t)"
    "render_template (site 0 (site 1 (site 2 al))) env (fsm_namespace c) (template_dir opts) ''header.m'' p Map.empty
      = Inr [p \<mapsto> t]" by blast
  then show ?thesis by auto
qed

section \<open>Only machines that pass the checks are rendered\<close>

lemma compile_valid:
  assumes "compile_input all_ok parse input h = Inr c'" and "\<And>bs ds. parse bs = Some ds \<Longrightarrow> \<forall>d \<in> set ds. nul_free d"
  shows "\<exists>bs ds M. input = Some bs \<and> parse bs = Some ds \<and> mrun ds no_machine = Some M \<and> machine_valid M"
proof -
  from assms(1) obtain c0 bs ds c where i: "input = Some bs" "parse bs = Some ds" and
    c0: "setup_initial_namespace all_ok h = Inr c0" and c: "directives all_ok ds c0 = Inr c" and
    f: "finalise_namespace all_ok c = Inr c'"
    by (auto simp: compile_input_def bind_res_eq_Inr bind_eq_Some_conv split: option.splits)
  from directives_refine [OF c] setup_ok [OF c0] assms(2) [OF i(2)] have
    r: "cfsm_ok c" "mrun ds no_machine = Some (machine_of c)" by auto
  have "ready c" using directives_ready [OF c] setup_ok [OF c0] setup_ready [OF c0] assms(2) [OF i(2)] by blast
  from finalise_valid [OF r(1) this f] i r(2) show ?thesis by blast
qed

lemma valid_compiles:
  assumes "parse bs = Some ds" and "\<forall>d \<in> set ds. storable d" and "2 * (length ds + 1) < MARRAY_MAX"
    and "\<And>nm. h = Some nm \<Longrightarrow> length nm + 1 < MSTRING_MAX"
    and "mrun ds no_machine = Some M" and "machine_valid M"
  shows "\<exists>c. compile_input all_ok parse (Some bs) h = Inr c"
proof -
  from setup_succeeds [OF assms(4)] obtain c0 where c0: "setup_initial_namespace all_ok h = Inr c0" by blast
  from input_accepted_iff [OF assms(2,3) c0] assms(5) obtain c where c: "directives all_ok ds c0 = Inr c" by auto
  have "\<forall>d \<in> set ds. nul_free d" using assms(2) by (simp add: storable_def)
  from directives_refine [OF c _ this] directives_ready [OF c _ this] setup_ok [OF c0] setup_ready [OF c0] assms(5)
  have r: "cfsm_ok c" "machine_of c = M" "ready c" by auto
  have "names_short M"
    by (rule mrun_names_short [OF assms(5,2)]) (simp add: names_short_def no_machine_def)
  with valid_finalised [OF r(1,3)] r(2) assms(6) c0 c assms(1) show ?thesis by (simp add: compile_input_def)
qed

lemma main_only_checked:
  assumes "cfsm_main all_ok env parse dir args nargs input = Inr (Inr w)"
    and "\<And>bs ds. parse bs = Some ds \<Longrightarrow> \<forall>d \<in> set ds. nul_free d"
  shows "\<exists>bs ds M. input = Some bs \<and> parse bs = Some ds \<and> mrun ds no_machine = Some M \<and> machine_valid M"
proof -
  from cfsm_main_Inr [OF assms(1)] obtain h c' where "compile_input all_ok parse input h = Inr c'" by auto
  from compile_valid [OF this assms(2)] show ?thesis .
qed

section \<open>Reading a template\<close>

lemma read_loop_correct:
  assumes "\<forall>d \<in> set ds. d \<noteq> []"
  shows "read_loop all_ok (map Ev ds @ [Ev []]) tmpl =
    Inr (if ds = [] then tmpl else Some ((case tmpl of None \<Rightarrow> [] | Some t \<Rightarrow> t) @ concat ds))"
  using assms by (induction ds arbitrary: tmpl) (auto simp del: all_ok_apply simp: all_ok_apply)

lemma empty_template_crashes:
  assumes "template_path dir nm = Inr path" and "opened env path = Some [Ev []]"
  shows "render_template al env ns dir nm out w = Inl Null_deref"
  using assms by (simp add: render_template_def read_template_def)

end
