(* ===== verification/Mtc.thy ===== *)
theory Mtc
  imports Cfsm TemplateSpec
begin

text \<open>
  The command line processor of templates, \<open>libs/cfsm_lib/mtemplate/mtc.c\<close>: definitions
  \<open>key=value\<close> from its options, a template from a file or from standard input, the result to a
  file or to standard output.

  The environment and the reading loop are those of \<open>Cfsm\<close>; standard input is the file \<open>-\<close>.

  Lemmas: after the options the namespace maps every key to its last definition, and a template
  over these keys writes what it means by them.
\<close>

declare all_ok_apply [simp del]

section \<open>The program\<close>

definition mtc_define :: "alloc \<Rightarrow> mobject \<Rightarrow> string \<Rightarrow> mobject res" where
  "mtc_define al namespace kv =
     (case split_at CHR ''='' kv of
        None \<Rightarrow> Inl Exit_failure
      | Some (k, v) \<Rightarrow>
          if k = [] \<or> v = [] then Inl Exit_failure
          else if 256 \<le> length k then Inl Exit_failure
          else
            (case mstring_new (site 0 al) v of
               None \<Rightarrow> Inl Exit_failure
             | Some x \<Rightarrow>
                 bind_res (mnamespace_set (site 1 al) namespace k x) (\<lambda>(r, namespace').
                   if r \<noteq> None then Inl Exit_failure else Inr namespace')))"

text \<open>The loop over \<open>getopt\<close>, with the namespace and \<open>out_path\<close>; a Left is the exit status.\<close>

fun mtc_opts :: "alloc \<Rightarrow> (char \<times> string) list \<Rightarrow> mobject \<Rightarrow> string \<Rightarrow> (int + mobject \<times> string) res" where
  "mtc_opts al [] namespace out = Inr (Inr (namespace, out))"
| "mtc_opts al ((ch, arg) # args) namespace out =
     (if ch = CHR ''h'' then Inr (Inl 0)
      else if ch = CHR ''D''
      then bind_res (mtc_define (site 0 al) namespace arg) (\<lambda>namespace'. mtc_opts (site 1 al) args namespace' out)
      else if ch = CHR ''o'' then mtc_opts (site 1 al) args namespace arg
      else Inr (Inl 1))"

definition mtc_main :: "alloc \<Rightarrow> cfsm_env \<Rightarrow> (char \<times> string) list \<Rightarrow> string list \<Rightarrow> (int + (string \<rightharpoonup> string)) res" where
  "mtc_main al env args files =
     (case mdict_new (site 0 al) of
        None \<Rightarrow> Inl Exit_failure
      | Some ns0 \<Rightarrow>
          bind_res (mtc_opts (site 1 al) args ns0 ''-'') (\<lambda>r.
            case (r, files) of
              (Inl status, _) \<Rightarrow> Inr (Inl status)
            | (Inr (namespace, out), [file]) \<Rightarrow>
                (case opened env file of
                   None \<Rightarrow> Inl Exit_failure
                 | Some evs \<Rightarrow>
                     bind_res (read_loop (site 2 al) evs None) (\<lambda>txt.
                       case txt of
                         None \<Rightarrow> Inl Null_deref
                       | Some t \<Rightarrow>
                           bind_res (mtemplate_parse (site 3 al) (cstr t)) (\<lambda>p.
                             case p of
                               Inl e \<Rightarrow> Inl Exit_failure
                             | Inr tmpl \<Rightarrow>
                                 if out \<noteq> ''-'' \<and> \<not> writable env out then Inl Exit_failure
                                 else
                                   bind_res (mtemplate_run_stdio (site 4 al) (print_obj env) tmpl (Some namespace) ('''', []))
                                     (\<lambda>((written, _), e).
                                       if e \<noteq> None then Inl Exit_failure else Inr (Inr [out \<mapsto> written])))))
            | _ \<Rightarrow> Inr (Inl 1)))"

section \<open>What the definitions mean\<close>

text \<open>A key that is one name of a path.\<close>

definition simple_key :: "string \<Rightarrow> bool" where
  "simple_key k \<longleftrightarrow> k \<noteq> [] \<and> length k < 256 \<and> set k \<inter> {CHR ''='', CHR ''.'', CHR ''['', NUL} = {}"

definition value_ok :: "string \<Rightarrow> bool" where
  "value_ok v \<longleftrightarrow> v \<noteq> [] \<and> NUL \<notin> set v \<and> length v < MSTRING_MAX"

definition define_arg :: "string \<times> string \<Rightarrow> char \<times> string" where
  "define_arg kv = (CHR ''D'', fst kv @ CHR ''='' # snd kv)"

text \<open>The namespace holds the strings of a map from keys to values.\<close>

definition holds :: "mobject \<Rightarrow> (string \<rightharpoonup> string) \<Rightarrow> bool" where
  "holds ns m \<longleftrightarrow> dict_ok ns \<and> (\<forall>k. dict_map ns k = map_option MString (m k))"

lemma simple_key_name:
  assumes "simple_key k"
  shows "strstcpy k MNAMESPACE_MAX_ID_LENGTH ''.['' = (k @ [NUL], length k)" and "cstr k = k"
proof -
  have "upto_stop k ''.['' = k" using assms by (auto simp: upto_stop_def simple_key_def takeWhile_eq_all_conv)
  then show "strstcpy k MNAMESPACE_MAX_ID_LENGTH ''.['' = (k @ [NUL], length k)"
    using assms by (simp add: strstcpy_correct simple_key_def MNAMESPACE_MAX_ID_LENGTH_def)
  show "cstr k = k" using assms by (intro cstr_id) (auto simp: simple_key_def)
qed

lemma define_refines:
  assumes "holds ns m" and "simple_key k" and "value_ok v"
  shows "\<exists>ns'. mtc_define all_ok ns (k @ CHR ''='' # v) = Inr ns' \<and> holds ns' (m(k \<mapsto> v))"
proof -
  note n = simple_key_name [OF assms(2)]
  have k: "k \<noteq> []" "length k < 256" "CHR ''='' \<notin> set k" using assms(2) by (auto simp: simple_key_def)
  have v: "v \<noteq> []" "mstring_new all_ok v = Some (MString v)"
    using assms(3) by (auto simp: value_ok_def mstring_new_ok cstr_id all_ok_apply)
  have d: "dict_ok ns" "mobject_type ns = TYPE_MDICT" using assms(1) dict_ok_type by (auto simp: holds_def)
  obtain ns' r where r: "mdict_replace_s (\<lambda>j. True) ns k (MString v) = (ns', r)" by fastforce
  have R: "r \<noteq> None \<and> dict_ok ns' \<and> dict_map ns' = (dict_map ns)(k \<mapsto> MString v)"
    using mdict_replace_s_ok [OF _ _ d(1) r] n(2) k(2) by (simp add: MSTRING_MAX_def all_ok_apply)
  then have "mnamespace_set all_ok ns k (MString v) = Inr (None, ns')"
    using d(2) k n r by (auto simp: mnamespace_set_def set_name.simps MNAMESPACE_MAX_ID_LENGTH_def cstr_snoc_NUL Let_def all_ok_apply)
  moreover have "holds ns' (m(k \<mapsto> v))" using R assms(1) by (auto simp: holds_def)
  ultimately show ?thesis using k v by (simp add: mtc_define_def split_at_append)
qed

lemma options_refine:
  assumes "holds ns m" and "\<forall>(k, v) \<in> set kvs. simple_key k \<and> value_ok v"
  shows "\<exists>ns'. holds ns' (m ++ map_of (rev kvs)) \<and>
    (\<forall>args out. mtc_opts all_ok (map define_arg kvs @ args) ns out = mtc_opts all_ok args ns' out)"
  using assms
proof (induction kvs arbitrary: ns m)
  case (Cons kv kvs)
  obtain k v where kv: "kv = (k, v)" by fastforce
  from define_refines [OF Cons.prems(1), of k v] Cons.prems(2) kv obtain ns1 where
    1: "mtc_define all_ok ns (k @ CHR ''='' # v) = Inr ns1" "holds ns1 (m(k \<mapsto> v))" by auto
  have "\<forall>(k, v) \<in> set kvs. simple_key k \<and> value_ok v" using Cons.prems(2) by simp
  note IH = Cons.IH [OF 1(2) this]
  have "m(k \<mapsto> v) ++ map_of (rev kvs) = m ++ map_of (rev (kv # kvs))"
    by (simp add: kv)
  with IH obtain ns' where "holds ns' (m ++ map_of (rev (kv # kvs)))"
    "\<forall>args out. mtc_opts all_ok (map define_arg kvs @ args) ns1 out = mtc_opts all_ok args ns' out" by metis
  moreover have "mtc_opts all_ok (map define_arg (kv # kvs) @ args) ns out = mtc_opts all_ok (map define_arg kvs @ args) ns1 out" for args out
    by (simp add: kv define_arg_def 1(1))
  ultimately show ?case by metis
qed auto

section \<open>What is written\<close>

text \<open>A template over simple keys, filled in from a map.\<close>

fun fill_in :: "(string \<rightharpoonup> string) \<Rightarrow> tnode list \<Rightarrow> string option" where
  "fill_in m [] = Some []"
| "fill_in m (TNode ty tx l v ch el # nodes) =
     (case (case (ty, tx) of
              (NODE_TEXT, Some t) \<Rightarrow> Some t
            | (NODE_DIRECTIVE_SUBST, Some n) \<Rightarrow> if simple_key n then m n else None
            | (NODE_DIRECTIVE_IF, Some n) \<Rightarrow>
                (if simple_key n
                 then (case m n of None \<Rightarrow> None | Some s \<Rightarrow> if s \<noteq> [] then fill_in m ch else fill_in m el)
                 else None)
            | _ \<Rightarrow> None) of
        None \<Rightarrow> None
      | Some a \<Rightarrow> map_option (append a) (fill_in m nodes))"

lemma holds_look:
  assumes "holds ns m" and "simple_key k" and "m k = Some s"
  shows "look ns k = Some (MString s)"
proof -
  note n = simple_key_name [OF assms(2)]
  have k: "k \<noteq> []" "length k < 256" using assms(2) by (auto simp: simple_key_def)
  have d: "dict_ok ns" "dict_map ns k = Some (MString s)" using assms(1,3) by (auto simp: holds_def)
  have "lookup_name all_ok ns k 0 = Inr (Inr (Some (MString s)))"
    using lookup_name_step [OF _ n(1) _ _ d(1), of all_ok "MString s" 0] n(2) k d(2)
    by (simp add: cstr_snoc_NUL MNAMESPACE_MAX_ID_LENGTH_def all_ok_apply resolve_next.simps)
  then show ?thesis using k dict_ok_type [OF d(1)] by (simp add: look_def mnamespace_lookup_def)
qed

lemma fill_expand:
  assumes "fill_in m nodes = Some e" and "holds ns m" and "\<forall>k s. m k = Some s \<longrightarrow> NUL \<notin> set s"
  shows "expand pr ns nodes = Some e"
  using assms
proof (induction m nodes arbitrary: e rule: fill_in.induct)
  case (2 m ty tx l v ch el nodes)
  from "2.prems"(1) obtain a b where b: "fill_in m nodes = Some b" "e = a @ b" and
    a: "(case (ty, tx) of
          (NODE_TEXT, Some t) \<Rightarrow> Some t
        | (NODE_DIRECTIVE_SUBST, Some n) \<Rightarrow> if simple_key n then m n else None
        | (NODE_DIRECTIVE_IF, Some n) \<Rightarrow>
            (if simple_key n
             then (case m n of None \<Rightarrow> None | Some s \<Rightarrow> if s \<noteq> [] then fill_in m ch else fill_in m el)
             else None)
        | _ \<Rightarrow> None) = Some a"
    by (auto split: option.splits simp del: prod.case)
  have rest: "expand pr ns nodes = Some b" by (rule "2.IH"(3)) (use a b(1) "2.prems"(2,3) in simp_all)
  obtain n where n: "tx = Some n" using a by (cases tx) (auto split: node_type.splits)
  from a n consider (plain_text) "ty = NODE_TEXT" "a = n"
    | (subst) "ty = NODE_DIRECTIVE_SUBST" "simple_key n" "m n = Some a"
    | (yes) s where "ty = NODE_DIRECTIVE_IF" "simple_key n" "m n = Some s" "s \<noteq> []" "fill_in m ch = Some a"
    | (no) "ty = NODE_DIRECTIVE_IF" "simple_key n" "m n = Some []" "fill_in m el = Some a"
    by (auto split: node_type.splits option.splits if_splits)
  then show ?case
  proof cases
    case subst
    with holds_look [OF "2.prems"(2)] "2.prems"(3) n rest b(2) show ?thesis by (simp add: cstr_id)
  next
    case yes
    have "expand pr ns ch = Some a" by (rule "2.IH"(1)) (use yes n "2.prems"(2,3) in simp_all)
    with yes holds_look [OF "2.prems"(2)] n rest b(2) show ?thesis by simp
  next
    case no
    have "expand pr ns el = Some a" by (rule "2.IH"(2)) (use no n "2.prems"(2,3) in simp_all)
    with no holds_look [OF "2.prems"(2)] n rest b(2) show ?thesis by simp
  qed (use n rest b(2) in simp)
qed simp

lemma mtc_fills:
  assumes "\<forall>(k, v) \<in> set kvs. simple_key k \<and> value_ok v" and "template_ok nodes"
    and "fill_in (map_of (rev kvs)) nodes = Some e"
    and "opened env file = Some (map Ev ds @ [Ev []])" and "\<forall>d \<in> set ds. d \<noteq> []"
    and "concat ds = print_nodes nodes" and "ds \<noteq> []" and "NUL \<notin> set (print_nodes nodes)"
    and "out = ''-'' \<or> writable env out"
  shows "mtc_main all_ok env (map define_arg kvs @ [(CHR ''o'', out)]) [file] = Inr (Inr [out \<mapsto> e])"
proof -
  have "holds (MDict [] 0) Map.empty" by (simp add: holds_def)
  from options_refine [OF this assms(1)] obtain ns where
    ns: "\<And>args out. mtc_opts all_ok (map define_arg kvs @ args) (MDict [] 0) out = mtc_opts all_ok args ns out"
      "holds ns (map_of (rev kvs))" by auto
  have clean: "\<forall>k s. map_of (rev kvs) k = Some s \<longrightarrow> NUL \<notin> set s"
    using assms(1) by (fastforce simp: value_ok_def dest: map_of_SomeD)
  from template_output [OF assms(2) fill_expand [OF assms(3) ns(2) clean], of "print_obj env" "[]"] obtain tmpl where
    "mtemplate_parse all_ok (print_nodes nodes) = Inr (Inr tmpl)"
    "mtemplate_run_stdio all_ok (print_obj env) tmpl (Some ns) ([], []) = Inr (([] @ e, []), None)" by blast
  with ns(1) assms(4-9) show ?thesis
    by (simp add: mtc_main_def mdict_new_def read_loop_correct cstr_id all_ok_apply)
qed

text \<open>An empty template: the buffer stays NULL.\<close>

lemma mtc_empty_template:
  assumes "mtc_opts (site 1 al) args (MDict [] 0) ''-'' = Inr (Inr r)" and "al 0" and "opened env file = Some [Ev []]"
  shows "mtc_main al env args [file] = Inl Null_deref"
  using assms by (cases r) (simp add: mtc_main_def mdict_new_def site_def)

declare all_ok_apply [simp]

end
