(* ===== verification/TailQueue.thy ===== *)
theory TailQueue
  imports Prelude
begin

text \<open>
  The linked lists of \<open>struct_bsd/inc/queue.h\<close>, at the level of their pointers: the tail queues
  (\<open>TAILQ\<close>) of the object and template libraries, the singly-linked tail queues (\<open>STAILQ\<close>) of the
  write buffer and the request queue, and the lists (\<open>LIST\<close>) of the threaded server.

  An element is an address; the pointers of its entry field are read from the state, together with
  the head. A \<open>type **\<close> of the code is a \<open>slot\<close>: the head's first pointer or the next pointer of an
  element. A dereferenced NULL pointer is a fault.

  Lemmas: under the relation \<open>tailq_rep\<close> (\<open>stailq_rep\<close>, \<open>list_rep\<close>) between the pointers and a list
  of addresses, every macro is the operation on lists that its name says; emptying a queue from its
  head visits the elements in order, once for both kinds of queue.
\<close>

type_synonym addr = nat

datatype slot = Head_slot | Next_slot addr

section \<open>Tail queues\<close>

record tailq =
  tqh_first :: "addr option"
  tqh_last :: slot
  tqe_next :: "addr \<Rightarrow> addr option"
  tqe_prev :: "addr \<Rightarrow> slot"

fun get_slot :: "tailq \<Rightarrow> slot \<Rightarrow> addr option" where
  "get_slot q Head_slot = tqh_first q"
| "get_slot q (Next_slot a) = tqe_next q a"

fun set_slot :: "slot \<Rightarrow> addr option \<Rightarrow> tailq \<Rightarrow> tailq" where
  "set_slot Head_slot v q = q\<lparr>tqh_first := v\<rparr>"
| "set_slot (Next_slot a) v q = q\<lparr>tqe_next := (tqe_next q)(a := v)\<rparr>"

definition set_prev :: "addr \<Rightarrow> slot \<Rightarrow> tailq \<Rightarrow> tailq" where
  "set_prev a s q = q\<lparr>tqe_prev := (tqe_prev q)(a := s)\<rparr>"

definition TAILQ_INIT :: "tailq \<Rightarrow> tailq" where
  "TAILQ_INIT q = q\<lparr>tqh_first := None, tqh_last := Head_slot\<rparr>"

definition TAILQ_INSERT_HEAD :: "addr \<Rightarrow> tailq \<Rightarrow> tailq" where
  "TAILQ_INSERT_HEAD elm q =
     (let q1 = set_slot (Next_slot elm) (tqh_first q) q;
          q2 = (case tqh_first q of
                  Some f \<Rightarrow> set_prev f (Next_slot elm) q1
                | None \<Rightarrow> q1\<lparr>tqh_last := Next_slot elm\<rparr>)
      in set_prev elm Head_slot (q2\<lparr>tqh_first := Some elm\<rparr>))"

definition TAILQ_INSERT_TAIL :: "addr \<Rightarrow> tailq \<Rightarrow> tailq" where
  "TAILQ_INSERT_TAIL elm q =
     (let q1 = set_prev elm (tqh_last q) (set_slot (Next_slot elm) None q)
      in (set_slot (tqh_last q) (Some elm) q1)\<lparr>tqh_last := Next_slot elm\<rparr>)"

definition TAILQ_INSERT_AFTER :: "addr \<Rightarrow> addr \<Rightarrow> tailq \<Rightarrow> tailq" where
  "TAILQ_INSERT_AFTER listelm elm q =
     (let q1 = set_slot (Next_slot elm) (tqe_next q listelm) q;
          q2 = (case tqe_next q listelm of
                  Some f \<Rightarrow> set_prev f (Next_slot elm) q1
                | None \<Rightarrow> q1\<lparr>tqh_last := Next_slot elm\<rparr>)
      in set_prev elm (Next_slot listelm) (set_slot (Next_slot listelm) (Some elm) q2))"

definition TAILQ_INSERT_BEFORE :: "addr \<Rightarrow> addr \<Rightarrow> tailq \<Rightarrow> tailq" where
  "TAILQ_INSERT_BEFORE listelm elm q =
     (let q1 = set_slot (Next_slot elm) (Some listelm) (set_prev elm (tqe_prev q listelm) q)
      in set_prev listelm (Next_slot elm) (set_slot (tqe_prev q listelm) (Some elm) q1))"

definition TAILQ_REMOVE :: "addr \<Rightarrow> tailq \<Rightarrow> tailq" where
  "TAILQ_REMOVE elm q =
     (let q1 = (case tqe_next q elm of
                  Some f \<Rightarrow> set_prev f (tqe_prev q elm) q
                | None \<Rightarrow> q\<lparr>tqh_last := tqe_prev q elm\<rparr>)
      in set_slot (tqe_prev q elm) (tqe_next q elm) q1)"

text \<open>
  The cast in \<open>TAILQ_LAST\<close> and \<open>TAILQ_PREV\<close>: an entry has the layout of a head, so the structure a
  slot lies in has a \<open>tqh_last\<close>, which of an entry is its \<open>tqe_prev\<close>.
\<close>

fun slot_last :: "tailq \<Rightarrow> slot \<Rightarrow> slot" where
  "slot_last q Head_slot = tqh_last q"
| "slot_last q (Next_slot a) = tqe_prev q a"

definition TAILQ_LAST :: "tailq \<Rightarrow> addr option" where
  "TAILQ_LAST q = get_slot q (slot_last q (tqh_last q))"

definition TAILQ_PREV :: "addr \<Rightarrow> tailq \<Rightarrow> addr option" where
  "TAILQ_PREV elm q = get_slot q (slot_last q (tqe_prev q elm))"

text \<open>The two loops; a body that leaves the queue alone is run for the elements listed.\<close>

fun tailq_walk :: "nat \<Rightarrow> tailq \<Rightarrow> addr option \<Rightarrow> addr list option" where
  "tailq_walk n q None = Some []"
| "tailq_walk 0 q (Some a) = None"
| "tailq_walk (Suc n) q (Some a) = map_option ((#) a) (tailq_walk n q (tqe_next q a))"

fun tailq_walk_back :: "nat \<Rightarrow> tailq \<Rightarrow> addr option \<Rightarrow> addr list option" where
  "tailq_walk_back n q None = Some []"
| "tailq_walk_back 0 q (Some a) = None"
| "tailq_walk_back (Suc n) q (Some a) = map_option ((#) a) (tailq_walk_back n q (TAILQ_PREV a q))"

section \<open>What a tail queue holds\<close>

fun lseg :: "tailq \<Rightarrow> slot \<Rightarrow> addr list \<Rightarrow> bool" where
  "lseg q s [] = True"
| "lseg q s (x # xs) = (get_slot q s = Some x \<and> tqe_prev q x = s \<and> lseg q (Next_slot x) xs)"

definition lend :: "slot \<Rightarrow> addr list \<Rightarrow> slot" where
  "lend s xs = (if xs = [] then s else Next_slot (last xs))"

definition tailq_rep :: "tailq \<Rightarrow> addr list \<Rightarrow> bool" where
  "tailq_rep q xs \<longleftrightarrow> distinct xs \<and> lseg q Head_slot xs \<and> get_slot q (lend Head_slot xs) = None \<and>
     tqh_last q = lend Head_slot xs"

lemma lend_simps [simp]: "lend s [] = s" "lend s (x # xs) = lend (Next_slot x) xs" "lend s (xs @ ys) = lend (lend s xs) ys"
  by (auto simp: lend_def)

lemma lseg_append: "lseg q s (xs @ ys) \<longleftrightarrow> lseg q s xs \<and> lseg q (lend s xs) ys"
  by (induction xs arbitrary: s) auto

text \<open>All pointers to elements are read and written by their slots.\<close>

lemma slot_reads [simp]:
  "tqe_next q a = get_slot q (Next_slot a)" "tqh_first q = get_slot q Head_slot"
  "q\<lparr>tqh_first := v\<rparr> = set_slot Head_slot v q"
  by simp_all

declare get_slot.simps [simp del] set_slot.simps [simp del]

lemma get_set_slot [simp]: "get_slot (set_slot s v q) t = (if t = s then v else get_slot q t)"
  by (cases s; cases t) (simp_all add: get_slot.simps set_slot.simps del: slot_reads)

lemma get_slot_updates [simp]:
  "get_slot (set_prev a p q) t = get_slot q t" "get_slot (q\<lparr>tqh_last := l\<rparr>) t = get_slot q t"
  by (cases t; simp add: set_prev_def get_slot.simps del: slot_reads)+

lemma slot_updates [simp]:
  "tqe_prev (set_slot s v q) = tqe_prev q" "tqh_last (set_slot s v q) = tqh_last q"
  "tqe_prev (set_prev a p q) = (tqe_prev q)(a := p)" "tqh_last (set_prev a p q) = tqh_last q"
  "set_slot s v (q\<lparr>tqh_last := l\<rparr>) = (set_slot s v q)\<lparr>tqh_last := l\<rparr>"
  "set_prev a p (q\<lparr>tqh_last := l\<rparr>) = (set_prev a p q)\<lparr>tqh_last := l\<rparr>"
  "set_slot s v (set_prev a p q) = set_prev a p (set_slot s v q)"
  by (cases s; simp add: set_prev_def set_slot.simps del: slot_reads)+

text \<open>A change elsewhere keeps a segment.\<close>

lemma lseg_frame:
  "lseg q s xs \<Longrightarrow> (\<And>x. x \<in> set xs \<Longrightarrow> tqe_prev q' x = tqe_prev q x) \<Longrightarrow>
   (xs \<noteq> [] \<Longrightarrow> get_slot q' s = get_slot q s) \<Longrightarrow>
   (\<And>x. x \<in> set (butlast xs) \<Longrightarrow> get_slot q' (Next_slot x) = get_slot q (Next_slot x)) \<Longrightarrow> lseg q' s xs"
proof (induction xs arbitrary: s)
  case (Cons x xs)
  have "lseg q' (Next_slot x) xs"
  proof (cases "xs = []")
    case False
    with Cons.prems show ?thesis by (intro Cons.IH) auto
  qed simp
  with Cons.prems show ?case by simp
qed simp


section \<open>The operations are those of lists\<close>

lemma tailq_init: "tailq_rep (TAILQ_INIT q) []"
  by (simp add: tailq_rep_def TAILQ_INIT_def)

lemma tailq_first: "tailq_rep q xs \<Longrightarrow> tqh_first q = (case xs of [] \<Rightarrow> None | x # _ \<Rightarrow> Some x)"
  by (cases xs) (auto simp: tailq_rep_def)

text \<open>A queue in three parts around one of its elements.\<close>

lemma tailq_rep_split:
  "tailq_rep q (ys @ x # zs) \<longleftrightarrow> distinct (ys @ x # zs) \<and> lseg q Head_slot ys \<and>
     get_slot q (lend Head_slot ys) = Some x \<and> tqe_prev q x = lend Head_slot ys \<and> lseg q (Next_slot x) zs \<and>
     get_slot q (lend (Next_slot x) zs) = None \<and> tqh_last q = lend (Next_slot x) zs"
  by (auto simp: tailq_rep_def lseg_append)

lemma lend_in: "lend Head_slot ys = Next_slot a \<Longrightarrow> a \<in> set ys"
  by (auto simp: lend_def split: if_splits)

lemma lend_Next_in: "lend (Next_slot x) zs = Next_slot a \<Longrightarrow> a \<in> insert x (set zs)"
  by (auto simp: lend_def split: if_splits)

lemma lend_Next_Head [simp]: "lend (Next_slot x) zs \<noteq> Head_slot" "Head_slot \<noteq> lend (Next_slot x) zs"
  by (auto simp: lend_def)

lemma lseg_set_slot:
  assumes "lseg q s xs" and "xs = [] \<or> t \<noteq> s" and "t \<notin> Next_slot ` set (butlast xs)"
  shows "lseg (set_slot t v q) s xs"
  using assms(2,3) by (intro lseg_frame [OF assms(1)]) auto

lemma lseg_set_prev [simp]: "a \<notin> set xs \<Longrightarrow> lseg (set_prev a p q) s xs = lseg q s xs"
  by (induction xs arbitrary: s) auto

lemma lseg_set_last [simp]: "lseg (q\<lparr>tqh_last := l\<rparr>) s xs = lseg q s xs"
  by (induction xs arbitrary: s) auto

lemma lend_fresh:
  assumes "distinct xs" and "xs \<noteq> []"
  shows "lend s xs \<notin> Next_slot ` set (butlast xs)"
proof -
  from assms(2) have "xs = butlast xs @ [last xs]" by simp
  with assms(1) have "last xs \<notin> set (butlast xs)" by (metis distinct_append not_distinct_conv_prefix)
  then show ?thesis using assms(2) by (auto simp: lend_def)
qed

text \<open>A write through the last slot of a segment does not touch the segment.\<close>

lemma lseg_set_end: "distinct xs \<Longrightarrow> lseg q Head_slot xs \<Longrightarrow> lseg (set_slot (lend Head_slot xs) v q) Head_slot xs"
  by (cases "xs = []") (simp, rule lseg_set_slot, auto simp: lend_def dest: lend_fresh [of _ Head_slot])

text \<open>A write to the slot of an element outside a segment that starts elsewhere.\<close>

lemma lseg_set_outside:
  assumes "lseg q s xs" and "a \<notin> set xs" and "s \<noteq> Next_slot a"
  shows "lseg (set_slot (Next_slot a) v q) s xs"
  using assms(2,3) by (intro lseg_set_slot [OF assms(1)]) (auto dest: in_set_butlastD)

lemma tailq_remove:
  assumes "tailq_rep q (ys @ x # zs)"
  shows "tailq_rep (TAILQ_REMOVE x q) (ys @ zs)"
proof (cases zs)
  case Nil
  with assms have a: "distinct ys" "lseg q Head_slot ys" "tqe_prev q x = lend Head_slot ys"
    "get_slot q (Next_slot x) = None" by (auto simp: tailq_rep_split)
  from lseg_set_end [OF a(1,2), of None] show ?thesis
    using a Nil by (simp add: tailq_rep_def TAILQ_REMOVE_def Let_def)
next
  case (Cons z zs')
  with assms have a: "distinct (ys @ x # z # zs')" "lseg q Head_slot ys" "tqe_prev q x = lend Head_slot ys"
    "get_slot q (Next_slot x) = Some z" "lseg q (Next_slot z) zs'" "get_slot q (lend (Next_slot z) zs') = None"
    "tqh_last q = lend (Next_slot z) zs'" by (auto simp: tailq_rep_split)
  let ?e = "lend Head_slot ys" and ?q = "set_prev z (lend Head_slot ys) q"
  have "lseg ?q Head_slot ys" using a(1,2) by simp
  then have "lseg (set_slot ?e (Some z) ?q) Head_slot ys" using a(1) by (intro lseg_set_end) simp_all
  moreover have "lseg ?q (Next_slot z) zs'" using a(1,5) by simp
  then have "lseg (set_slot ?e (Some z) ?q) (Next_slot z) zs'"
    by (rule lseg_set_slot) (use a(1) in \<open>auto dest: lend_in in_set_butlastD\<close>)
  moreover have "lend (Next_slot z) zs' \<noteq> ?e"
    using a(1) by (cases ?e) (auto dest!: lend_in lend_Next_in)
  ultimately show ?thesis using a Cons by (simp add: TAILQ_REMOVE_def Let_def tailq_rep_split)
qed

lemma tailq_insert_tail:
  assumes "tailq_rep q xs" and "x \<notin> set xs"
  shows "tailq_rep (TAILQ_INSERT_TAIL x q) (xs @ [x])"
proof -
  from assms(1) have a: "distinct xs" "lseg q Head_slot xs" "tqh_last q = lend Head_slot xs"
    by (simp_all add: tailq_rep_def)
  have "lseg (set_prev x (lend Head_slot xs) (set_slot (Next_slot x) None q)) Head_slot xs"
    using lseg_set_outside [OF a(2) assms(2)] assms(2) by simp
  note e = lseg_set_end [OF a(1) this]
  have "lend Head_slot xs \<noteq> Next_slot x" using assms(2) by (auto dest: lend_in)
  with a e assms(2) show ?thesis by (simp add: tailq_rep_split TAILQ_INSERT_TAIL_def Let_def)
qed

lemma tailq_insert_after:
  assumes "tailq_rep q (ys @ y # zs)" and "x \<notin> set (ys @ y # zs)"
  shows "tailq_rep (TAILQ_INSERT_AFTER y x q) (ys @ y # x # zs)"
proof -
  from assms(1) have a: "distinct (ys @ y # zs)" "lseg q Head_slot ys" "get_slot q (lend Head_slot ys) = Some y"
    "tqe_prev q y = lend Head_slot ys" by (simp_all add: tailq_rep_split)
  have b: "lseg q (Next_slot y) zs" "get_slot q (lend (Next_slot y) zs) = None" "tqh_last q = lend (Next_slot y) zs"
    using assms(1) by (simp_all add: tailq_rep_split)
  have ne: "lend Head_slot ys \<noteq> Next_slot x" "lend Head_slot ys \<noteq> Next_slot y"
    using a(1) assms(2) by (auto dest: lend_in)
  have ys: "lseg (set_slot (Next_slot y) (Some x) (set_slot (Next_slot x) v q)) Head_slot ys" for v
    using a(1,2) assms(2) by (intro lseg_set_outside) auto
  show ?thesis
  proof (cases zs)
    case Nil
    with a b ne ys [of None] assms(2) show ?thesis
      by (simp add: tailq_rep_split TAILQ_INSERT_AFTER_def Let_def)
  next
    case (Cons z zs')
    with b have z: "get_slot q (Next_slot y) = Some z" "lseg q (Next_slot z) zs'" by simp_all
    have "lseg (set_slot (Next_slot y) (Some x) (set_slot (Next_slot x) (Some z) q)) (Next_slot z) zs'"
      using z(2) a(1) assms(2) Cons by (intro lseg_set_outside) auto
    moreover have "lend (Next_slot z) zs' \<noteq> Next_slot x" "lend (Next_slot z) zs' \<noteq> Next_slot y"
      using a(1) assms(2) Cons by (auto dest: lend_Next_in)
      ultimately show ?thesis using a b ne ys [of "Some z"] assms(2) z(1) Cons
      by (simp add: tailq_rep_split TAILQ_INSERT_AFTER_def Let_def)
  qed
qed

lemma tailq_insert_head:
  assumes "tailq_rep q xs" and "x \<notin> set xs"
  shows "tailq_rep (TAILQ_INSERT_HEAD x q) (x # xs)"
proof (cases xs)
  case Nil
  with assms show ?thesis by (simp add: tailq_rep_def TAILQ_INSERT_HEAD_def Let_def)
next
  case (Cons z zs)
  with assms(1) have a: "distinct (z # zs)" "get_slot q Head_slot = Some z" "lseg q (Next_slot z) zs"
    "get_slot q (lend (Next_slot z) zs) = None" "tqh_last q = lend (Next_slot z) zs" by (simp_all add: tailq_rep_def)
  have x: "x \<notin> set (z # zs)" using assms(2) Cons by simp
  have "lseg (set_slot (Next_slot x) (Some z) q) (Next_slot z) zs" using a(3) x by (intro lseg_set_outside) auto
  then have "lseg (set_slot Head_slot (Some x) (set_slot (Next_slot x) (Some z) q)) (Next_slot z) zs"
    by (rule lseg_set_slot) auto
  moreover have "lend (Next_slot z) zs \<noteq> Next_slot x" using x by (auto dest: lend_Next_in)
  ultimately show ?thesis using a x Cons by (simp add: tailq_rep_def TAILQ_INSERT_HEAD_def Let_def)
qed

lemma tailq_insert_before:
  assumes "tailq_rep q (ys @ y # zs)" and "x \<notin> set (ys @ y # zs)"
  shows "tailq_rep (TAILQ_INSERT_BEFORE y x q) (ys @ x # y # zs)"
proof -
  from assms(1) have a: "distinct (ys @ y # zs)" "lseg q Head_slot ys" "tqe_prev q y = lend Head_slot ys"
    "lseg q (Next_slot y) zs" "get_slot q (lend (Next_slot y) zs) = None" "tqh_last q = lend (Next_slot y) zs"
    by (simp_all add: tailq_rep_split)
  let ?e = "lend Head_slot ys"
  have ne: "?e \<noteq> Next_slot x" "?e \<noteq> Next_slot y" using a(1) assms(2) by (auto dest: lend_in)
  have l: "lend (Next_slot y) zs \<noteq> Next_slot x" "lend (Next_slot y) zs \<noteq> ?e"
    using a(1) assms(2) by (auto dest: lend_Next_in) (cases ?e; auto dest!: lend_in lend_Next_in)
  have "lseg (set_slot (Next_slot x) (Some y) q) Head_slot ys" using a(2) assms(2) by (intro lseg_set_outside) auto
  then have "lseg (set_slot ?e (Some x) (set_slot (Next_slot x) (Some y) q)) Head_slot ys"
    using a(1) by (intro lseg_set_end) simp_all
  moreover have "lseg (set_slot (Next_slot x) (Some y) q) (Next_slot y) zs"
    using a(4) assms(2) by (intro lseg_set_outside) auto
  then have "lseg (set_slot ?e (Some x) (set_slot (Next_slot x) (Some y) q)) (Next_slot y) zs"
    by (rule lseg_set_slot) (use a(1) ne(2) in \<open>auto dest: lend_in in_set_butlastD\<close>)
  ultimately show ?thesis using a ne l assms(2)
    by (simp add: tailq_rep_split TAILQ_INSERT_BEFORE_def Let_def)
qed

text \<open>Walking forwards and backwards.\<close>

lemma tailq_walk_correct:
  "lseg q s xs \<Longrightarrow> get_slot q (lend s xs) = None \<Longrightarrow> length xs \<le> n \<Longrightarrow> tailq_walk n q (get_slot q s) = Some xs"
proof (induction xs arbitrary: s n)
  case (Cons x xs)
  then obtain m where m: "n = Suc m" "length xs \<le> m" by (cases n) auto
  with Cons.IH [of "Next_slot x" m] Cons.prems show ?case by simp
qed simp

lemma tailq_foreach: "tailq_rep q xs \<Longrightarrow> tailq_walk (length xs) q (tqh_first q) = Some xs"
  using tailq_walk_correct [of q Head_slot xs] by (simp add: tailq_rep_def)

lemma tailq_prev:
  assumes "tailq_rep q (ys @ x # zs)"
  shows "TAILQ_PREV x q = (if ys = [] then None else Some (last ys))"
proof (cases ys rule: rev_cases)
  case Nil
  with assms tailq_rep_split [of q "[]" x zs] show ?thesis by (simp add: TAILQ_PREV_def)
next
  case (snoc us y)
  with assms show ?thesis by (auto simp: TAILQ_PREV_def tailq_rep_split lseg_append)
qed

lemma tailq_last:
  assumes "tailq_rep q xs"
  shows "TAILQ_LAST q = (if xs = [] then None else Some (last xs))"
proof (cases xs rule: rev_cases)
  case Nil
  with assms show ?thesis by (simp add: TAILQ_LAST_def tailq_rep_def)
next
  case (snoc us y)
  with assms show ?thesis by (auto simp: TAILQ_LAST_def tailq_rep_split)
qed

lemma tailq_walk_back_correct:
  "tailq_rep q (ys @ zs) \<Longrightarrow> length ys \<le> n \<Longrightarrow>
   tailq_walk_back n q (if ys = [] then None else Some (last ys)) = Some (rev ys)"
proof (induction ys arbitrary: zs n rule: rev_induct)
  case (snoc y ys)
  then obtain m where m: "n = Suc m" "length ys \<le> m" by (cases n) auto
  from snoc.prems(1) have r: "tailq_rep q (ys @ y # zs)" by simp
  from snoc.IH [OF r m(2)] tailq_prev [OF r] m(1) show ?case by simp
qed simp

lemma tailq_foreach_reverse: "tailq_rep q xs \<Longrightarrow> tailq_walk_back (length xs) q (TAILQ_LAST q) = Some (rev xs)"
  using tailq_walk_back_correct [of q xs "[]"] by (simp add: tailq_last)

section \<open>Singly-linked tail queues\<close>

text \<open>A tail queue without the backward pointers.\<close>

record stailq =
  stqh_first :: "addr option"
  stqh_last :: slot
  stqe_next :: "addr \<Rightarrow> addr option"

fun st_set_slot :: "slot \<Rightarrow> addr option \<Rightarrow> stailq \<Rightarrow> stailq" where
  "st_set_slot Head_slot v q = q\<lparr>stqh_first := v\<rparr>"
| "st_set_slot (Next_slot a) v q = q\<lparr>stqe_next := (stqe_next q)(a := v)\<rparr>"

definition STAILQ_INIT :: "stailq \<Rightarrow> stailq" where
  "STAILQ_INIT q = q\<lparr>stqh_first := None, stqh_last := Head_slot\<rparr>"

definition STAILQ_INSERT_HEAD :: "addr \<Rightarrow> stailq \<Rightarrow> stailq" where
  "STAILQ_INSERT_HEAD elm q =
     (let q1 = st_set_slot (Next_slot elm) (stqh_first q) q;
          q2 = (if stqh_first q = None then q1\<lparr>stqh_last := Next_slot elm\<rparr> else q1)
      in q2\<lparr>stqh_first := Some elm\<rparr>)"

definition STAILQ_INSERT_TAIL :: "addr \<Rightarrow> stailq \<Rightarrow> stailq" where
  "STAILQ_INSERT_TAIL elm q =
     (st_set_slot (stqh_last q) (Some elm) (st_set_slot (Next_slot elm) None q))\<lparr>stqh_last := Next_slot elm\<rparr>"

definition STAILQ_INSERT_AFTER :: "addr \<Rightarrow> addr \<Rightarrow> stailq \<Rightarrow> stailq" where
  "STAILQ_INSERT_AFTER listelm elm q =
     (let q1 = st_set_slot (Next_slot elm) (stqe_next q listelm) q;
          q2 = (if stqe_next q listelm = None then q1\<lparr>stqh_last := Next_slot elm\<rparr> else q1)
      in st_set_slot (Next_slot listelm) (Some elm) q2)"

definition STAILQ_REMOVE_HEAD :: "stailq \<Rightarrow> stailq res" where
  "STAILQ_REMOVE_HEAD q =
     (case stqh_first q of
        None \<Rightarrow> Inl Null_deref
      | Some f \<Rightarrow>
          (let q1 = q\<lparr>stqh_first := stqe_next q f\<rparr>
           in Inr (if stqe_next q f = None then q1\<lparr>stqh_last := Head_slot\<rparr> else q1)))"

definition forget_prev :: "tailq \<Rightarrow> stailq" where
  "forget_prev q = \<lparr>stqh_first = tqh_first q, stqh_last = tqh_last q, stqe_next = tqe_next q\<rparr>"

definition stailq_rep :: "stailq \<Rightarrow> addr list \<Rightarrow> bool" where
  "stailq_rep s xs \<longleftrightarrow> (\<exists>q. s = forget_prev q \<and> tailq_rep q xs)"

lemma forget_set_slot: "forget_prev (set_slot t v q) = st_set_slot t v (forget_prev q)"
  by (cases t) (simp_all add: forget_prev_def set_slot.simps del: slot_reads)

lemma forget_updates:
  "forget_prev (set_prev a p q) = forget_prev q" "forget_prev (q\<lparr>tqh_last := l\<rparr>) = (forget_prev q)\<lparr>stqh_last := l\<rparr>"
  by (simp_all add: forget_prev_def set_prev_def del: slot_reads)

lemma forget_reads:
  "stqh_first (forget_prev q) = get_slot q Head_slot" "stqh_last (forget_prev q) = tqh_last q"
  "stqe_next (forget_prev q) a = get_slot q (Next_slot a)"
  by (simp_all add: forget_prev_def)

lemmas forget_simps = forget_set_slot forget_updates forget_reads

lemma stailq_forgets:
  "forget_prev (TAILQ_INIT q) = STAILQ_INIT (forget_prev q)"
  "forget_prev (TAILQ_INSERT_HEAD x q) = STAILQ_INSERT_HEAD x (forget_prev q)"
  "forget_prev (TAILQ_INSERT_TAIL x q) = STAILQ_INSERT_TAIL x (forget_prev q)"
  "forget_prev (TAILQ_INSERT_AFTER y x q) = STAILQ_INSERT_AFTER y x (forget_prev q)"
  by (simp_all add: TAILQ_INIT_def STAILQ_INIT_def TAILQ_INSERT_HEAD_def STAILQ_INSERT_HEAD_def TAILQ_INSERT_TAIL_def STAILQ_INSERT_TAIL_def TAILQ_INSERT_AFTER_def STAILQ_INSERT_AFTER_def Let_def forget_simps st_set_slot.simps split: option.splits)

lemma stailq_remove_forgets:
  assumes "tailq_rep q (x # xs)"
  shows "STAILQ_REMOVE_HEAD (forget_prev q) = Inr (forget_prev (TAILQ_REMOVE x q))"
proof -
  from assms tailq_rep_split [of q "[]" x xs] have "get_slot q Head_slot = Some x" "tqe_prev q x = Head_slot" by simp_all
  then show ?thesis
    by (auto simp: STAILQ_REMOVE_HEAD_def TAILQ_REMOVE_def Let_def forget_simps split: option.splits)
qed

lemma stailq_ops:
  "stailq_rep (STAILQ_INIT s) []"
  "stailq_rep s xs \<Longrightarrow> x \<notin> set xs \<Longrightarrow> stailq_rep (STAILQ_INSERT_HEAD x s) (x # xs)"
  "stailq_rep s xs \<Longrightarrow> x \<notin> set xs \<Longrightarrow> stailq_rep (STAILQ_INSERT_TAIL x s) (xs @ [x])"
  "stailq_rep s (ys @ y # zs) \<Longrightarrow> x \<notin> set (ys @ y # zs) \<Longrightarrow> stailq_rep (STAILQ_INSERT_AFTER y x s) (ys @ y # x # zs)"
  "stailq_rep s (x # xs) \<Longrightarrow> \<exists>s'. STAILQ_REMOVE_HEAD s = Inr s' \<and> stailq_rep s' xs"
proof -
  have "s = forget_prev \<lparr>tqh_first = stqh_first s, tqh_last = stqh_last s, tqe_next = stqe_next s, tqe_prev = (\<lambda>_. Head_slot)\<rparr>"
    by (simp add: forget_prev_def del: slot_reads)
  then show "stailq_rep (STAILQ_INIT s) []" unfolding stailq_rep_def by (metis stailq_forgets(1) tailq_init)
  show "stailq_rep s xs \<Longrightarrow> x \<notin> set xs \<Longrightarrow> stailq_rep (STAILQ_INSERT_HEAD x s) (x # xs)"
    unfolding stailq_rep_def by (metis stailq_forgets(2) tailq_insert_head)
  show "stailq_rep s xs \<Longrightarrow> x \<notin> set xs \<Longrightarrow> stailq_rep (STAILQ_INSERT_TAIL x s) (xs @ [x])"
    unfolding stailq_rep_def by (metis stailq_forgets(3) tailq_insert_tail)
  show "stailq_rep s (ys @ y # zs) \<Longrightarrow> x \<notin> set (ys @ y # zs) \<Longrightarrow> stailq_rep (STAILQ_INSERT_AFTER y x s) (ys @ y # x # zs)"
    unfolding stailq_rep_def by (metis stailq_forgets(4) tailq_insert_after)
  show "stailq_rep s (x # xs) \<Longrightarrow> \<exists>s'. STAILQ_REMOVE_HEAD s = Inr s' \<and> stailq_rep s' xs"
    unfolding stailq_rep_def using stailq_remove_forgets tailq_remove [of _ "[]" x xs] by force
qed

lemma stailq_first: "stailq_rep s xs \<Longrightarrow> stqh_first s = (case xs of [] \<Rightarrow> None | x # _ \<Rightarrow> Some x)"
  unfolding stailq_rep_def by (auto simp: forget_reads dest: tailq_first)

section \<open>Lists\<close>

text \<open>A tail queue without the pointer to its end.\<close>

record bsd_list =
  lh_first :: "addr option"
  le_next :: "addr \<Rightarrow> addr option"
  le_prev :: "addr \<Rightarrow> slot"

fun le_set_slot :: "slot \<Rightarrow> addr option \<Rightarrow> bsd_list \<Rightarrow> bsd_list" where
  "le_set_slot Head_slot v l = l\<lparr>lh_first := v\<rparr>"
| "le_set_slot (Next_slot a) v l = l\<lparr>le_next := (le_next l)(a := v)\<rparr>"

definition le_set_prev :: "addr \<Rightarrow> slot \<Rightarrow> bsd_list \<Rightarrow> bsd_list" where
  "le_set_prev a s l = l\<lparr>le_prev := (le_prev l)(a := s)\<rparr>"

definition LIST_INIT :: "bsd_list \<Rightarrow> bsd_list" where
  "LIST_INIT l = l\<lparr>lh_first := None\<rparr>"

definition LIST_INSERT_HEAD :: "addr \<Rightarrow> bsd_list \<Rightarrow> bsd_list" where
  "LIST_INSERT_HEAD elm l =
     (let l1 = le_set_slot (Next_slot elm) (lh_first l) l;
          l2 = (case lh_first l of Some f \<Rightarrow> le_set_prev f (Next_slot elm) l1 | None \<Rightarrow> l1)
      in le_set_prev elm Head_slot (l2\<lparr>lh_first := Some elm\<rparr>))"

definition LIST_INSERT_AFTER :: "addr \<Rightarrow> addr \<Rightarrow> bsd_list \<Rightarrow> bsd_list" where
  "LIST_INSERT_AFTER listelm elm l =
     (let l1 = le_set_slot (Next_slot elm) (le_next l listelm) l;
          l2 = (case le_next l listelm of Some f \<Rightarrow> le_set_prev f (Next_slot elm) l1 | None \<Rightarrow> l1)
      in le_set_prev elm (Next_slot listelm) (le_set_slot (Next_slot listelm) (Some elm) l2))"

definition LIST_INSERT_BEFORE :: "addr \<Rightarrow> addr \<Rightarrow> bsd_list \<Rightarrow> bsd_list" where
  "LIST_INSERT_BEFORE listelm elm l =
     (let l1 = le_set_slot (Next_slot elm) (Some listelm) (le_set_prev elm (le_prev l listelm) l)
      in le_set_prev listelm (Next_slot elm) (le_set_slot (le_prev l listelm) (Some elm) l1))"

definition LIST_REMOVE :: "addr \<Rightarrow> bsd_list \<Rightarrow> bsd_list" where
  "LIST_REMOVE elm l =
     (let l1 = (case le_next l elm of Some f \<Rightarrow> le_set_prev f (le_prev l elm) l | None \<Rightarrow> l)
      in le_set_slot (le_prev l elm) (le_next l elm) l1)"

definition forget_last :: "tailq \<Rightarrow> bsd_list" where
  "forget_last q = \<lparr>lh_first = tqh_first q, le_next = tqe_next q, le_prev = tqe_prev q\<rparr>"

definition list_rep :: "bsd_list \<Rightarrow> addr list \<Rightarrow> bool" where
  "list_rep l xs \<longleftrightarrow> (\<exists>q. l = forget_last q \<and> tailq_rep q xs)"

lemma forget_last_set_slot: "forget_last (set_slot t v q) = le_set_slot t v (forget_last q)"
  by (cases t) (simp_all add: forget_last_def set_slot.simps del: slot_reads)

lemma forget_last_updates:
  "forget_last (set_prev a p q) = le_set_prev a p (forget_last q)" "forget_last (q\<lparr>tqh_last := l\<rparr>) = forget_last q"
  by (simp_all add: forget_last_def set_prev_def le_set_prev_def del: slot_reads)

lemma forget_last_reads:
  "lh_first (forget_last q) = get_slot q Head_slot" "le_next (forget_last q) a = get_slot q (Next_slot a)"
  "le_prev (forget_last q) a = tqe_prev q a"
  by (simp_all add: forget_last_def)

lemma le_set_slot_prev: "le_set_slot t v (le_set_prev a p l) = le_set_prev a p (le_set_slot t v l)"
  by (cases t) (simp_all add: le_set_prev_def)

lemma lh_first_slot: "l\<lparr>lh_first := v\<rparr> = le_set_slot Head_slot v l"
  by simp

lemmas forget_last_simps = forget_last_set_slot forget_last_updates forget_last_reads le_set_slot_prev lh_first_slot

lemma list_forgets:
  "forget_last (TAILQ_INIT q) = LIST_INIT (forget_last q)"
  "forget_last (TAILQ_INSERT_HEAD x q) = LIST_INSERT_HEAD x (forget_last q)"
  "forget_last (TAILQ_INSERT_AFTER y x q) = LIST_INSERT_AFTER y x (forget_last q)"
  "forget_last (TAILQ_INSERT_BEFORE y x q) = LIST_INSERT_BEFORE y x (forget_last q)"
  "forget_last (TAILQ_REMOVE x q) = LIST_REMOVE x (forget_last q)"
  by (simp_all add: TAILQ_INIT_def LIST_INIT_def TAILQ_INSERT_HEAD_def LIST_INSERT_HEAD_def TAILQ_INSERT_AFTER_def
      LIST_INSERT_AFTER_def TAILQ_INSERT_BEFORE_def LIST_INSERT_BEFORE_def TAILQ_REMOVE_def LIST_REMOVE_def Let_def
      forget_last_simps del: le_set_slot.simps split: option.splits)

lemma list_ops:
  "list_rep (LIST_INIT l) []"
  "list_rep l xs \<Longrightarrow> x \<notin> set xs \<Longrightarrow> list_rep (LIST_INSERT_HEAD x l) (x # xs)"
  "list_rep l (ys @ y # zs) \<Longrightarrow> x \<notin> set (ys @ y # zs) \<Longrightarrow> list_rep (LIST_INSERT_AFTER y x l) (ys @ y # x # zs)"
  "list_rep l (ys @ y # zs) \<Longrightarrow> x \<notin> set (ys @ y # zs) \<Longrightarrow> list_rep (LIST_INSERT_BEFORE y x l) (ys @ x # y # zs)"
  "list_rep l (ys @ x # zs) \<Longrightarrow> list_rep (LIST_REMOVE x l) (ys @ zs)"
proof -
  have "l = forget_last \<lparr>tqh_first = lh_first l, tqh_last = Head_slot, tqe_next = le_next l, tqe_prev = le_prev l\<rparr>"
    by (simp add: forget_last_def del: slot_reads)
  then show "list_rep (LIST_INIT l) []" unfolding list_rep_def by (metis list_forgets(1) tailq_init)
  show "list_rep l xs \<Longrightarrow> x \<notin> set xs \<Longrightarrow> list_rep (LIST_INSERT_HEAD x l) (x # xs)"
    unfolding list_rep_def by (metis list_forgets(2) tailq_insert_head)
  show "list_rep l (ys @ y # zs) \<Longrightarrow> x \<notin> set (ys @ y # zs) \<Longrightarrow> list_rep (LIST_INSERT_AFTER y x l) (ys @ y # x # zs)"
    unfolding list_rep_def by (metis list_forgets(3) tailq_insert_after)
  show "list_rep l (ys @ y # zs) \<Longrightarrow> x \<notin> set (ys @ y # zs) \<Longrightarrow> list_rep (LIST_INSERT_BEFORE y x l) (ys @ x # y # zs)"
    unfolding list_rep_def by (metis list_forgets(4) tailq_insert_before)
  show "list_rep l (ys @ x # zs) \<Longrightarrow> list_rep (LIST_REMOVE x l) (ys @ zs)"
    unfolding list_rep_def by (metis list_forgets(5) tailq_remove)
qed

section \<open>Emptying a queue from its head\<close>

text \<open>
  The loop of \<open>reset_wrbuffer\<close>, \<open>destroy_queue\<close>, \<open>mdict_free\<close> and \<open>mtemplate_free_nodes\<close>: as long as
  there is a first element, remove it and free it. The elements are listed in the order they are freed.
\<close>

fun empty_out :: "('q \<Rightarrow> addr option) \<Rightarrow> (addr \<Rightarrow> 'q \<Rightarrow> 'q res) \<Rightarrow> nat \<Rightarrow> 'q \<Rightarrow> (addr list \<times> 'q) res option" where
  "empty_out first rm n q =
     (case first q of
        None \<Rightarrow> Some (Inr ([], q))
      | Some x \<Rightarrow>
          (case n of
             0 \<Rightarrow> None
           | Suc m \<Rightarrow>
               (case rm x q of
                  Inl e \<Rightarrow> Some (Inl e)
                | Inr q' \<Rightarrow> map_option (map_sum id (\<lambda>(xs, q''). (x # xs, q''))) (empty_out first rm m q'))))"

declare empty_out.simps [simp del]

locale head_queue =
  fixes rep :: "'q \<Rightarrow> addr list \<Rightarrow> bool" and first :: "'q \<Rightarrow> addr option" and drop_first :: "addr \<Rightarrow> 'q \<Rightarrow> 'q res"
  assumes first_rep: "rep q xs \<Longrightarrow> first q = (case xs of [] \<Rightarrow> None | x # _ \<Rightarrow> Some x)"
    and drop_rep: "rep q (x # xs) \<Longrightarrow> \<exists>q'. drop_first x q = Inr q' \<and> rep q' xs"
begin

lemma all_visited: "rep q xs \<Longrightarrow> length xs \<le> n \<Longrightarrow> \<exists>q'. empty_out first drop_first n q = Some (Inr (xs, q')) \<and> rep q' []"
proof (induction xs arbitrary: q n)
  case Nil
  then show ?case using first_rep [OF Nil.prems(1)] by (simp add: empty_out.simps)
next
  case (Cons x xs)
  then obtain m where m: "n = Suc m" "length xs \<le> m" by (cases n) auto
  from drop_rep [OF Cons.prems(1)] obtain q1 where q1: "drop_first x q = Inr q1" "rep q1 xs" by blast
  from Cons.IH [OF q1(2) m(2)] q1(1) m(1) first_rep [OF Cons.prems(1)] show ?case
    by (auto simp: empty_out.simps [of first drop_first "Suc m" q])
qed

end

interpretation tq: head_queue tailq_rep tqh_first "\<lambda>x q. Inr (TAILQ_REMOVE x q)"
  using tailq_first tailq_remove [of _ "[]"] by unfold_locales (auto simp del: slot_reads)

interpretation stq: head_queue stailq_rep stqh_first "\<lambda>x q. STAILQ_REMOVE_HEAD q"
  using stailq_first stailq_ops(5) by unfold_locales auto

lemma list_first: "list_rep l xs \<Longrightarrow> lh_first l = (case xs of [] \<Rightarrow> None | x # _ \<Rightarrow> Some x)"
  unfolding list_rep_def by (auto simp: forget_last_reads dest: tailq_first)

interpretation lst: head_queue list_rep lh_first "\<lambda>x l. Inr (LIST_REMOVE x l)"
  using list_first list_ops(5) [of _ "[]"] by unfold_locales auto

section \<open>Any sequence of operations\<close>

datatype tq_op = Ins_head addr | Ins_tail addr | Ins_after addr addr | Ins_before addr addr | Rem addr

fun tq_exec :: "tq_op \<Rightarrow> tailq \<Rightarrow> tailq" where
  "tq_exec (Ins_head x) q = TAILQ_INSERT_HEAD x q"
| "tq_exec (Ins_tail x) q = TAILQ_INSERT_TAIL x q"
| "tq_exec (Ins_after y x) q = TAILQ_INSERT_AFTER y x q"
| "tq_exec (Ins_before y x) q = TAILQ_INSERT_BEFORE y x q"
| "tq_exec (Rem x) q = TAILQ_REMOVE x q"

text \<open>The same on lists; None when the code must not be called: a new element that is in the queue, or
  an element named that is not.\<close>

fun tq_abs :: "tq_op \<Rightarrow> addr list \<Rightarrow> addr list option" where
  "tq_abs (Ins_head x) xs = (if x \<in> set xs then None else Some (x # xs))"
| "tq_abs (Ins_tail x) xs = (if x \<in> set xs then None else Some (xs @ [x]))"
| "tq_abs (Ins_after y x) xs =
     (if x \<in> set xs \<or> y \<notin> set xs then None
      else Some (takeWhile (\<lambda>z. z \<noteq> y) xs @ y # x # tl (dropWhile (\<lambda>z. z \<noteq> y) xs)))"
| "tq_abs (Ins_before y x) xs =
     (if x \<in> set xs \<or> y \<notin> set xs then None
      else Some (takeWhile (\<lambda>z. z \<noteq> y) xs @ x # dropWhile (\<lambda>z. z \<noteq> y) xs))"
| "tq_abs (Rem x) xs = (if x \<in> set xs then Some (remove1 x xs) else None)"

fun tq_abs_all :: "tq_op list \<Rightarrow> addr list \<Rightarrow> addr list option" where
  "tq_abs_all [] xs = Some xs"
| "tq_abs_all (i # is) xs = Option.bind (tq_abs i xs) (tq_abs_all is)"

lemma split_first:
  "y \<in> set xs \<Longrightarrow> \<exists>vs. dropWhile (\<lambda>z. z \<noteq> y) xs = y # vs \<and> xs = takeWhile (\<lambda>z. z \<noteq> y) xs @ y # vs"
  by (induction xs) auto

lemma tq_step:
  assumes "tailq_rep q xs" and "tq_abs i xs = Some ys"
  shows "tailq_rep (tq_exec i q) ys"
proof (cases i)
  case (Ins_after y x)
  with assms(2) have x: "x \<notin> set xs" "y \<in> set xs" by (auto split: if_splits)
  from split_first [OF x(2)] obtain vs where
    s: "dropWhile (\<lambda>z. z \<noteq> y) xs = y # vs" "xs = takeWhile (\<lambda>z. z \<noteq> y) xs @ y # vs" by blast
  have "tailq_rep (TAILQ_INSERT_AFTER y x q) (takeWhile (\<lambda>z. z \<noteq> y) xs @ y # x # vs)"
    by (rule tailq_insert_after) (use assms(1) x(1) s(2) in simp_all)
  with Ins_after assms(2) x s(1) show ?thesis by simp
next
  case (Ins_before y x)
  with assms(2) have x: "x \<notin> set xs" "y \<in> set xs" by (auto split: if_splits)
  from split_first [OF x(2)] obtain vs where
    s: "dropWhile (\<lambda>z. z \<noteq> y) xs = y # vs" "xs = takeWhile (\<lambda>z. z \<noteq> y) xs @ y # vs" by blast
  have "tailq_rep (TAILQ_INSERT_BEFORE y x q) (takeWhile (\<lambda>z. z \<noteq> y) xs @ x # y # vs)"
    by (rule tailq_insert_before) (use assms(1) x(1) s(2) in simp_all)
  with Ins_before assms(2) x s(1) show ?thesis by simp
next
  case (Rem x)
  with assms(2) have "x \<in> set xs" by (auto split: if_splits)
  then obtain us vs where s: "xs = us @ x # vs" "x \<notin> set us" by (meson split_list_first)
  with Rem assms tailq_remove [of q us x vs] show ?thesis by (auto simp: remove1_append)
qed (use assms tailq_insert_head tailq_insert_tail in \<open>auto split: if_splits\<close>)

lemma tq_steps: "tailq_rep q xs \<Longrightarrow> tq_abs_all is xs = Some ys \<Longrightarrow> tailq_rep (fold tq_exec is q) ys"
  by (induction "is" arbitrary: q xs) (auto simp: bind_eq_Some_conv intro: tq_step)

end
