(* ===== verification/CfsmLex.thy ===== *)
theory CfsmLex
  imports CfsmSpec
begin

text \<open>
  The input language of the state machine compiler: the rules of \<open>libs/cfsm_lib/cfsm/cfsm_lex.l\<close>
  and the grammar of \<open>cfsm_parse.y\<close>.

  A rule is a pattern, as the length of its longest match (0 when there is none), and an action; as
  flex does, \<open>yylex\<close> takes the longest match and among these the first rule. The grammar is read
  without a table: the keyword tells the directive. What yacc adds is kept: a token whose code is
  not positive ends the input. The code of an unknown character is a \<open>char\<close>, which is signed on the
  platforms the program is built for. Line numbers and messages are not modelled, nor a failing
  \<open>strdup\<close>; of an input with a syntax error only that it has one.

  Lemmas: every match takes a character, and every directive takes a token; see \<open>CfsmRead\<close>.
\<close>

section \<open>The lexer\<close>

datatype token =
    CTX | EVENT | NEW_STATE | OLD_STATE | NONE | COMMA | MOVETO | BANNER_START | BANNER_END
  | ADVANCE_FUNC | CURRENT_STATE_FUNC | TRANSITION_ENTRY_PRECOND | EVENT_CALLBACK_ARGS | EVENT_CALLBACK
  | EVENT_NTOP_FUNC | EVENT_ENUM | EVENT_PRECOND_ARGS | EVENT_PRECOND | TRANSITION_EXIT_PRECOND
  | FREE_FUNC | FSM_STRUCT | IGNORE_EVENT | INIT_FUNC | INITIAL_STATE | NEXT_STATE
  | TRANSITION_ENTRY_CALLBACK | EVENT_ADVANCE | TRANSITION_EXIT_CALLBACK | TRANSITION_PRECOND_ARGS
  | STATE_NTOP_FUNC | STATE_ENUM | STATE | TRANSITION_CALLBACK_ARGS
  | ID string | BANNER_LINE string | NUMBER string | Yytext char

definition lex_words :: "(string \<times> token) list" where
  "lex_words =
     [(''advance-function'', ADVANCE_FUNC), (''ctx'', CTX), (''current-state-function'', CURRENT_STATE_FUNC),
      (''entry-precondition'', TRANSITION_ENTRY_PRECOND), (''event-callback-args'', EVENT_CALLBACK_ARGS),
      (''event-callback'', EVENT_CALLBACK), (''event-enum-to-string-function'', EVENT_NTOP_FUNC),
      (''event-enum-type'', EVENT_ENUM), (''event-precondition-args'', EVENT_PRECOND_ARGS),
      (''event-precondition'', EVENT_PRECOND), (''event'', EVENT), (''exit-precondition'', TRANSITION_EXIT_PRECOND),
      (''free-function'', FREE_FUNC), (''fsm-struct-type'', FSM_STRUCT), (''ignore-event'', IGNORE_EVENT),
      (''initialise-function'', INIT_FUNC), (''initialize-function'', INIT_FUNC), (''initial-state'', INITIAL_STATE),
      (''new-state'', NEW_STATE), (''next-state'', NEXT_STATE), (''none'', NONE), (''old-state'', OLD_STATE),
      (''onentry-func'', TRANSITION_ENTRY_CALLBACK), (''on-event'', EVENT_ADVANCE),
      (''onexit-func'', TRANSITION_EXIT_CALLBACK), (''precondition-function-args'', TRANSITION_PRECOND_ARGS),
      (''state-enum-to-string-function'', STATE_NTOP_FUNC), (''state-enum-type'', STATE_ENUM), (''state'', STATE),
      (''transition-function-args'', TRANSITION_CALLBACK_ARGS)]"

subsection \<open>Patterns\<close>

definition in_range :: "char \<Rightarrow> char \<Rightarrow> char \<Rightarrow> bool" where
  "in_range a b c \<longleftrightarrow> byte_of a \<le> byte_of c \<and> byte_of c \<le> byte_of b"

definition id_start :: "char \<Rightarrow> bool" where
  "id_start c \<longleftrightarrow> in_range (CHR ''a'') (CHR ''z'') c \<or> in_range (CHR ''A'') (CHR ''Z'') c \<or> c = CHR ''_''"

definition id_char :: "char \<Rightarrow> bool" where
  "id_char c \<longleftrightarrow> id_start c \<or> in_range (CHR ''0'') (CHR ''9'') c"

definition lex_hex :: "char \<Rightarrow> bool" where
  "lex_hex c \<longleftrightarrow> in_range (CHR ''0'') (CHR ''9'') c \<or> in_range (CHR ''a'') (CHR ''f'') c \<or> in_range (CHR ''A'') (CHR ''F'') c"

definition lit :: "string \<Rightarrow> string \<Rightarrow> nat" where
  "lit k s = (if take (length k) s = k then length k else 0)"

definition lex_white :: "string \<Rightarrow> nat" where
  "lex_white s = length (takeWhile (\<lambda>c. c = CHR '' '' \<or> c = CHR 0x09) s)"

definition lex_comment :: "string \<Rightarrow> nat" where
  "lex_comment s = (if s \<noteq> [] \<and> hd s = CHR ''#'' then length (takeWhile (\<lambda>c. c \<noteq> LF) s) else 0)"

definition lex_id :: "string \<Rightarrow> nat" where
  "lex_id s = (if s \<noteq> [] \<and> id_start (hd s) then length (takeWhile id_char s) else 0)"

definition lex_number :: "string \<Rightarrow> nat" where
  "lex_number s =
     max (length (takeWhile (in_range (CHR ''0'') (CHR ''9'')) s))
       (if take 2 s = ''0x'' \<and> drop 2 s \<noteq> [] \<and> lex_hex (hd (drop 2 s)) then 2 + length (takeWhile lex_hex (drop 2 s)) else 0)"

definition lex_dot :: "string \<Rightarrow> nat" where
  "lex_dot s = (if s \<noteq> [] \<and> hd s \<noteq> LF then 1 else 0)"

subsection \<open>Rules\<close>

datatype lex_action = Skip | Return "string \<Rightarrow> token" | Begin_banner

definition lex_rules :: "((string \<Rightarrow> nat) \<times> lex_action) list" where
  "lex_rules =
     [(lex_white, Skip), (lex_comment, Skip), (lit '','', Return (\<lambda>_. COMMA)), (lit ''->'', Return (\<lambda>_. MOVETO))] @
     map (\<lambda>(k, t). (lit k, Return (\<lambda>_. t))) lex_words @
     [(lex_id, Return ID), (lex_number, Return NUMBER), (lit [LF], Skip), (lex_dot, Return (\<lambda>s. Yytext (hd s))),
      (lit (''source-banner'' @ [LF]), Begin_banner)]"

text \<open>The longest match; the first rule among the longest.\<close>

fun longest :: "(nat \<times> lex_action) list \<Rightarrow> nat \<times> lex_action" where
  "longest [] = (0, Skip)"
| "longest ((n, a) # ms) = (case longest ms of (m, b) \<Rightarrow> if m \<le> n then (n, a) else (m, b))"

definition lex_match :: "string \<Rightarrow> nat \<times> lex_action" where
  "lex_match s = longest (map (\<lambda>(p, a). (p s, a)) lex_rules)"

lemma longest_ge: "(n, a) \<in> set ms \<Longrightarrow> n \<le> fst (longest ms)"
  by (induction ms) (auto split: prod.splits)

lemma lex_match_ge: "(p, a) \<in> set lex_rules \<Longrightarrow> p s \<le> fst (lex_match s)"
  unfolding lex_match_def by (rule longest_ge [of _ a]) force

lemma lex_match_pos: "s \<noteq> [] \<Longrightarrow> 0 < fst (lex_match s)"
proof -
  assume "s \<noteq> []"
  then have "lit [LF] s = 1 \<or> lex_dot s = 1" by (cases s) (auto simp: lit_def lex_dot_def)
  moreover have "lit [LF] s \<le> fst (lex_match s)" "lex_dot s \<le> fst (lex_match s)"
    by (rule lex_match_ge [of _ Skip], simp add: lex_rules_def) (rule lex_match_ge [of _ "Return (\<lambda>s. Yytext (hd s))"], simp add: lex_rules_def)
  ultimately show ?thesis by linarith
qed

lemma drop_shorter: "(n, a) = lex_match s \<Longrightarrow> s \<noteq> [] \<Longrightarrow> length s - n < length s"
  using lex_match_pos [of s] by (metis diff_less fst_conv length_greater_0_conv)

text \<open>The states \<open>INITIAL\<close> and \<open>BANNER\<close>; in the second a line without its end matches no rule.\<close>

function (sequential) yylex :: "string \<Rightarrow> token list" and yylex_banner :: "string \<Rightarrow> token list" where
  "yylex s =
     (if s = [] then []
      else
        (case lex_match s of
           (n, Skip) \<Rightarrow> yylex (drop n s)
         | (n, Return f) \<Rightarrow> f (take n s) # yylex (drop n s)
         | (n, Begin_banner) \<Rightarrow> BANNER_START # yylex_banner (drop n s)))"
| "yylex_banner s =
     (case split_at LF s of
        None \<Rightarrow> []
      | Some (l, s') \<Rightarrow>
          if l = ''end-source-banner'' then BANNER_END # yylex s'
          else BANNER_LINE (cstr (l @ [LF])) # yylex_banner s')"
  by pat_completeness auto

termination
proof (relation "measure (\<lambda>x. case x of Inl s \<Rightarrow> length s | Inr s \<Rightarrow> length s)", goal_cases)
  case (2 s n a) then show ?case by (simp add: drop_shorter)
next
  case (3 s n a f) then show ?case by (simp add: drop_shorter)
next
  case (4 s n a) then show ?case by (simp add: drop_shorter)
qed (auto simp: split_at_Some)

declare yylex.simps [simp del] yylex_banner.simps [simp del]

section \<open>The grammar\<close>

text \<open>Directives with one name, and directives with a list of arguments.\<close>

definition name_directive :: "token \<Rightarrow> (string \<Rightarrow> fsm_directive) option" where
  "name_directive t =
     (case t of
        STATE_ENUM \<Rightarrow> Some State_enum | EVENT_ENUM \<Rightarrow> Some Event_enum | FSM_STRUCT \<Rightarrow> Some Fsm_struct
      | CURRENT_STATE_FUNC \<Rightarrow> Some Current_state_func | INIT_FUNC \<Rightarrow> Some Init_func
      | FREE_FUNC \<Rightarrow> Some Free_func | ADVANCE_FUNC \<Rightarrow> Some Advance_func
      | STATE_NTOP_FUNC \<Rightarrow> Some State_ntop_func | EVENT_NTOP_FUNC \<Rightarrow> Some Event_ntop_func
      | STATE \<Rightarrow> Some State_decl | IGNORE_EVENT \<Rightarrow> Some Ignore_event
      | TRANSITION_ENTRY_CALLBACK \<Rightarrow> Some Entry_callback | TRANSITION_EXIT_CALLBACK \<Rightarrow> Some Exit_callback
      | TRANSITION_ENTRY_PRECOND \<Rightarrow> Some Entry_precond | TRANSITION_EXIT_PRECOND \<Rightarrow> Some Exit_precond
      | EVENT \<Rightarrow> Some Event_decl | EVENT_CALLBACK \<Rightarrow> Some Event_callback | EVENT_PRECOND \<Rightarrow> Some Event_precond
      | _ \<Rightarrow> None)"

definition args_directive :: "token \<Rightarrow> (cb_arg list \<Rightarrow> fsm_directive) option" where
  "args_directive t =
     (case t of
        EVENT_PRECOND_ARGS \<Rightarrow> Some Event_precond_args | TRANSITION_PRECOND_ARGS \<Rightarrow> Some Trans_precond_args
      | EVENT_CALLBACK_ARGS \<Rightarrow> Some Event_callback_args | TRANSITION_CALLBACK_ARGS \<Rightarrow> Some Trans_callback_args
      | _ \<Rightarrow> None)"

definition callback_arg :: "token \<Rightarrow> cb_arg option" where
  "callback_arg t =
     (case t of
        EVENT \<Rightarrow> Some Arg_event | NEW_STATE \<Rightarrow> Some Arg_new_state | OLD_STATE \<Rightarrow> Some Arg_old_state
      | CTX \<Rightarrow> Some Arg_ctx | _ \<Rightarrow> None)"

function callback_arglist :: "token list \<Rightarrow> (cb_arg list \<times> token list) option" where
  "callback_arglist [] = None"
| "callback_arglist (t # ts) =
     (case callback_arg t of
        None \<Rightarrow> None
      | Some a \<Rightarrow>
          if ts \<noteq> [] \<and> hd ts = COMMA then map_option (\<lambda>(as, r). (a # as, r)) (callback_arglist (tl ts))
          else Some ([a], ts))"
  by pat_completeness auto

termination
  by (relation "measure length") auto

definition callback_arguments :: "token list \<Rightarrow> (cb_arg list \<times> token list) option" where
  "callback_arguments ts = (if ts \<noteq> [] \<and> hd ts = NONE then Some ([], tl ts) else callback_arglist ts)"

definition take_id :: "token list \<Rightarrow> (string \<times> token list) option" where
  "take_id ts = (if ts = [] then None else case hd ts of ID x \<Rightarrow> Some (x, tl ts) | _ \<Rightarrow> None)"

definition on_event_names :: "token list \<Rightarrow> (fsm_directive \<times> token list) option" where
  "on_event_names ts =
     (case take_id ts of
        None \<Rightarrow> None
      | Some (e, ts1) \<Rightarrow>
          if ts1 \<noteq> [] \<and> hd ts1 = MOVETO then map_option (\<lambda>(s, r). (On_event e s, r)) (take_id (tl ts1)) else None)"

fun banner_text :: "token list \<Rightarrow> (string list \<times> token list) option" where
  "banner_text [] = None"
| "banner_text (t # ts) =
     (if t = BANNER_END then Some ([], ts)
      else case t of BANNER_LINE l \<Rightarrow> map_option (\<lambda>(ls, r). (l # ls, r)) (banner_text ts) | _ \<Rightarrow> None)"

definition parse_one :: "token \<Rightarrow> token list \<Rightarrow> (fsm_directive \<times> token list) option" where
  "parse_one t ts =
     (if t = INITIAL_STATE then Some (Initial_state, ts)
      else if t = EVENT_ADVANCE then on_event_names ts
      else if t = BANNER_START then map_option (\<lambda>(ls, r). (Banner ls, r)) (banner_text ts)
      else
        (case name_directive t of
           Some f \<Rightarrow> map_option (\<lambda>(x, r). (f x, r)) (take_id ts)
         | None \<Rightarrow>
             (case args_directive t of
                Some f \<Rightarrow> map_option (\<lambda>(as, r). (f as, r)) (callback_arguments ts)
              | None \<Rightarrow> None)))"

text \<open>Where yacc sees the end of the input.\<close>

definition ends_input :: "token \<Rightarrow> bool" where
  "ends_input t = (case t of Yytext c \<Rightarrow> c = NUL \<or> 128 \<le> byte_of c | _ \<Rightarrow> False)"

lemma callback_arglist_shorter: "callback_arglist ts = Some (as, r) \<Longrightarrow> length r < length ts"
proof (induction ts arbitrary: as r rule: callback_arglist.induct)
  case (2 t ts)
  then show ?case by (cases ts) (fastforce split: option.splits if_splits)+
qed simp

lemma banner_text_shorter: "banner_text ts = Some (ls, r) \<Longrightarrow> length r < length ts"
  by (induction ts arbitrary: ls r) (fastforce split: token.splits if_splits)+

lemma take_id_shorter: "take_id ts = Some (x, r) \<Longrightarrow> ts = ID x # r"
  by (cases ts) (auto simp: take_id_def split: token.splits)

lemma parse_one_shorter: "parse_one t ts = Some (d, r) \<Longrightarrow> length r \<le> length ts"
proof -
  have "callback_arguments ts = Some (as, r) \<Longrightarrow> length r \<le> length ts" for as
    using callback_arglist_shorter [of ts as r] by (auto simp: callback_arguments_def split: if_splits)
  moreover have "on_event_names ts = Some (d, r) \<Longrightarrow> length r \<le> length ts"
    by (auto simp: on_event_names_def neq_Nil_conv split: option.splits if_splits dest!: take_id_shorter)
  ultimately show "parse_one t ts = Some (d, r) \<Longrightarrow> length r \<le> length ts"
    using banner_text_shorter [of ts _ r]
    by (auto simp: parse_one_def split: if_splits option.splits dest!: take_id_shorter)
qed

function parse_directives :: "token list \<Rightarrow> fsm_directive list option" where
  "parse_directives [] = Some []"
| "parse_directives (t # ts) =
     (if ends_input t then Some []
      else
        (case parse_one t ts of
           None \<Rightarrow> None
         | Some (d, r) \<Rightarrow> map_option ((#) d) (parse_directives r)))"
  by pat_completeness auto

termination
  by (relation "measure length") (auto dest!: parse_one_shorter)

definition yyparse :: "bytes \<Rightarrow> fsm_directive list option" where
  "yyparse input = parse_directives (yylex input)"


end
