(* ===== verification/CfsmRead.thy ===== *)
theory CfsmRead
  imports CfsmLex
begin

text \<open>
  What the lexer and the parser of \<open>CfsmLex\<close> make of a text: every list of directives with proper
  names is read back from its printed form, one directive per line, and a byte above 127 ends the
  input wherever it stands between two directives. Whatever is parsed, its names hold no NUL.

  The lexer is followed word by word: a word that ends before a blank, a comma or a line feed is the
  longest match, of its keyword or of \<open>id\<close>.
\<close>

section \<open>Lexing a word\<close>

lemma longest_le: "\<forall>(m, b) \<in> set ms. m \<le> n \<Longrightarrow> fst (longest ms) \<le> n"
  by (induction ms) (auto split: prod.splits)

lemma longest_pick:
  assumes "\<forall>(m, b) \<in> set xs. m < n" and "\<forall>(m, b) \<in> set ys. m \<le> n"
  shows "longest (xs @ (n, a) # ys) = (n, a)"
  using assms(1)
proof (induction xs)
  case Nil
  then show ?case using longest_le [OF assms(2)] by (auto split: prod.splits)
qed (auto split: prod.splits)

text \<open>A keyword cannot reach beyond a character it does not have.\<close>

lemma lit_within:
  assumes "c \<notin> set k"
  shows "lit k (w @ c # r) \<le> length w" and "w \<noteq> [] \<Longrightarrow> k \<noteq> w \<Longrightarrow> lit k (w @ c # r) = length w \<Longrightarrow> False"
proof -
  have le: "length k \<le> length w" if "take (length k) (w @ c # r) = k"
  proof (rule ccontr)
    assume a: "\<not> length k \<le> length w"
    then have w: "length w < length k" by simp
    have "k ! length w = take (length k) (w @ c # r) ! length w"
      by (rule arg_cong [OF that [symmetric], of "\<lambda>k. k ! length w"])
    also have "\<dots> = c" using w by (simp add: nth_append)
    finally have "c \<in> set k" using nth_mem [OF w] by (rule subst)
    with assms show False by contradiction
  qed
  then show "lit k (w @ c # r) \<le> length w" unfolding lit_def by presburger
  assume "w \<noteq> []" "k \<noteq> w" "lit k (w @ c # r) = length w"
  then have t: "take (length k) (w @ c # r) = k" and l: "length k = length w"
    unfolding lit_def by (metis length_0_conv)+
  have "take (length w) (w @ c # r) = w" by simp
  with t l \<open>k \<noteq> w\<close> show False by argo
qed

definition ends_word :: "char \<Rightarrow> bool" where
  "ends_word c \<longleftrightarrow> c = CHR '' '' \<or> c = CHR '','' \<or> c = LF"

lemma words_facts:
  "list_all (\<lambda>(k, t). k \<noteq> [] \<and> id_start (hd k) \<and> list_all (\<lambda>c. id_char c \<or> c = CHR ''-'') k) lex_words"
  "distinct (map fst lex_words)" "''source-banner'' \<notin> fst ` set lex_words"
  by code_simp+

lemma not_ends_word:
  "id_char c \<or> c = CHR ''-'' \<Longrightarrow> \<not> ends_word c" "\<not> id_char (CHR ''-'')" "ends_word c \<Longrightarrow> \<not> id_char c"
  "id_start c \<Longrightarrow> id_char c" "\<not> id_char LF"
  "id_start c \<Longrightarrow> c \<notin> {CHR '' '', CHR 0x09, CHR ''#'', CHR '','', CHR ''-'', LF} \<and> \<not> in_range (CHR ''0'') (CHR ''9'') c"
  by (auto simp: ends_word_def id_char_def id_start_def in_range_def byte_of_def)

lemma word_keys: "(k, t) \<in> set lex_words \<Longrightarrow> ends_word c \<Longrightarrow> c \<notin> set k"
  using words_facts(1) not_ends_word(1) by (fastforce simp: list_all_iff)

lemma words_id: "(w, t) \<in> set lex_words \<Longrightarrow> w \<noteq> [] \<and> id_start (hd w) \<and> LF \<notin> set w \<and> w \<noteq> ''source-banner''"
  using words_facts not_ends_word(5) by (fastforce simp: list_all_iff image_iff)

text \<open>The patterns around the words.\<close>

lemma lit_other: "w \<noteq> [] \<Longrightarrow> k \<noteq> [] \<Longrightarrow> hd k \<noteq> hd w \<Longrightarrow> lit k (w @ r) = 0"
  by (cases w; cases k) (auto simp: lit_def)

lemma takeWhile_upto: "\<forall>x \<in> set w. P x \<Longrightarrow> \<not> P c \<Longrightarrow> takeWhile P (w @ c # r) = w"
  by (induction w) auto

lemma lex_id_le: "ends_word c \<Longrightarrow> lex_id (w @ c # r) \<le> length w"
proof -
  assume c: "ends_word c"
  have "length (takeWhile id_char (w @ c # r)) \<le> length w" using not_ends_word(3) [OF c] by (induction w) auto
  then show ?thesis by (simp add: lex_id_def)
qed

lemma lit_gt: "\<not> lit k s \<le> n \<Longrightarrow> take (length k) s = k \<and> n < length k"
  by (simp add: lit_def split: if_splits)

lemma take_longer: "take (length (b @ x)) s = b @ x \<Longrightarrow> take (length b) s = b"
  by (metis append_eq_conv_conj length_append take_add take_all_iff le_add1 append_take_drop_id append.assoc)

lemma lit_last:
  assumes "w \<noteq> b" and "c \<notin> set b"
  shows "lit (b @ [l]) (w @ c # r) \<le> length w"
proof (rule ccontr)
  assume "\<not> lit (b @ [l]) (w @ c # r) \<le> length w"
  then have p: "take (length (b @ [l])) (w @ c # r) = b @ [l]" and "length w < length (b @ [l])"
    using lit_gt by blast+
  then have w: "length w \<le> length b" by simp
  have b: "take (length b) (w @ c # r) = b" by (rule take_longer [OF p])
  have "w = b" if "length w = length b" using b that by simp
  moreover have "c \<in> set b" if "length w < length b"
  proof -
    have "b ! length w = take (length b) (w @ c # r) ! length w"
      by (rule arg_cong [OF b [symmetric], of "\<lambda>k. k ! length w"])
    then show ?thesis using nth_mem [OF that] that by (simp only: nth_take nth_append_length)
  qed
  ultimately show False using w assms by linarith
qed

lemma number_none: "w \<noteq> [] \<Longrightarrow> id_start (hd w) \<Longrightarrow> lex_number (w @ r) = 0"
  by (cases w) (auto simp: lex_number_def id_start_def in_range_def byte_of_def)

text \<open>All rules but the keywords at a word: those before, \<open>lex_id\<close>, and those after.\<close>

definition word_like :: "string \<Rightarrow> bool" where
  "word_like w \<longleftrightarrow> w \<noteq> [] \<and> id_start (hd w) \<and> LF \<notin> set w \<and> w \<noteq> ''source-banner''"

lemma lex_match_word:
  assumes "word_like w" and "ends_word c"
  shows "\<exists>ys. (\<forall>(m, b) \<in> set ys. m \<le> length w) \<and>
    lex_match (w @ c # r) =
      longest ([(0, Skip), (0, Skip), (0, Return (\<lambda>_. COMMA)), (0, Return (\<lambda>_. MOVETO))] @
        map (\<lambda>(k, t). (lit k (w @ c # r), Return (\<lambda>_. t))) lex_words @ (lex_id (w @ c # r), Return ID) # ys)"
proof -
  let ?s = "w @ c # r"
  obtain x w' where x: "w = x # w'" using assms(1) by (cases w) (auto simp: word_like_def)
  note h = not_ends_word(6) [of x]
  have front: "lex_white ?s = 0" "lex_comment ?s = 0" "lit '','' ?s = 0" "lit ''->'' ?s = 0"
    "lex_number ?s = 0" "lit [LF] ?s = 0"
    using assms(1) h unfolding x
    by (simp_all add: word_like_def lex_white_def lex_comment_def lit_def number_none [of "x # w'", simplified])
  have "lex_dot ?s \<le> length w" unfolding x by (simp add: lex_dot_def)
  moreover have "lit (''source-banner'' @ [LF]) ?s \<le> length w"
    by (rule lit_last) (use assms in \<open>auto simp: word_like_def ends_word_def\<close>)
  ultimately show ?thesis
    by (intro exI [of _ "[(0, Return NUMBER), (0, Skip), (lex_dot ?s, Return (\<lambda>s. Yytext (hd s))),
        (lit (''source-banner'' @ [LF]) ?s, Begin_banner)]"])
      (simp add: lex_match_def lex_rules_def front comp_def case_prod_unfold)
qed

lemma keyword_le: "(k, t) \<in> set lex_words \<Longrightarrow> ends_word c \<Longrightarrow> lit k (w @ c # r) \<le> length w"
  by (rule lit_within(1)) (rule word_keys)

lemma keyword_less:
  assumes "(k, t) \<in> set lex_words" and "ends_word c" and "k \<noteq> w" and "w \<noteq> []"
  shows "lit k (w @ c # r) < length w"
  using lit_within [OF word_keys [OF assms(1,2)], of w r] assms(3,4) by fastforce

lemma lex_word:
  assumes "(w, t) \<in> set lex_words" and "ends_word c"
  shows "lex_match (w @ c # r) = (length w, Return (\<lambda>_. t))"
proof -
  note w = words_id [OF assms(1)]
  from split_list [OF assms(1)] obtain p q where pq: "lex_words = p @ (w, t) # q" by blast
  have ne: "k \<noteq> w" if "(k, u) \<in> set p" for k u
    using words_facts(2) that unfolding pq by force
  have before: "lit k (w @ c # r) < length w" if "(k, u) \<in> set p" for k u
  proof -
    have "(k, u) \<in> set lex_words" using that unfolding pq by simp
    from keyword_less [OF this assms(2) ne [OF that]] w show ?thesis by blast
  qed
  have after: "lit k (w @ c # r) \<le> length w" if "(k, u) \<in> set q" for k u
    by (rule keyword_le [OF _ assms(2), of k u]) (use that in \<open>unfold pq, simp\<close>)
  have self: "lit w (w @ c # r) = length w" by (simp add: lit_def)
  from lex_match_word [of w c r] w assms(2) obtain ys where ys: "\<forall>(m, b) \<in> set ys. m \<le> length w"
    "lex_match (w @ c # r) =
      longest ([(0, Skip), (0, Skip), (0, Return (\<lambda>_. COMMA)), (0, Return (\<lambda>_. MOVETO))] @
        map (\<lambda>(k, t). (lit k (w @ c # r), Return (\<lambda>_. t))) lex_words @ (lex_id (w @ c # r), Return ID) # ys)"
    unfolding word_like_def by blast
  let ?m = "map (\<lambda>(k, t). (lit k (w @ c # r), Return (\<lambda>_. t)))"
  have "lex_match (w @ c # r) =
      longest (([(0, Skip), (0, Skip), (0, Return (\<lambda>_. COMMA)), (0, Return (\<lambda>_. MOVETO))] @ ?m p) @
        (length w, Return (\<lambda>_. t)) # (?m q @ (lex_id (w @ c # r), Return ID) # ys))"
    unfolding ys(2) pq by (simp add: self)
  also have "\<dots> = (length w, Return (\<lambda>_. t))"
  proof (rule longest_pick)
    show "\<forall>(m, b) \<in> set ([(0, Skip), (0, Skip), (0, Return (\<lambda>_. COMMA)), (0, Return (\<lambda>_. MOVETO))] @ ?m p). m < length w"
      using before w by auto
    show "\<forall>(m, b) \<in> set (?m q @ (lex_id (w @ c # r), Return ID) # ys). m \<le> length w"
      using after ys(1) lex_id_le [OF assms(2), of w r] by auto
  qed
  finally show ?thesis .
qed

definition is_id :: "string \<Rightarrow> bool" where
  "is_id s \<longleftrightarrow> s \<noteq> [] \<and> id_start (hd s) \<and> list_all id_char s \<and> s \<notin> fst ` set lex_words"

lemma lex_name:
  assumes "is_id w" and "ends_word c"
  shows "lex_match (w @ c # r) = (length w, Return ID)"
proof -
  have w: "word_like w" using assms(1) not_ends_word(2,5) by (auto simp: is_id_def word_like_def list_all_iff)
  have self: "lex_id (w @ c # r) = length w"
    using assms(1) takeWhile_upto [of w id_char c r] not_ends_word(3) [OF assms(2)]
    by (cases w) (auto simp: is_id_def lex_id_def list_all_iff)
  from lex_match_word [OF w assms(2), of r] obtain ys where ys: "\<forall>(m, b) \<in> set ys. m \<le> length w"
    "lex_match (w @ c # r) =
      longest (([(0, Skip), (0, Skip), (0, Return (\<lambda>_. COMMA)), (0, Return (\<lambda>_. MOVETO))] @
        map (\<lambda>(k, t). (lit k (w @ c # r), Return (\<lambda>_. t))) lex_words) @ (lex_id (w @ c # r), Return ID) # ys)"
    by auto
  have "\<forall>(m, b) \<in> set ([(0, Skip), (0, Skip), (0, Return (\<lambda>_. COMMA)), (0, Return (\<lambda>_. MOVETO))] @
        map (\<lambda>(k, t). (lit k (w @ c # r), Return (\<lambda>_. t))) lex_words). m < length w"
    using keyword_less [of _ _ c w r] assms by (force simp: is_id_def)
  from longest_pick [OF this ys(1)] ys(2) self show ?thesis by simp
qed

section \<open>Separators\<close>

lemma lex_separators:
  "lex_match (LF # r) = (1, Skip)" "lex_match (CHR '','' # r) = (1, Return (\<lambda>_. COMMA))"
  "lex_match (''->'' @ r) = (2, Return (\<lambda>_. MOVETO))"
  by (simp_all add: lex_match_def lex_rules_def lex_words_def lex_white_def lex_comment_def lit_def lex_id_def id_start_def
      in_range_def byte_of_def lex_number_def lex_dot_def)

lemma lex_blank: "x \<noteq> CHR '' '' \<Longrightarrow> x \<noteq> CHR 0x09 \<Longrightarrow> lex_match (CHR '' '' # x # r) = (1, Skip)"
  by (simp add: lex_match_def lex_rules_def lex_words_def lex_white_def lex_comment_def lit_def lex_id_def id_start_def
      in_range_def byte_of_def lex_number_def lex_dot_def)

section \<open>Reading a line\<close>

lemma yylex_match:
  "s \<noteq> [] \<Longrightarrow> lex_match s = (n, Return f) \<Longrightarrow> yylex s = f (take n s) # yylex (drop n s)"
  "s \<noteq> [] \<Longrightarrow> lex_match s = (n, Skip) \<Longrightarrow> yylex s = yylex (drop n s)"
  "s \<noteq> [] \<Longrightarrow> lex_match s = (n, Begin_banner) \<Longrightarrow> yylex s = BANNER_START # yylex_banner (drop n s)"
  by (subst yylex.simps; simp)+

lemma yylex_word: "(w, t) \<in> set lex_words \<Longrightarrow> ends_word c \<Longrightarrow> yylex (w @ c # r) = t # yylex (c # r)"
  using yylex_match(1) [OF _ lex_word] by simp

lemma yylex_name: "is_id w \<Longrightarrow> ends_word c \<Longrightarrow> yylex (w @ c # r) = ID w # yylex (c # r)"
  using yylex_match(1) [OF _ lex_name] by simp

lemma yylex_separators:
  "yylex (LF # r) = yylex r" "yylex (CHR '','' # r) = COMMA # yylex r" "yylex (CHR ''-'' # CHR ''>'' # r) = MOVETO # yylex r"
  using yylex_match(2) [OF _ lex_separators(1), of r] yylex_match(1) [OF _ lex_separators(2), of r]
    yylex_match(1) [OF _ lex_separators(3), of r]
  by simp_all

lemma yylex_blank: "x \<noteq> CHR '' '' \<Longrightarrow> x \<noteq> CHR 0x09 \<Longrightarrow> yylex (CHR '' '' # x # r) = yylex (x # r)"
  using yylex_match(2) [OF _ lex_blank] by simp

lemma ends_word_simps [simp]: "ends_word (CHR '' '')" "ends_word (CHR '','')" "ends_word LF"
  by (simp_all add: ends_word_def)

lemma yylex_blank_word: "w \<noteq> [] \<Longrightarrow> id_start (hd w) \<Longrightarrow> yylex (CHR '' '' # w @ r) = yylex (w @ r)"
  by (cases w) (auto intro!: yylex_blank dest: not_ends_word(6))

section \<open>Printing\<close>

definition print_line :: "string \<Rightarrow> string \<Rightarrow> string" where
  "print_line k x = k @ CHR '' '' # x @ [LF]"

definition arg_word :: "cb_arg \<Rightarrow> string" where
  "arg_word a =
     (case a of Arg_event \<Rightarrow> ''event'' | Arg_new_state \<Rightarrow> ''new-state'' | Arg_old_state \<Rightarrow> ''old-state'' | Arg_ctx \<Rightarrow> ''ctx'')"

fun print_args :: "cb_arg list \<Rightarrow> string" where
  "print_args [] = ''none''"
| "print_args [a] = arg_word a"
| "print_args (a # as) = arg_word a @ CHR '','' # print_args as"

definition name_line :: "fsm_directive \<Rightarrow> (string \<times> string) option" where
  "name_line d =
     (case d of
        State_enum x \<Rightarrow> Some (''state-enum-type'', x) | Event_enum x \<Rightarrow> Some (''event-enum-type'', x)
      | Fsm_struct x \<Rightarrow> Some (''fsm-struct-type'', x) | Current_state_func x \<Rightarrow> Some (''current-state-function'', x)
      | Init_func x \<Rightarrow> Some (''initialise-function'', x) | Free_func x \<Rightarrow> Some (''free-function'', x)
      | Advance_func x \<Rightarrow> Some (''advance-function'', x) | State_ntop_func x \<Rightarrow> Some (''state-enum-to-string-function'', x)
      | Event_ntop_func x \<Rightarrow> Some (''event-enum-to-string-function'', x) | State_decl x \<Rightarrow> Some (''state'', x)
      | Ignore_event x \<Rightarrow> Some (''ignore-event'', x) | Entry_callback x \<Rightarrow> Some (''onentry-func'', x)
      | Exit_callback x \<Rightarrow> Some (''onexit-func'', x) | Entry_precond x \<Rightarrow> Some (''entry-precondition'', x)
      | Exit_precond x \<Rightarrow> Some (''exit-precondition'', x) | Event_decl x \<Rightarrow> Some (''event'', x)
      | Event_callback x \<Rightarrow> Some (''event-callback'', x) | Event_precond x \<Rightarrow> Some (''event-precondition'', x)
      | _ \<Rightarrow> None)"

definition args_line :: "fsm_directive \<Rightarrow> (string \<times> cb_arg list) option" where
  "args_line d =
     (case d of
        Event_precond_args as \<Rightarrow> Some (''event-precondition-args'', as)
      | Trans_precond_args as \<Rightarrow> Some (''precondition-function-args'', as)
      | Event_callback_args as \<Rightarrow> Some (''event-callback-args'', as)
      | Trans_callback_args as \<Rightarrow> Some (''transition-function-args'', as)
      | _ \<Rightarrow> None)"

definition print_directive :: "fsm_directive \<Rightarrow> string" where
  "print_directive d =
     (case (name_line d, args_line d, d) of
        (Some (k, x), _, _) \<Rightarrow> print_line k x
      | (None, Some (k, as), _) \<Rightarrow> print_line k (print_args as)
      | (None, None, On_event e s) \<Rightarrow> print_line ''on-event'' (e @ '' -> '' @ s)
      | (None, None, Banner ls) \<Rightarrow> ''source-banner'' @ LF # concat ls @ ''end-source-banner'' @ [LF]
      | _ \<Rightarrow> ''initial-state'' @ [LF])"

definition banner_line :: "string \<Rightarrow> bool" where
  "banner_line l \<longleftrightarrow> (\<exists>t. l = t @ [LF] \<and> LF \<notin> set t \<and> NUL \<notin> set t \<and> t \<noteq> ''end-source-banner'')"

definition printable :: "fsm_directive \<Rightarrow> bool" where
  "printable d \<longleftrightarrow>
     (case name_line d of
        Some (k, x) \<Rightarrow> is_id x
      | None \<Rightarrow> (case d of On_event e s \<Rightarrow> is_id e \<and> is_id s | Banner ls \<Rightarrow> \<forall>l \<in> set ls. banner_line l | _ \<Rightarrow> True))"

section \<open>What is printed is read back\<close>

text \<open>The keywords as a map.\<close>

lemma words_map:
  "map_of lex_words ''advance-function'' = Some ADVANCE_FUNC"
  "map_of lex_words ''ctx'' = Some CTX"
  "map_of lex_words ''current-state-function'' = Some CURRENT_STATE_FUNC"
  "map_of lex_words ''entry-precondition'' = Some TRANSITION_ENTRY_PRECOND"
  "map_of lex_words ''event-callback-args'' = Some EVENT_CALLBACK_ARGS"
  "map_of lex_words ''event-callback'' = Some EVENT_CALLBACK"
  "map_of lex_words ''event-enum-to-string-function'' = Some EVENT_NTOP_FUNC"
  "map_of lex_words ''event-enum-type'' = Some EVENT_ENUM"
  "map_of lex_words ''event-precondition-args'' = Some EVENT_PRECOND_ARGS"
  "map_of lex_words ''event-precondition'' = Some EVENT_PRECOND"
  "map_of lex_words ''event'' = Some EVENT"
  "map_of lex_words ''exit-precondition'' = Some TRANSITION_EXIT_PRECOND"
  "map_of lex_words ''free-function'' = Some FREE_FUNC"
  "map_of lex_words ''fsm-struct-type'' = Some FSM_STRUCT"
  "map_of lex_words ''ignore-event'' = Some IGNORE_EVENT"
  "map_of lex_words ''initialise-function'' = Some INIT_FUNC"
  "map_of lex_words ''initial-state'' = Some INITIAL_STATE"
  "map_of lex_words ''new-state'' = Some NEW_STATE"
  "map_of lex_words ''next-state'' = Some NEXT_STATE"
  "map_of lex_words ''none'' = Some NONE"
  "map_of lex_words ''old-state'' = Some OLD_STATE"
  "map_of lex_words ''onentry-func'' = Some TRANSITION_ENTRY_CALLBACK"
  "map_of lex_words ''on-event'' = Some EVENT_ADVANCE"
  "map_of lex_words ''onexit-func'' = Some TRANSITION_EXIT_CALLBACK"
  "map_of lex_words ''precondition-function-args'' = Some TRANSITION_PRECOND_ARGS"
  "map_of lex_words ''state-enum-to-string-function'' = Some STATE_NTOP_FUNC"
  "map_of lex_words ''state-enum-type'' = Some STATE_ENUM"
  "map_of lex_words ''state'' = Some STATE"
  "map_of lex_words ''transition-function-args'' = Some TRANSITION_CALLBACK_ARGS"
  by code_simp+

lemma name_line_read:
  assumes "name_line d = Some (k, x)"
  shows "\<exists>t f. map_of lex_words k = Some t \<and> name_directive t = Some f \<and> f x = d \<and>
    t \<noteq> INITIAL_STATE \<and> t \<noteq> EVENT_ADVANCE \<and> t \<noteq> BANNER_START \<and> \<not> ends_input t"
  using assms
  by (cases d) (auto simp: name_line_def words_map name_directive_def ends_input_def)

lemma args_line_read:
  assumes "args_line d = Some (k, as)"
  shows "\<exists>t f. map_of lex_words k = Some t \<and> name_directive t = None \<and> args_directive t = Some f \<and> f as = d \<and>
    t \<noteq> INITIAL_STATE \<and> t \<noteq> EVENT_ADVANCE \<and> t \<noteq> BANNER_START \<and> \<not> ends_input t"
  using assms
  by (cases d) (auto simp: args_line_def words_map name_directive_def args_directive_def ends_input_def)

lemma arg_word_read: "\<exists>t. map_of lex_words (arg_word a) = Some t \<and> callback_arg t = Some a \<and> t \<noteq> NONE"
  by (cases a) (simp_all add: arg_word_def words_map callback_arg_def)

lemma word_starts: "map_of lex_words k = Some t \<Longrightarrow> k \<noteq> [] \<and> id_start (hd k)"
  using words_id map_of_SomeD by fastforce

lemma yylex_keyword: "map_of lex_words k = Some t \<Longrightarrow> ends_word c \<Longrightarrow> yylex (k @ c # r) = t # yylex (c # r)"
  by (rule yylex_word [OF map_of_SomeD])

lemma yylex_blank_name: "is_id x \<Longrightarrow> ends_word c \<Longrightarrow> yylex (CHR '' '' # x @ c # r) = ID x # yylex (c # r)"
  using yylex_blank_word [of x] yylex_name by (simp add: is_id_def)

text \<open>What follows must not go on with a comma.\<close>

definition no_comma :: "string \<Rightarrow> bool" where
  "no_comma r \<longleftrightarrow> yylex r = [] \<or> hd (yylex r) \<noteq> COMMA"

lemma args_read:
  assumes "no_comma r" and "as \<noteq> []"
  shows "callback_arglist (yylex (print_args as @ LF # r)) = Some (as, yylex r) \<and>
    (\<exists>t ts. yylex (print_args as @ LF # r) = t # ts \<and> t \<noteq> NONE)"
  using assms(2)
proof (induction "as" rule: print_args.induct)
  case (2 a)
  obtain t where t: "map_of lex_words (arg_word a) = Some t" "callback_arg t = Some a" "t \<noteq> NONE"
    using arg_word_read by blast
  have "yylex (arg_word a @ LF # r) = t # yylex r"
    using yylex_keyword [OF t(1), of LF r] by (simp add: yylex_separators)
  with t(2,3) assms(1) show ?case by (auto simp: no_comma_def)
next
  case (3 a b "as")
  obtain t where t: "map_of lex_words (arg_word a) = Some t" "callback_arg t = Some a" "t \<noteq> NONE"
    using arg_word_read by blast
  have "yylex (print_args (a # b # as) @ LF # r) = t # COMMA # yylex (print_args (b # as) @ LF # r)"
    using yylex_keyword [OF t(1), of "CHR '',''"] by (simp add: yylex_separators)
  with t(2,3) 3 show ?case by simp
qed simp

lemma print_args_starts: "print_args as \<noteq> [] \<and> id_start (hd (print_args as))"
proof (cases "as" rule: print_args.cases)
  case 1
  then show ?thesis by (simp add: id_start_def in_range_def byte_of_def)
next
  case (2 a)
  then show ?thesis using arg_word_read [of a] word_starts by auto
next
  case (3 a b cs)
  then show ?thesis using arg_word_read [of a] word_starts [of "arg_word a"] by auto
qed

lemma args_line_tokens:
  assumes "no_comma r" and "map_of lex_words k = Some t"
  shows "\<exists>ts. yylex (print_line k (print_args as) @ r) = t # ts \<and> callback_arguments ts = Some (as, yylex r)"
proof -
  have "yylex (print_line k (print_args as) @ r) = t # yylex (print_args as @ LF # r)"
    using yylex_keyword [OF assms(2), of "CHR '' ''"] yylex_blank_word [of "print_args as"] print_args_starts
    by (simp add: print_line_def)
  moreover have "callback_arguments (yylex (print_args as @ LF # r)) = Some (as, yylex r)"
  proof (cases "as = []")
    case True
    then show ?thesis using yylex_keyword [OF words_map(20), of LF r]
      by (simp add: callback_arguments_def yylex_separators)
  next
    case False
    from args_read [OF assms(1) False] show ?thesis by (auto simp: callback_arguments_def)
  qed
  ultimately show ?thesis by blast
qed

lemma name_line_tokens:
  assumes "map_of lex_words k = Some t" and "is_id x"
  shows "yylex (print_line k x @ r) = t # ID x # yylex r"
  using yylex_keyword [OF assms(1), of "CHR '' ''"] yylex_blank_name [OF assms(2), of LF r]
  by (simp add: print_line_def yylex_separators)

lemma on_event_tokens:
  assumes "is_id e" and "is_id s"
  shows "yylex (print_line ''on-event'' (e @ '' -> '' @ s) @ r) = EVENT_ADVANCE # ID e # MOVETO # ID s # yylex r"
proof -
  have "map_of lex_words ''on-event'' = Some EVENT_ADVANCE" by (simp only: words_map)
  from yylex_keyword [OF this, of "CHR '' ''"] yylex_blank_name [OF assms(1), of "CHR '' ''"]
    yylex_blank_name [OF assms(2), of LF r] yylex_blank [of "CHR ''-''"]
  show ?thesis by (simp add: print_line_def yylex_separators)
qed

lemma lex_banner_start: "lex_match (''source-banner'' @ LF # r) = (14, Begin_banner)"
  by (simp add: lex_match_def lex_rules_def lex_words_def lex_white_def lex_comment_def lit_def lex_id_def id_start_def
      in_range_def byte_of_def lex_number_def lex_dot_def id_char_def)

lemma banner_tokens:
  assumes "\<forall>l \<in> set ls. banner_line l"
  shows "banner_text (yylex_banner (concat ls @ ''end-source-banner'' @ LF # r)) = Some (ls, yylex r)"
  using assms
proof (induction ls)
  case Nil
  have "split_at LF (''end-source-banner'' @ LF # r) = Some (''end-source-banner'', r)" by (rule split_at_append) simp
  then show ?case by (subst yylex_banner.simps) simp
next
  case (Cons l ls)
  then obtain t where t: "l = t @ [LF]" "LF \<notin> set t" "NUL \<notin> set t" "t \<noteq> ''end-source-banner''"
    by (auto simp: banner_line_def)
  have "split_at LF (concat (l # ls) @ ''end-source-banner'' @ LF # r) = Some (t, concat ls @ ''end-source-banner'' @ LF # r)"
    unfolding t(1) using split_at_append [OF t(2)] by simp
  moreover have "cstr (t @ [LF]) = t @ [LF]" using t(3) by (intro cstr_id) auto
  ultimately show ?case using Cons t(1,4) by (subst yylex_banner.simps) simp
qed

lemma name_directive_read:
  assumes "name_line d = Some (k, x)" and "is_id x"
  shows "\<exists>t ts. yylex (print_directive d @ r) = t # ts \<and> t \<noteq> COMMA \<and> \<not> ends_input t \<and> parse_one t ts = Some (d, yylex r)"
proof -
  from name_line_read [OF assms(1)] obtain t f where
    t: "map_of lex_words k = Some t" "name_directive t = Some f" "f x = d" "t \<noteq> INITIAL_STATE" "t \<noteq> EVENT_ADVANCE"
    "t \<noteq> BANNER_START" "\<not> ends_input t" by blast
  have "t \<noteq> COMMA" using t(2) by (auto simp: name_directive_def)
  moreover have "yylex (print_directive d @ r) = t # ID x # yylex r"
    using name_line_tokens [OF t(1) assms(2)] assms(1) by (simp add: print_directive_def)
  ultimately show ?thesis using t by (simp add: parse_one_def take_id_def)
qed

lemma args_directive_read:
  assumes "name_line d = None" and "args_line d = Some (k, as)" and "no_comma r"
  shows "\<exists>t ts. yylex (print_directive d @ r) = t # ts \<and> t \<noteq> COMMA \<and> \<not> ends_input t \<and> parse_one t ts = Some (d, yylex r)"
proof -
  from args_line_read [OF assms(2)] obtain t f where
    t: "map_of lex_words k = Some t" "name_directive t = None" "args_directive t = Some f" "f as = d" "t \<noteq> INITIAL_STATE"
    "t \<noteq> EVENT_ADVANCE" "t \<noteq> BANNER_START" "\<not> ends_input t" by blast
  have "t \<noteq> COMMA" using t(3) by (auto simp: args_directive_def)
  moreover obtain ts where "yylex (print_directive d @ r) = t # ts" "callback_arguments ts = Some (as, yylex r)"
    using args_line_tokens [OF assms(3) t(1), of "as"] assms(1,2) by (auto simp: print_directive_def)
  ultimately show ?thesis using t by (simp add: parse_one_def)
qed

lemma other_directive_read:
  assumes "name_line d = None" and "args_line d = None" and "printable d"
  shows "\<exists>t ts. yylex (print_directive d @ r) = t # ts \<and> t \<noteq> COMMA \<and> \<not> ends_input t \<and> parse_one t ts = Some (d, yylex r)"
proof -
  from assms(1,2) consider "d = Initial_state" | e s where "d = On_event e s" | ls where "d = Banner ls"
    by (cases d) (auto simp: name_line_def args_line_def)
  then show ?thesis
  proof cases
    case 1
    have "map_of lex_words ''initial-state'' = Some INITIAL_STATE" by (simp only: words_map)
    from yylex_keyword [OF this, of LF r] 1 show ?thesis
      by (simp add: print_directive_def name_line_def args_line_def yylex_separators ends_input_def parse_one_def)
  next
    case (2 e s)
    with assms(3) have "is_id e" "is_id s" by (simp_all add: printable_def name_line_def)
    from on_event_tokens [OF this, of r] 2 show ?thesis
      by (simp add: print_directive_def name_line_def args_line_def ends_input_def parse_one_def on_event_names_def take_id_def)
  next
    case (3 ls)
    with assms(3) have "\<forall>l \<in> set ls. banner_line l" by (simp add: printable_def name_line_def)
    from banner_tokens [OF this, of r] yylex_match(3) [OF _ lex_banner_start, of "concat ls @ ''end-source-banner'' @ LF # r"] 3
    show ?thesis by (simp add: print_directive_def name_line_def args_line_def ends_input_def parse_one_def)
  qed
qed

lemma parsed_directive:
  assumes "printable d" and "no_comma r"
  shows "parse_directives (yylex (print_directive d @ r)) = map_option ((#) d) (parse_directives (yylex r)) \<and>
    no_comma (print_directive d @ r)"
proof -
  have "\<exists>t ts. yylex (print_directive d @ r) = t # ts \<and> t \<noteq> COMMA \<and> \<not> ends_input t \<and> parse_one t ts = Some (d, yylex r)"
  proof (cases "name_line d")
    case (Some kx)
    with assms(1) name_directive_read [of d "fst kx" "snd kx" r] show ?thesis
      by (simp add: printable_def case_prod_unfold)
  next
    case None
    then show ?thesis
      using args_directive_read [OF None _ assms(2)] other_directive_read [OF None _ assms(1)] by (cases "args_line d") auto
  qed
  then show ?thesis by (auto simp: no_comma_def)
qed

lemma parsed_directives:
  assumes "\<forall>d \<in> set ds. printable d" and "no_comma r"
  shows "parse_directives (yylex (concat (map print_directive ds) @ r)) = map_option (append ds) (parse_directives (yylex r)) \<and>
    no_comma (concat (map print_directive ds) @ r)"
  using assms(1)
proof (induction ds)
  case (Cons d ds)
  with parsed_directive [of d "concat (map print_directive ds) @ r"] show ?case
    by (simp add: option.map_comp comp_def)
qed (cases "parse_directives (yylex r)"; simp add: assms(2))

lemma parse_printed:
  assumes "\<forall>d \<in> set ds. printable d"
  shows "yyparse (concat (map print_directive ds)) = Some ds"
  using parsed_directives [OF assms, of "[]"] by (simp add: yyparse_def no_comma_def yylex.simps)

text \<open>A byte that is negative as a \<open>char\<close> hides all that follows.\<close>

lemma lex_high:
  assumes "128 \<le> byte_of c"
  shows "lex_match (c # r) = (1, Return (\<lambda>s. Yytext (hd s)))"
proof -
  have n: "\<not> id_start c" "\<not> in_range (CHR ''0'') (CHR ''9'') c"
    "c \<notin> {CHR '' '', CHR 0x09, CHR ''#'', CHR '','', CHR ''-'', LF, CHR ''0'', CHR ''s''}"
    using assms by (auto simp: id_start_def in_range_def byte_of_def)
  have w: "lit k (c # r) = 0" if "(k, t) \<in> set lex_words" for k t
    using words_id [OF that] n(1) lit_other [of "[c]" k r] by auto
  have z: "lex_white (c # r) = 0" "lex_comment (c # r) = 0" "lit '','' (c # r) = 0" "lit ''->'' (c # r) = 0"
    "lex_id (c # r) = 0" "lex_number (c # r) = 0" "lit [LF] (c # r) = 0" "lex_dot (c # r) = 1"
    "lit (''source-banner'' @ [LF]) (c # r) = 0"
    using n by (auto simp: lex_white_def lex_comment_def lit_def lex_id_def lex_number_def lex_dot_def)
  let ?xs = "[(0, Skip), (0, Skip), (0, Return (\<lambda>_. COMMA)), (0, Return (\<lambda>_. MOVETO))] @
    map (\<lambda>(k, t). (lit k (c # r), Return (\<lambda>_. t))) lex_words @ [(0, Return ID), (0, Return NUMBER), (0, Skip)]"
  have "lex_match (c # r) = longest (?xs @ (1, Return (\<lambda>s. Yytext (hd s))) # [(0, Begin_banner)])"
    by (simp only: lex_match_def lex_rules_def) (simp add: z z(9) [simplified] comp_def case_prod_unfold del: longest.simps)
  also have "\<dots> = (1, Return (\<lambda>s. Yytext (hd s)))"
    by (rule longest_pick) (auto simp: w)
  finally show ?thesis .
qed

lemma high_byte_hides:
  assumes "\<forall>d \<in> set ds. printable d" and "128 \<le> byte_of c"
  shows "yyparse (concat (map print_directive ds) @ c # r) = Some ds"
proof -
  have l: "yylex (c # r) = Yytext c # yylex r" using yylex_match(1) [OF _ lex_high [OF assms(2)]] by simp
  have "parse_directives (yylex (c # r)) = Some []" using assms(2) by (simp add: l ends_input_def)
  moreover have "no_comma (c # r)" by (simp add: no_comma_def l)
  ultimately show ?thesis using parsed_directives [OF assms(1)] by (simp add: yyparse_def)
qed

section \<open>What a parsed input holds\<close>

text \<open>The texts of names and banner lines hold no NUL.\<close>

definition clean_token :: "token \<Rightarrow> bool" where
  "clean_token t = (case t of ID x \<Rightarrow> NUL \<notin> set x | BANNER_LINE x \<Rightarrow> NUL \<notin> set x | _ \<Rightarrow> True)"

lemma longest_in: "longest ms = (n, a) \<Longrightarrow> 0 < n \<Longrightarrow> (n, a) \<in> set ms"
  by (induction ms) (auto split: prod.splits if_splits)

lemma id_clean: "NUL \<notin> set (take (lex_id s) s)"
proof -
  have "x \<in> set (take (length (takeWhile id_char s)) s) \<Longrightarrow> id_char x" for x
    by (metis set_takeWhileD takeWhile_eq_take)
  moreover have "\<not> id_char NUL" by (simp add: id_char_def id_start_def in_range_def byte_of_def)
  ultimately show ?thesis by (auto simp: lex_id_def)
qed

lemma lexed_clean: "\<forall>t \<in> set (yylex s). clean_token t" "\<forall>t \<in> set (yylex_banner s). clean_token t"
proof (induction s and s rule: yylex_yylex_banner.induct)
  case (1 s)
  show ?case
  proof (cases "s = []")
    case False
    obtain n a where m: "lex_match s = (n, a)" by fastforce
    then have "0 < n" using lex_match_pos [OF False] by simp
    from longest_in [OF m [unfolded lex_match_def] this] obtain p where p: "(p, a) \<in> set lex_rules" "n = p s" by auto
    have "clean_token (f (take n s))" if "a = Return f" for f
      using p that id_clean by (auto simp: lex_rules_def clean_token_def lex_words_def)
    with 1 False m show ?thesis by (cases a) (auto simp: yylex.simps [of s] clean_token_def)
  qed (simp add: yylex.simps)
next
  case (2 s)
  show ?case
  proof (cases "split_at LF s")
    case (Some ls)
    with 2 show ?thesis by (cases ls) (auto simp: yylex_banner.simps [of s] clean_token_def cstr_no_NUL)
  qed (simp add: yylex_banner.simps)
qed

lemma callback_arglist_rest: "callback_arglist ts = Some (as, r) \<Longrightarrow> set r \<subseteq> set ts"
proof (induction ts arbitrary: "as" r rule: callback_arglist.induct)
  case (2 t ts)
  then show ?case by (cases ts) (fastforce split: option.splits if_splits)+
qed simp

lemma banner_text_clean: "banner_text ts = Some (ls, r) \<Longrightarrow> set r \<subseteq> set ts \<and> BANNER_LINE ` set ls \<subseteq> set ts"
  by (induction ts arbitrary: ls r) (fastforce split: token.splits if_splits)+

lemma parse_one_clean:
  assumes "parse_one t ts = Some (d, r)" and "\<forall>t \<in> set ts. clean_token t"
  shows "nul_free d \<and> set r \<subseteq> set ts"
proof -
  have args: "set r \<subseteq> set ts" if "callback_arguments ts = Some (as, r)" for "as"
    using that callback_arglist_rest [of ts "as" r] by (cases ts) (auto simp: callback_arguments_def split: if_splits)
  have name_of: "nul_free (f x)" if "name_directive t = Some f" "NUL \<notin> set x" for f x
    using that by (auto simp: name_directive_def nul_free_def split: token.splits)
  have no_name: "nul_free (f as)" if "args_directive t = Some f" for f and "as" :: "cb_arg list"
    using that by (auto simp: args_directive_def nul_free_def split: token.splits)
  have ev: "nul_free d \<and> set r \<subseteq> set ts" if "on_event_names ts = Some (d, r)"
    using that assms(2)
    by (auto simp: on_event_names_def neq_Nil_conv clean_token_def nul_free_def split: option.splits if_splits dest!: take_id_shorter)
  have ban: "nul_free (Banner ls) \<and> set r \<subseteq> set ts" if "banner_text ts = Some (ls, r)" for ls
    using banner_text_clean [OF that] assms(2) by (fastforce simp: clean_token_def nul_free_def)
  from assms show ?thesis
    by (auto simp: parse_one_def clean_token_def nul_free_def [of Initial_state] split: if_splits option.splits
        dest!: take_id_shorter intro: name_of no_name dest: args ev ban)
qed

lemma parsed_nul_free:
  assumes "yyparse input = Some ds"
  shows "\<forall>d \<in> set ds. nul_free d"
proof -
  have "parse_directives ts = Some ds \<Longrightarrow> \<forall>t \<in> set ts. clean_token t \<Longrightarrow> \<forall>d \<in> set ds. nul_free d" for ts
  proof (induction ts arbitrary: ds rule: parse_directives.induct)
    case (2 t ts)
    show ?case
    proof (cases "ends_input t")
      case False
      with "2.prems"(1) obtain d r ds' where p: "parse_one t ts = Some (d, r)" "parse_directives r = Some ds'" "ds = d # ds'"
        by (auto split: option.splits)
      from parse_one_clean [OF p(1)] "2.prems"(2) have "nul_free d" "\<forall>t \<in> set r. clean_token t" by auto
      with "2.IH" [OF False p(1) refl p(2)] p(3) show ?thesis by simp
    qed (use "2.prems" in simp)
  qed simp
  with assms lexed_clean(1) show ?thesis by (auto simp: yyparse_def)
qed

end
