(* ===== verification/Spec2Isabelle.thy ===== *)
theory Spec2Isabelle
  imports PollSafety DbParallel Console ThreadServer ServerFsm StrVis TemplateSpec Service Mtc TailQueue CfsmRead
begin

text \<open>
  A verification development for the C code of an SMTP course repository: a key-value database
  with several servers around it (\<open>src/refs/examples/posix-programming_labs\<close>, below \<open>PL\<close>), a
  line-driven test server whose state machine is generated (\<open>src/refs/examples/server-2008\<close>,
  below \<open>S8\<close>), and the state machine compiler with its template library
  (\<open>src/refs/libs/cfsm_lib\<close>, below \<open>CF\<close>).

  \<^bold>\<open>How the parts interact.\<close> A client speaks lines ending in CR LF over a socket
  (\<open>telnet_utils\<close>). A server reads them into a receive buffer (\<open>struct_buffer\<close>), splits them
  (\<open>cnct_io.c\<close>), interprets each as \<open>?key\<close> or \<open>=key value\<close> (\<open>cmds.c\<close>) against a database
  behind a table of function pointers (\<open>struct vdb\<close>), and queues the answers (\<open>struct_wrbuffer\<close>).
  The databases are one red-black tree (\<open>db_simple\<close>), 255 such trees behind read-write locks
  (\<open>db_lock\<close>), or 255 trees owned by worker threads that are fed through a queue
  (\<open>db_parallel\<close>). The servers handle one client at a time (\<open>server_dumb\<close>), one thread per client
  (\<open>server_thread\<close>), or all clients in one thread with \<open>poll\<close> (\<open>server_poll\<close>), where the
  answers of the parallel database arrive through a pipe. A server runs as a service with a pid
  file (\<open>srvc_lib\<close>, \<open>srvc_runner\<close>) whose output a logging process reads from a pipe line by line
  (\<open>log_lib\<close>, \<open>log_dlibs\<close>).

  \<^bold>\<open>Theories and the code they model.\<close>
  \<^item> \<open>Prelude\<close>: C strings, \<open>strcmp\<close>, the kinds of crash (\<open>fault\<close>), \<open>errno\<close> classes, allocation
    oracles (\<open>PL/common_macros\<close>).
  \<^item> \<open>RBTree\<close>: \<open>PL/struct_bsd/inc/tree.h\<close>, one function per \<open>RB_*\<close> macro, node pointers as zippers.
    Lemmas: no NULL pointer is followed, red-black invariant, contents, height.
  \<^item> \<open>VDb\<close>: \<open>PL/db_interface\<close>, \<open>struct vdb\<close> as a record and its contract as the locale
    \<open>vdb_contract\<close>, interpreted on \<open>DbSimple\<close> and \<open>DbLock\<close>.
  \<^item> \<open>DbSimple\<close>, \<open>DbLock\<close>, \<open>DbParallel\<close>: \<open>PL/db_simple\<close>, \<open>db_lock\<close>, \<open>db_parallel\<close>. The state of each
    is its tree or its list of 255 trees (with queues). Lemmas: each acts as a map; failed
    allocations; clean-up; the lock protocol of a stripe as a step relation.
  \<^item> \<open>Buffer\<close>, \<open>WrBuffer\<close>: \<open>PL/struct_buffer\<close>, \<open>struct_wrbuffer\<close> with \<open>server_lib/src/wrbuf_io.c\<close>.
    Lemmas: the bytes in use, the byte stream still to be sent.
  \<^item> \<open>FdUtils\<close>, \<open>Telnet\<close>: \<open>PL/fd_utils\<close>, \<open>telnet_utils\<close>, one turn of \<open>telnet_client\<close>. The kernel's
    side of a descriptor is a list of events.
  \<^item> \<open>QueueSem\<close>, \<open>ReqQueue\<close>, \<open>CndProtocol\<close>: \<open>PL/struct_queue_sem\<close>, \<open>req_interface\<close>,
    \<open>req_queue_sem\<close>, \<open>req_queue_cnd\<close>. The locale \<open>request_queue\<close> is interpreted on both queues;
    their threads are step relations with invariants by rule induction.
  \<^item> \<open>Cmds\<close>, \<open>Session\<close>: \<open>PL/server_lib\<close> and \<open>server_dumb\<close>. Lemmas: the exchange of lines refines
    an abstract server that is a map.
  \<^item> \<open>PollServer\<close>, \<open>PollSafety\<close>: \<open>PL/server_poll\<close>, its handlers and the invariant of every
    interleaving of clients, workers and poll events.
  \<^item> \<open>ThreadServer\<close>: \<open>PL/server_thread\<close>, all threads and locks as a step relation.
  \<^item> \<open>ServerParse\<close>, \<open>ServerFsm\<close>: \<open>S8/src\<close>: parser, generated state machine, handlers, run loop.
  \<^item> \<open>StrLib\<close>, \<open>StrVis\<close>: \<open>CF/mtemplate/strlcpy.c\<close>, \<open>strlcat.c\<close>, \<open>strstcpy.c\<close>, \<open>vis.c\<close>.
  \<^item> \<open>MObject\<close>, \<open>MObjectOps\<close>, \<open>MObjectSpec\<close>: \<open>CF/mtemplate/mobject.c\<close>, \<open>helpers.c\<close>; arrays refine
    lists, dictionaries refine finite maps.
  \<^item> \<open>MNamespace\<close>: \<open>CF/mtemplate/mnamespace.c\<close>, paths into nested objects.
  \<^item> \<open>TemplateParse\<close>, \<open>TemplatePrint\<close>, \<open>TemplateRun\<close>, \<open>TemplateSpec\<close>: \<open>CF/mtemplate/mtemplate.c\<close>:
    the parser inverts printing; a template without loops writes the text it means.
  \<^item> \<open>Console\<close>: \<open>PL/server_lib/src/main.c\<close> and \<open>sig_handler.c\<close>: commands from standard input against
    a simple database; the answers are those of the abstract server.
  \<^item> \<open>LogProcess\<close>, \<open>Redir\<close>, \<open>LogPlugins\<close>: \<open>PL/log_lib\<close>, \<open>log_dlibs\<close>, \<open>log_setup\<close>. A process is its
    descriptor table, its buffered output and the outcomes of its next system calls; a child of
    \<open>fork\<close> works on a copy. Lemmas: lines are delivered once and in order, the streams are given
    back, what failed and interrupted calls leave behind.
  \<^item> \<open>Service\<close>: \<open>PL/srvc_lib\<close>, \<open>srvc_runner\<close>: pid files over a file system map, with every system
    call's outcome in an environment. Lemmas: a start that returns leaves no trace, a running
    service is found again.
  \<^item> \<open>CfsmBuild\<close>, \<open>CfsmSpec\<close>, \<open>CfsmCheck\<close>, \<open>CfsmAccept\<close>, \<open>CfsmFinal\<close>, \<open>Cfsm\<close>: the state machine
    compiler, \<open>libs/cfsm_lib/cfsm\<close>: the actions of \<open>cfsm_parse.y\<close> on the namespace, one per
    directive, the checks of \<open>finalise_namespace\<close>, and \<open>cfsm.c\<close> with its options and the rendering
    of its templates. \<open>CfsmSpec\<close> has the abstract machine and the refinement, \<open>CfsmCheck\<close> what the last check
    counts, \<open>CfsmAccept\<close> that nothing the machine can follow is refused, \<open>CfsmFinal\<close> the verdict.
  \<^item> \<open>TailQueue\<close>: the macros of \<open>struct_bsd/inc/queue.h\<close> (\<open>CF/mtemplate/sys-queue.h\<close> has the same)
    on pointers. Lemmas: each is its operation on lists, and the walks see those lists. The other
    theories, which declare such lists, have them as lists.
  \<^item> \<open>CfsmLex\<close>, \<open>CfsmRead\<close>: its input language, \<open>cfsm_lex.l\<close> and the grammar of \<open>cfsm_parse.y\<close>, from
    bytes to directives. Lemmas: printed directives are read back, names hold no NUL, a byte above
    127 ends the input. The lemmas of \<open>Cfsm\<close> hold for any parser; the properties are of this one.
  \<^item> \<open>Mtc\<close>: the template processor \<open>CF/mtemplate/mtc.c\<close>, from options and a file to what is written.
  The properties of the program, each after its number, follow in this theory; the last section
  holds further results of the same kind that need several theories.

  \<^bold>\<open>Bounds and fuel.\<close> The walks of the red-black tree, the parsers and the receive loops are
  structural or have a measure, so no fuel is used there. Where a loop of the code may never end
  (a blocked call, \<open>read_all\<close> at the end of a file, a stalled client) the list of kernel events
  decides: a call that finds no event is \<open>None\<close>, and properties that promise a result state
  which events suffice. \<open>size_t\<close> sums that the code compares are taken modulo \<open>2 ^ 64\<close>; the hash
  of a key stays inside \<open>int\<close>, which \<open>DbLock\<close> proves. The number of stripes is 255 as in the code.

  \<^bold>\<open>Not modelled.\<close> Messages to the terminal and logging macros; freeing of memory where no later
  access depends on it; failures of mutex operations, which stop the process in the code;
  the kinds of list of \<open>queue.h\<close> that nothing declares, and the splay trees and reverse traversal
  of \<open>tree.h\<close>, which nothing instantiates; the exports of \<open>db_dlibs\<close>, which only name functions for \<open>dlopen\<close>; the Python
  mail server and client and the report; the unit and regression tests of the modelled code;
  \<open>src/refs/libs/autogen\<close>, a second generated copy of the test server's state machine.
\<close>

section \<open>The red-black tree\<close>

text \<open>
  C1: RB_REMOVE on any node of a valid tree dereferences no NULL pointer, removes exactly that
  element, and leaves a valid red-black tree.
\<close>

theorem rb_remove_safe:
  "rb_valid (plug p (Node c l x r)) \<Longrightarrow>
   \<exists>t. rb_remove p (Node c l x r) = Some t \<and> rb_valid t \<and>
     inorder t = before p @ inorder l @ inorder r @ after p"
  by (rule rb_remove_correct)

theorem rb_remove_safe_witness:
  "\<exists>t. rb_remove [] (Node RB_BLACK (Node RB_RED Leaf (1::nat) Leaf) 2 (Node RB_RED Leaf 3 Leaf)) = Some t \<and>
     rb_valid t \<and> inorder t = [1, 3]"
  using rb_remove_safe [of "[]" RB_BLACK "Node RB_RED Leaf (1::nat) Leaf" 2 "Node RB_RED Leaf 3 Leaf"]
  by (simp add: rb_valid_def)

text \<open>
  C2: RB_INSERT into a valid search tree either finds the element with the same key, as RB_FIND
  does, or yields a valid search tree with exactly one element more.
\<close>

theorem rb_insert_searchable:
  "rb_valid t \<Longrightarrow> rb_sorted db_cmp (inorder t) \<Longrightarrow>
   (\<exists>p c l x r. rb_insert db_cmp e t = Some (Inl (p, Node c l x r)) \<and>
      rb_find db_cmp e t = Some (p, Node c l x r) \<and> node_key x = node_key e) \<or>
   (\<exists>t' xs ys. rb_insert db_cmp e t = Some (Inr t') \<and> rb_find db_cmp e t = None \<and> rb_valid t' \<and>
      inorder t = xs @ ys \<and> inorder t' = xs @ e # ys \<and> rb_sorted db_cmp (inorder t'))"
  using db_order.rb_insert_correct [of t e] rb_find_Some [of db_cmp e t] by fastforce

theorem rb_insert_searchable_witness:
  "\<exists>t'. rb_insert db_cmp (search_node ''b'') (Node RB_BLACK Leaf (search_node ''a'') Leaf) = Some (Inr t') \<and>
     rb_valid t'"
proof -
  let ?t = "Node RB_BLACK Leaf (search_node ''a'') Leaf"
  have "rb_valid ?t" and "rb_sorted db_cmp (inorder ?t)" by (simp_all add: rb_valid_def rb_sorted_def)
  from rb_insert_searchable [OF this, of "search_node ''b''"] show ?thesis
    by (auto simp: rb_insert_def db_cmp_def)
qed



section \<open>The simple database\<close>

text \<open>
  C4: On a well-formed simple database, set (with a value or with NULL) succeeds when no
  allocation fails, keeps the database well-formed and changes the stored map at that key only,
  and get returns what the map holds.
\<close>

theorem simple_db_set_get:
  "db_inv db \<Longrightarrow>
   \<exists>db'. simple_set all_ok db k v = Inr (db', 0) \<and> db_inv db' \<and>
     db_contents db' = (db_contents db)(k := v) \<and>
     (\<forall>k'. simple_get all_ok db' k' = Inr (db_contents db' k'))"
  using simple_set_correct [of db k v] simple_get_correct by fastforce

theorem simple_db_set_get_witness:
  "\<exists>db'. simple_set all_ok empty_simple_db ''k'' (Some ''v'') = Inr (db', 0) \<and>
     simple_get all_ok db' ''k'' = Inr (Some ''v'') \<and> simple_get all_ok db' ''x'' = Inr None"
  using simple_db_set_get [OF db_inv_empty(1), of "''k''" "Some ''v''"]
  by (auto simp: db_inv_empty(2))

text \<open>
  C5: destroy of a simple database terminates, frees every node exactly once in key order and
  leaves the tree empty.
\<close>

theorem simple_destroy_frees_all:
  "db_inv db \<Longrightarrow>
   simple_destroy db = Some (Inr (inorder db, empty_simple_db)) \<and> distinct (map node_key (inorder db))"
  using simple_destroy_correct [of db] sorted_distinct_keys [of "inorder db"]
  by (simp add: empty_simple_db_def db_inv_def)

theorem simple_destroy_frees_all_witness:
  "simple_destroy empty_simple_db = Some (Inr ([], empty_simple_db))"
  using simple_destroy_frees_all [OF db_inv_empty(1)] by (simp add: empty_simple_db_def)

section \<open>The lock-striped database\<close>



section \<open>Linked lists\<close>

text \<open>
  C7: After any sequence of calls of the tail queue macros of \<open>queue.h\<close> that never adds an element
  twice and never names one that is not there, started from \<open>TAILQ_INIT\<close> whatever the memory held, the pointers
  hold the list that the same calls make of lists: \<open>TAILQ_FOREACH\<close> visits its elements in order,
  \<open>TAILQ_FOREACH_REVERSE\<close> in the opposite order, and removing the first element until there is none
  takes them out in order and leaves an empty queue.
\<close>

theorem tail_queue_refines_list:
  assumes "tq_abs_all is [] = Some xs"
  shows "let q = fold tq_exec is (TAILQ_INIT memory) in
     tailq_walk (length xs) q (tqh_first q) = Some xs \<and>
     tailq_walk_back (length xs) q (TAILQ_LAST q) = Some (rev xs) \<and>
     (\<exists>q'. empty_out tqh_first (\<lambda>x q. Inr (TAILQ_REMOVE x q)) (length xs) q = Some (Inr (xs, q')) \<and>
        tqh_first q' = None \<and> tqh_last q' = Head_slot)"
proof -
  have r: "tailq_rep (fold tq_exec is (TAILQ_INIT memory)) xs"
    by (rule tq_steps [OF tailq_init assms])
  from tq.all_visited [OF r order.refl] obtain q' where
    "empty_out tqh_first (\<lambda>x q. Inr (TAILQ_REMOVE x q)) (length xs) (fold tq_exec is (TAILQ_INIT memory)) = Some (Inr (xs, q'))"
    "tailq_rep q' []" by blast
  with tailq_foreach [OF r] tailq_foreach_reverse [OF r] show ?thesis
    by (auto simp: Let_def tailq_rep_def get_slot.simps simp del: slot_reads)
qed

theorem tail_queue_refines_list_witness:
  "let q = fold tq_exec [Ins_tail 4, Ins_head 7, Ins_after 7 5, Ins_before 4 9, Rem 4] (TAILQ_INIT
       \<lparr>tqh_first = Some 3, tqh_last = Next_slot 4, tqe_next = (\<lambda>_. Some 5), tqe_prev = (\<lambda>_. Next_slot 5)\<rparr>) in
     tailq_walk 3 q (tqh_first q) = Some [7, 5, 9] \<and> tailq_walk_back 3 q (TAILQ_LAST q) = Some [9, 5, 7]"
  using tail_queue_refines_list [of "[Ins_tail 4, Ins_head 7, Ins_after 7 5, Ins_before 4 9, Rem 4]" "[7, 5, 9]" "\<lparr>tqh_first = Some 3, tqh_last = Next_slot 4, tqe_next = (\<lambda>_. Some 5), tqe_prev = (\<lambda>_. Next_slot 5)\<rparr>"]
  by (simp add: Let_def numeral_3_eq_3 del: slot_reads)

section \<open>Buffers and sockets\<close>

text \<open>
  C8: When recv_until returns, no byte of the stream is lost, and a positive result is the
  length of the shortest prefix of the buffer that ends with the separator, 0 means that the
  full buffer does not hold it and -1 that it has not arrived. It returns whenever the bytes
  that arrive hold the separator or fill the buffer.
\<close>

theorem recv_until_spec:
  "buffer_inv b \<Longrightarrow>
   (case recv_until b sep evs of
      None \<Rightarrow> length (buffer_data b @ pending evs) < bf_size b \<and>
        (\<forall>j. \<not> occurs_at sep (buffer_data b @ pending evs) j)
    | Some res \<Rightarrow> \<exists>r b' evs'. res = Inr (r, b', evs') \<and> buffer_inv b' \<and>
        buffer_data b @ pending evs = buffer_data b' @ pending evs' \<and> recv_until_post b sep r b')"
  using recv_until_correct [of b sep evs] recv_until_blocks [of b sep evs]
  by (auto split: option.split)

theorem recv_until_spec_witness:
  "\<exists>r b' evs'. recv_until \<lparr>bf_buf = Some ''........'', bf_size = 8, bf_pos = 0\<rparr> TELNET_SUFFIX
       [Ev (''ok'' @ TELNET_SUFFIX)] = Some (Inr (r, b', evs')) \<and>
     ''ok'' @ TELNET_SUFFIX = buffer_data b' @ pending evs'"
proof -
  have "occurs_at TELNET_SUFFIX (''ok'' @ TELNET_SUFFIX) 2"
    by (simp add: occurs_at_def TELNET_SUFFIX_def)
  moreover let ?b = "\<lparr>bf_buf = Some ''........'', bf_size = 8, bf_pos = 0\<rparr>"
  have "buffer_inv ?b" and "buffer_data ?b = []" by (simp_all add: buffer_inv_def buffer_data_def)
  ultimately show ?thesis
    using recv_until_spec [where b = ?b and sep = TELNET_SUFFIX
      and evs = "[Ev (''ok'' @ TELNET_SUFFIX)]"]
    by (cases "recv_until ?b TELNET_SUFFIX [Ev (''ok'' @ TELNET_SUFFIX)]") auto
qed

text \<open>
  C9: send_wrbuffer, on a queue of non-empty strings, fails no assertion and sends a prefix of
  the queued bytes; exactly the rest stays queued, and the result is the number of bytes sent
  unless it is -1.
\<close>

theorem send_wrbuffer_stream:
  "wb_inv b \<Longrightarrow> send_wrbuffer b evs = Some res \<Longrightarrow>
   \<exists>r w b' evs'. res = Inr (r, w, b', evs') \<and> wb_inv b' \<and> unsent b = w @ unsent b' \<and>
     (r = -1 \<or> r = int (length w))"
  using send_wrbuffer_loop_correct [of b 0 "[]" evs res] by (simp add: send_wrbuffer_def)

theorem send_wrbuffer_stream_witness:
  "\<exists>r w b' evs'. Inr (3, ''abc'', \<lparr>wb_queue = [Some ''cd''], wb_pos = 1\<rparr>, []) = Inr (r, w, b', evs') \<and>
     unsent \<lparr>wb_queue = [Some ''ab'', Some ''cd''], wb_pos = 0\<rparr> = w @ unsent b'"
proof -
  let ?b = "\<lparr>wb_queue = [Some ''ab'', Some ''cd''], wb_pos = 0\<rparr>"
  have "wb_inv ?b" by (simp add: wb_inv_def)
  moreover have "send_wrbuffer ?b [Ev 2, Ev 1] =
      Some (Inr (3, ''abc'', \<lparr>wb_queue = [Some ''cd''], wb_pos = 1\<rparr>, []))"
    by (simp add: send_wrbuffer_def send_wrbuffer_loop.simps is_wrbuffer_empty_def
      wrbuffer_remained_def wrbuffer_start_def wrbuffer_head_def safe_send_def send_sys_def
      wrbuffer_shift_def)
  ultimately show ?thesis using send_wrbuffer_stream [of ?b] by blast
qed

section \<open>The request queues\<close>

text \<open>
  C10: In the semaphore queue, for every interleaving of one producer and one consumer, what was
  popped is a prefix of what was pushed, at most size entries are in between, and the assertion
  that the slot is free does not fail.
\<close>

theorem queue_sem_fifo:
  "0 < n \<Longrightarrow> ring_reachable n g \<Longrightarrow>
   rg_popped g = take (length (rg_popped g)) (rg_pushed g) \<and>
   length (rg_pushed g) \<le> length (rg_popped g) + qs_size (rg_q g) \<and>
   (\<forall>e. rg_prod g = P_claimed e \<longrightarrow> (\<exists>q. push_store (rg_q g) e = Inr q))"
  using ring_inv_fifo [OF ring_reachable_inv] ring_inv_store [OF ring_reachable_inv] by blast

theorem queue_sem_fifo_witness:
  "length (rg_pushed (ring_init 3 :: nat ring)) \<le> 3"
  using queue_sem_fifo [of 3 "ring_init 3 :: nat ring"] by (simp add: ring_init_def)



text \<open>
  C12: pop of the condition-variable queue decides to return NULL only after stop was called and
  when every request pushed has been handed out.
\<close>

theorem cnd_pop_null_drained:
  "cnd_reachable s \<Longrightarrow> cnd_step s s' \<Longrightarrow> cp_worker s \<noteq> K_return None \<Longrightarrow> cp_worker s' = K_return None \<Longrightarrow>
   cp_popped s' = cp_pushed s' \<and> \<not> cq_running (cp_q s')"
  using cnd_reachable_inv [of s'] cnd_null_drained [of s s'] rtranclp.rtrancl_into_rtrancl [of cnd_step cnd_init s s']
  by (auto simp: order_inv_def wait_inv_def)

theorem cnd_pop_null_drained_witness:
  "\<exists>s s' :: nat cnd_state. cp_worker s' = K_return None \<and> cnd_step s s' \<and> cp_popped s' = cp_pushed s'"
proof -
  obtain s s' :: "nat cnd_state" where "cnd_reachable s" "cnd_step s s'"
    "cp_worker s \<noteq> K_return None" "cp_worker s' = K_return None"
    using cnd_null_run by blast
  with cnd_pop_null_drained [OF this] show ?thesis by blast
qed

section \<open>The parallel database\<close>



section \<open>Commands over a connection\<close>

text \<open>
  C14: When the bytes received complete a line, process_cnct runs exactly that line as one
  request and keeps the bytes after it; a line that contains a NUL byte closes the connection.
\<close>

theorem process_cnct_one_line:
  "buffer_inv (ct_buf c) \<Longrightarrow>
   safe_recv (bf_size (ct_buf c) - bf_pos (ct_buf c)) revs = Some (len, d, revs') \<Longrightarrow> 0 < len \<Longrightarrow>
   buffer_data (ct_buf c) @ d = l @ TELNET_SUFFIX @ rest \<Longrightarrow>
   (\<And>j. j < length l \<Longrightarrow> \<not> occurs_at TELNET_SUFFIX (l @ TELNET_SUFFIX @ rest) j) \<Longrightarrow>
   \<exists>b'. buffer_inv b' \<and> buffer_data b' = rest \<and> bf_size b' = bf_size (ct_buf c) \<and>
    process_cnct all_ok ops arg c db revs sevs =
      (if NUL \<in> set l then Some (Inr (-1, c\<lparr>ct_buf := b'\<rparr>, db, [], [], revs', sevs))
       else case process_request all_ok ops arg (c\<lparr>ct_buf := b'\<rparr>) l db sevs of
              None \<Rightarrow> None
            | Some (Inl e) \<Rightarrow> Some (Inl e)
            | Some (Inr (r, c', db', w, calls, sevs')) \<Rightarrow>
                Some (Inr (if r \<noteq> -1 then 1 else -1, c', db', w, calls, revs', sevs')))"
  by (rule process_cnct_line) simp_all

theorem process_cnct_one_line_witness:
  "\<exists>b'. buffer_data b' = [] \<and>
     process_cnct all_ok (simple_vdb False) (0::nat)
       (blank_cnct\<lparr>ct_buf := \<lparr>bf_buf = Some ''....'', bf_size = 4, bf_pos = 0\<rparr>\<rparr>) empty_simple_db
       [Ev ([NUL] @ TELNET_SUFFIX)] [] =
     Some (Inr (-1, blank_cnct\<lparr>ct_buf := b'\<rparr>, empty_simple_db, [], [], [], []))"
proof -
  let ?c = "blank_cnct\<lparr>ct_buf := \<lparr>bf_buf = Some ''....'', bf_size = 4, bf_pos = 0\<rparr>\<rparr>"
  have "buffer_inv (ct_buf ?c)" "buffer_data (ct_buf ?c) = []"
    by (simp_all add: buffer_inv_def buffer_data_def)
  moreover have "safe_recv (bf_size (ct_buf ?c) - bf_pos (ct_buf ?c)) [Ev ([NUL] @ TELNET_SUFFIX)] =
      Some (3, [NUL] @ TELNET_SUFFIX, [])"
    by (simp add: safe_recv_def recv_sys_def TELNET_SUFFIX_def)
  moreover have "\<not> occurs_at TELNET_SUFFIX ([NUL] @ TELNET_SUFFIX @ []) j" if "j < length [NUL]" for j
    using that by (simp add: occurs_at_def TELNET_SUFFIX_def)
  ultimately show ?thesis
    using process_cnct_one_line [of ?c "[Ev ([NUL] @ TELNET_SUFFIX)]" 3 "[NUL] @ TELNET_SUFFIX" "[]"
      "[NUL]" "[]" "simple_vdb False" "0::nat" empty_simple_db "[]"] by auto
qed

section \<open>The polling server\<close>

text \<open>
  C15: With the parallel database, and whatever the order of accepts, client input, answers,
  deliveries, output and closed connections: an answer is only ever queued for the connection
  whose request it answers, even when the slot has been reused.
\<close>

theorem poll_server_no_cross_delivery:
  "poll_reachable (parallel_vdb mem) s0 s \<Longrightarrow> server_fresh s0 \<Longrightarrow>
   (slot, asked, served) \<in> set (pv_delivered s) \<Longrightarrow> asked = served"
  using poll_reachable_inv [OF _ parallel_async.async_vdb_axioms]
  unfolding poll_inv_def gens_ok_def by blast

theorem poll_server_no_cross_delivery_witness:
  "\<exists>s. (0, 1, 1) \<in> set (pv_delivered s) \<and>
     poll_reachable (parallel_vdb empty_request) one_slot_server s"
proof -
  obtain s g where s: "poll_reachable (parallel_vdb empty_request) one_slot_server s"
    "(0, 1, g) \<in> set (pv_delivered s)"
    using one_slot_run by blast
  from poll_server_no_cross_delivery [OF s(1) one_slot_fresh s(2)] s show ?thesis by auto
qed

text \<open>
  C16: The slot that add_fd hands to a new client has no request waiting in the database and no
  answer in the pipe.
\<close>

theorem reused_slot_is_idle:
  "poll_reachable (parallel_vdb mem) s0 s \<Longrightarrow> server_fresh s0 \<Longrightarrow>
   add_fd (pv_server s) sock = (sv, int i) \<Longrightarrow>
   i \<notin> fst ` set (pv_pending s) \<and> i \<notin> an_nfd ` set (sv_control (pv_server s))"
proof -
  assume "poll_reachable (parallel_vdb mem) s0 s" "server_fresh s0"
    and add: "add_fd (pv_server s) sock = (sv, int i)"
  then have "poll_inv s" using poll_reachable_inv [OF _ parallel_async.async_vdb_axioms] by blast
  from shut_slot_idle [OF this add_fd_Some(1,2) [OF add]] show ?thesis by (simp add: outstanding_zero)
qed

theorem reused_slot_is_idle_witness:
  "0 \<notin> an_nfd ` set (sv_control (pv_server (run_start one_slot_server)))"
proof -
  have "add_fd (pv_server (run_start one_slot_server)) 5 =
      (fst (add_fd (pv_server (run_start one_slot_server)) 5), int 0)"
    by (simp add: add_fd_def run_start_def one_slot_server_def blank_cnct_def Let_def)
  from reused_slot_is_idle [OF rtranclp.rtrancl_refl one_slot_fresh this] show ?thesis by simp
qed

section \<open>The servers with one client at a time and with one thread per client\<close>

text \<open>
  C17: The server that serves one client after the other, over the simple database, implements
  the abstract server: for any number of visits of clients that wait for their replies, every
  client gets exactly the replies of a map from keys to values, in the order of its lines, and
  the database holds that map at the end.
\<close>

theorem dumb_server_refines_map:
  "db_inv d \<Longrightarrow> visits (\<lambda>_. True) cls lss (snd (abs_sessions (db_contents d) lss)) \<Longrightarrow>
   \<exists>d'. dumb_server (\<lambda>_. all_ok) (simple_vdb False) arg c0 (turns lss) (map Ev cls) d =
      Some (Inr (d', zip (map du_socket cls) (snd (abs_sessions (db_contents d) lss)))) \<and>
    db_inv d' \<and> db_contents d' = fst (abs_sessions (db_contents d) lss)"
  by (rule simple.dumb_server_abs) (simp_all add: simple_vdb_sync)

theorem dumb_server_refines_map_witness:
  "\<exists>d'. dumb_server (\<lambda>_. all_ok) (simple_vdb False) () blank_cnct 5
      [Ev \<lparr>du_socket = 7, du_mutex = True, du_mem = Some (replicate CNCT_BUF_SIZE NUL),
           du_recv = segments [''=a 1'', ''?a'', ''?b''], du_send = replicate 10 (Ev 3)\<rparr>]
      empty_simple_db =
    Some (Inr (d', [(7, TELNET_SUFFIX @ ''1'' @ TELNET_SUFFIX @ TELNET_SUFFIX)])) \<and>
    db_contents d' = [''a'' \<mapsto> ''1'']"
proof -
  let ?cl = "\<lparr>du_socket = 7, du_mutex = True, du_mem = Some (replicate CNCT_BUF_SIZE NUL),
    du_recv = segments [''=a 1'', ''?a'', ''?b''], du_send = replicate 10 (Ev 3)\<rparr>"
  let ?ws = "[TELNET_SUFFIX @ ''1'' @ TELNET_SUFFIX @ TELNET_SUFFIX]"
  have w: "abs_sessions (db_contents empty_simple_db) [[''=a 1'', ''?a'', ''?b'']] =
      ([''a'' \<mapsto> ''1''], ?ws)"
    by (simp add: db_inv_empty abs_cmd_def reply_def)
  have "plain_line ''=a 1''" "plain_line ''?a''" "plain_line ''?b''"
    by (auto simp: plain_line_def occurs_at_def TELNET_SUFFIX_def less_Suc_eq)
  then have "visits (\<lambda>_. True) [?cl] [[''=a 1'', ''?a'', ''?b'']] ?ws"
    by (simp add: visit_def CNCT_BUF_SIZE_def willing_def sends_left_def TELNET_SUFFIX_def numeral_3_eq_3)
  moreover have "turns [[''=a 1'', ''?a'', ''?b'']] = 5" by (simp add: turns_def)
  ultimately show ?thesis
    using dumb_server_refines_map [of empty_simple_db "[?cl]" "[[''=a 1'', ''?a'', ''?b'']]" "()" blank_cnct]
    unfolding w by (auto simp add: db_inv_empty simp del: dumb_server.simps all_ok_apply)
qed





section \<open>The command automaton\<close>



text \<open>
  C21: The table of \<open>server_fsm_step\<close> is the automaton of the definitions file: the next state is
  the one that \<open>server.def\<close> gives, an event without a transition yields the invalid state, and a
  state outside the table starts again.
\<close>

theorem fsm_step_is_def:
  "map_sum id fst (server_fsm_step al st ev (Some cmd) s) =
     Inr (if st \<in> {ST_INVALID, ST_DONE} then ST_INIT
          else case def_next st ev of None \<Rightarrow> ST_INVALID | Some nxt \<Rightarrow> nxt)"
  by (cases st; cases ev; simp add: fsm_defs def_next_def def_transitions_def)

text \<open>
  C22: A run over a file ends in a session only if an earlier line named the user and a later line
  gave the password.
\<close>

theorem fsm_session_needs_password:
  assumes "\<forall>l \<in> set ls. script_line l" and "LF \<notin> set rest" and "rest \<noteq> []"
    and "run als (Some (concat (map (\<lambda>l. l @ [LF]) ls) @ rest)) = Inr (s, r)"
    and "fs_state s = ST_SESSION"
  shows "logged_in ls"
proof -
  obtain s' stop where f: "fsm_session als 0 ls init_state = Inr (s', stop)"
    using assms(2-4) unfolding run_def
    by (auto simp: run_loop_script [OF assms(1,2)] split: sum.splits)
  then have s: "s' = s" using assms(3,4) unfolding run_def
    by (auto simp: run_loop_script [OF assms(1,2)] split: bool.splits)
  have "stop \<longleftrightarrow> fs_state s = ST_DONE"
    using auth_inv_session [OF f auth_inv_init] s by (simp add: init_state_def)
  with assms(5) f s show ?thesis using session_logged_in by auto
qed

theorem fsm_session_needs_password_witness:
  "logged_in [''USER: user'', ''PASSWORD: password'']"
proof -
  let ?ls = "[''USER: user'', ''PASSWORD: password'']"
  have "\<forall>l \<in> set ?ls. script_line l" by (simp add: script_line_def MAXCMDLEN_def)
  moreover have ev: "parse_cmd (''USER: user'' @ [LF]) = EV_CMD_USER"
    "parse_cmd (''PASSWORD: password'' @ [LF]) = EV_CMD_PASSW"
    "get_param (\<lambda>_. True) EV_CMD_USER (''USER: user'' @ [LF]) = Some ''user''"
    "get_param (\<lambda>_. True) EV_CMD_PASSW (''PASSWORD: password'' @ [LF]) = Some ''password''"
    by code_simp+
  have "\<exists>s. fsm_session (\<lambda>_ _. True) 0 ?ls init_state = Inr (s, False) \<and> fs_state s = ST_SESSION"
    using ev by (simp add: fsm_turn_init fsm_turn_user_known init_state_def Let_def)
  then have "\<exists>s. run (\<lambda>_ _. True) (Some (concat (map (\<lambda>l. l @ [LF]) ?ls) @ ''x'')) = Inr (s, 1) \<and>
      fs_state s = ST_SESSION"
    using run_loop_script [OF \<open>\<forall>l \<in> set ?ls. script_line l\<close>, of "''x''" "\<lambda>_ _. True" 0 init_state]
    by (auto simp: run_def)
  ultimately show ?thesis
    using fsm_session_needs_password [of ?ls "''x''" "\<lambda>_ _. True"] by auto
qed

section \<open>Objects\<close>



text \<open>
  C24: Dictionaries are finite maps: lookup, insert, which refuses a key that is present, replace
  and remove keep the entries distinct and counted.
\<close>

theorem mdict_refines_map:
  assumes "dict_ok d"
  shows "mdict_item d (MString k) = dict_map d k \<and>
    (case mdict_insert al d (MString k) v of (d', r) \<Rightarrow> dict_ok d' \<and>
      (r = 0 \<and> dict_map d k = None \<and> dict_map d' = (dict_map d)(k \<mapsto> v) \<or>
       r = -1 \<and> d' = d \<and> (dict_map d k \<noteq> None \<or> \<not> al 0))) \<and>
    (case mdict_replace al d (MString k) v of (d', r) \<Rightarrow> dict_ok d' \<and>
      (r = 0 \<and> dict_map d' = (dict_map d)(k \<mapsto> v) \<or> r = -1 \<and> d' = d \<and> \<not> al 0)) \<and>
    (case mdict_remove d (MString k) of (d', w) \<Rightarrow> dict_ok d' \<and>
      w = dict_map d k \<and> dict_map d' = (dict_map d)(k := None))"
  using mdict_item_correct [OF assms] mdict_insert_correct [OF assms, of al k v]
    mdict_replace_correct [OF assms, of al k v] mdict_remove_correct [OF assms, of k]
  by (cases "mdict_insert al d (MString k) v"; cases "mdict_replace al d (MString k) v";
      cases "mdict_remove d (MString k)") simp

theorem mdict_refines_map_witness:
  "mdict_item (MDict [(''a'', MInt 1), (''b'', MNone)] 2) (MString ''b'') = Some MNone"
  using mdict_refines_map [of "MDict [(''a'', MInt 1), (''b'', MNone)] 2" "''b''"] by simp



section \<open>Paths into objects\<close>

text \<open>
  C26: What \<open>mnamespace_set\<close> stores at a path, \<open>mnamespace_lookup\<close> finds at that path, through
  dictionaries and arrays, those it creates on the way included; the objects stay well-formed.
\<close>

theorem namespace_set_lookup:
  assumes "mwf ns" and "mwf x" and "mnamespace_set all_ok ns loc x = Inr (None, ns')"
  shows "mwf ns' \<and> mnamespace_lookup all_ok ns' loc = Inr (Inr (Some x))"
proof -
  from assms(3) have t: "mobject_type ns = TYPE_MDICT" and l: "loc \<noteq> []"
    and s: "set_name all_ok ns loc 0 x = Inr (None, ns')"
    by (auto simp: mnamespace_set_def split: if_splits)
  have al: "\<forall>j. all_ok j" by simp
  from set_then_lookup(1) [OF al assms(1,2) t s] l show ?thesis
    by (auto simp: mnamespace_lookup_def)
qed

theorem namespace_set_lookup_witness:
  "\<exists>ns'. mnamespace_set all_ok (MDict [] 0) ''a[2].c'' (MInt 7) = Inr (None, ns') \<and>
     mnamespace_lookup all_ok ns' ''a[2].c'' = Inr (Inr (Some (MInt 7)))"
proof -
  have ndx: "array_ndx ''2].c'' = Inr (2, 2)" by code_simp
  have "marray_set (\<lambda>_. True) (MArray [] 0) 2 (MDict [] 0) =
      Inr (MArray [Some MNone, Some MNone, Some (MDict [] 0), None] 3, 0)"
    by (simp add: marray_resize_def grow.simps MARRAY_MAX_def numeral_2_eq_2 mnone_new_def)
      (simp add: numeral_eq_Suc)
  then have "\<exists>ns'. mnamespace_set all_ok (MDict [] 0) ''a[2].c'' (MInt 7) = Inr (None, ns')"
    using ndx
    by (simp add: mnamespace_set_def set_name.simps set_next.simps strstcpy_correct upto_stop_def
        MNAMESPACE_MAX_ID_LENGTH_def Let_def mdict_item_s_def mstring_new_def mstring_new2_def
        MSTRING_MAX_def xalloc_by_typechar_def mdict_replace_s_def store_new_def mdict_new_def
        marray_new_def cstr_def bind_res_def)
  then show ?thesis
    using namespace_set_lookup [of "MDict [] 0" "MInt 7" "''a[2].c''"] by auto
qed

section \<open>Templates\<close>



text \<open>
  C28: \<open>mtemplate_run_mbuf\<close> doubles its buffer at most once for a text: a value that is longer than
  the rest of twice the buffer is written beyond its end.
\<close>

theorem long_value_overflows:
  assumes "plain t" and "length t < 256" and "NUL \<notin> set s"
    and "512 \<le> length t + length s" and "length t + length s < ALLOC_MAX"
  shows "\<exists>tmpl. mtemplate_parse all_ok (t @ directive ''a'') = Inr (Inr tmpl) \<and>
    mtemplate_run_mbuf all_ok pr tmpl (Some (MDict [(''a'', MString s)] 1)) = Inl Out_of_bounds"
  by (rule second_text_overflows [OF assms])

theorem long_value_overflows_witness:
  "\<exists>tmpl. mtemplate_parse all_ok (''x'' @ directive ''a'') = Inr (Inr tmpl) \<and>
     mtemplate_run_mbuf all_ok (\<lambda>_. []) tmpl (Some (MDict [(''a'', MString (replicate 600 CHR ''y''))] 1)) =
       Inl Out_of_bounds"
  using long_value_overflows [of "''x''" "replicate 600 CHR ''y''" "\<lambda>_. []"]
  by (simp add: plain_def ALLOC_MAX_def)

text \<open>
  C29: The template processor: with definitions \<open>-D key=value\<close> of single names and a template over these
  names, read in any number of pieces, \<open>mtc\<close> writes to its output what the template means when
  every name stands for its last definition.
\<close>

theorem definitions_fill_template:
  assumes "\<forall>(k, v) \<in> set kvs. simple_key k \<and> value_ok v" and "template_ok nodes"
    and "fill_in (map_of (rev kvs)) nodes = Some e"
    and "opened env file = Some (map Ev ds @ [Ev []])" and "\<forall>d \<in> set ds. d \<noteq> []"
    and "concat ds = print_nodes nodes" and "ds \<noteq> []" and "NUL \<notin> set (print_nodes nodes)"
    and "out = ''-'' \<or> writable env out"
  shows "mtc_main all_ok env (map define_arg kvs @ [(CHR ''o'', out)]) [file] = Inr (Inr [out \<mapsto> e])"
  by (rule mtc_fills [OF assms])

theorem definitions_fill_template_witness:
  "mtc_main all_ok \<lparr>opened = (\<lambda>_. Some [Ev ''n={{'', Ev ''a}}'', Ev []]), writable = (\<lambda>_. False), print_obj = (\<lambda>_. [])\<rparr>
     [(CHR ''D'', ''a=0''), (CHR ''D'', ''a=7''), (CHR ''o'', ''-'')] [''t.m''] = Inr (Inr [''-'' \<mapsto> ''n=7''])"
proof -
  let ?ns = "[TNode NODE_TEXT (Some ''n='') 0 No_var [] [], TNode NODE_DIRECTIVE_SUBST (Some ''a'') 0 No_var [] []]"
  have "template_ok ?ns"
    by (auto simp: plain_def less_Suc_eq_0_disj nth_Cons' name_def no_keyword_def SUBST_OK_def node_info_def)
  moreover have "simple_key ''a''" "value_ok ''0''" "value_ok ''7''"
    by (simp_all add: simple_key_def value_ok_def MSTRING_MAX_def)
  ultimately show ?thesis
    using definitions_fill_template [of "[(''a'', ''0''), (''a'', ''7'')]" ?ns "''n=7''"
        "\<lparr>opened = (\<lambda>_. Some [Ev ''n={{'', Ev ''a}}'', Ev []]), writable = (\<lambda>_. False), print_obj = (\<lambda>_. [])\<rparr>" "''t.m''"
        "[''n={{'', ''a}}'']" "''-''"]
    by (simp add: define_arg_def directive_def)
qed

section \<open>Logging and services\<close>



text \<open>
  C31: A logger that is initialised, started and stopped puts standard output and standard error
  on the pipes in between and gives both streams their files back; every other descriptor is as
  before, except that two more are open: the duplicates saved at the beginning.
\<close>

theorem logger_gives_streams_back:
  "quiet k \<Longrightarrow> fd_get k 1 = Some fo \<Longrightarrow> fd_get k 2 = Some fe \<Longrightarrow> 0 < p1 \<Longrightarrow> 0 < p2 \<Longrightarrow>
   \<exists>lg1 k1 lg2 k2 lg3 k3 s1 s2.
     logger_init [ro, re] out err k = (0, lg1, k1) \<and>
     logger_start [In_parent p1, In_parent p2] lg1 k1 = Some (Inr (1, lg2, k2, [])) \<and>
     fd_get k2 1 = Some (Pipe_write (p_pipes k1)) \<and> fd_get k2 2 = Some (Pipe_write (Suc (p_pipes k1))) \<and>
     logger_stop lg2 k2 = (lg3, k3) \<and> fd_get k s1 = None \<and> fd_get k s2 = None \<and> s1 \<noteq> s2 \<and>
     fd_get k3 = (fd_get k)(s1 \<mapsto> fo, s2 \<mapsto> fe)"
  by (rule logger_session)

theorem logger_gives_streams_back_witness:
  "\<exists>lg1 k1 lg2 k2 lg3 k3 s1 s2.
     logger_init [zero_redir, zero_redir] CHR ''o'' CHR ''e'' (sample_proc [] []) = (0, lg1, k1) \<and>
     logger_start [In_parent 7, In_parent 8] lg1 k1 = Some (Inr (1, lg2, k2, [])) \<and>
     logger_stop lg2 k2 = (lg3, k3) \<and> s1 \<noteq> s2 \<and>
     fd_get k3 = (fd_get (sample_proc [] []))(s1 \<mapsto> File 1, s2 \<mapsto> File 2)"
proof -
  have "quiet (sample_proc [] [])" "fd_get (sample_proc [] []) 1 = Some (File 1)"
    "fd_get (sample_proc [] []) 2 = Some (File 2)"
    by (simp_all add: quiet_def sample_proc_def fd_get_def)
  from logger_gives_streams_back [OF this, of 7 8 zero_redir zero_redir "CHR ''o''" "CHR ''e''"]
  show ?thesis by (metis zero_less_numeral)
qed



text \<open>
  C33: While the service runs, the pid file that \<open>start\<close> has written holds the pid of the daemon
  in a form that \<open>stop\<close> and \<open>status\<close> read back: \<open>stop\<close> sends SIGTERM to that process, \<open>status\<close>
  reports it as running. The runner's pid file is the service's own.
\<close>

theorem running_service_found:
  "pidfile \<noteq> [] \<Longrightarrow> hd pidfile = CHR ''/'' \<Longrightarrow>
   start ev pidfile servicev w = (Waits, w') \<or>
   (\<exists>prog ls'. runner_start ev dlopen pidfile log servicev w ls = Some (Inr (Becomes prog, w', ls'))) \<Longrightarrow>
   e_pid ev \<in> set (e_alive ev') \<Longrightarrow> e_kill ev' \<Longrightarrow>
   stop_service ev' pidfile w' = (e_pid ev, w'\<lparr>sent := sent w' @ [(e_pid ev, SIGTERM)]\<rparr>) \<and>
   check_status ev' pidfile w' = 0"
  by (elim disjE exE; rule stop_signals_pid)
    (auto dest: start_running_pidfile runner_running_pidfile)

theorem running_service_found_witness:
  "\<exists>w'. start sample_env ''/a'' [''srv''] sample_world = (Waits, w') \<and>
     stop_service sample_env ''/a'' w' = (42, w'\<lparr>sent := sent w' @ [(42, SIGTERM)]\<rparr>) \<and>
     check_status sample_env ''/a'' w' = 0"
proof -
  obtain e w' where s: "start sample_env ''/a'' [''srv''] sample_world = (e, w')" by (metis prod.exhaust)
  then have "e = Waits"
    by (auto simp: start_def sample_env_def sample_world_def open_pidfile_def daemonize_def set_sighandler_def
        close_pidfile_def fork_service_def Let_def split: if_splits)
  with s running_service_found [of "''/a''" sample_env "[''srv'']" sample_world w' "\<lambda>_. None" "''l''" "()" sample_env]
  show ?thesis by (simp add: sample_env_def)
qed

section \<open>The interactive program\<close>

text \<open>
  C34: The interactive program answers its lines like a map from keys to values: for any lines
  shorter than its buffer that do not quit, followed by the line that does, it prints exactly the
  answers of the abstract server, in order, and the database ends with the abstract contents,
  whatever follows in the input.
\<close>

theorem console_refines_map:
  "db_inv d \<Longrightarrow> \<forall>l \<in> set ls. console_line l \<and> l \<noteq> QUIT \<Longrightarrow>
   \<exists>d'. console_loop all_ok (simple_vdb False) arg s (concat (map (\<lambda>l. l @ [LF]) ls) @ QUIT @ LF # rest) d =
     Inr (d', snd (abs_answers (db_contents d) ls)) \<and> db_inv d' \<and>
     db_contents d' = fst (abs_answers (db_contents d) ls)"
  by (rule simple.console_abs) (simp_all add: simple_vdb_sync)

theorem console_refines_map_witness:
  "\<exists>d'. console_loop all_ok (simple_vdb False) () ''junk''
      (''=a 1'' @ LF # ''?a'' @ LF # ''?b'' @ LF # QUIT @ LF # []) empty_simple_db = Inr (d', [''1'']) \<and>
    db_contents d' = [''a'' \<mapsto> ''1'']"
proof -
  let ?ls = "[''=a 1'', ''?a'', ''?b'']"
  have "\<forall>l \<in> set ?ls. console_line l \<and> l \<noteq> QUIT"
    by (simp add: console_line_def QUIT_def CONSOLE_SIZE_def)
  moreover have "abs_answers (db_contents empty_simple_db) ?ls = ([''a'' \<mapsto> ''1''], [''1''])"
    by (simp add: db_inv_empty abs_cmd_def)
  ultimately show ?thesis
    using console_refines_map [of empty_simple_db ?ls "()" "''junk''" "[]"]
    by (auto simp: db_inv_empty QUIT_def simp del: all_ok_apply)
qed

section \<open>The state machine compiler\<close>

text \<open>
  C35: The lexer and the parser of the state machine compiler read back every list of directives from
  its text, one directive per line: keywords win over names of the same length and longer
  matches over both, names are separated from the arguments, and banners are kept line by line.
\<close>

theorem printed_directives_parsed:
  assumes "\<forall>d \<in> set ds. printable d"
  shows "yyparse (concat (map print_directive ds)) = Some ds"
  by (rule parse_printed [OF assms])

theorem printed_directives_parsed_witness:
  "yyparse (''event-callback-args ctx,old-state'' @ [LF] @ ''source-banner'' @ [LF] @ ''state X'' @ [LF] @
     ''end-source-banner'' @ [LF] @ ''state states'' @ [LF]) =
   Some [Event_callback_args [Arg_ctx, Arg_old_state], Banner [''state X'' @ [LF]], State_decl ''states'']"
proof -
  have "is_id ''states''" by (simp add: is_id_def id_char_def id_start_def in_range_def byte_of_def lex_words_def)
  then show ?thesis
    using printed_directives_parsed
      [of "[Event_callback_args [Arg_ctx, Arg_old_state], Banner [''state X'' @ [LF]], State_decl ''states'']"]
    by (simp add: printable_def name_line_def banner_line_def print_directive_def args_line_def print_line_def arg_word_def)
qed

text \<open>
  C36: A byte above 127 between two directives ends the input of the compiler without an error: what
  stands behind it is not looked at, and the result is that of the text before it.
\<close>

theorem non_ascii_byte_hides_rest:
  assumes "\<forall>d \<in> set ds. printable d" and "128 \<le> byte_of c"
  shows "compile_input al yyparse (Some (concat (map print_directive ds) @ c # hidden)) h =
    compile_input al yyparse (Some (concat (map print_directive ds))) h"
  by (simp add: compile_input_def high_byte_hides [OF assms] parse_printed [OF assms(1)])

theorem non_ascii_byte_hides_rest_witness:
  "compile_input all_ok yyparse (Some (''state A'' @ [LF, CHR 0xC3, CHR 0xA4] @ ''no directive'')) None =
   compile_input all_ok yyparse (Some (''state A'' @ [LF])) None"
proof -
  have "is_id ''A''" by (simp add: is_id_def id_char_def id_start_def in_range_def byte_of_def lex_words_def)
  then show ?thesis
    using non_ascii_byte_hides_rest [of "[State_decl ''A'']" "CHR 0xC3" all_ok "CHR 0xA4 # ''no directive''" None]
    by (simp add: printable_def name_line_def print_directive_def print_line_def byte_of_def)
qed

text \<open>
  C37: The namespace that the state machine compiler builds is well formed, whatever the input and
  whichever allocations fail, as long as the compiler goes on: every dictionary holds no key twice,
  every state has all its members, the arrays of states and events list exactly the keys of the
  dictionaries, in the order of declaration, and the initial states are those that are marked.
\<close>

theorem namespace_well_formed:
  assumes "setup_initial_namespace al h = Inr c0" and "directives al' ds c0 = Inr c" and "\<forall>d \<in> set ds. nul_free d"
  shows "cfsm_ok c"
  using setup_ok [OF assms(1)] directives_refine [OF assms(2) _ assms(3)] by blast

definition two_states :: "fsm_directive list" where
  "two_states = [State_decl ''A'', Initial_state, On_event ''go'' ''B'', On_event ''go'' ''A'', State_decl ''B'']"

lemma two_states_storable: "\<forall>d \<in> set two_states. storable d" "\<forall>d \<in> set two_states. nul_free d"
  by (simp_all add: two_states_def storable_def nul_free_def short_def MSTRING_MAX_def)

lemma two_states_run:
  obtains c0 c where "setup_initial_namespace all_ok None = Inr c0" and "directives all_ok two_states c0 = Inr c"
proof -
  obtain c0 where c0: "setup_initial_namespace all_ok None = Inr c0" using setup_succeeds [of None] by auto
  have "mrun two_states no_machine \<noteq> None" by (simp add: two_states_def mstep_def no_machine_def)
  with input_accepted_iff [OF two_states_storable(1) _ c0] c0 that show thesis
    by (auto simp: two_states_def MARRAY_MAX_def)
qed

theorem namespace_well_formed_witness:
  "\<exists>c0 c. setup_initial_namespace all_ok None = Inr c0 \<and> directives all_ok two_states c0 = Inr c \<and> cfsm_ok c"
  using two_states_run namespace_well_formed two_states_storable(2) by metis

text \<open>
  C38: A directive list that the compiler takes is a run of the abstract machine, and the namespace
  ends with that machine's states, events, initial states, transitions and actions: for every input
  and whichever allocations fail.
\<close>

theorem directives_follow_machine:
  assumes "setup_initial_namespace al h = Inr c0" and "directives al' ds c0 = Inr c" and "\<forall>d \<in> set ds. nul_free d"
  shows "mrun ds no_machine = Some (machine_of c)"
  using setup_ok [OF assms(1)] directives_refine [OF assms(2) _ assms(3)] by simp

theorem directives_follow_machine_witness:
  "\<exists>c0 c. setup_initial_namespace all_ok None = Inr c0 \<and> directives all_ok two_states c0 = Inr c \<and>
     m_states (machine_of c) = [''A'', ''B''] \<and> m_events (machine_of c) = [''go''] \<and>
     m_part (machine_of c) ''A'' ''events'' ''go'' = Some (To ''A'')"
proof -
  obtain c0 c where c: "setup_initial_namespace all_ok None = Inr c0" "directives all_ok two_states c0 = Inr c"
    by (rule two_states_run)
  from directives_follow_machine [OF c two_states_storable(2)]
  have "Some (machine_of c) = mrun two_states no_machine" by simp
  then have "m_states (machine_of c) = [''A'', ''B''] \<and> m_events (machine_of c) = [''go''] \<and>
     m_part (machine_of c) ''A'' ''events'' ''go'' = Some (To ''A'')"
    by (simp add: two_states_def mstep_def no_machine_def add_event_def put_def)
  with c show ?thesis by blast
qed


lemma two_states_valid: "\<exists>M. mrun two_states no_machine = Some M \<and> machine_valid M"
  by (auto simp: two_states_def mstep_def no_machine_def machine_valid_def machine_connected_def put_def add_event_def
      intro: exI [of _ "''A''"] split: if_splits)

definition two_text :: bytes where
  "two_text = concat (map print_directive two_states)"

lemma two_text_parsed: "yyparse two_text = Some two_states"
proof -
  have "is_id ''A'' \<and> is_id ''B'' \<and> is_id ''go''"
    by (simp add: is_id_def id_char_def id_start_def in_range_def byte_of_def lex_words_def)
  then have "\<forall>d \<in> set two_states. printable d" by (simp add: two_states_def printable_def name_line_def)
  from parse_printed [OF this] show ?thesis by (simp add: two_text_def)
qed



text \<open>An environment in which every template is the text \<open>x\<close>.\<close>

definition x_env :: cfsm_env where
  "x_env = \<lparr>opened = (\<lambda>_. Some [Ev ''x'', Ev []]), writable = (\<lambda>_. True), print_obj = (\<lambda>_. [])\<rparr>"

lemma x_env_renders:
  assumes "template_path dir nm = Inr path" and "out \<noteq> ''-''"
  shows "render_template all_ok x_env ns dir nm out w = Inr (w(out \<mapsto> ''x''))"
proof -
  have "read_loop all_ok [Ev ''x'', Ev []] None = Inr (Some ''x'')" by (simp add: all_ok_def site_def)
  moreover have "mtemplate_parse all_ok ''x'' = Inr (Inr [TNode NODE_TEXT (Some ''x'') 1 No_var [] []])" by code_simp
  moreover have "mtemplate_run_stdio all_ok (\<lambda>_. []) [TNode NODE_TEXT (Some ''x'') 1 No_var [] []] (Some ns) ('''', []) =
      Inr ((''x'', []), None)"
    by (simp add: mtemplate_run_stdio_def mtemplate_run_cb_def new_all_ok run_node.simps write_text_def del: all_ok_apply)
  ultimately show ?thesis using assms by (simp add: render_template_def read_template_def x_env_def)
qed

lemma x_env_main:
  "\<exists>w. cfsm_main all_ok x_env yyparse ''t'' [(CHR ''d'', []), (CHR ''o'', ''fsm'')] 1 (Some two_text) =
    Inr (Inr w)"
proof -
  let ?opts = "\<lparr>output_src = True, output_header = True, output_dot = False, manual_arg = None,
    out_arg = Some ''fsm'', template_dir = ''t''\<rparr>"
  have o: "parse_opts [(CHR ''d'', []), (CHR ''o'', ''fsm'')] (default_opts ''t'') = Inr ?opts"
    by (simp add: default_opts_def)
  have h: "synth_header_name ?opts = None" "check_opts ?opts 1"
    by (simp_all add: synth_header_name_def ends_in_c_def check_opts_def)
  obtain c where c: "compile_input all_ok yyparse (Some two_text) None = Inr c"
    using valid_compiles [of yyparse two_text two_states None] two_text_parsed two_states_valid
      two_states_storable(1) by (auto simp: two_states_def MARRAY_MAX_def)
  have "render_all all_ok x_env (fsm_namespace c) (renderings ?opts) Map.empty = Inr [''fsm'' \<mapsto> ''x'']"
    using x_env_renders [of "''t''" "''source.m''" _ "''fsm''"] x_env_renders [of "''t''" "''header.m''" _ "''fsm''"]
    by (simp add: renderings_def synth_header_name_def ends_in_c_def out_path_def template_path_def)
  with o h c show ?thesis by (simp add: cfsm_main_def del: parse_opts.simps)
qed


section \<open>Further results\<close>

text \<open>
  buffer_find returns the first position of the string in the bytes in use, and -1 exactly
  when it is not there.
\<close>

lemma buffer_find_first_occurrence:
  "buffer_inv b \<Longrightarrow>
   (buffer_find b s = -1 \<longleftrightarrow> (\<forall>j. \<not> occurs_at s (buffer_data b) j)) \<and>
   (\<forall>k. buffer_find b s = int k \<longleftrightarrow>
      occurs_at s (buffer_data b) k \<and> (\<forall>j < k. \<not> occurs_at s (buffer_data b) j))"
  by (rule buffer_find_iff)

lemma buffer_find_first_occurrence_witness:
  "buffer_find \<lparr>bf_buf = Some ''xab'', bf_size = 3, bf_pos = 3\<rparr> ''ab'' = 1"
  using buffer_find_first_occurrence [of "\<lparr>bf_buf = Some ''xab'', bf_size = 3, bf_pos = 3\<rparr>" "''ab''"]
  by (auto simp: buffer_inv_def buffer_data_def occurs_at_def dest: spec [of _ 1])

text \<open>
  send_all returns once the socket has taken enough, or fails; when it returns, either
  every byte was sent in order and the result is their number, or the result is -1 and a proper
  prefix was sent.
\<close>

lemma send_all_complete:
  "length d \<le> room_of evs \<Longrightarrow>
   \<exists>r w evs'. send_all d evs = Some (r, w, evs') \<and>
     ((r = int (length d) \<and> w = d) \<or> (r = -1 \<and> length w < length d \<and> (\<exists>rest. d = w @ rest)))"
  using send_all_returns [of d evs] send_all_correct [of d evs] by fastforce

lemma send_all_complete_witness:
  "\<exists>r w evs'. send_all ''abc'' [Ev 2, Err EINTR, Ev 5] = Some (r, w, evs') \<and> (w = ''abc'' \<or> r = -1)"
  using send_all_complete [of "''abc''" "[Ev 2, Err EINTR, Ev 5]"] by auto

text \<open>
  init_lock_db succeeds exactly when all 255 locks can be initialised; then the database is
  well-formed and empty, and otherwise no lock is left initialised.
\<close>

lemma init_lock_db_all_or_nothing:
  "case init_lock_db init_ok of (db, ok) \<Rightarrow>
     ok = (\<forall>i < N_SUBS. init_ok i) \<and>
     (if ok then lock_inv db \<and> lock_contents db = Map.empty else True \<notin> set (locks db))"
  using init_lock_db_correct [of init_ok] by (cases "init_lock_db init_ok") auto

lemma init_lock_db_all_or_nothing_witness:
  "snd (init_lock_db (\<lambda>i. i \<noteq> 7)) = False \<and> True \<notin> set (locks (fst (init_lock_db (\<lambda>i. i \<noteq> 7))))"
proof -
  have "\<not> (\<forall>i < N_SUBS. i \<noteq> 7)" by (simp add: N_SUBS_def)
  with init_lock_db_all_or_nothing [of "\<lambda>i. i \<noteq> 7"] show ?thesis
    by (cases "init_lock_db (\<lambda>i. i \<noteq> 7)") auto
qed

text \<open>
  The bound of buffer_shift is checked on a sum that wraps around: a large shift passes it
  and moves the position back.
\<close>

lemma buffer_shift_wraps:
  "0 < bf_pos b \<Longrightarrow> bf_pos b \<le> bf_size b \<Longrightarrow> bf_size b < 2 ^ 63 \<Longrightarrow>
   buffer_shift b (2 ^ 64 - bf_pos b) = (b\<lparr>bf_pos := 0\<rparr>, 0)"
  by (simp add: buffer_shift_def size_add_def)

lemma buffer_shift_wraps_witness:
  "buffer_shift \<lparr>bf_buf = Some ''ab'', bf_size = 2, bf_pos = 1\<rparr> (2 ^ 64 - 1) =
     (\<lparr>bf_buf = Some ''ab'', bf_size = 2, bf_pos = 0\<rparr>, 0)"
  using buffer_shift_wraps [of "\<lparr>bf_buf = Some ''ab'', bf_size = 2, bf_pos = 1\<rparr>"] by simp

text \<open>
  read_all never returns when the other end is closed before all bytes arrived: read
  reports 0 bytes for ever.
\<close>

lemma read_all_spins_at_eof:
  "0 < len \<Longrightarrow> read_all len (replicate n (Ev [])) = None"
  by (simp add: read_all_def read_all_eof)

lemma read_all_spins_at_eof_witness: "read_all 4 (replicate 1000 (Ev [])) = None"
  using read_all_spins_at_eof [of 4 1000] by simp

text \<open>
  Run one after the other, queue_sem_push appends its entry and blocks exactly when the
  queue is full; queue_sem_pop takes the oldest entry and blocks exactly when it is empty.
\<close>

lemma queue_sem_sequential:
  "queue_inv q \<Longrightarrow>
   (if length (queue_items q) < qs_size q
    then \<exists>q'. queue_sem_push [] q e = Some (Inr q') \<and> queue_inv q' \<and> queue_items q' = queue_items q @ [e]
    else queue_sem_push [] q e = None) \<and>
   (case queue_items q of
      [] \<Rightarrow> queue_sem_pop [] q = None
    | x # xs \<Rightarrow> \<exists>q'. queue_sem_pop [] q = Some (Inr (x, q')) \<and> queue_inv q' \<and> queue_items q' = xs)"
  using queue_sem_push_correct [of q e] queue_sem_pop_correct [of q] queue_items_bound [of q]
  by (auto split: list.split)

lemma queue_sem_sequential_witness:
  "\<exists>q'. queue_sem_push [] (rg_q (ring_init 2)) (Some (7::nat)) = Some (Inr q') \<and> queue_items q' = [Some 7]"
proof -
  have "queue_inv (rg_q (ring_init 2) :: nat queue_sem)"
    "queue_items (rg_q (ring_init 2) :: nat queue_sem) = []"
    "qs_size (rg_q (ring_init 2) :: nat queue_sem) = 2"
    by (simp_all add: queue_inv_def ring_init_def queue_items_def)
  with queue_sem_sequential [of "rg_q (ring_init 2)" "Some (7::nat)"] show ?thesis by auto
qed

text \<open>
  The same with the semaphore queue of any size.
\<close>

lemma parallel_db_sem_consistent:
  "0 < n \<Longrightarrow>
   (par_step (\<lambda>q r. returned (sem_push q r)) (\<lambda>q. returned (sem_pop q)))\<^sup>*\<^sup>*
     (par_start (rg_q (ring_init n))) s \<Longrightarrow> t < N_SUBS \<Longrightarrow>
   pr_calls s t = map fst (pr_log s t) @ map request_job (sem_items (par_queue (pr_db s) ! t)) \<and>
   log_consistent (pr_log s t) \<and> db_contents (par_sub (pr_db s) ! t) = log_map (pr_log s t)"
  using semp.par_reachable_good [of "rg_q (ring_init n)" s]
  by (simp add: fresh_sem_queue semp.par_inv_def semp.stripe_good_def)

lemma parallel_db_sem_consistent_witness:
  "log_consistent (pr_log (par_start (rg_q (ring_init DEFAULT_QUEUE_SIZE) :: nat db_request queue_sem)) 0)"
  using parallel_db_sem_consistent [of DEFAULT_QUEUE_SIZE
    "par_start (rg_q (ring_init DEFAULT_QUEUE_SIZE) :: nat db_request queue_sem)" 0]
  by (simp add: N_SUBS_def DEFAULT_QUEUE_SIZE_def)

text \<open>
  init_parallel_db returns a database with all trees, queues and worker threads, or NULL
  with none of them left.
\<close>

lemma init_parallel_db_all_or_nothing:
  "init_parallel_db queue_ok thread_ok =
     (if (\<forall>i < N_SUBS. queue_ok i) \<and> (\<forall>i < N_SUBS. thread_ok i)
      then (({..<N_SUBS}, {..<N_SUBS}, {..<N_SUBS}), True) else (({}, {}, {}), False))"
  by (rule init_parallel_db_correct)

lemma init_parallel_db_all_or_nothing_witness:
  "init_parallel_db (\<lambda>i. True) (\<lambda>i. i < 100) = (({}, {}, {}), False)"
proof -
  have "\<not> (\<forall>i < N_SUBS. i < (100 :: nat))"
    by (auto simp: N_SUBS_def intro: exI [of _ 200])
  then show ?thesis
    using init_parallel_db_all_or_nothing [of "\<lambda>i. True" "\<lambda>i. i < 100"] by simp
qed

text \<open>
  On the simple database the commands behave as a map: after =key value, ?key answers the
  value and other keys answer as before; after -key, ?key answers nothing.
\<close>

lemma commands_on_simple_db:
  "db_inv d \<Longrightarrow> CHR '' '' \<notin> set k \<Longrightarrow>
   \<exists>d1 d2. process_cmd all_ok (simple_vdb False) d f c arg (set_cmd k v) = Inr (d1, c, None, True, []) \<and>
     process_cmd all_ok (simple_vdb False) d1 f c arg (get_cmd k') =
       Inr (d1, c, if k' = k then Some v else db_contents d k', True, []) \<and>
     process_cmd all_ok (simple_vdb False) d1 f c arg (del_cmd k) = Inr (d2, c, None, True, []) \<and>
     process_cmd all_ok (simple_vdb False) d2 f c arg (get_cmd k) = Inr (d2, c, None, True, [])"
proof -
  assume d: "db_inv d" and k: "CHR '' '' \<notin> set k"
  from simple.set_cmd_correct [OF d TrueI k, where a = False and notify = f and c = c and arg = arg and v = v] obtain d1 where
    d1: "process_cmd all_ok (simple_vdb False) d f c arg (set_cmd k v) = Inr (d1, c, None, True, [])"
    "db_inv d1" "db_contents d1 = (db_contents d)(k \<mapsto> v)" by blast
  from simple.del_cmd_correct [OF d1(2) TrueI, where a = False and notify = f and c = c and arg = arg and k = k] obtain d2 where
    d2: "process_cmd all_ok (simple_vdb False) d1 f c arg (del_cmd k) = Inr (d2, c, None, True, [])"
    "db_inv d2" "db_contents d2 = (db_contents d1)(k := None)" by blast
  from d1 d2 show ?thesis
    by - (rule exI [of _ d1], rule exI [of _ d2],
      simp add: simple.get_cmd_correct [OF _ TrueI simple_vdb_sync])
qed

lemma commands_on_simple_db_witness:
  "\<exists>d1. process_cmd all_ok (simple_vdb False) empty_simple_db None () () (set_cmd ''a'' ''1'') =
       Inr (d1, (), None, True, []) \<and>
     process_cmd all_ok (simple_vdb False) d1 None () () (get_cmd ''a'') = Inr (d1, (), Some ''1'', True, [])"
  using commands_on_simple_db [OF db_inv_empty(1), of "''a''" None "()" "()" "''1''" "''a''"] by auto

text \<open>
  A worker that has been told to stop serves every queued request, in order, answers every
  read, and then ends.
\<close>

lemma worker_drains_queue:
  "\<not> cq_running q \<Longrightarrow> \<forall>r\<in>set (cnd_items q). request_ok r \<Longrightarrow> db_inv d \<Longrightarrow> length (cnd_items q) < n \<Longrightarrow>
   \<exists>d' answers. db_thread cnd_pop n q d = Some (Inr (d', answers)) \<and> db_inv d' \<and>
     db_contents d' = cndp.serve_all (cnd_items q) (db_contents d) \<and>
     length answers = length (filter rq_result_func (cnd_items q))"
  using cndp.db_thread_correct [of q n d] by simp

lemma worker_drains_queue_witness:
  "\<exists>d' answers. db_thread cnd_pop 2 (cnd_stop \<lparr>cq_queue = [\<lparr>rq_key = Some ''a'', rq_value = None,
       rq_result_func = True, rq_arg = Some (5::nat)\<rparr>], cq_local = [], cq_running = True\<rparr>)
     empty_simple_db = Some (Inr (d', answers)) \<and> length answers = 1"
  using worker_drains_queue [of "cnd_stop \<lparr>cq_queue = [\<lparr>rq_key = Some ''a'', rq_value = None,
       rq_result_func = True, rq_arg = Some (5::nat)\<rparr>], cq_local = [], cq_running = True\<rparr>" empty_simple_db 2]
  by (auto simp: cnd_stop_def cnd_items_def request_ok_def db_inv_empty)

text \<open>
  \<open>mdict_delete\<close> of a key that is present removes it but decrements the counter twice, so
  that the dictionary reports one entry less than it has.
\<close>

lemma mdict_delete_miscounts:
  assumes "dict_ok d" and "dict_map d k \<noteq> None"
  shows "\<exists>d'. mdict_delete d (MString k) = (d', 0) \<and> dict_map d' = (dict_map d)(k := None) \<and>
    mdict_len d' = mdict_len d - 2 \<and> \<not> dict_ok d'"
  by (rule mdict_delete_counts_twice [OF assms])

lemma mdict_delete_miscounts_witness:
  "\<exists>d'. mdict_delete (MDict [(''a'', MInt 1), (''b'', MNone)] 2) (MString ''b'') = (d', 0) \<and>
     mdict_len d' = 0"
  using mdict_delete_miscounts [of "MDict [(''a'', MInt 1), (''b'', MNone)] 2" "''b''"] by auto

text \<open>
  Every message in the control pipe finds its request counted, so the assertion of
  dec_queue_cnt does not fail, and handling the message fails in no other way.
\<close>

lemma control_message_never_fails:
  "poll_reachable (parallel_vdb mem) s0 s \<Longrightarrow> server_fresh s0 \<Longrightarrow>
   sv_control (pv_server s) = req # reqs \<Longrightarrow>
   \<exists>sv. control_message al req ((pv_server s)\<lparr>sv_control := reqs\<rparr>) = Inr sv"
proof -
  assume "poll_reachable (parallel_vdb mem) s0 s" "server_fresh s0"
    and req: "sv_control (pv_server s) = req # reqs"
  then have "poll_inv s" using poll_reachable_inv [OF _ parallel_async.async_vdb_axioms] by blast
  from control_message_ok(2) [OF this req refl] show ?thesis
    by (auto simp: control_message_def Let_def)
qed

lemma control_message_never_fails_witness:
  "\<exists>s sv. sv_control (pv_server s) \<noteq> [] \<and> control_message all_ok (hd (sv_control (pv_server s)))
     ((pv_server s)\<lparr>sv_control := List.tl (sv_control (pv_server s))\<rparr>) = Inr sv \<and>
     poll_reachable (parallel_vdb empty_request) one_slot_server s"
proof -
  obtain s req where s: "poll_reachable (parallel_vdb empty_request) one_slot_server s"
    "sv_control (pv_server s) = [req]"
    using one_slot_answered by blast
  from control_message_never_fails [OF s(1) one_slot_fresh s(2), of all_ok] s show ?thesis
    by (intro exI [of _ s]) simp
qed

text \<open>
  A stored value may be empty. When the answer with an empty value reaches an idle
  connection, the next attempt to send fails an assertion and ends the server.
\<close>

lemma empty_value_stops_server:
  "an_nfd req < max_cnct s \<Longrightarrow> an_nfd req < length (sv_wrbufs s) \<Longrightarrow>
   an_value req = Some [] \<Longrightarrow> sv_wrbufs s ! an_nfd req = init_wrbuffer \<Longrightarrow> al 0 \<Longrightarrow>
   sv_fds s ! an_nfd req \<noteq> -1 \<Longrightarrow> control_message al req s = Inr s' \<Longrightarrow>
   client_output s' (an_nfd req) sevs = Some (Inl Assert_failed)"
  by (auto simp: control_message_def Let_def bind_res_eq_Inr wrbuffer_add_def init_wrbuffer_def
    client_output_def send_wrbuffer_empty_string split: if_splits)

lemma empty_value_stops_server_witness:
  "client_output (one_slot_server\<lparr>sv_fds := [5], sv_wrbufs := [\<lparr>wb_queue = [Some [], Some TELNET_SUFFIX],
       wb_pos = 0\<rparr>], sv_events := [{POLLIN, POLLOUT}],
       sv_cncts := [blank_cnct]\<rparr>) 0 [Ev 9] = Some (Inl Assert_failed)"
proof -
  let ?s = "one_slot_server\<lparr>sv_fds := [5], sv_cncts := [blank_cnct\<lparr>ct_queue_cnt := 1\<rparr>]\<rparr>"
  let ?s' = "one_slot_server\<lparr>sv_fds := [5], sv_wrbufs := [\<lparr>wb_queue = [Some [], Some TELNET_SUFFIX],
       wb_pos = 0\<rparr>], sv_events := [{POLLIN, POLLOUT}], sv_cncts := [blank_cnct]\<rparr>"
  have "control_message all_ok \<lparr>an_nfd = 0, an_value = Some []\<rparr> ?s = Inr ?s'"
    by (simp add: control_message_def dec_queue_cnt_def Let_def one_slot_server_def blank_cnct_def
      wrbuffer_add_def init_wrbuffer_def insert_commute)
  from empty_value_stops_server [OF _ _ _ _ _ _ this, of "[Ev 9]"] show ?thesis
    by (simp add: one_slot_server_def)
qed

text \<open>
  When the copy of the value cannot be allocated, set leaves the database broken: a new
  node is freed while the tree still links it, and an old key keeps a NULL value, which the
  next get of that key dereferences.
\<close>

lemma simple_set_oom:
  "db_inv db \<Longrightarrow> al 0 \<Longrightarrow> al 1 \<Longrightarrow> \<not> al 2 \<Longrightarrow>
   (if db_contents db k = None then simple_set al db k (Some v) = Inl Dangling_link
    else \<exists>db'. simple_set al db k (Some v) = Inr (db', -1) \<and> simple_get al' db' k = Inl Null_deref)"
  using simple_set_oom_new [of db k al v] simple_set_oom_old [of db k _ al v al'] by auto

lemma simple_set_oom_witness:
  "simple_set (\<lambda>i. i < 2) empty_simple_db ''k'' (Some ''v'') = Inl Dangling_link"
  using simple_set_oom [OF db_inv_empty(1), of "\<lambda>i. i < 2" "''k''" "''v''"]
  by (simp add: db_inv_empty(2))

text \<open>
  A loop directive with more than one word behind its \<open>in\<close> is not reported as an error: the
  parser frees its loop variable twice.
\<close>

lemma bad_loop_frees_twice:
  assumes "template_ok ns" and "name x" and "CHR '' '' \<in> set e" and "CHR ''}'' \<notin> set e" and "LF \<notin> set e"
  shows "mtemplate_parse all_ok (print_nodes ns @ directive (''for '' @ x @ '' in '' @ e) @ r) =
    Inl Use_after_free"
  by (rule bad_for_double_free [OF assms])

lemma bad_loop_frees_twice_witness:
  "mtemplate_parse all_ok (directive ''for x in a b'' @ directive ''endfor'') = Inl Use_after_free"
  using bad_loop_frees_twice [of "[]" "''x''" "''a b''" "directive ''endfor''"]
  by (simp add: name_def SUBST_OK_def)

text \<open>
  run_server ends by closing every connection; destroy_server then succeeds only when no
  read is unanswered. With a read still unanswered, or its answer unread in the pipe, the
  process is aborted by the assertion in destroy_cnct.
\<close>

lemma shutdown_aborts_when_busy:
  "poll_reachable (parallel_vdb mem) s0 s \<Longrightarrow> server_fresh s0 \<Longrightarrow>
   run_server [] (parallel_vdb mem) (pv_server s) = Some (Inr sv) \<Longrightarrow>
   (if \<exists>i < max_cnct (pv_server s). 0 < outstanding s i then destroy_server sv = Inl Assert_failed
    else \<exists>sv'. destroy_server sv = Inr sv')"
proof -
  assume "poll_reachable (parallel_vdb mem) s0 s" "server_fresh s0"
    and run: "run_server [] (parallel_vdb mem) (pv_server s) = Some (Inr sv)"
  then have "poll_inv s" using poll_reachable_inv [OF _ parallel_async.async_vdb_axioms] by blast
  from shutdown_outcome [OF this] run show ?thesis by auto
qed

lemma shutdown_aborts_when_busy_witness:
  "\<exists>s. poll_reachable (parallel_vdb empty_request) one_slot_server s \<and>
     destroy_server (remove_all (max_cnct (pv_server s)) 0 (pv_server s)) = Inl Assert_failed"
proof -
  obtain s req where s: "poll_reachable (parallel_vdb empty_request) one_slot_server s"
    "sv_control (pv_server s) = [req]" "an_nfd req < max_cnct (pv_server s)"
    using one_slot_answered by blast
  then have "0 < outstanding s (an_nfd req)" by (simp add: outstanding_def)
  with shutdown_aborts_when_busy [OF s(1) one_slot_fresh, of "remove_all (max_cnct (pv_server s)) 0 (pv_server s)"]
    s show ?thesis by (intro exI [of _ s]) (auto split: if_splits)
qed

text \<open>
  On an initialised lock-striped database and a key that has a stripe, set changes the
  stored map at that key only and reports 0, and get returns what the map holds.
\<close>

lemma lock_db_set_get:
  "lock_inv db \<Longrightarrow> stripe_ok k \<Longrightarrow> stripe_ok k' \<Longrightarrow>
   \<exists>db'. lock_set all_ok db k v = Inr (db', 0) \<and> lock_inv db' \<and>
     lock_get all_ok db' k' = Inr (if k' = k then v else lock_contents db k')"
  using lockdb.set_then_get [of db k k' _ v] by (simp add: lock_vdb_def)

lemma lock_db_set_get_witness:
  "\<exists>db'. lock_set all_ok (fst (init_lock_db (\<lambda>i. True))) ''a'' (Some ''1'') = Inr (db', 0) \<and>
     lock_get all_ok db' ''a'' = Inr (Some ''1'')"
proof -
  have "lock_inv (fst (init_lock_db (\<lambda>i. True)))" using init_lock_db_correct(2) [of "\<lambda>i. True"] by simp
  moreover have "stripe_ok ''a''"
    by (simp add: stripe_ok_def string_hash_def MAX_HASH_def signed_char_def byte_of_def)
  ultimately show ?thesis using lock_db_set_get [of _ "''a''" "''a''" "Some ''1''"] by fastforce
qed

text \<open>
  The hash of a key lies between 0 and 255, but there are only 255 stripes: every operation
  of the lock-striped and of the parallel database on a key with hash 255, such as ddn, fails
  an assertion.
\<close>

lemma hash_255_has_no_stripe:
  "0 \<le> string_hash s \<and> string_hash s \<le> 255 \<and> string_hash ''ddn'' = 255 \<and>
   lock_get al db ''ddn'' = Inl Assert_failed \<and> lock_set al db ''ddn'' v = Inl Assert_failed \<and>
   get_queue ''ddn'' = Inl Assert_failed"
proof -
  have h: "string_hash ''ddn'' = 255"
    by (simp add: string_hash_def MAX_HASH_def signed_char_def byte_of_def drop_bit_Suc)
  then show ?thesis
    using string_hash_range [of s]
    by (simp add: lock_get_def lock_set_def with_stripe_assert get_queue_def N_SUBS_def)
qed

text \<open>
  How a run ends: with 0 at the first line that reaches the final state, with 1 at a last
  line that is not terminated, and by dereferencing NULL at the end of a file of proper lines that
  never quits.
\<close>

lemma run_outcome:
  assumes "\<forall>l \<in> set ls. script_line l" and "LF \<notin> set rest"
  shows "run als (Some (concat (map (\<lambda>l. l @ [LF]) ls) @ rest)) =
    (case fsm_session als 0 ls init_state of
       Inl e \<Rightarrow> Inl e
     | Inr (s, stop) \<Rightarrow>
         if stop then Inr (s, 0) else if rest = [] then Inl Null_deref else Inr (s, 1))"
  unfolding run_def by (simp add: run_loop_script [OF assms] split: sum.splits bool.splits)

lemma run_outcome_witness:
  "run (\<lambda>_. all_ok) (Some (''USER: bob'' @ [LF])) = Inl Null_deref"
proof -
  have "script_line ''USER: bob''" by (simp add: script_line_def MAXCMDLEN_def)
  moreover have "parse_cmd (''USER: bob'' @ [LF]) = EV_CMD_USER" by code_simp
  ultimately show ?thesis
    using run_outcome [of "[''USER: bob'']" "[]" "\<lambda>_. all_ok"]
      fsm_turn_total [of all_ok "parse_cmd (''USER: bob'' @ [LF])" "''USER: bob'' @ [LF]" init_state]
    by (auto simp: fsm_turn_init init_state_def)
qed

text \<open>
  process_cnct runs one request per call and only after new bytes: a complete request that
  is already in the buffer is not looked at while the client sends nothing more.
\<close>

lemma pipelined_request_stalls:
  "buffer_inv (ct_buf c) \<Longrightarrow> bf_pos (ct_buf c) < bf_size (ct_buf c) \<Longrightarrow>
   buffer_data (ct_buf c) = l @ TELNET_SUFFIX @ rest \<Longrightarrow>
   process_cnct al ops arg c db [] sevs = None \<and>
   process_cnct al ops arg c db [Err EAGAIN] sevs = Some (Inr (0, c, db, [], [], [], sevs))"
  by (simp add: process_cnct_def buffer_space_correct buffer_start_correct safe_recv_def recv_sys_def c_defs)

lemma pipelined_request_stalls_witness:
  "process_cnct all_ok (simple_vdb False) (0::nat)
     (blank_cnct\<lparr>ct_buf := \<lparr>bf_buf = Some (''?a'' @ TELNET_SUFFIX @ ''.''), bf_size = 5, bf_pos = 4\<rparr>\<rparr>)
     empty_simple_db [] [] = None"
  using pipelined_request_stalls [of "blank_cnct\<lparr>ct_buf := \<lparr>bf_buf = Some (''?a'' @ TELNET_SUFFIX @ ''.''),
      bf_size = 5, bf_pos = 4\<rparr>\<rparr>" "''?a''" "[]" all_ok "simple_vdb False" "0::nat" empty_simple_db "[]"]
  by (simp add: buffer_inv_def buffer_data_def TELNET_SUFFIX_def)

text \<open>
  buffer_cut of n bytes in use returns those bytes, NUL-terminated, and leaves the rest in
  the buffer; more bytes than are in use are refused and nothing changes.
\<close>

lemma buffer_cut_splits:
  "buffer_inv b \<Longrightarrow> al 0 \<Longrightarrow>
   (if n \<le> bf_pos b
    then \<exists>b' cut. buffer_cut al b n = (b', Some (cut @ [NUL])) \<and> buffer_inv b' \<and>
      length cut = n \<and> buffer_data b = cut @ buffer_data b'
    else buffer_cut al b n = (b, None))"
  using buffer_cut_correct [of b al n] by auto

lemma buffer_cut_splits_witness:
  "\<exists>b' cut. buffer_cut all_ok \<lparr>bf_buf = Some ''abc'', bf_size = 3, bf_pos = 3\<rparr> 2 = (b', Some (cut @ [NUL])) \<and>
     ''abc'' = cut @ buffer_data b'"
  using buffer_cut_splits [of "\<lparr>bf_buf = Some ''abc'', bf_size = 3, bf_pos = 3\<rparr>" all_ok 2]
  by (auto simp: buffer_inv_def buffer_data_def)

text \<open>
  A pid file with a relative path outlives its service: the daemon has moved to the root
  directory by the time it deletes the file, and deletes the file of that name there, whosever
  it is.
\<close>

lemma relative_pidfile_outlives:
  "e_ppid ev \<noteq> 1 \<Longrightarrow> e_daemon ev = In_child () \<Longrightarrow> e_setsid ev \<Longrightarrow> e_chdir ev \<Longrightarrow> e_open ev = None \<Longrightarrow>
   e_fdopen ev \<Longrightarrow> abs_path (cwd w) pidfile \<noteq> abs_path ''/'' pidfile \<Longrightarrow> file_at w pidfile = None \<Longrightarrow>
   start ev pidfile servicev w = (Returns r, w') \<Longrightarrow>
   files w' (abs_path (cwd w) pidfile) \<noteq> None \<and> (e_unlink ev \<longrightarrow> files w' (abs_path ''/'' pidfile) = None)"
  by (rule relative_pidfile_stays)

lemma relative_pidfile_outlives_witness:
  "\<exists>w'. start (sample_env\<lparr>e_wait := [Ev (Exited 0)]\<rparr>) ''a'' [''srv'']
       (sample_world\<lparr>files := [''/a'' \<mapsto> ''other'']\<rparr>) = (Returns 0, w') \<and>
     files w' ''/home/a'' \<noteq> None \<and> files w' ''/a'' = None"
proof -
  let ?ev = "sample_env\<lparr>e_wait := [Ev (Exited 0)]\<rparr>"
  let ?w = "sample_world\<lparr>files := [''/a'' \<mapsto> ''other'']\<rparr>"
  obtain e w' where s: "start ?ev ''a'' [''srv''] ?w = (e, w')" by (metis prod.exhaust)
  then have "e = Returns 0"
    by (auto simp: start_def sample_env_def sample_world_def open_pidfile_def daemonize_def set_sighandler_def
        close_pidfile_def fork_service_def fail_start_def abs_path_def Let_def split: if_splits)
  with s relative_pidfile_outlives [of ?ev ?w "''a''" "[''srv'']" 0 w']
  show ?thesis by (simp add: sample_env_def sample_world_def abs_path_def file_at_def)
qed

text \<open>
  The syslog plugin mixes up its two levels: given two valid levels, the one meant for
  standard output becomes the level of standard error, the other one is dropped, and standard
  output keeps the level it had.
\<close>

lemma syslog_levels_mixed_up:
  "find_level levels o_nm = Some lo \<Longrightarrow> find_level levels e_nm = Some le \<Longrightarrow> CHR '','' \<notin> set o_nm \<Longrightarrow>
   syslog_start (Some (o_nm @ CHR '','' # e_nm)) fks pl k = Some (Inr (ret, pl', k', calls)) \<Longrightarrow>
   log_stderr (pl_more pl') = lo \<and> log_stdout (pl_more pl') = log_stdout (pl_more pl)"
  by (rule syslog_levels_confused)

lemma syslog_levels_mixed_up_witness:
  "\<exists>ret pl' k' calls. syslog_start (Some ''debug,alert'') [Fork_failed] (sample_syslog syslog_initial) (sample_proc [] []) =
     Some (Inr (ret, pl', k', calls)) \<and> log_stderr (pl_more pl') = 7 \<and> log_stdout (pl_more pl') = 5"
proof -
  obtain ret pl' k' calls where
    s: "syslog_start (Some ''debug,alert'') [Fork_failed] (sample_syslog syslog_initial) (sample_proc [] []) =
      Some (Inr (ret, pl', k', calls))"
    using sample_syslog_starts by blast
  with syslog_levels_mixed_up [of "''debug''" 7 "''alert''" 1] show ?thesis
    by (simp add: levels_def sample_syslog_def syslog_initial_def LOG_NOTICE_def)
qed

text \<open>
  The target of a transition that is declared again for the same event stays among the next
  states: the new target is what the event does, the old one still counts as reached and is drawn.
\<close>

lemma replaced_target_stays:
  assumes "cfsm_ok c" and "current_state c = Some s" and "nul_free (On_event e t)" and "nul_free (On_event e u)"
    and "directives al [On_event e t, On_event e u] c = Inr c'"
  shows "m_part (machine_of c') s ''events'' e = Some (To u) \<and>
    m_part (machine_of c') s ''next_states'' t = Some Listed \<and> m_part (machine_of c') s ''next_states'' u = Some Listed"
proof -
  from directives_refine [OF assms(5,1)] assms(3,4)
  have "map_option m_part (mrun [On_event e t, On_event e u] (machine_of c)) = Some (m_part (machine_of c'))"
    by simp
  moreover have "m_state (machine_of c) = Some s" using assms(2) by (simp add: machine_of_def)
  ultimately have "m_part (machine_of c') = put s ''next_states'' u Listed (put s ''events'' e (To u)
      (put s ''next_states'' t Listed (put s ''events'' e (To t) (m_part (machine_of c)))))"
    by (simp add: mstep_def)
  then show ?thesis by (simp add: put_def)
qed

lemma replaced_target_stays_witness:
  "\<exists>c c'. current_state c = Some ''A'' \<and>
     directives all_ok [On_event ''go'' ''B'', On_event ''go'' ''A''] c = Inr c' \<and>
     m_part (machine_of c') ''A'' ''events'' ''go'' = Some (To ''A'') \<and>
     m_part (machine_of c') ''A'' ''next_states'' ''B'' = Some Listed"
proof -
  let ?one = "[State_decl ''A'']" and ?two = "[On_event ''go'' ''B'', On_event ''go'' ''A'']"
  have st: "\<forall>d \<in> set ?one. storable d" "\<forall>d \<in> set ?two. storable d"
    by (simp_all add: storable_def nul_free_def short_def MSTRING_MAX_def)
  obtain c0 where c0: "setup_initial_namespace all_ok None = Inr c0" using setup_succeeds [of None] by auto
  note k0 = setup_ok [OF c0]
  obtain M where M: "mrun ?one no_machine = Some M" "m_state M = Some ''A''" "length (m_states M) = 1"
    "m_events M = []" "m_initial M = []" by (simp add: mstep_def no_machine_def)
  with directives_complete [of c0 ?one M] k0 st(1) obtain c where c: "cfsm_ok c" "machine_of c = M"
    by (auto simp: room_def no_machine_def short_states_def MARRAY_MAX_def)
  have "\<exists>N. mrun ?two M = Some N" using M(2) by (simp add: mstep_def)
  with directives_complete [of c ?two] c M st(2) obtain c' where c': "directives all_ok ?two c = Inr c'"
    by (auto simp: room_def short_states_def short_def MARRAY_MAX_def MSTRING_MAX_def simp del: mrun.simps directives.simps)
  have s: "current_state c = Some ''A''" using M(2) unfolding c(2) [symmetric] by (simp add: machine_of_def)
  from replaced_target_stays [OF c(1) s _ _ c'] st(2) s c' show ?thesis by (auto simp: storable_def)
qed

text \<open>
  The process that polls several inputs delivers, for every one of them, exactly the
  complete lines of what it has read from it, in order, and keeps the rest in that input's
  buffer, whatever the interleaving; it ends when all inputs have hung up.
\<close>

lemma polled_inputs_delivered:
  "\<forall>(ok, evs) \<in> set fds. ok \<and> clean_input n [] evs \<Longrightarrow>
   \<exists>r ms out.
     poll_inputs all_ok n fds (polls @ [Ev (\<lambda>_. \<lparr>ev_in = b, ev_hup = True\<rparr>)]) = Some (Inr (r, ms, out)) \<and>
     length out = length fds \<and>
     (\<forall>j < length fds. pending (snd (fds ! j)) = concat (lines_of j ms) @ held (out ! j) \<and>
        (\<forall>m \<in> set (lines_of j ms). is_line m))"
  by (rule poll_inputs_delivers)

lemma polled_inputs_delivered_witness:
  "\<exists>r ms out.
     poll_inputs all_ok 9 [(True, [Ev ''ab'', Err EAGAIN, Ev [LF]]), (True, [Ev ''c''])]
       ([Ev (\<lambda>i. \<lparr>ev_in = (i = 0), ev_hup = False\<rparr>)] @ [Ev (\<lambda>_. \<lparr>ev_in = True, ev_hup = True\<rparr>)]) =
       Some (Inr (r, ms, out)) \<and>
     length out = 2 \<and> ''ab'' @ [LF] = concat (lines_of 0 ms) @ held (out ! 0) \<and>
     ''c'' = concat (lines_of 1 ms) @ held (out ! 1)"
  using polled_inputs_delivered [of "[(True, [Ev ''ab'', Err EAGAIN, Ev [LF]]), (True, [Ev ''c''])]" 9
      "[Ev (\<lambda>i. \<lparr>ev_in = (i = 0), ev_hup = False\<rparr>)]" True]
  by (auto simp: clean_input_def nth_Cons split: nat.splits)

text \<open>
  With \<open>-d\<close> and an output path that does not end in \<open>.c\<close>, source and header are written to the
  same file: a run that ends well leaves exactly one file, with the rendering of the header.
\<close>

lemma header_replaces_source:
  assumes "cfsm_main al env parse dir args nargs input = Inr (Inr w)"
    and "parse_opts args (default_opts dir) = Inr opts" and "output_src opts" and "output_header opts"
    and "out_arg opts = Some p" and "\<not> ends_in_c p"
  shows "\<exists>c t al'. w = [p \<mapsto> t] \<and>
    render_template al' env (fsm_namespace c) (template_dir opts) ''header.m'' p Map.empty = Inr [p \<mapsto> t]"
  by (rule main_header_wins [OF assms])

lemma header_replaces_source_witness:
  "\<exists>w t. cfsm_main all_ok x_env yyparse ''t'' [(CHR ''d'', []), (CHR ''o'', ''fsm'')] 1 (Some two_text) =
    Inr (Inr w) \<and> w = [''fsm'' \<mapsto> t]"
proof -
  obtain w where w: "cfsm_main all_ok x_env yyparse ''t'' [(CHR ''d'', []), (CHR ''o'', ''fsm'')] 1
      (Some two_text) = Inr (Inr w)" using x_env_main by blast
  let ?opts = "\<lparr>output_src = True, output_header = True, output_dot = False, manual_arg = None,
    out_arg = Some ''fsm'', template_dir = ''t''\<rparr>"
  from header_replaces_source [OF w, of ?opts "''fsm''"] w show ?thesis
    by (auto simp: default_opts_def ends_in_c_def)
qed

text \<open>
  A template without loops writes what it means: its texts, the text of the values it names,
  and the branches that the conditions select, behind what the stream already holds.
\<close>

lemma template_writes_meaning:
  assumes "template_ok nodes" and "expand pr ns nodes = Some e"
  shows "\<exists>tmpl. mtemplate_parse all_ok (print_nodes nodes) = Inr (Inr tmpl) \<and>
    mtemplate_run_stdio all_ok pr tmpl (Some ns) (out, []) = Inr ((out @ e, []), None)"
  by (rule template_output [OF assms])

lemma template_writes_meaning_witness:
  "\<exists>tmpl. mtemplate_parse all_ok (''n='' @ directive ''a'') = Inr (Inr tmpl) \<and>
     mtemplate_run_stdio all_ok (\<lambda>_. []) tmpl (Some (MDict [(''a'', MString ''7'')] 1)) ([], []) =
       Inr ((''n=7'', []), None)"
proof -
  let ?ns = "[TNode NODE_TEXT (Some ''n='') 0 No_var [] [], TNode NODE_DIRECTIVE_SUBST (Some ''a'') 0 No_var [] []]"
  have "template_ok ?ns"
    by (auto simp: plain_def less_Suc_eq_0_disj nth_Cons' name_def no_keyword_def SUBST_OK_def node_info_def)
  moreover have "expand (\<lambda>_. []) (MDict [(''a'', MString ''7'')] 1) ?ns = Some ''n=7''"
    by (simp add: look_entry)
  ultimately show ?thesis
    using template_writes_meaning [of ?ns "\<lambda>_. []" "MDict [(''a'', MString ''7'')] 1" "''n=7''" "[]"]
    by simp
qed

end
